(* ===== verification/Prelude.thy ===== *)
theory Prelude
  imports Main "HOL-Library.Word"
begin

text \<open>
  Shared vocabulary of the development: bytes, the Python exceptions the code raises, the
  state-and-exception shape of every stateful operation, and the generic lemmas on lists and
  integers that the component theories use.
\<close>

type_synonym byte = "8 word"
type_synonym bytes = "byte list"

text \<open>
  The exceptions that the modelled code raises or that the library functions it calls raise.
  The text of a message is kept where the source distinguishes causes by it.
\<close>

datatype py_error =
    CorruptRecord string
  | StructError
  | IndexError
  | KeyError
  | ValueError string
  | UnicodeDecodeError
  | UnicodeEncodeError
  | TypeError
  | ZeroDivisionError
  | OverflowError
  | AttributeError
  | TimeoutError
  | AssertionError
  | StopIteration
  | OSError
  | Disconnected

type_synonym 'a result = "py_error + 'a"

text \<open>
  A method that changes its object returns the outcome and the object: an exception does
  not undo the assignments made before it was raised, so the object is returned in both cases.
\<close>

type_synonym ('s, 'a) outcome = "'a result \<times> 's"

text \<open>Indexing a Python list: a negative index counts from the end.\<close>

definition py_index :: "'a list \<Rightarrow> int \<Rightarrow> 'a result" where
  "py_index xs i =
     (if 0 \<le> i \<and> i < int (length xs) then Inr (xs ! nat i)
      else if - int (length xs) \<le> i \<and> i < 0 then Inr (xs ! nat (i + int (length xs)))
      else Inl IndexError)"

named_theorems codec_simps \<open>lengths and round trips of the fixed-width byte fields\<close>
named_theorems rep_simps \<open>effect of an operation on the canonical state\<close>

lemma int_length_append: "int (length (xs @ ys)) = int (length xs) + int (length ys)"
  by simp

lemma take_append_exact: "n = length xs \<Longrightarrow> take n (xs @ ys) = xs"
  by simp

lemma drop_append_exact: "n = length xs \<Longrightarrow> drop n (xs @ ys) = ys"
  by simp

end
