(* ===== verification/Codec.thy ===== *)
theory Codec
  imports Prelude
begin

unbundle bit_operations_syntax

text \<open>
  The parts of Python's standard library that the log formats rest on: the integer fields
  of \<^verbatim>\<open>struct\<close> (little and big endian, unsigned and two's complement) and \<^verbatim>\<open>zlib.crc32\<close>.
\<close>

section \<open>Integer fields of the struct module\<close>

text \<open>
  \<open>le_bytes n v\<close> are the \<open>n\<close> low-order bytes of \<open>v\<close>, least significant first; for a
  negative \<open>v\<close> the floor division makes it the two's complement representation.
\<close>

fun le_bytes :: "nat \<Rightarrow> int \<Rightarrow> bytes" where
  "le_bytes 0 v = []"
| "le_bytes (Suc n) v = word_of_int v # le_bytes n (v div 256)"

fun le_uint :: "bytes \<Rightarrow> int" where
  "le_uint [] = 0"
| "le_uint (b # bs) = uint b + 256 * le_uint bs"

definition le_sint :: "bytes \<Rightarrow> int" where
  "le_sint bs = (let u = le_uint bs; m = 2 ^ (8 * length bs)
     in if 2 * u < m then u else u - m)"

definition be_bytes :: "nat \<Rightarrow> int \<Rightarrow> bytes" where
  "be_bytes n v = rev (le_bytes n v)"

definition be_uint :: "bytes \<Rightarrow> int" where
  "be_uint bs = le_uint (rev bs)"

text \<open>The range checks of \<^verbatim>\<open>struct.pack\<close>: outside them it raises \<^verbatim>\<open>struct.error\<close>.\<close>

definition fits_unsigned :: "nat \<Rightarrow> int \<Rightarrow> bool" where
  "fits_unsigned n v \<longleftrightarrow> 0 \<le> v \<and> v < 2 ^ (8 * n)"

definition fits_signed :: "nat \<Rightarrow> int \<Rightarrow> bool" where
  "fits_signed n v \<longleftrightarrow> - (2 ^ (8 * n - 1)) \<le> v \<and> v < 2 ^ (8 * n - 1)"

lemma length_le_bytes [simp, codec_simps]: "length (le_bytes n v) = n"
  by (induction n arbitrary: v) auto

lemma length_be_bytes [simp, codec_simps]: "length (be_bytes n v) = n"
  by (simp add: be_bytes_def)

lemma le_uint_le_bytes: "le_uint (le_bytes n v) = v mod 2 ^ (8 * n)"
proof (induction n arbitrary: v)
  case (Suc n)
  have "v mod (256 * 2 ^ (8 * n)) = 256 * (v div 256 mod 2 ^ (8 * n)) + v mod 256"
    by (rule zmod_zmult2_eq) simp
  with Suc show ?case
    by (simp add: uint_word_of_int power_add)
qed simp

lemma le_uint_round_trip [codec_simps]: "fits_unsigned n v \<Longrightarrow> le_uint (le_bytes n v) = v"
  by (simp add: le_uint_le_bytes fits_unsigned_def)

lemma le_sint_round_trip [codec_simps]:
  assumes "fits_signed n v" "0 < n"
  shows "le_sint (le_bytes n v) = v"
proof -
  from \<open>0 < n\<close> have two: "(2::int) ^ (8 * n) = 2 * 2 ^ (8 * n - 1)"
    by (subst power_Suc [symmetric]) simp
  show ?thesis
  proof (cases "0 \<le> v")
    case True
    with assms two show ?thesis
      by (simp add: le_sint_def le_uint_le_bytes fits_signed_def Let_def)
  next
    case False
    with assms two have "v mod 2 ^ (8 * n) = v + 2 ^ (8 * n)"
      by (subst mod_add_self2 [symmetric], subst mod_pos_pos_trivial) (auto simp: fits_signed_def)
    with False assms two show ?thesis
      by (simp add: le_sint_def le_uint_le_bytes fits_signed_def Let_def)
  qed
qed

lemma le_uint_nonneg: "0 \<le> le_uint bs"
  by (induction bs) auto

lemma le_uint_bound: "le_uint bs < 2 ^ (8 * length bs)"
proof (induction bs)
  case (Cons b bs)
  have "uint b < 256"
    using uint_bounded [of b] by simp
  with Cons show ?case by (simp add: power_add)
qed simp

lemma be_uint_round_trip [codec_simps]: "fits_unsigned n v \<Longrightarrow> be_uint (be_bytes n v) = v"
  by (simp add: be_uint_def be_bytes_def le_uint_round_trip)

lemma le_bytes_le_uint: "le_bytes (length bs) (le_uint bs) = bs"
proof (induction bs)
  case (Cons b bs)
  have "uint b < 256"
    using uint_bounded [of b] by simp
  then have "(uint b + 256 * le_uint bs) div 256 = le_uint bs"
    by simp
  moreover have "word_of_int (uint b + 256 * le_uint bs) = b"
    using \<open>uint b < 256\<close> by (intro word_uint_eqI) (simp add: uint_word_of_int del: of_int_add)
  ultimately show ?case
    using Cons by simp
qed simp

lemma le_bytes_shift: "le_bytes n (v + k * 2 ^ (8 * n)) = le_bytes n v"
proof (induction n arbitrary: v)
  case (Suc n)
  have split: "v + k * 2 ^ (8 * Suc n) = v + (k * 2 ^ (8 * n)) * 256"
    by (simp add: power_add)
  have "(word_of_int (v + (k * 2 ^ (8 * n)) * 256) :: byte) = word_of_int v"
    by (rule word_uint_eqI) (simp add: uint_word_of_int del: of_int_add of_int_mult)
  moreover have "(v + (k * 2 ^ (8 * n)) * 256) div 256 = v div 256 + k * 2 ^ (8 * n)"
    by (simp add: algebra_simps)
  ultimately show ?case
    unfolding split by (simp only: le_bytes.simps Suc.IH)
qed simp

lemma le_bytes_le_sint: "le_bytes (length bs) (le_sint bs) = bs"
  using le_bytes_shift [of "length bs" "le_uint bs" "- 1"]
  by (simp add: le_sint_def Let_def le_bytes_le_uint)

lemma fits_unsigned_le_uint: "fits_unsigned (length bs) (le_uint bs)"
  by (simp add: fits_unsigned_def le_uint_nonneg le_uint_bound)

lemma fits_signed_le_sint: "bs \<noteq> [] \<Longrightarrow> fits_signed (length bs) (le_sint bs)"
proof -
  assume "bs \<noteq> []"
  then have "(2::int) ^ (8 * length bs) = 2 * 2 ^ (8 * length bs - 1)"
    by (subst power_Suc [symmetric]) simp
  then show ?thesis
    using le_uint_nonneg [of bs] le_uint_bound [of bs]
    by (auto simp: le_sint_def fits_signed_def Let_def)
qed

section \<open>The checksum zlib.crc32\<close>

text \<open>
  The reflected CRC-32 of IEEE 802.3 with polynomial \<open>0xEDB88320\<close>: every byte is folded into
  the low-order bits and eight shift steps follow; the register starts as and ends
  complemented with all ones.
\<close>

definition crc_shift :: "32 word \<Rightarrow> 32 word" where
  "crc_shift c = (if bit c 0 then drop_bit 1 c XOR 0xEDB88320 else drop_bit 1 c)"

definition crc_byte :: "32 word \<Rightarrow> byte \<Rightarrow> 32 word" where
  "crc_byte c b = (crc_shift ^^ 8) (c XOR ucast b)"

definition crc32 :: "bytes \<Rightarrow> 32 word" where
  "crc32 bs = NOT (foldl crc_byte 0xFFFFFFFF bs)"

lemma crc_byte_unfold:
  "crc_byte c b = crc_shift (crc_shift (crc_shift (crc_shift
     (crc_shift (crc_shift (crc_shift (crc_shift (c XOR ucast b))))))))"
  by (simp add: crc_byte_def numeral_eq_Suc)

lemmas crc32_eval = crc32_def crc_byte_unfold crc_shift_def

text \<open>The check value that the CRC catalogue gives for the ASCII digits 1 to 9.\<close>

lemma crc32_check_value:
  "crc32 [0x31, 0x32, 0x33, 0x34, 0x35, 0x36, 0x37, 0x38, 0x39] = 0xCBF43926"
  by (simp add: crc32_eval)

lemma fits_crc32 [simp]: "fits_unsigned 4 (uint (crc32 bs))"
  using uint_bounded [of "crc32 bs"] by (simp add: fits_unsigned_def)

end
