(* ===== verification/Record_Format.thy ===== *)
theory Record_Format
  imports Codec
begin

text \<open>
  The on-disk record format of \<^verbatim>\<open>pylog/log.py\<close>: \<^verbatim>\<open>encode_record\<close> and \<^verbatim>\<open>read_record\<close>. A file
  handle is the list of bytes from its current position to the end of the file, so that
  \<^verbatim>\<open>f.read(n)\<close> yields \<open>take n\<close> and leaves \<open>drop n\<close>. The lemmas show that exactly the
  encodings of well-formed records are accepted, that a record followed by anything reads
  back as itself, and that every proper prefix of an encoding is refused.
\<close>

section \<open>Constants and the record type\<close>

definition MAGIC :: bytes where
  "MAGIC = [0x50, 0x4C, 0x47, 0x31]"

definition MAX_RECORD_BYTES :: int where
  "MAX_RECORD_BYTES = 64 * 1024 * 1024"

definition HEADER_SIZE :: nat where
  "HEADER_SIZE = 28"

record log_record =
  rec_offset :: int
  rec_timestamp :: int
  rec_payload :: bytes

section \<open>Encoding\<close>

text \<open>The layout \<^verbatim>\<open><4sIQqI\<close>: magic, payload length, offset, timestamp, checksum.\<close>

definition pack_header :: "int \<Rightarrow> int \<Rightarrow> int \<Rightarrow> int \<Rightarrow> bytes result" where
  "pack_header len off ts crc =
     (if fits_unsigned 4 len \<and> fits_unsigned 8 off \<and> fits_signed 8 ts \<and> fits_unsigned 4 crc
      then Inr (MAGIC @ le_bytes 4 len @ le_bytes 8 off @ le_bytes 8 ts @ le_bytes 4 crc)
      else Inl StructError)"

definition encode_record :: "int \<Rightarrow> bytes \<Rightarrow> int \<Rightarrow> bytes result" where
  "encode_record off pl ts =
     (case pack_header (int (length pl)) off ts (uint (crc32 pl)) of
        Inl e \<Rightarrow> Inl e
      | Inr hdr \<Rightarrow> Inr (hdr @ pl))"

section \<open>Decoding\<close>

definition read_record :: "bytes \<Rightarrow> (log_record option \<times> bytes) result" where
  "read_record f =
     (let header = take HEADER_SIZE f; f1 = drop HEADER_SIZE f in
      if header = [] then Inr (None, f1)
      else if length header < HEADER_SIZE then Inl (CorruptRecord ''truncated record header'')
      else
        let magic = take 4 header;
            len = le_uint (take 4 (drop 4 header));
            off = le_uint (take 8 (drop 8 header));
            ts = le_sint (take 8 (drop 16 header));
            crc = le_uint (take 4 (drop 24 header))
        in if magic \<noteq> MAGIC then Inl (CorruptRecord ''bad magic'')
           else if len > MAX_RECORD_BYTES then Inl (CorruptRecord ''implausible payload length'')
           else
             let pl = take (nat len) f1; f2 = drop (nat len) f1 in
             if int (length pl) < len then Inl (CorruptRecord ''truncated payload'')
             else if uint (crc32 pl) \<noteq> crc then Inl (CorruptRecord ''crc mismatch'')
             else Inr (Some \<lparr>rec_offset = off, rec_timestamp = ts, rec_payload = pl\<rparr>, f2))"

section \<open>Well-formed records and their encoding\<close>

definition valid_record :: "log_record \<Rightarrow> bool" where
  "valid_record r \<longleftrightarrow> int (length (rec_payload r)) \<le> MAX_RECORD_BYTES
     \<and> fits_unsigned 8 (rec_offset r) \<and> fits_signed 8 (rec_timestamp r)"

definition record_bytes :: "log_record \<Rightarrow> bytes" where
  "record_bytes r =
     MAGIC @ le_bytes 4 (int (length (rec_payload r))) @ le_bytes 8 (rec_offset r)
       @ le_bytes 8 (rec_timestamp r) @ le_bytes 4 (uint (crc32 (rec_payload r)))
       @ rec_payload r"

lemma length_MAGIC [simp]: "length MAGIC = 4"
  by (simp add: MAGIC_def)

lemma length_record_bytes: "length (record_bytes r) = HEADER_SIZE + length (rec_payload r)"
  by (simp add: record_bytes_def HEADER_SIZE_def)

lemma record_bytes_nonempty [simp]: "record_bytes r \<noteq> []"
  by (simp add: record_bytes_def MAGIC_def)

lemma fits_length: "int n \<le> MAX_RECORD_BYTES \<Longrightarrow> fits_unsigned 4 (int n)"
  by (simp add: fits_unsigned_def MAX_RECORD_BYTES_def)

lemma encode_record_eq:
  "encode_record (rec_offset r) (rec_payload r) (rec_timestamp r) =
     (if fits_unsigned 4 (int (length (rec_payload r))) \<and> fits_unsigned 8 (rec_offset r)
         \<and> fits_signed 8 (rec_timestamp r)
      then Inr (record_bytes r) else Inl StructError)"
  by (simp add: encode_record_def pack_header_def record_bytes_def)

lemma encode_valid:
  "valid_record r \<Longrightarrow>
     encode_record (rec_offset r) (rec_payload r) (rec_timestamp r) = Inr (record_bytes r)"
  by (simp add: encode_record_eq valid_record_def fits_length)

section \<open>Round trip and rejection\<close>

lemma header_fields:
  assumes "length m = 4" "length a = 4" "length b = 8" "length c = 8" "length d = 4"
  shows "take HEADER_SIZE (m @ a @ b @ c @ d @ rest) = m @ a @ b @ c @ d"
    and "drop HEADER_SIZE (m @ a @ b @ c @ d @ rest) = rest"
    and "take 4 (m @ a @ b @ c @ d) = m"
    and "take 4 (drop 4 (m @ a @ b @ c @ d)) = a"
    and "take 8 (drop 8 (m @ a @ b @ c @ d)) = b"
    and "take 8 (drop 16 (m @ a @ b @ c @ d)) = c"
    and "take 4 (drop 24 (m @ a @ b @ c @ d)) = d"
  using assms by (simp_all add: HEADER_SIZE_def)

lemma read_record_fields:
  assumes "length m = 4" "length a = 4" "length b = 8" "length c = 8" "length d = 4"
  shows "read_record (m @ a @ b @ c @ d @ f1) =
    (if m \<noteq> MAGIC then Inl (CorruptRecord ''bad magic'')
     else if le_uint a > MAX_RECORD_BYTES then Inl (CorruptRecord ''implausible payload length'')
     else if int (length (take (nat (le_uint a)) f1)) < le_uint a
       then Inl (CorruptRecord ''truncated payload'')
     else if uint (crc32 (take (nat (le_uint a)) f1)) \<noteq> le_uint d
       then Inl (CorruptRecord ''crc mismatch'')
     else Inr (Some \<lparr>rec_offset = le_uint b, rec_timestamp = le_sint c,
            rec_payload = take (nat (le_uint a)) f1\<rparr>, drop (nat (le_uint a)) f1))"
proof -
  have "m @ a @ b @ c @ d \<noteq> []" "\<not> length (m @ a @ b @ c @ d) < HEADER_SIZE"
    using assms by (auto simp: HEADER_SIZE_def)
  then show ?thesis
    unfolding read_record_def Let_def header_fields [OF assms] by (simp only: if_False refl)
qed

lemma read_record_encoded:
  assumes "valid_record r"
  shows "read_record (record_bytes r @ rest) = Inr (Some r, rest)"
proof -
  have fits: "fits_unsigned 4 (int (length (rec_payload r)))" "fits_unsigned 8 (rec_offset r)"
    "fits_signed 8 (rec_timestamp r)" "int (length (rec_payload r)) \<le> MAX_RECORD_BYTES"
    using assms by (auto simp: valid_record_def fits_length)
  then show ?thesis
    unfolding record_bytes_def append_assoc
    by (simp add: read_record_fields codec_simps)
qed

lemma read_record_Nil [simp]: "read_record [] = Inr (None, [])"
  by (simp add: read_record_def)

lemma read_record_None: "read_record f = Inr (None, rest) \<Longrightarrow> f = []"
  by (auto simp: read_record_def Let_def HEADER_SIZE_def split: if_splits)

lemma read_record_error: "read_record f = Inl e \<Longrightarrow> \<exists>why. e = CorruptRecord why"
  unfolding read_record_def Let_def
  by (auto simp only: sum.distinct sum.inject split: if_split_asm)

text \<open>What is accepted is exactly the encoding of the record returned.\<close>

lemma read_record_sound:
  assumes "read_record f = Inr (Some r, rest)"
  shows "valid_record r \<and> f = record_bytes r @ rest"
proof -
  define h where "h = take HEADER_SIZE f"
  define f1 where "f1 = drop HEADER_SIZE f"
  define a where "a = take 4 (drop 4 h)"
  define b where "b = take 8 (drop 8 h)"
  define c where "c = take 8 (drop 16 h)"
  define d where "d = take 4 (drop 24 h)"
  have guards: "length h = HEADER_SIZE" "take 4 h = MAGIC" "le_uint a \<le> MAX_RECORD_BYTES"
      "le_uint a \<le> int (length (take (nat (le_uint a)) f1))"
      "uint (crc32 (take (nat (le_uint a)) f1)) = le_uint d"
    and r: "r = \<lparr>rec_offset = le_uint b, rec_timestamp = le_sint c,
      rec_payload = take (nat (le_uint a)) f1\<rparr>" and rest: "rest = drop (nat (le_uint a)) f1"
    using assms unfolding read_record_def h_def f1_def a_def b_def c_def d_def Let_def
    by (auto split: if_splits simp: min_def)
  have lens: "length a = 4" "length b = 8" "length c = 8" "length d = 4"
    using guards(1) by (simp_all add: a_def b_def c_def d_def HEADER_SIZE_def)
  have "drop 4 h = a @ drop 8 h" "drop 8 h = b @ drop 16 h" "drop 16 h = c @ drop 24 h"
    using append_take_drop_id [of 4 "drop 4 h"] append_take_drop_id [of 8 "drop 8 h"]
      append_take_drop_id [of 8 "drop 16 h"] by (simp_all add: a_def b_def c_def)
  moreover have "drop 24 h = d"
    using guards(1) by (simp add: d_def HEADER_SIZE_def)
  ultimately have h: "h = MAGIC @ a @ b @ c @ d"
    using guards(2) append_take_drop_id [of 4 h] by simp
  have len: "int (length (rec_payload r)) = le_uint a"
    using guards(4) le_uint_nonneg [of a] by (simp add: r)
  have fields: "le_bytes 4 (le_uint a) = a" "le_bytes 8 (le_uint b) = b"
    "le_bytes 8 (le_sint c) = c" "le_bytes 4 (le_uint d) = d"
    using le_bytes_le_uint [of a] le_bytes_le_uint [of b] le_bytes_le_sint [of c]
      le_bytes_le_uint [of d] lens by simp_all
  have "record_bytes r @ rest = h @ f1"
    unfolding record_bytes_def len using guards(5) by (simp add: r rest h fields)
  moreover have "valid_record r"
    using guards(3) len fits_unsigned_le_uint [of b] fits_signed_le_sint [of c] lens
    by (fastforce simp: valid_record_def r)
  ultimately show ?thesis
    by (simp add: h_def f1_def)
qed

lemma read_record_shorter:
  "read_record f = Inr (Some r, rest) \<Longrightarrow> length rest + HEADER_SIZE \<le> length f"
  by (drule read_record_sound) (simp add: length_record_bytes)

text \<open>A proper, non-empty prefix of an encoded record never reads as a record.\<close>

lemma read_record_prefix:
  assumes "valid_record r" "0 < n" "n < length (record_bytes r)"
  shows "\<exists>why. read_record (take n (record_bytes r)) = Inl (CorruptRecord why)"
proof (cases "read_record (take n (record_bytes r))")
  case (Inl e)
  then show ?thesis
    by (auto dest: read_record_error)
next
  case (Inr x)
  obtain ro rest where x: "x = (ro, rest)"
    by (cases x)
  have False
  proof (cases ro)
    case None
    with Inr x have "take n (record_bytes r) = []"
      using read_record_None by blast
    with assms show False by auto
  next
    case (Some r')
    with Inr x have sound: "valid_record r'" "take n (record_bytes r) = record_bytes r' @ rest"
      using read_record_sound by blast+
    then have "record_bytes r = record_bytes r' @ (rest @ drop n (record_bytes r))"
      by (metis append.assoc append_take_drop_id)
    then have "read_record (record_bytes r) = Inr (Some r', rest @ drop n (record_bytes r))"
      using read_record_encoded [OF sound(1)] by metis
    moreover have "read_record (record_bytes r) = Inr (Some r, [])"
      using read_record_encoded [OF assms(1), of "[]"] by simp
    ultimately show False
      using assms(3) by simp
  qed
  then show ?thesis ..
qed

section \<open>A file as a sequence of records\<close>

text \<open>
  \<open>parse_records\<close> reads records until the end of the file or the first failure and returns
  them with the bytes that were not consumed: the reference against which the scanning
  loops of the segment are compared.
\<close>

function parse_records :: "bytes \<Rightarrow> log_record list \<times> bytes" where
  "parse_records f =
     (case read_record f of
        Inr (Some r, rest) \<Rightarrow> (let (rs, t) = parse_records rest in (r # rs, t))
      | _ \<Rightarrow> ([], f))"
  by pat_completeness auto
termination
  by (relation "measure length") (auto dest!: read_record_shorter simp: HEADER_SIZE_def)

declare parse_records.simps [simp del]

definition file_bytes :: "log_record list \<Rightarrow> bytes" where
  "file_bytes rs = concat (map record_bytes rs)"

definition no_record :: "bytes \<Rightarrow> bool" where
  "no_record f \<longleftrightarrow> fst (parse_records f) = []"

lemma file_bytes_simps [simp]:
  "file_bytes [] = []"
  "file_bytes (r # rs) = record_bytes r @ file_bytes rs"
  "file_bytes (rs @ ss) = file_bytes rs @ file_bytes ss"
  by (simp_all add: file_bytes_def)

lemma parse_records_Nil [simp]: "parse_records [] = ([], [])"
  by (simp add: parse_records.simps)

lemma parse_records_Cons:
  "read_record f = Inr (Some r, rest) \<Longrightarrow>
     parse_records f = (r # fst (parse_records rest), snd (parse_records rest))"
  by (subst parse_records.simps) (simp add: case_prod_beta)

lemma no_record_iff: "no_record f \<longleftrightarrow> \<not> (\<exists>r rest. read_record f = Inr (Some r, rest))"
  unfolding no_record_def
  by (subst parse_records.simps) (auto split: sum.splits option.splits prod.splits)

lemma no_record_parse: "no_record f \<Longrightarrow> parse_records f = ([], f)"
  unfolding no_record_iff
  by (subst parse_records.simps) (auto split: sum.splits option.splits prod.splits)

lemma no_record_Nil [simp]: "no_record []"
  by (simp add: no_record_def)

lemma parse_records_file:
  "\<forall>r \<in> set rs. valid_record r \<Longrightarrow> no_record tail \<Longrightarrow>
     parse_records (file_bytes rs @ tail) = (rs, tail)"
proof (induction rs)
  case (Cons r rs)
  then have "read_record (file_bytes (r # rs) @ tail) = Inr (Some r, file_bytes rs @ tail)"
    by (simp add: read_record_encoded)
  with Cons show ?case
    by (simp add: parse_records_Cons)
qed (simp add: no_record_parse)

lemma parse_records_sound:
  "parse_records f = (rs, tail) \<Longrightarrow>
     f = file_bytes rs @ tail \<and> (\<forall>r \<in> set rs. valid_record r) \<and> no_record tail"
proof (induction f arbitrary: rs rule: parse_records.induct)
  case (1 f)
  show ?case
  proof (cases "no_record f")
    case True
    with 1 show ?thesis by (simp add: no_record_parse)
  next
    case False
    then obtain r rest where step: "read_record f = Inr (Some r, rest)"
      by (auto simp: no_record_iff)
    then have rs: "rs = r # fst (parse_records rest)" "tail = snd (parse_records rest)"
      using "1.prems" by (simp_all add: parse_records_Cons)
    have "rest = file_bytes (fst (parse_records rest)) @ tail
        \<and> (\<forall>r \<in> set (fst (parse_records rest)). valid_record r) \<and> no_record tail"
      using "1.IH" [OF step refl refl, of "fst (parse_records rest)"] rs by simp
    with read_record_sound [OF step] rs show ?thesis by auto
  qed
qed

text \<open>
  A file cut at an arbitrary byte: what is left is the records that end before the cut,
  followed by a tail that is not a record.
\<close>

definition whole_records :: "nat \<Rightarrow> log_record list \<Rightarrow> log_record list" where
  "whole_records n rs = fst (parse_records (take n (file_bytes rs)))"

lemma cut_file:
  "\<forall>r \<in> set rs. valid_record r \<Longrightarrow>
     \<exists>k tail. k \<le> length rs \<and> take n (file_bytes rs) = file_bytes (take k rs) @ tail \<and> no_record tail
       \<and> (\<forall>j \<le> length rs. length (file_bytes (take j rs)) \<le> n \<longrightarrow> j \<le> k)"
proof (induction rs arbitrary: n)
  case (Cons r rs)
  show ?case
  proof (cases "length (record_bytes r) \<le> n")
    case True
    obtain k tail where IH: "k \<le> length rs" "no_record tail"
      "take (n - length (record_bytes r)) (file_bytes rs) = file_bytes (take k rs) @ tail"
      "\<forall>j \<le> length rs. length (file_bytes (take j rs)) \<le> n - length (record_bytes r) \<longrightarrow> j \<le> k"
      using Cons.IH [of "n - length (record_bytes r)"] Cons.prems by auto
    have "j \<le> Suc k" if "j \<le> length (r # rs)" "length (file_bytes (take j (r # rs))) \<le> n" for j
      using that IH(4) by (cases j) auto
    with True IH show ?thesis
      by (intro exI [of _ "Suc k"] exI [of _ tail]) simp
  next
    case False
    have "no_record (take n (record_bytes r))"
    proof (cases "n = 0")
      case False
      with \<open>\<not> length (record_bytes r) \<le> n\<close> show ?thesis
        using read_record_prefix [of r n] Cons.prems by (auto simp: no_record_iff)
    qed simp
    moreover have "j = 0" if "length (file_bytes (take j (r # rs))) \<le> n" for j
      using that False by (cases j) auto
    ultimately show ?thesis
      using False by (intro exI [of _ 0] exI [of _ "take n (record_bytes r)"]) auto
  qed
qed simp

lemma whole_records_length: "length (file_bytes (whole_records n rs)) \<le> n"
proof -
  obtain ws tail where p: "parse_records (take n (file_bytes rs)) = (ws, tail)"
    by fastforce
  then have "length (take n (file_bytes rs)) = length (file_bytes ws) + length tail"
    using parse_records_sound [OF p] by (metis length_append)
  with p show ?thesis by (simp add: whole_records_def)
qed

lemma whole_records_prefix:
  assumes "\<forall>r \<in> set rs. valid_record r"
  obtains k where "k \<le> length rs" "whole_records n rs = take k rs"
    "\<forall>j \<le> length rs. length (file_bytes (take j rs)) \<le> n \<longrightarrow> j \<le> k"
proof -
  obtain k tail where k: "k \<le> length rs" "take n (file_bytes rs) = file_bytes (take k rs) @ tail"
    "no_record tail" "\<forall>j \<le> length rs. length (file_bytes (take j rs)) \<le> n \<longrightarrow> j \<le> k"
    using cut_file [OF assms] by blast
  have "\<forall>r \<in> set (take k rs). valid_record r"
    using assms by (auto dest: in_set_takeD)
  with k have "whole_records n rs = take k rs"
    by (simp add: whole_records_def parse_records_file)
  with k that show thesis by blast
qed

end
