(* ===== verification/Log_Interface.thy ===== *)
theory Log_Interface
  imports Record_Format
begin

text \<open>
  What the clients of the commit log rely on. A log is seen as the offset of its first record
  and the list of the records it holds; the locales state what reading, appending and
  cutting do to that view, and the lemmas that the broker and the durable Raft log need are
  proved from these laws alone.
\<close>

section \<open>Views of a log\<close>

definition mk_record :: "int \<Rightarrow> int \<Rightarrow> bytes \<Rightarrow> log_record" where
  "mk_record off ts pl = \<lparr>rec_offset = off, rec_timestamp = ts, rec_payload = pl\<rparr>"

definition alog_read :: "int \<Rightarrow> log_record list \<Rightarrow> int \<Rightarrow> log_record option" where
  "alog_read base rs a =
     (if base \<le> a \<and> a < base + int (length rs) then Some (rs ! nat (a - base)) else None)"

definition consecutive :: "int \<Rightarrow> log_record list \<Rightarrow> bool" where
  "consecutive base rs \<longleftrightarrow> (\<forall>k < length rs. rec_offset (rs ! k) = base + int k)"

text \<open>
  The loop that \<^verbatim>\<open>CommitLog.read_range\<close> and \<^verbatim>\<open>Partition.read_after\<close> share: read consecutive
  offsets until a read finds nothing or the number of records asked for is reached.
\<close>

fun read_loop :: "(int \<Rightarrow> 'r option) \<Rightarrow> nat \<Rightarrow> int \<Rightarrow> 'r list" where
  "read_loop rd 0 pos = []"
| "read_loop rd (Suc n) pos =
     (case rd pos of None \<Rightarrow> [] | Some r \<Rightarrow> r # read_loop rd n (pos + 1))"

lemma mk_record_fields [simp]:
  "rec_offset (mk_record off ts pl) = off" "rec_timestamp (mk_record off ts pl) = ts"
  "rec_payload (mk_record off ts pl) = pl"
  by (simp_all add: mk_record_def)

lemma consecutive_Nil [simp]: "consecutive base []"
  by (simp add: consecutive_def)

lemma consecutive_snoc:
  "consecutive base (rs @ [r]) \<longleftrightarrow> consecutive base rs \<and> rec_offset r = base + int (length rs)"
  by (auto simp: consecutive_def nth_append less_Suc_eq)

lemma consecutive_Cons:
  "consecutive base (r # rs) \<longleftrightarrow> rec_offset r = base \<and> consecutive (base + 1) rs"
  by (simp add: consecutive_def All_less_Suc2 add.assoc)

lemma consecutive_take: "consecutive base rs \<Longrightarrow> consecutive base (take k rs)"
  by (auto simp: consecutive_def)

lemma consecutive_drop:
  "consecutive base rs \<Longrightarrow> k \<le> length rs \<Longrightarrow> consecutive (base + int k) (drop k rs)"
  by (auto simp: consecutive_def)

lemma consecutive_append:
  "consecutive base (rs @ ss) \<longleftrightarrow> consecutive base rs \<and> consecutive (base + int (length rs)) ss"
  by (induction rs arbitrary: base) (auto simp: consecutive_Cons add.assoc)

lemma alog_read_append:
  "alog_read b (xs @ ys) a =
     (if a < b + int (length xs) then alog_read b xs a else alog_read (b + int (length xs)) ys a)"
  by (auto simp: alog_read_def nth_append intro!: arg_cong [where f = "(!) ys"])

lemma alog_read_below: "a < b \<Longrightarrow> alog_read b rs a = None"
  by (simp add: alog_read_def)

lemma alog_read_above: "b + int (length rs) \<le> a \<Longrightarrow> alog_read b rs a = None"
  by (simp add: alog_read_def)

lemma read_loop_alog:
  assumes "base \<le> off"
  shows "read_loop (alog_read base rs) n off = take n (drop (nat (off - base)) rs)"
  using assms
proof (induction n arbitrary: off)
  case (Suc n)
  show ?case
  proof (cases "off < base + int (length rs)")
    case True
    define k where "k = nat (off - base)"
    have k: "k < length rs" "nat (off + 1 - base) = Suc k"
      using True Suc.prems by (simp_all add: k_def nat_add_distrib)
    have "drop k rs = rs ! k # drop (Suc k) rs"
      using k(1) by (rule Cons_nth_drop_Suc [symmetric])
    moreover have "alog_read base rs off = Some (rs ! k)"
      using True Suc.prems by (simp add: alog_read_def k_def)
    moreover have "read_loop (alog_read base rs) n (off + 1) = take n (drop (Suc k) rs)"
      using Suc.IH [of "off + 1"] Suc.prems k(2) by simp
    ultimately show ?thesis by (simp add: k_def)
  qed (use Suc.prems in \<open>simp add: alog_read_above\<close>)
qed simp

section \<open>Reading\<close>

locale offset_log =
  fixes inv :: "'l \<Rightarrow> bool" and first :: "'l \<Rightarrow> int" and recs :: "'l \<Rightarrow> log_record list"
    and nxt :: "'l \<Rightarrow> int" and rd :: "int \<Rightarrow> 'l \<Rightarrow> log_record option"
  assumes nxt_recs: "inv l \<Longrightarrow> nxt l = first l + int (length (recs l))"
    and offsets: "inv l \<Longrightarrow> consecutive (first l) (recs l)"
    and rd_recs: "inv l \<Longrightarrow> rd a l = alog_read (first l) (recs l) a"
begin

lemma rd_in_range: "inv l \<Longrightarrow> (\<exists>r. rd a l = Some r) \<longleftrightarrow> first l \<le> a \<and> a < nxt l"
  by (simp add: rd_recs nxt_recs alog_read_def)

lemma rd_offset: "inv l \<Longrightarrow> rd a l = Some r \<Longrightarrow> rec_offset r = a"
  using offsets [of l] by (auto simp: rd_recs alog_read_def consecutive_def split: if_splits)

lemma rd_member: "inv l \<Longrightarrow> rd a l = Some r \<Longrightarrow> r \<in> set (recs l)"
  by (auto simp: rd_recs alog_read_def split: if_splits)

text \<open>A record once readable stays readable, unchanged, when the log only grows.\<close>

lemma rd_grows:
  assumes "inv l" "inv l'" "first l' = first l" "recs l' = recs l @ rs" "rd a l = Some r"
  shows "rd a l' = Some r"
  using assms by (auto simp: rd_recs alog_read_append alog_read_def nth_append split: if_splits)

lemma read_loop_recs:
  "inv l \<Longrightarrow> first l \<le> off \<Longrightarrow>
     read_loop (\<lambda>a. rd a l) n off = take n (drop (nat (off - first l)) (recs l))"
  using read_loop_alog [of "first l" off "recs l" n] by (simp add: rd_recs)

lemma read_loop_before: "inv l \<Longrightarrow> off < first l \<Longrightarrow> read_loop (\<lambda>a. rd a l) n off = []"
  by (cases n) (simp_all add: rd_recs alog_read_below)

end

section \<open>Appending\<close>

text \<open>\<open>accepts\<close> says which payloads and timestamps fit the record format and the file.\<close>

locale growing_log = offset_log +
  fixes app :: "bytes \<Rightarrow> int \<Rightarrow> 'l \<Rightarrow> ('l, int) outcome"
    and accepts :: "bytes \<Rightarrow> int \<Rightarrow> 'l \<Rightarrow> bool"
  assumes app_recs: "inv l \<Longrightarrow> accepts pl ts l \<Longrightarrow>
     \<exists>l'. app pl ts l = (Inr (nxt l), l') \<and> inv l' \<and> first l' = first l
       \<and> recs l' = recs l @ [mk_record (nxt l) ts pl]"
begin

lemma app_read_back:
  assumes "inv l" "accepts pl ts l"
  shows "\<exists>l'. app pl ts l = (Inr (nxt l), l') \<and> inv l' \<and> nxt l' = nxt l + 1
    \<and> rd (nxt l) l' = Some (mk_record (nxt l) ts pl)
    \<and> (\<forall>a r. rd a l = Some r \<longrightarrow> rd a l' = Some r)"
proof -
  obtain l' where l': "app pl ts l = (Inr (nxt l), l')" "inv l'" "first l' = first l"
    "recs l' = recs l @ [mk_record (nxt l) ts pl]"
    using app_recs [OF assms] by blast
  have "rd (nxt l) l' = Some (mk_record (nxt l) ts pl)"
    using l' assms(1) by (simp add: rd_recs alog_read_append nxt_recs) (simp add: alog_read_def)
  moreover have "nxt l' = nxt l + 1"
    using l' assms(1) by (simp add: nxt_recs)
  ultimately show ?thesis
    using l' rd_grows [OF assms(1) l'(2,3,4)] by blast
qed

end

section \<open>Cutting the tail\<close>

locale cutting_log = offset_log +
  fixes cut :: "int \<Rightarrow> 'l \<Rightarrow> ('l, bool) outcome"
  assumes cut_recs: "inv l \<Longrightarrow> first l \<le> a \<Longrightarrow>
     \<exists>l'. cut a l = (Inr (a < nxt l), l') \<and> inv l' \<and> first l' = first l
       \<and> recs l' = take (nat (a - first l)) (recs l)"
begin

lemma cut_reads:
  assumes "inv l" "first l \<le> a"
  shows "\<exists>l'. cut a l = (Inr (a < nxt l), l') \<and> inv l' \<and> nxt l' = min a (nxt l)
    \<and> (\<forall>b. rd b l' = (if b < a then rd b l else None))"
proof -
  obtain l' where l': "cut a l = (Inr (a < nxt l), l')" "inv l'" "first l' = first l"
    "recs l' = take (nat (a - first l)) (recs l)"
    using cut_recs [OF assms] by blast
  have "nxt l' = min a (nxt l)"
    using l' assms by (simp add: nxt_recs min_def) arith
  moreover have "rd b l' = (if b < a then rd b l else None)" for b
    using l' assms by (auto simp: rd_recs alog_read_def)
  ultimately show ?thesis using l' by blast
qed

end

end
