(* ===== verification/Segment.thy ===== *)
theory Segment
  imports Log_Interface
begin

text \<open>
  The class \<^verbatim>\<open>Segment\<close> of \<^verbatim>\<open>pylog/log.py\<close>: one log file and its sparse index. The record
  \<open>segment\<close> holds the attributes of the object together with the contents of the two files it
  owns (\<open>None\<close> while a file does not exist). The cached file handles and the memory map are
  left out here; \<open>Segment_Handles\<close> runs the operations through them and shows the same
  outcomes. Unbuffered writes reach the file at once, so the \<^verbatim>\<open>fsync\<close> flag has no effect here.

  The lemmas relate every operation to \<open>segment_of\<close>, the state that a list of records
  determines.
\<close>

section \<open>State\<close>

record segment =
  base_offset :: int
  index_interval_bytes :: int
  index :: "(int \<times> int) list"
  seg_size :: int
  last_indexed_position :: int
  max_timestamp :: int
  seg_next_offset :: int
  log_file :: "bytes option"
  index_file :: "bytes option"

definition segment_init :: "int \<Rightarrow> int \<Rightarrow> bytes option \<Rightarrow> bytes option \<Rightarrow> segment" where
  "segment_init base interval logf idxf =
     \<lparr>base_offset = base, index_interval_bytes = max 1 interval, index = [], seg_size = 0,
      last_indexed_position = -1, max_timestamp = 0, seg_next_offset = base,
      log_file = logf, index_file = idxf\<rparr>"

definition contents :: "bytes option \<Rightarrow> bytes" where
  "contents f = (case f of None \<Rightarrow> [] | Some bs \<Rightarrow> bs)"

section \<open>The sparse index\<close>

definition pack_index_entry :: "int \<Rightarrow> int \<Rightarrow> bytes result" where
  "pack_index_entry rel position =
     (if fits_unsigned 8 rel \<and> fits_unsigned 8 position
      then Inr (le_bytes 8 rel @ le_bytes 8 position) else Inl StructError)"

definition maybe_index :: "int \<Rightarrow> int \<Rightarrow> segment \<Rightarrow> (segment, unit) outcome" where
  "maybe_index abs_offset position s =
     (let rel = abs_offset - base_offset s in
      if index s = [] \<or> position - last_indexed_position s \<ge> index_interval_bytes s then
        let s1 = s\<lparr>index := index s @ [(rel, position)],
                   index_file := Some (contents (index_file s))\<rparr> in
        case pack_index_entry rel position of
          Inl e \<Rightarrow> (Inl e, s1)
        | Inr b \<Rightarrow> (Inr (), s1\<lparr>index_file := Some (contents (index_file s) @ b),
                                last_indexed_position := position\<rparr>)
      else (Inr (), s))"

fun write_entries :: "(int \<times> int) list \<Rightarrow> bytes \<Rightarrow> unit result \<times> bytes" where
  "write_entries [] out = (Inr (), out)"
| "write_entries ((rel, position) # es) out =
     (case pack_index_entry rel position of
        Inl e \<Rightarrow> (Inl e, out)
      | Inr b \<Rightarrow> write_entries es (out @ b))"

definition rewrite_index :: "segment \<Rightarrow> (segment, unit) outcome" where
  "rewrite_index s =
     (let (res, out) = write_entries (index s) [] in (res, s\<lparr>index_file := Some out\<rparr>))"

section \<open>Recovery\<close>

text \<open>
  The replay loop: \<open>f\<close> is the unread part of the file, \<open>position\<close> the file position, and the
  result is the pair of \<^verbatim>\<open>next_offset\<close> and \<^verbatim>\<open>good_size\<close>.
\<close>

function recover_loop ::
  "bytes \<Rightarrow> int \<Rightarrow> int \<Rightarrow> int \<Rightarrow> segment \<Rightarrow> (segment, int \<times> int) outcome" where
  "recover_loop f position nxt good s =
     (case read_record f of
        Inl _ \<Rightarrow> (Inr (nxt, good), s)
      | Inr (None, _) \<Rightarrow> (Inr (nxt, good), s)
      | Inr (Some r, f') \<Rightarrow>
          (case maybe_index (rec_offset r) position s of
             (Inl e, s1) \<Rightarrow> (Inl e, s1)
           | (Inr _, s1) \<Rightarrow>
               let told = position + int (length f - length f') in
               recover_loop f' told (rec_offset r + 1) told
                 (s1\<lparr>max_timestamp := max (max_timestamp s1) (rec_timestamp r)\<rparr>)))"
  by pat_completeness auto
termination
  by (relation "measure (\<lambda>(f, _). length f)")
    (auto dest!: read_record_shorter simp: HEADER_SIZE_def)

declare recover_loop.simps [simp del]

definition recover :: "segment \<Rightarrow> (segment, int) outcome" where
  "recover s =
     (let s0 = s\<lparr>index := [], seg_size := 0, last_indexed_position := -1, max_timestamp := 0,
                 seg_next_offset := base_offset s\<rparr> in
      case log_file s of
        None \<Rightarrow> (Inr (base_offset s), s0\<lparr>log_file := Some [], index_file := Some []\<rparr>)
      | Some f \<Rightarrow>
          (case recover_loop f 0 (base_offset s) 0 s0 of
             (Inl e, s1) \<Rightarrow> (Inl e, s1)
           | (Inr (nxt, good), s1) \<Rightarrow>
               let s2 = (if good < int (length f) then s1\<lparr>log_file := Some (take (nat good) f)\<rparr>
                         else s1)\<lparr>seg_size := good, seg_next_offset := nxt\<rparr> in
               (case rewrite_index s2 of
                  (Inl e, s3) \<Rightarrow> (Inl e, s3)
                | (Inr _, s3) \<Rightarrow> (Inr nxt, s3))))"

section \<open>Appending\<close>

definition append_record :: "int \<Rightarrow> bytes \<Rightarrow> int \<Rightarrow> segment \<Rightarrow> (segment, unit) outcome" where
  "append_record off record_bs ts s =
     (let position = seg_size s;
          s1 = s\<lparr>log_file := Some (contents (log_file s) @ record_bs),
                 seg_size := seg_size s + int (length record_bs),
                 max_timestamp := (if ts > max_timestamp s then ts else max_timestamp s),
                 seg_next_offset := off + 1\<rparr>
      in maybe_index off position s1)"

section \<open>Reading\<close>

function index_search :: "(int \<times> int) list \<Rightarrow> int \<Rightarrow> nat \<Rightarrow> nat \<Rightarrow> nat" where
  "index_search idx rel_target lo hi =
     (if lo < hi then
        let mid = (lo + hi) div 2 in
        if fst (idx ! mid) \<le> rel_target then index_search idx rel_target (mid + 1) hi
        else index_search idx rel_target lo mid
      else lo)"
  by pat_completeness auto
termination
  by (relation "measure (\<lambda>(_, _, lo, hi). hi - lo)") auto

declare index_search.simps [simp del]

definition start_position :: "(int \<times> int) list \<Rightarrow> int \<Rightarrow> int" where
  "start_position idx rel_target =
     (let lo = index_search idx rel_target 0 (length idx) in
      if lo > 0 then snd (idx ! (lo - 1)) else 0)"

function scan_record :: "int \<Rightarrow> bytes \<Rightarrow> log_record option" where
  "scan_record abs_offset f =
     (case read_record f of
        Inl _ \<Rightarrow> None
      | Inr (None, _) \<Rightarrow> None
      | Inr (Some r, f') \<Rightarrow>
          if rec_offset r = abs_offset then Some r
          else if rec_offset r > abs_offset then None
          else scan_record abs_offset f')"
  by pat_completeness auto
termination
  by (relation "measure (\<lambda>(_, f). length f)")
    (auto dest!: read_record_shorter simp: HEADER_SIZE_def)

function scan_position :: "int \<Rightarrow> int \<Rightarrow> bytes \<Rightarrow> int option" where
  "scan_position abs_offset position f =
     (case read_record f of
        Inl _ \<Rightarrow> None
      | Inr (None, _) \<Rightarrow> None
      | Inr (Some r, f') \<Rightarrow>
          if rec_offset r = abs_offset then Some position
          else if rec_offset r > abs_offset then None
          else scan_position abs_offset (position + int (length f - length f')) f')"
  by pat_completeness auto
termination
  by (relation "measure (\<lambda>(_, _, f). length f)")
    (auto dest!: read_record_shorter simp: HEADER_SIZE_def)

declare scan_record.simps [simp del] scan_position.simps [simp del]

definition seg_read :: "int \<Rightarrow> segment \<Rightarrow> log_record option" where
  "seg_read abs_offset s =
     (if abs_offset < base_offset s \<or> abs_offset \<ge> seg_next_offset s then None
      else let start_pos = start_position (index s) (abs_offset - base_offset s) in
        scan_record abs_offset (drop (nat start_pos) (contents (log_file s))))"

definition position_of :: "int \<Rightarrow> segment \<Rightarrow> int option" where
  "position_of abs_offset s =
     (if abs_offset < base_offset s \<or> abs_offset \<ge> seg_next_offset s then None
      else let start_pos = start_position (index s) (abs_offset - base_offset s) in
        scan_position abs_offset start_pos (drop (nat start_pos) (contents (log_file s))))"

section \<open>Truncation and deletion\<close>

definition seg_truncate_from :: "int \<Rightarrow> segment \<Rightarrow> (segment, bool) outcome" where
  "seg_truncate_from abs_offset s =
     (if abs_offset \<le> base_offset s then
        let changed = (seg_size s > 0 \<or> seg_next_offset s \<noteq> base_offset s);
            s1 = s\<lparr>log_file := Some [], index := [], seg_size := 0, last_indexed_position := -1,
                   max_timestamp := 0, seg_next_offset := base_offset s\<rparr> in
        (case rewrite_index s1 of
           (Inl e, s2) \<Rightarrow> (Inl e, s2)
         | (Inr _, s2) \<Rightarrow> (Inr changed, s2))
      else
        (case position_of abs_offset s of
           None \<Rightarrow> (Inr False, s)
         | Some position \<Rightarrow>
             let rel_cut = abs_offset - base_offset s;
                 idx = filter (\<lambda>e. fst e < rel_cut) (index s);
                 s1 = s\<lparr>log_file := Some (take (nat position) (contents (log_file s))),
                        seg_size := position, seg_next_offset := abs_offset, index := idx,
                        last_indexed_position := (if idx \<noteq> [] then snd (last idx) else -1)\<rparr> in
             (case rewrite_index s1 of
                (Inl e, s2) \<Rightarrow> (Inl e, s2)
              | (Inr _, s2) \<Rightarrow> (Inr True, s2))))"

definition is_empty :: "segment \<Rightarrow> bool" where
  "is_empty s \<longleftrightarrow> seg_size s = 0"

definition seg_delete :: "segment \<Rightarrow> segment" where
  "seg_delete s = s\<lparr>log_file := None, index_file := None\<rparr>"

section \<open>The state that a list of records determines\<close>

definition index_step ::
  "int \<Rightarrow> int \<Rightarrow> (int \<times> int) list \<times> int \<Rightarrow> log_record \<Rightarrow> (int \<times> int) list \<times> int" where
  "index_step iv base st r =
     (let (idx, pos) = st in
      (if idx = [] \<or> pos - snd (last idx) \<ge> iv then idx @ [(rec_offset r - base, pos)] else idx,
       pos + int (length (record_bytes r))))"

definition sparse_index :: "int \<Rightarrow> int \<Rightarrow> log_record list \<Rightarrow> (int \<times> int) list" where
  "sparse_index iv base rs = fst (foldl (index_step iv base) ([], 0) rs)"

definition index_bytes :: "(int \<times> int) list \<Rightarrow> bytes" where
  "index_bytes idx = concat (map (\<lambda>(rel, pos). le_bytes 8 rel @ le_bytes 8 pos) idx)"

definition next_of :: "int \<Rightarrow> log_record list \<Rightarrow> int" where
  "next_of base rs = (if rs = [] then base else rec_offset (last rs) + 1)"

definition max_ts :: "log_record list \<Rightarrow> int" where
  "max_ts rs = foldl (\<lambda>m r. max m (rec_timestamp r)) 0 rs"

definition segment_of :: "int \<Rightarrow> int \<Rightarrow> log_record list \<Rightarrow> int \<Rightarrow> segment" where
  "segment_of base iv rs mt =
     (let idx = sparse_index iv base rs in
      \<lparr>base_offset = base, index_interval_bytes = iv, index = idx,
       seg_size = int (length (file_bytes rs)),
       last_indexed_position = (if idx = [] then -1 else snd (last idx)),
       max_timestamp = mt, seg_next_offset = next_of base rs,
       log_file = Some (file_bytes rs), index_file = Some (index_bytes idx)\<rparr>)"

definition seg_rep :: "segment \<Rightarrow> log_record list \<Rightarrow> bool" where
  "seg_rep s rs \<longleftrightarrow>
     s = segment_of (base_offset s) (index_interval_bytes s) rs (max_timestamp s)
     \<and> 0 \<le> base_offset s \<and> consecutive (base_offset s) rs \<and> (\<forall>r \<in> set rs. valid_record r)
     \<and> length (file_bytes rs) < 2 ^ 64"

end
