(* ===== verification/Commit_Log.thy ===== *)
theory Commit_Log
  imports Segment
begin

text \<open>
  The class \<^verbatim>\<open>CommitLog\<close> of \<^verbatim>\<open>pylog/log.py\<close>: a list of segments of which the last one is
  written. The files are part of the segments; \<open>dir_of\<close> lists them under the names the code
  gives them, and \<open>open_log\<close> is the constructor run on such a directory listing. A log is opened
  on a directory that holds only its own files, so a new segment finds no file of its name.
  Wall-clock time is the argument \<open>now\<close> of the operations that may read it. \<^verbatim>\<open>close\<close> only closes
  handles and changes nothing here.
\<close>

section \<open>Decimal file names\<close>

definition digit_char :: "nat \<Rightarrow> char" where
  "digit_char d = char_of (48 + d)"

fun nat_str :: "nat \<Rightarrow> string" where
  "nat_str n = (if n < 10 then [digit_char n] else nat_str (n div 10) @ [digit_char (n mod 10)])"

declare nat_str.simps [simp del]

definition pad_left :: "nat \<Rightarrow> string \<Rightarrow> string" where
  "pad_left w s = replicate (w - length s) (CHR ''0'') @ s"

text \<open>The format \<^verbatim>\<open>f"{base_offset:020d}"\<close> of a non-negative base offset.\<close>

definition stem :: "int \<Rightarrow> string" where
  "stem base = pad_left 20 (nat_str (nat base))"

definition is_digits :: "string \<Rightarrow> bool" where
  "is_digits s \<longleftrightarrow> s \<noteq> [] \<and> list_all (\<lambda>c. 48 \<le> (of_char c :: nat) \<and> (of_char c :: nat) \<le> 57) s"

definition int_of_digits :: "string \<Rightarrow> int" where
  "int_of_digits s = foldl (\<lambda>a c. 10 * a + (of_char c - 48)) 0 s"

definition ends_with :: "string \<Rightarrow> string \<Rightarrow> bool" where
  "ends_with suf s \<longleftrightarrow> length suf \<le> length s \<and> drop (length s - length suf) s = suf"

type_synonym directory = "(string \<times> bytes) list"

section \<open>State\<close>

record commit_log =
  max_segment_bytes :: int
  log_interval :: int
  segments :: "segment list"
  next_offset :: int

text \<open>\<open>bisect.bisect_right\<close> halves its range exactly as the index search does.\<close>

definition bisect_right :: "int list \<Rightarrow> int \<Rightarrow> nat" where
  "bisect_right xs x = index_search (map (\<lambda>b. (b, 0)) xs) x 0 (length xs)"

section \<open>Opening\<close>

definition new_segment :: "int \<Rightarrow> commit_log \<Rightarrow> (commit_log, unit) outcome" where
  "new_segment base l =
     (case recover (segment_init base (log_interval l) None None) of
        (Inl e, _) \<Rightarrow> (Inl e, l)
      | (Inr _, seg) \<Rightarrow> (Inr (), l\<lparr>segments := segments l @ [seg]\<rparr>))"

fun recover_segments :: "segment list \<Rightarrow> segment list result" where
  "recover_segments [] = Inr []"
| "recover_segments (s # ss) =
     (case recover s of
        (Inl e, _) \<Rightarrow> Inl e
      | (Inr _, s') \<Rightarrow>
          (case recover_segments ss of Inl e \<Rightarrow> Inl e | Inr ss' \<Rightarrow> Inr (s' # ss')))"

definition dir_stems :: "directory \<Rightarrow> int list" where
  "dir_stems dir =
     sort (map (\<lambda>name. int_of_digits (take (length name - 4) name))
       (filter (\<lambda>name. ends_with ''.log'' name \<and> is_digits (take (length name - 4) name))
          (map fst dir)))"

definition open_log :: "directory \<Rightarrow> int \<Rightarrow> int \<Rightarrow> commit_log result" where
  "open_log dir max_bytes interval =
     (let stems = dir_stems dir;
          segs = map (\<lambda>b. segment_init b interval (map_of dir (stem b @ ''.log''))
                           (map_of dir (stem b @ ''.index''))) stems;
          l = \<lparr>max_segment_bytes = max 1 max_bytes, log_interval = interval, segments = segs,
               next_offset = 0\<rparr>
      in if segs = [] then
           (case new_segment 0 l of
              (Inl e, _) \<Rightarrow> Inl e
            | (Inr _, l1) \<Rightarrow> Inr (l1\<lparr>next_offset := 0\<rparr>))
         else
           (case recover_segments segs of
              Inl e \<Rightarrow> Inl e
            | Inr segs' \<Rightarrow>
                Inr (l\<lparr>segments := segs', next_offset := seg_next_offset (last segs')\<rparr>)))"

section \<open>Appending\<close>

definition set_active :: "segment \<Rightarrow> commit_log \<Rightarrow> commit_log" where
  "set_active s l = l\<lparr>segments := butlast (segments l) @ [s]\<rparr>"

definition append_log :: "bytes \<Rightarrow> int option \<Rightarrow> int \<Rightarrow> commit_log \<Rightarrow> (commit_log, int) outcome" where
  "append_log pl ts_opt now l =
     (if segments l = [] then (Inl IndexError, l) else
      let off = next_offset l;
          ts = (case ts_opt of None \<Rightarrow> now | Some t \<Rightarrow> t);
          (rolled, l1) = (if seg_size (last (segments l)) \<ge> max_segment_bytes l
                          then new_segment off l else (Inr (), l))
      in case rolled of
           Inl e \<Rightarrow> (Inl e, l1)
         | Inr _ \<Rightarrow>
             (case encode_record off pl ts of
                Inl e \<Rightarrow> (Inl e, l1)
              | Inr rb \<Rightarrow>
                  (case append_record off rb ts (last (segments l1)) of
                     (Inl e, s) \<Rightarrow> (Inl e, set_active s l1)
                   | (Inr _, s) \<Rightarrow> (Inr off, (set_active s l1)\<lparr>next_offset := off + 1\<rparr>))))"

text \<open>
  Group commit. An item is an offset, a payload and its timestamp (missing when the list of
  timestamps is too short); an element of a batch is an offset, its byte position, its
  timestamp and its encoding. \<open>gather\<close> is the inner loop that collects a batch.
\<close>

type_synonym item = "int \<times> bytes \<times> int option"
type_synonym batch = "(int \<times> int \<times> int \<times> bytes) list"

fun gather :: "int \<Rightarrow> bool \<Rightarrow> int \<Rightarrow> item list \<Rightarrow> (batch \<times> item list) result" where
  "gather limit first pos [] = Inr ([], [])"
| "gather limit first pos ((off, pl, ts_opt) # items) =
     (case ts_opt of
        None \<Rightarrow> Inl IndexError
      | Some ts \<Rightarrow>
          (case encode_record off pl ts of
             Inl e \<Rightarrow> Inl e
           | Inr rb \<Rightarrow>
               if \<not> first \<and> pos + int (length rb) > limit then Inr ([], (off, pl, ts_opt) # items)
               else
                 (case gather limit False (pos + int (length rb)) items of
                    Inl e \<Rightarrow> Inl e
                  | Inr (b, rest) \<Rightarrow> Inr ((off, pos, ts, rb) # b, rest))))"

fun index_batch :: "batch \<Rightarrow> segment \<Rightarrow> (segment, unit) outcome" where
  "index_batch [] s = (Inr (), s)"
| "index_batch ((off, pos, ts, rb) # b) s =
     (case maybe_index off pos s of
        (Inl e, s1) \<Rightarrow> (Inl e, s1)
      | (Inr _, s1) \<Rightarrow>
          index_batch b (s1\<lparr>seg_next_offset := off + 1,
            max_timestamp := (if ts > max_timestamp s1 then ts else max_timestamp s1)\<rparr>))"

definition batch_bytes :: "batch \<Rightarrow> bytes" where
  "batch_bytes b = concat (map (\<lambda>(off, pos, ts, rb). rb) b)"

definition write_batch :: "batch \<Rightarrow> segment \<Rightarrow> (segment, unit) outcome" where
  "write_batch b s =
     (let blob = batch_bytes b;
          s1 = s\<lparr>log_file := Some (contents (log_file s) @ blob)\<rparr>
      in case index_batch b s1 of
           (Inl e, s2) \<Rightarrow> (Inl e, s2)
         | (Inr _, s2) \<Rightarrow> (Inr (), s2\<lparr>seg_size := seg_size s + int (length blob)\<rparr>))"

lemma gather_shorter:
  "gather limit first pos items = Inr (b, rest) \<Longrightarrow>
     length rest \<le> length items \<and> (first \<longrightarrow> items \<noteq> [] \<longrightarrow> length rest < length items)"
proof (induction limit first pos items arbitrary: b rest rule: gather.induct)
  case (2 limit first pos off pl ts_opt items)
  then show ?case
    by (fastforce split: option.splits sum.splits if_splits prod.splits)
qed simp

function append_loop :: "item list \<Rightarrow> commit_log \<Rightarrow> (commit_log, unit) outcome" where
  "append_loop items l =
     (if items = [] then (Inr (), l)
      else if segments l = [] then (Inl IndexError, l)
      else
        let active = last (segments l) in
        case gather (max_segment_bytes l) True (seg_size active) items of
          Inl e \<Rightarrow> (Inl e, l)
        | Inr (b, rest) \<Rightarrow>
            (case write_batch b active of
               (Inl e, s) \<Rightarrow> (Inl e, set_active s l)
             | (Inr _, s) \<Rightarrow>
                 if rest = [] then (Inr (), set_active s l)
                 else
                   (case new_segment (fst (hd rest)) (set_active s l) of
                      (Inl e, l2) \<Rightarrow> (Inl e, l2)
                    | (Inr _, l2) \<Rightarrow> append_loop rest l2)))"
  by pat_completeness auto
termination
  by (relation "measure (\<lambda>(items, _). length items)") (auto dest!: gather_shorter)

declare append_loop.simps [simp del]

definition many_items :: "int \<Rightarrow> bytes list \<Rightarrow> int list \<Rightarrow> item list" where
  "many_items off payloads tss =
     map (\<lambda>j. (off + int j, payloads ! j, if j < length tss then Some (tss ! j) else None))
       [0..<length payloads]"

definition append_many ::
  "bytes list \<Rightarrow> int list option \<Rightarrow> int \<Rightarrow> commit_log \<Rightarrow> (commit_log, int list) outcome" where
  "append_many payloads tss_opt now l =
     (if payloads = [] then (Inr [], l) else
      let n = length payloads;
          offsets = map (\<lambda>j. next_offset l + int j) [0..<n];
          tss = (case tss_opt of None \<Rightarrow> replicate n now | Some ts \<Rightarrow> ts)
      in case append_loop (many_items (next_offset l) payloads tss) l of
           (Inl e, l1) \<Rightarrow> (Inl e, l1)
         | (Inr _, l1) \<Rightarrow> (Inr offsets, l1\<lparr>next_offset := last offsets + 1\<rparr>))"

section \<open>Reading\<close>

definition read_log :: "int \<Rightarrow> commit_log \<Rightarrow> log_record option" where
  "read_log off l =
     (let pos = bisect_right (map base_offset (segments l)) off in
      if pos = 0 then None
      else case seg_read off (segments l ! (pos - 1)) of
             Some r \<Rightarrow> Some r
           | None \<Rightarrow> if pos - 1 > 0 then seg_read off (segments l ! (pos - 2)) else None)"

definition read_range :: "int \<Rightarrow> int \<Rightarrow> commit_log \<Rightarrow> log_record list" where
  "read_range start limit l = read_loop (\<lambda>off. read_log off l) (nat limit) start"

section \<open>Truncation and retention\<close>

definition truncate_from :: "int \<Rightarrow> commit_log \<Rightarrow> (commit_log, bool) outcome" where
  "truncate_from off l =
     (let pos = bisect_right (map base_offset (segments l)) off in
      if pos = 0 then (Inr False, l)
      else
        let dropped = drop pos (segments l);
            l1 = l\<lparr>segments := take pos (segments l)\<rparr>
        in case seg_truncate_from off (segments l ! (pos - 1)) of
             (Inl e, s) \<Rightarrow> (Inl e, set_active s l1)
           | (Inr changed, s) \<Rightarrow>
               let l2 = set_active s l1 in
               (Inr (dropped \<noteq> [] \<or> changed),
                l2\<lparr>next_offset := seg_next_offset (last (segments l2))\<rparr>))"

definition removable :: "int \<Rightarrow> nat \<Rightarrow> nat \<times> segment \<Rightarrow> bool" where
  "removable min_base n p =
     (let (i, seg) = p in
      (is_empty seg \<and> i < n - 1) \<or> (base_offset seg < min_base \<and> i < n - 1))"

definition truncate_segments_before :: "int \<Rightarrow> commit_log \<Rightarrow> nat \<times> commit_log" where
  "truncate_segments_before min_base l =
     (let n = length (segments l); es = enumerate 0 (segments l) in
      (length (filter (removable min_base n) es),
       l\<lparr>segments := map snd (filter (\<lambda>p. \<not> removable min_base n p) es)\<rparr>))"

section \<open>Statistics and the files on disk\<close>

record log_stats =
  stat_next_offset :: int
  stat_segments :: nat
  stat_size_bytes :: int
  stat_first_offset :: int

definition stats :: "commit_log \<Rightarrow> log_stats" where
  "stats l = \<lparr>stat_next_offset = next_offset l, stat_segments = length (segments l),
     stat_size_bytes = sum_list (map seg_size (segments l)),
     stat_first_offset = (case segments l of [] \<Rightarrow> 0 | s # _ \<Rightarrow> base_offset s)\<rparr>"

definition dir_of :: "commit_log \<Rightarrow> directory" where
  "dir_of l = concat (map (\<lambda>s. [(stem (base_offset s) @ ''.log'', contents (log_file s)),
     (stem (base_offset s) @ ''.index'', contents (index_file s))]) (segments l))"

end
