(* ===== verification/Segment_Props.thy ===== *)
theory Segment_Props
  imports Segment
begin

text \<open>
  Correctness of the segment operations: the sparse index, recovery, appending, lookups and
  truncation, each as an equation over the state that a list of records determines.
\<close>

section \<open>The sparse index\<close>

lemma index_step_position: "snd (foldl (index_step iv base) ([], 0) rs) = int (length (file_bytes rs))"
  by (induction rs rule: rev_induct) (auto simp: index_step_def case_prod_beta Let_def)

lemma sparse_index_Nil [simp]: "sparse_index iv base [] = []"
  by (simp add: sparse_index_def)

lemma sparse_index_snoc:
  "sparse_index iv base (rs @ [r]) =
     (let idx = sparse_index iv base rs; pos = int (length (file_bytes rs)) in
      if idx = [] \<or> pos - snd (last idx) \<ge> iv then idx @ [(rec_offset r - base, pos)] else idx)"
  using index_step_position [of iv base rs]
  by (simp add: sparse_index_def index_step_def case_prod_beta Let_def)

lemma sparse_index_single [simp]: "sparse_index iv base [r] = [(rec_offset r - base, 0)]"
  using sparse_index_snoc [of iv base "[]" r] by simp

lemma sparse_index_Nil_iff [simp]: "sparse_index iv base rs = [] \<longleftrightarrow> rs = []"
  by (induction rs rule: rev_induct) (auto simp: sparse_index_snoc Let_def)

lemma sparse_index_entry:
  "e \<in> set (sparse_index iv base rs) \<Longrightarrow>
     \<exists>k < length rs. e = (rec_offset (rs ! k) - base, int (length (file_bytes (take k rs))))"
proof (induction rs rule: rev_induct)
  case (snoc r rs)
  show ?case
  proof (cases "e \<in> set (sparse_index iv base rs)")
    case True
    then obtain k where "k < length rs"
      "e = (rec_offset (rs ! k) - base, int (length (file_bytes (take k rs))))"
      using snoc.IH by blast
    then show ?thesis
      by (intro exI [of _ k]) (simp add: nth_append)
  next
    case False
    with snoc.prems have "e = (rec_offset r - base, int (length (file_bytes rs)))"
      by (auto simp: sparse_index_snoc Let_def split: if_splits)
    then show ?thesis
      by (intro exI [of _ "length rs"]) simp
  qed
qed simp

lemma next_of_consecutive: "consecutive base rs \<Longrightarrow> next_of base rs = base + int (length rs)"
  by (cases rs rule: rev_cases) (auto simp: next_of_def consecutive_snoc)

lemma sparse_index_rel_bound:
  "consecutive base rs \<Longrightarrow> e \<in> set (sparse_index iv base rs) \<Longrightarrow> 0 \<le> fst e \<and> fst e < int (length rs)"
  by (auto dest!: sparse_index_entry simp: consecutive_def)

lemma sparse_index_sorted:
  "consecutive base rs \<Longrightarrow> sorted_wrt (\<lambda>a b. fst a < fst b) (sparse_index iv base rs)"
proof (induction rs rule: rev_induct)
  case (snoc r rs)
  then have "\<forall>e \<in> set (sparse_index iv base rs). fst e < rec_offset r - base"
    by (auto simp: consecutive_snoc dest: sparse_index_rel_bound)
  with snoc show ?case
    by (auto simp: sparse_index_snoc Let_def sorted_wrt_append consecutive_snoc)
qed simp

text \<open>Cutting the index at a record is the same as indexing the records that remain.\<close>

lemma sparse_index_take:
  "consecutive base rs \<Longrightarrow> k \<le> length rs \<Longrightarrow>
     filter (\<lambda>e. fst e < int k) (sparse_index iv base rs) = sparse_index iv base (take k rs)"
proof (induction rs rule: rev_induct)
  case (snoc r rs)
  show ?case
  proof (cases "k = Suc (length rs)")
    case True
    have "\<forall>e \<in> set (sparse_index iv base (rs @ [r])). fst e < int k"
      using sparse_index_rel_bound [OF snoc.prems(1)] True by auto
    with True show ?thesis by (simp add: filter_True)
  next
    case False
    with snoc.prems have "k \<le> length rs" by simp
    with snoc show ?thesis
      by (auto simp: sparse_index_snoc Let_def consecutive_snoc)
  qed
qed simp

lemma index_search_done: "\<not> lo < hi \<Longrightarrow> index_search idx t lo hi = lo"
  by (subst index_search.simps) simp

lemma index_search_spec:
  assumes "lo \<le> hi" "hi \<le> length idx" "lo = 0 \<or> fst (idx ! (lo - 1)) \<le> t"
  shows "lo \<le> index_search idx t lo hi \<and> index_search idx t lo hi \<le> hi
    \<and> (index_search idx t lo hi = 0 \<or> fst (idx ! (index_search idx t lo hi - 1)) \<le> t)"
  using assms
proof (induction idx t lo hi rule: index_search.induct)
  case (1 idx t lo hi)
  show ?case
  proof (cases "lo < hi")
    case True
    define mid where "mid = (lo + hi) div 2"
    have mid: "lo \<le> mid" "mid < hi"
      using True by (auto simp: mid_def)
    show ?thesis
    proof (cases "fst (idx ! mid) \<le> t")
      case in_right: True
      have "index_search idx t lo hi = index_search idx t (mid + 1) hi"
        using True in_right by (subst index_search.simps) (simp add: mid_def Let_def)
      with "1.IH"(1) [OF True mid_def in_right] "1.prems" mid in_right show ?thesis by fastforce
    next
      case in_left: False
      have "index_search idx t lo hi = index_search idx t lo mid"
        using True in_left by (subst index_search.simps) (simp add: mid_def Let_def)
      with "1.IH"(2) [OF True mid_def in_left] "1.prems" mid show ?thesis by simp
    qed
  next
    case False
    with "1.prems" show ?thesis by (simp add: index_search_done)
  qed
qed

text \<open>The binary search counts the signposts at or before the target.\<close>

lemma index_search_count:
  assumes "lo \<le> hi" "hi \<le> length idx" "sorted_wrt (\<lambda>a b. fst a < fst b) idx"
    "\<forall>i < lo. fst (idx ! i) \<le> t" "\<forall>i. hi \<le> i \<and> i < length idx \<longrightarrow> t < fst (idx ! i)"
  shows "index_search idx t lo hi = length (filter (\<lambda>e. fst e \<le> t) idx)"
  using assms
proof (induction idx t lo hi rule: index_search.induct)
  case (1 idx t lo hi)
  have mono: "fst (idx ! i) \<le> fst (idx ! j)" if "i \<le> j" "j < length idx" for i j
    using that "1.prems"(3) by (cases "i = j") (auto simp: sorted_wrt_iff_nth_less less_imp_le)
  show ?case
  proof (cases "lo < hi")
    case True
    define mid where "mid = (lo + hi) div 2"
    have mid: "lo \<le> mid" "mid < hi"
      using True by (auto simp: mid_def)
    show ?thesis
    proof (cases "fst (idx ! mid) \<le> t")
      case in_right: True
      have "\<forall>i < mid + 1. fst (idx ! i) \<le> t"
        using mono [of _ mid] in_right mid "1.prems"(2) by (force simp: less_Suc_eq_le)
      then have "index_search idx t (mid + 1) hi = length (filter (\<lambda>e. fst e \<le> t) idx)"
        using "1.IH"(1) [OF True mid_def in_right] "1.prems" mid by auto
      with True in_right show ?thesis
        by (subst index_search.simps) (simp add: mid_def Let_def)
    next
      case in_left: False
      have "\<forall>i. mid \<le> i \<and> i < length idx \<longrightarrow> t < fst (idx ! i)"
        using mono [of mid] in_left by (meson less_le_trans not_le)
      then have "index_search idx t lo mid = length (filter (\<lambda>e. fst e \<le> t) idx)"
        using "1.IH"(2) [OF True mid_def in_left] "1.prems" mid by auto
      with True in_left show ?thesis
        by (subst index_search.simps) (simp add: mid_def Let_def)
    qed
  next
    case False
    then have "lo = hi" using "1.prems"(1) by simp
    have "filter (\<lambda>e. fst e \<le> t) (take lo idx) = take lo idx"
      using "1.prems"(4) "1.prems"(2) \<open>lo = hi\<close>
      by (auto simp: filter_id_conv in_set_conv_nth) (metis fst_conv)
    moreover have "filter (\<lambda>e. fst e \<le> t) (drop lo idx) = []"
      using "1.prems"(5) \<open>lo = hi\<close> 
      by (auto simp: filter_empty_conv in_set_conv_nth not_le) (metis fst_conv le_add1 less_diff_conv2 add.commute nat_less_le less_diff_conv)
    ultimately have "filter (\<lambda>e. fst e \<le> t) idx = take lo idx"
      by (metis append_Nil2 append_take_drop_id filter_append)
    with False "1.prems"(2) \<open>lo = hi\<close> show ?thesis
      by (simp add: index_search_done)
  qed
qed

lemma start_position_boundary:
  assumes "consecutive base rs" "0 \<le> t"
  obtains k where "int k \<le> t" "k \<le> length rs"
    "start_position (sparse_index iv base rs) t = int (length (file_bytes (take k rs)))"
proof -
  define idx where "idx = sparse_index iv base rs"
  define m where "m = index_search idx t 0 (length idx)"
  have m: "m \<le> length idx" "m = 0 \<or> fst (idx ! (m - 1)) \<le> t"
    using index_search_spec [of 0 "length idx" idx t] by (simp_all add: m_def)
  show thesis
  proof (cases "m = 0")
    case True
    then have "start_position idx t = 0"
      by (simp add: start_position_def m_def [symmetric])
    with assms show thesis
      by (intro that [of 0]) (auto simp: idx_def)
  next
    case False
    with m obtain k where k: "k < length rs"
      "idx ! (m - 1) = (rec_offset (rs ! k) - base, int (length (file_bytes (take k rs))))"
      using sparse_index_entry [of "idx ! (m - 1)" iv base rs]
      by (auto simp: idx_def [symmetric])
    with False m assms(1) have "int k \<le> t"
      by (simp add: consecutive_def)
    moreover have "start_position idx t = int (length (file_bytes (take k rs)))"
      using False k by (simp add: start_position_def m_def [symmetric] Let_def)
    ultimately show thesis
      using k by (intro that [of k]) (auto simp: idx_def)
  qed
qed

section \<open>Appending and recovering\<close>

abbreviation last_position :: "(int \<times> int) list \<Rightarrow> int" where
  "last_position idx \<equiv> (if idx = [] then -1 else snd (last idx))"

lemma segment_of_fields [simp]:
  "base_offset (segment_of base iv rs mt) = base"
  "index_interval_bytes (segment_of base iv rs mt) = iv"
  "index (segment_of base iv rs mt) = sparse_index iv base rs"
  "seg_size (segment_of base iv rs mt) = int (length (file_bytes rs))"
  "last_indexed_position (segment_of base iv rs mt) = last_position (sparse_index iv base rs)"
  "max_timestamp (segment_of base iv rs mt) = mt"
  "seg_next_offset (segment_of base iv rs mt) = next_of base rs"
  "log_file (segment_of base iv rs mt) = Some (file_bytes rs)"
  "index_file (segment_of base iv rs mt) = Some (index_bytes (sparse_index iv base rs))"
  by (simp_all add: segment_of_def Let_def)

lemma contents_Some [simp]: "contents (Some bs) = bs"
  by (simp add: contents_def)

lemma index_bytes_simps [simp]:
  "index_bytes [] = []"
  "index_bytes (xs @ ys) = index_bytes xs @ index_bytes ys"
  "index_bytes [(rel, pos)] = le_bytes 8 rel @ le_bytes 8 pos"
  by (simp_all add: index_bytes_def)

lemma maybe_index_fits:
  assumes "fits_unsigned 8 (off - base_offset s)" "fits_unsigned 8 pos"
  shows "maybe_index off pos s =
    (Inr (), if index s = [] \<or> pos - last_indexed_position s \<ge> index_interval_bytes s
       then s\<lparr>index := index s @ [(off - base_offset s, pos)],
              index_file := Some (contents (index_file s) @ le_bytes 8 (off - base_offset s) @ le_bytes 8 pos),
              last_indexed_position := pos\<rparr>
       else s)"
  using assms by (simp add: maybe_index_def pack_index_entry_def Let_def)

lemma valid_rel_fits:
  "valid_record r \<Longrightarrow> 0 \<le> base \<Longrightarrow> base \<le> rec_offset r \<Longrightarrow> fits_unsigned 8 (rec_offset r - base)"
  by (simp add: valid_record_def fits_unsigned_def)

lemma position_fits: "n < 2 ^ 64 \<Longrightarrow> fits_unsigned 8 (int n)"
  by (simp add: fits_unsigned_def)

lemma fits_zero [simp]: "fits_unsigned n 0"
  by (simp add: fits_unsigned_def)

lemma append_segment_of:
  assumes "valid_record r" "0 \<le> base" "base \<le> rec_offset r" "length (file_bytes rs) < 2 ^ 64"
  shows "append_record (rec_offset r) (record_bytes r) (rec_timestamp r) (segment_of base iv rs mt) =
    (Inr (), segment_of base iv (rs @ [r]) (max mt (rec_timestamp r)))"
  using assms
  by (auto simp: append_record_def maybe_index_fits valid_rel_fits position_fits Let_def
      segment_of_def sparse_index_snoc next_of_def)

lemma write_entries_fit:
  "\<forall>(rel, pos) \<in> set es. fits_unsigned 8 rel \<and> fits_unsigned 8 pos \<Longrightarrow>
     write_entries es out = (Inr (), out @ index_bytes es)"
  by (induction es out rule: write_entries.induct)
     (auto simp: pack_index_entry_def index_bytes_def)

lemma index_entries_fit:
  assumes "\<forall>r \<in> set rs. valid_record r \<and> base \<le> rec_offset r" "0 \<le> base"
    "length (file_bytes rs) < 2 ^ 64"
  shows "\<forall>(rel, pos) \<in> set (sparse_index iv base rs). fits_unsigned 8 rel \<and> fits_unsigned 8 pos"
proof -
  have "length (file_bytes (take k rs)) < 2 ^ 64" for k
    using assms(3) by (metis append_take_drop_id file_bytes_simps(3) le_add1 le_less_trans length_append)
  with assms show ?thesis
    by (auto dest!: sparse_index_entry intro!: valid_rel_fits position_fits)
qed

lemma rewrite_index_fit:
  "\<forall>(rel, pos) \<in> set (index s). fits_unsigned 8 rel \<and> fits_unsigned 8 pos \<Longrightarrow>
     rewrite_index s = (Inr (), s\<lparr>index_file := Some (index_bytes (index s))\<rparr>)"
  by (simp add: rewrite_index_def write_entries_fit)

text \<open>The replay loop after the records \<open>rs\<close>, with whatever the index file then holds.\<close>

definition replayed :: "log_record list \<Rightarrow> bytes option \<Rightarrow> segment \<Rightarrow> segment" where
  "replayed rs idxf s = s\<lparr>index := sparse_index (index_interval_bytes s) (base_offset s) rs,
     last_indexed_position := last_position (sparse_index (index_interval_bytes s) (base_offset s) rs),
     max_timestamp := max_ts rs, index_file := idxf\<rparr>"

lemma replayed_step:
  assumes "valid_record r" "base_offset s \<le> rec_offset r" "0 \<le> base_offset s"
    "length (file_bytes dn) < 2 ^ 64"
  obtains s1 idxf' where
    "maybe_index (rec_offset r) (int (length (file_bytes dn))) (replayed dn idxf s) = (Inr (), s1)"
    "s1\<lparr>max_timestamp := max (max_timestamp s1) (rec_timestamp r)\<rparr> = replayed (dn @ [r]) idxf' s"
proof -
  let ?idx = "sparse_index (index_interval_bytes s) (base_offset s) dn"
  let ?pos = "int (length (file_bytes dn))"
  define add where "add \<longleftrightarrow> ?idx = [] \<or> ?pos - last_position ?idx \<ge> index_interval_bytes s"
  define s1 where "s1 = snd (maybe_index (rec_offset r) ?pos (replayed dn idxf s))"
  have "maybe_index (rec_offset r) ?pos (replayed dn idxf s) = (Inr (), s1)"
    using assms by (simp add: s1_def maybe_index_fits valid_rel_fits position_fits replayed_def)
  moreover have "s1\<lparr>max_timestamp := max (max_timestamp s1) (rec_timestamp r)\<rparr>
      = replayed (dn @ [r]) (index_file s1) s"
    using assms
    by (cases "dn = []"; cases add)
       (simp_all add: s1_def add_def maybe_index_fits valid_rel_fits position_fits replayed_def
          sparse_index_snoc Let_def max_ts_def)
  ultimately show thesis by (rule that)
qed

lemma recover_loop_step:
  assumes "valid_record r" "base_offset s \<le> rec_offset r" "0 \<le> base_offset s"
    "length (file_bytes dn) < 2 ^ 64"
  shows "\<exists>idxf'. recover_loop (record_bytes r @ rest) (int (length (file_bytes dn))) n g
      (replayed dn idxf s)
    = recover_loop rest (int (length (file_bytes (dn @ [r])))) (rec_offset r + 1)
        (int (length (file_bytes (dn @ [r])))) (replayed (dn @ [r]) idxf' s)"
proof -
  obtain s1 idxf' where
    "maybe_index (rec_offset r) (int (length (file_bytes dn))) (replayed dn idxf s) = (Inr (), s1)"
    "s1\<lparr>max_timestamp := max (max_timestamp s1) (rec_timestamp r)\<rparr> = replayed (dn @ [r]) idxf' s"
    using replayed_step [OF assms] by metis
  then show ?thesis
    using assms(1) by (subst recover_loop.simps) (auto simp: read_record_encoded Let_def)
qed

lemma recover_loop_replays:
  assumes "\<forall>r \<in> set rs. valid_record r \<and> base_offset s \<le> rec_offset r" "0 \<le> base_offset s"
    "no_record tail" "length (file_bytes (dn @ rs)) < 2 ^ 64"
  shows "\<exists>idxf'. recover_loop (file_bytes rs @ tail) (int (length (file_bytes dn)))
      (next_of (base_offset s) dn) (int (length (file_bytes dn))) (replayed dn idxf s)
    = (Inr (next_of (base_offset s) (dn @ rs), int (length (file_bytes (dn @ rs)))),
       replayed (dn @ rs) idxf' s)"
  using assms
proof (induction rs arbitrary: dn idxf)
  case Nil
  then show ?case
    by (subst recover_loop.simps)
       (auto simp: no_record_iff split: sum.splits option.splits prod.splits)
next
  case (Cons r rs)
  have "length (file_bytes dn) < 2 ^ 64"
    using Cons.prems(4) by simp
  then obtain idxf1 where step: "recover_loop (file_bytes (r # rs) @ tail) (int (length (file_bytes dn)))
      (next_of (base_offset s) dn) (int (length (file_bytes dn))) (replayed dn idxf s)
    = recover_loop (file_bytes rs @ tail) (int (length (file_bytes (dn @ [r])))) (rec_offset r + 1)
        (int (length (file_bytes (dn @ [r])))) (replayed (dn @ [r]) idxf1 s)"
    using recover_loop_step [of r s "dn" "file_bytes rs @ tail"] Cons.prems by fastforce
  have "next_of (base_offset s) (dn @ [r]) = rec_offset r + 1"
    by (simp add: next_of_def)
  with Cons.IH [of "dn @ [r]" idxf1] Cons.prems step show ?case
    by simp
qed

lemma recover_segment:
  assumes disk: "log_file s = Some (file_bytes rs @ tail)" and tail: "no_record tail"
    and recs: "\<forall>r \<in> set rs. valid_record r \<and> base_offset s \<le> rec_offset r"
    and base: "0 \<le> base_offset s" and small: "length (file_bytes rs) < 2 ^ 64"
  shows "recover s = (Inr (next_of (base_offset s) rs),
    segment_of (base_offset s) (index_interval_bytes s) rs (max_ts rs))"
proof -
  let ?s0 = "s\<lparr>index := [], seg_size := 0, last_indexed_position := -1, max_timestamp := 0,
    seg_next_offset := base_offset s\<rparr>"
  have "?s0 = replayed [] (index_file s) ?s0"
    by (simp add: replayed_def max_ts_def)
  then obtain idxf where loop: "recover_loop (file_bytes rs @ tail) 0 (base_offset s) 0 ?s0
    = (Inr (next_of (base_offset s) rs, int (length (file_bytes rs))), replayed rs idxf ?s0)"
    using recover_loop_replays [of rs ?s0 tail "[]" "index_file s"] assms
    by (auto simp: next_of_def)
  have "take (length (file_bytes rs)) (file_bytes rs @ tail) = file_bytes rs" by simp
  with disk loop index_entries_fit [OF recs base small] show ?thesis
    by (cases "tail = []")
       (simp_all add: recover_def Let_def replayed_def rewrite_index_fit segment_of_def)
qed

lemma recover_missing:
  "log_file s = None \<Longrightarrow> recover s =
     (Inr (base_offset s), segment_of (base_offset s) (index_interval_bytes s) [] 0)"
  by (simp add: recover_def segment_of_def next_of_def)

section \<open>Lookups\<close>

lemma scan_record_consecutive:
  "\<forall>r \<in> set rs. valid_record r \<Longrightarrow> consecutive b rs \<Longrightarrow> b \<le> a \<Longrightarrow> a < b + int (length rs) \<Longrightarrow>
     scan_record a (file_bytes rs) = Some (rs ! nat (a - b))"
proof (induction rs arbitrary: b)
  case (Cons r rs)
  have hd: "read_record (file_bytes (r # rs)) = Inr (Some r, file_bytes rs)" "rec_offset r = b"
    using Cons.prems by (simp_all add: read_record_encoded consecutive_Cons)
  show ?case
  proof (cases "a = b")
    case True
    with hd show ?thesis by (subst scan_record.simps) simp
  next
    case False
    with Cons.prems have "b + 1 \<le> a" "a < b + 1 + int (length rs)" by auto
    moreover from this have "nat (a - b) = Suc (nat (a - (b + 1)))" by simp
    ultimately show ?thesis
      using hd False Cons by (subst scan_record.simps) (simp add: consecutive_Cons)
  qed
qed simp

lemma scan_position_consecutive:
  "\<forall>r \<in> set rs. valid_record r \<Longrightarrow> consecutive b rs \<Longrightarrow> b \<le> a \<Longrightarrow> a < b + int (length rs) \<Longrightarrow>
     scan_position a p (file_bytes rs) = Some (p + int (length (file_bytes (take (nat (a - b)) rs))))"
proof (induction rs arbitrary: b p)
  case (Cons r rs)
  have hd: "read_record (file_bytes (r # rs)) = Inr (Some r, file_bytes rs)" "rec_offset r = b"
    using Cons.prems by (simp_all add: read_record_encoded consecutive_Cons)
  show ?case
  proof (cases "a = b")
    case True
    with hd show ?thesis by (subst scan_position.simps) simp
  next
    case False
    with Cons.prems have "b + 1 \<le> a" "a < b + 1 + int (length rs)" by auto
    moreover from this have "nat (a - b) = Suc (nat (a - (b + 1)))" by simp
    ultimately show ?thesis
      using hd False Cons by (subst scan_position.simps) (simp add: consecutive_Cons)
  qed
qed simp

lemma drop_file_bytes: "drop (length (file_bytes (take k rs))) (file_bytes rs) = file_bytes (drop k rs)"
  by (metis append_eq_conv_conj append_take_drop_id file_bytes_simps(3))

lemma take_file_bytes: "take (length (file_bytes (take k rs))) (file_bytes rs) = file_bytes (take k rs)"
  by (metis append_eq_conv_conj append_take_drop_id file_bytes_simps(3))

lemma seg_repI:
  "0 \<le> base \<Longrightarrow> consecutive base rs \<Longrightarrow> \<forall>r \<in> set rs. valid_record r \<Longrightarrow>
     length (file_bytes rs) < 2 ^ 64 \<Longrightarrow> seg_rep (segment_of base iv rs mt) rs"
  by (simp add: seg_rep_def)

lemma seg_repE:
  assumes "seg_rep s rs"
  obtains "s = segment_of (base_offset s) (index_interval_bytes s) rs (max_timestamp s)"
    "0 \<le> base_offset s" "consecutive (base_offset s) rs" "\<forall>r \<in> set rs. valid_record r"
    "length (file_bytes rs) < 2 ^ 64"
  using assms by (simp add: seg_rep_def)

lemma seg_rep_fields:
  assumes "seg_rep s rs"
  shows "seg_next_offset s = base_offset s + int (length rs)"
    and "seg_size s = int (length (file_bytes rs))"
    and "log_file s = Some (file_bytes rs)"
    and "index s = sparse_index (index_interval_bytes s) (base_offset s) rs"
    and "is_empty s \<longleftrightarrow> rs = []"
proof -
  note rep = assms [unfolded seg_rep_def]
  have s: "s = segment_of (base_offset s) (index_interval_bytes s) rs (max_timestamp s)"
    and cons: "consecutive (base_offset s) rs"
    using rep by simp_all
  show "seg_next_offset s = base_offset s + int (length rs)"
    using arg_cong [OF s, of seg_next_offset] cons by (simp add: next_of_consecutive)
  show size: "seg_size s = int (length (file_bytes rs))"
    using arg_cong [OF s, of seg_size] by simp
  show "log_file s = Some (file_bytes rs)"
    using arg_cong [OF s, of log_file] by simp
  show "index s = sparse_index (index_interval_bytes s) (base_offset s) rs"
    using arg_cong [OF s, of index] by simp
  show "is_empty s \<longleftrightarrow> rs = []"
    by (cases rs) (simp_all add: is_empty_def size length_record_bytes HEADER_SIZE_def)
qed

lemma seg_rep_unique: "seg_rep s rs \<Longrightarrow> seg_rep s rs' \<Longrightarrow> rs = rs'"
  by (metis append_Nil2 fst_conv no_record_Nil option.inject parse_records_file seg_repE
      seg_rep_fields(3))

lemma seg_read_rep:
  assumes "seg_rep s rs"
  shows "seg_read a s = (if base_offset s \<le> a \<and> a < base_offset s + int (length rs)
    then Some (rs ! nat (a - base_offset s)) else None)"
proof (cases "base_offset s \<le> a \<and> a < base_offset s + int (length rs)")
  case True
  obtain k where k: "int k \<le> a - base_offset s" "k \<le> length rs"
    "start_position (index s) (a - base_offset s) = int (length (file_bytes (take k rs)))"
    using assms True start_position_boundary [of "base_offset s" rs "a - base_offset s"]
    by (auto simp: seg_rep_def seg_rep_fields(4) [OF assms])
  have "consecutive (base_offset s + int k) (drop k rs)" "\<forall>r \<in> set (drop k rs). valid_record r"
    using assms k consecutive_drop by (auto simp: seg_rep_def dest: in_set_dropD)
  then have "scan_record a (file_bytes (drop k rs)) =
      Some (drop k rs ! nat (a - (base_offset s + int k)))"
    using True k by (intro scan_record_consecutive) auto
  moreover have "drop k rs ! nat (a - (base_offset s + int k)) = rs ! nat (a - base_offset s)"
    using k True by (auto intro!: arg_cong [where f = "(!) rs"])
  ultimately show ?thesis
    using True k by (simp add: seg_read_def seg_rep_fields [OF assms] drop_file_bytes Let_def)
next
  case False
  then show ?thesis
    by (auto simp: seg_read_def seg_rep_fields(1) [OF assms])
qed

lemma position_of_rep:
  assumes "seg_rep s rs"
  shows "position_of a s = (if base_offset s \<le> a \<and> a < base_offset s + int (length rs)
    then Some (int (length (file_bytes (take (nat (a - base_offset s)) rs)))) else None)"
proof (cases "base_offset s \<le> a \<and> a < base_offset s + int (length rs)")
  case True
  obtain k where k: "int k \<le> a - base_offset s" "k \<le> length rs"
    "start_position (index s) (a - base_offset s) = int (length (file_bytes (take k rs)))"
    using assms True start_position_boundary [of "base_offset s" rs "a - base_offset s"]
    by (auto simp: seg_rep_def seg_rep_fields(4) [OF assms])
  define m where "m = nat (a - (base_offset s + int k))"
  have "consecutive (base_offset s + int k) (drop k rs)" "\<forall>r \<in> set (drop k rs). valid_record r"
    using assms k consecutive_drop by (auto simp: seg_rep_def dest: in_set_dropD)
  then have scan: "scan_position a p (file_bytes (drop k rs)) =
      Some (p + int (length (file_bytes (take m (drop k rs)))))" for p
    unfolding m_def using True k by (intro scan_position_consecutive) auto
  have "nat (a - base_offset s) = k + m"
    using k by (simp add: m_def)
  then have "file_bytes (take (nat (a - base_offset s)) rs) = file_bytes (take k rs) @ file_bytes (take m (drop k rs))"
    by (simp add: take_add)
  with True k scan show ?thesis
    by (simp add: position_of_def seg_rep_fields [OF assms] drop_file_bytes Let_def)
next
  case False
  then show ?thesis
    by (auto simp: position_of_def seg_rep_fields(1) [OF assms])
qed

section \<open>Truncation\<close>

lemma seg_truncate_rep:
  assumes rep: "seg_rep s rs"
  shows "seg_truncate_from a s =
    (if a \<le> base_offset s
     then (Inr (rs \<noteq> []), segment_of (base_offset s) (index_interval_bytes s) [] 0)
     else if a < base_offset s + int (length rs)
     then (Inr True, segment_of (base_offset s) (index_interval_bytes s)
             (take (nat (a - base_offset s)) rs) (max_timestamp s))
     else (Inr False, s))"
proof -
  have s: "s = segment_of (base_offset s) (index_interval_bytes s) rs (max_timestamp s)"
    and props: "0 \<le> base_offset s" "consecutive (base_offset s) rs" "\<forall>r \<in> set rs. valid_record r"
      "length (file_bytes rs) < 2 ^ 64"
    using rep by (simp_all add: seg_rep_def)
  consider (all) "a \<le> base_offset s" | (cut) "base_offset s < a" "a < base_offset s + int (length rs)"
    | (none) "base_offset s < a" "base_offset s + int (length rs) \<le> a" by linarith
  then show ?thesis
  proof cases
    case all
    have "(seg_size s > 0 \<or> seg_next_offset s \<noteq> base_offset s) \<longleftrightarrow> rs \<noteq> []"
      using seg_rep_fields [OF rep] by (cases rs) auto
    with all show ?thesis
      by (subst (1) s) (simp add: seg_truncate_from_def rewrite_index_def segment_of_def next_of_def Let_def)
  next
    case cut
    define k where "k = nat (a - base_offset s)"
    have k: "k \<le> length rs" "a - base_offset s = int k"
      using cut by (simp_all add: k_def)
    have idx: "filter (\<lambda>e. fst e < int k) (index s)
        = sparse_index (index_interval_bytes s) (base_offset s) (take k rs)"
      using sparse_index_take [OF props(2) k(1)] by (simp add: seg_rep_fields(4) [OF rep])
    have "length (file_bytes (take k rs)) < 2 ^ 64"
      using props(4) by (metis append_take_drop_id file_bytes_simps(3) le_add1 le_less_trans length_append)
    moreover have "\<forall>r \<in> set (take k rs). valid_record r \<and> base_offset s \<le> rec_offset r"
      using props(2,3) by (fastforce simp: consecutive_def in_set_conv_nth dest: in_set_takeD)
    ultimately have fit: "\<forall>(rel, pos) \<in> set (sparse_index (index_interval_bytes s) (base_offset s) (take k rs)).
        fits_unsigned 8 rel \<and> fits_unsigned 8 pos"
      using props(1) by (intro index_entries_fit)
    have nxt: "next_of (base_offset s) (take k rs) = a"
      using consecutive_take [OF props(2)] k by (simp add: next_of_consecutive)
    have pos: "position_of a s = Some (int (length (file_bytes (take k rs))))"
      using cut by (simp add: position_of_rep [OF rep] k_def)
    show ?thesis
      using cut pos k idx fit nxt
      by (simp add: seg_truncate_from_def Let_def rewrite_index_fit k_def [symmetric]
          seg_rep_fields(3) [OF rep] take_file_bytes segment_of_def)
  next
    case none
    then show ?thesis
      by (simp add: seg_truncate_from_def position_of_rep [OF rep])
  qed
qed

end
