(* ===== verification/Commit_Log_Props.thy ===== *)
theory Commit_Log_Props
  imports Commit_Log Segment_Props
begin

text \<open>
  Correctness of the commit log against an abstract log: a first offset and a list of
  records. \<open>log_rep\<close> ties the segments to the records they hold.
\<close>

section \<open>The abstract log and the representation invariant\<close>

definition seg_records :: "segment \<Rightarrow> log_record list" where
  "seg_records s = fst (parse_records (contents (log_file s)))"

definition first_offset :: "commit_log \<Rightarrow> int" where
  "first_offset l = base_offset (hd (segments l))"

definition log_records :: "commit_log \<Rightarrow> log_record list" where
  "log_records l = concat (map seg_records (segments l))"

text \<open>Every segment is well formed and starts where the one before it ends; only the last may be empty.\<close>

fun seg_chain :: "segment list \<Rightarrow> bool" where
  "seg_chain [] \<longleftrightarrow> True"
| "seg_chain [s] \<longleftrightarrow> seg_rep s (seg_records s)"
| "seg_chain (s # t # ss) \<longleftrightarrow> seg_rep s (seg_records s) \<and> seg_records s \<noteq> []
     \<and> base_offset t = base_offset s + int (length (seg_records s)) \<and> seg_chain (t # ss)"

definition log_inv :: "commit_log \<Rightarrow> bool" where
  "log_inv l \<longleftrightarrow> segments l \<noteq> [] \<and> seg_chain (segments l)
     \<and> next_offset l = seg_next_offset (last (segments l)) \<and> 1 \<le> max_segment_bytes l
     \<and> (\<forall>s \<in> set (segments l). index_interval_bytes s = max 1 (log_interval l))"

lemma seg_rep_props:
  assumes "seg_rep s rs"
  shows "0 \<le> base_offset s" and "consecutive (base_offset s) rs" and "\<forall>r \<in> set rs. valid_record r"
    and "length (file_bytes rs) < 2 ^ 64"
  using assms by (simp_all add: seg_rep_def)

lemma seg_records_rep: "seg_rep s rs \<Longrightarrow> seg_records s = rs"
  using parse_records_file [of rs "[]"] seg_rep_fields(3) [of s rs]
  by (auto simp: seg_records_def elim: seg_repE)

lemma seg_rep_records: "seg_rep s rs \<Longrightarrow> seg_rep s (seg_records s)"
  by (simp add: seg_records_rep)

lemma seg_records_segment_of:
  "\<forall>r \<in> set rs. valid_record r \<Longrightarrow> seg_records (segment_of base iv rs mt) = rs"
  using parse_records_file [of rs "[]"] by (simp add: seg_records_def)

lemma seg_chain_Cons:
  "seg_chain (s # ss) \<longleftrightarrow> seg_rep s (seg_records s) \<and>
     (ss = [] \<or> seg_records s \<noteq> [] \<and> base_offset (hd ss) = base_offset s + int (length (seg_records s))
        \<and> seg_chain ss)"
  by (cases ss) auto

lemma seg_chain_snoc:
  "seg_chain (ss @ [s]) \<longleftrightarrow> seg_rep s (seg_records s) \<and>
     (ss = [] \<or> seg_chain ss \<and> seg_records (last ss) \<noteq> []
        \<and> base_offset s = base_offset (last ss) + int (length (seg_records (last ss))))"
proof (induction ss)
  case (Cons t ss)
  then show ?case
    by (cases ss) (auto simp: seg_chain_Cons)
qed simp

lemma seg_chain_rep: "seg_chain ss \<Longrightarrow> s \<in> set ss \<Longrightarrow> seg_rep s (seg_records s)"
  by (induction ss rule: seg_chain.induct) auto

lemma seg_chain_append:
  "seg_chain (ss @ ts) \<Longrightarrow> seg_chain ss \<and> seg_chain ts"
proof (induction ss)
  case (Cons s ss)
  then show ?case
    by (cases ss) (auto simp: seg_chain_Cons)
qed simp

lemma seg_chain_consecutive:
  "seg_chain ss \<Longrightarrow> ss \<noteq> [] \<Longrightarrow> consecutive (base_offset (hd ss)) (concat (map seg_records ss))
     \<and> seg_next_offset (last ss) = base_offset (hd ss) + int (length (concat (map seg_records ss)))"
proof (induction ss)
  case (Cons s ss)
  then have "seg_rep s (seg_records s)" by (simp add: seg_chain_Cons)
  with Cons show ?case
    by (cases ss) (auto simp: seg_chain_Cons seg_rep_fields(1) consecutive_append seg_rep_def)
qed simp

lemma seg_chain_valid:
  "seg_chain ss \<Longrightarrow> \<forall>r \<in> set (concat (map seg_records ss)). valid_record r"
  by (auto dest: seg_chain_rep simp: seg_rep_def)

lemma seg_chain_bases_sorted:
  "seg_chain ss \<Longrightarrow> sorted_wrt (<) (map base_offset ss)"
proof (induction ss)
  case (Cons s ss)
  show ?case
  proof (cases ss)
    case (Cons t ts)
    have IH: "sorted_wrt (<) (map base_offset ss)" and lt: "base_offset s < base_offset t"
      using Cons.IH Cons.prems \<open>ss = t # ts\<close> by (auto simp: seg_chain_Cons)
    then have "\<forall>u \<in> set ss. base_offset s < base_offset u"
      using \<open>ss = t # ts\<close> by auto
    with IH show ?thesis by simp
  qed simp
qed simp

lemma log_inv_records:
  assumes "log_inv l"
  shows "consecutive (first_offset l) (log_records l)"
    and "next_offset l = first_offset l + int (length (log_records l))"
    and "\<forall>r \<in> set (log_records l). valid_record r"
  using assms seg_chain_consecutive [of "segments l"] seg_chain_valid [of "segments l"]
  by (simp_all add: log_inv_def first_offset_def log_records_def)

section \<open>Appending a record\<close>

lemma new_segment_eq:
  "new_segment base l =
     (Inr (), l\<lparr>segments := segments l @ [segment_of base (max 1 (log_interval l)) [] 0]\<rparr>)"
  by (simp add: new_segment_def recover_missing segment_init_def)

definition active :: "commit_log \<Rightarrow> segment" where
  "active l = last (segments l)"

text \<open>Storing the records \<open>rs\<close> in the active segment.\<close>

definition extend_active :: "log_record list \<Rightarrow> int \<Rightarrow> commit_log \<Rightarrow> commit_log" where
  "extend_active rs mt l = (set_active (segment_of (base_offset (active l))
     (index_interval_bytes (active l)) (seg_records (active l) @ rs) mt) l)
       \<lparr>next_offset := next_offset l + int (length rs)\<rparr>"

definition room_for :: "log_record list \<Rightarrow> segment \<Rightarrow> bool" where
  "room_for rs s \<longleftrightarrow> length (file_bytes (seg_records s)) + length (file_bytes rs) < 2 ^ 64"

lemma segments_split: "segments l \<noteq> [] \<Longrightarrow> segments l = butlast (segments l) @ [active l]"
  by (simp add: active_def)

lemma extend_active_inv:
  assumes inv: "log_inv l" and cons: "consecutive (next_offset l) rs"
    and valid: "\<forall>r \<in> set rs. valid_record r" and room: "room_for rs (active l)"
  shows "log_inv (extend_active rs mt l)"
    and "log_records (extend_active rs mt l) = log_records l @ rs"
    and "first_offset (extend_active rs mt l) = first_offset l"
    and "next_offset (extend_active rs mt l) = next_offset l + int (length rs)"
proof -
  define s where "s = active l"
  define ss where "ss = butlast (segments l)"
  have segs: "segments l = ss @ [s]"
    using inv segments_split by (simp add: log_inv_def s_def ss_def)
  have chain: "seg_chain (ss @ [s])" and nxt: "next_offset l = seg_next_offset s"
    and iv: "index_interval_bytes s = max 1 (log_interval l)"
    using inv by (auto simp: log_inv_def segs)
  have rep: "seg_rep s (seg_records s)"
    using chain by (simp add: seg_chain_snoc)
  let ?s' = "segment_of (base_offset s) (index_interval_bytes s) (seg_records s @ rs) mt"
  have ok: "consecutive (base_offset s) (seg_records s @ rs)"
    "\<forall>r \<in> set (seg_records s @ rs). valid_record r"
    using rep cons valid by (auto simp: consecutive_append seg_rep_def nxt seg_rep_fields(1) [OF rep])
  have rep': "seg_rep ?s' (seg_records s @ rs)"
    using rep ok room by (intro seg_repI) (auto simp: seg_rep_def room_for_def s_def)
  have recs': "seg_records ?s' = seg_records s @ rs"
    using rep' by (rule seg_records_rep)
  have l': "extend_active rs mt l = l\<lparr>segments := ss @ [?s'], next_offset := next_offset l + int (length rs)\<rparr>"
    by (simp add: extend_active_def set_active_def segs s_def [symmetric])
  have nxt': "seg_next_offset ?s' = next_offset l + int (length rs)"
    using seg_rep_fields(1) [OF rep'] seg_rep_fields(1) [OF rep] nxt by simp
  show "log_inv (extend_active rs mt l)"
    using inv chain rep' recs' nxt' iv
    by (auto simp: log_inv_def l' segs seg_chain_snoc)
  show "log_records (extend_active rs mt l) = log_records l @ rs"
    by (simp add: log_records_def l' segs recs')
  show "first_offset (extend_active rs mt l) = first_offset l"
    by (cases ss) (simp_all add: first_offset_def l' segs)
  show "next_offset (extend_active rs mt l) = next_offset l + int (length rs)"
    by (simp add: l')
qed

lemma roll_inv:
  assumes inv: "log_inv l" and full: "seg_records (active l) \<noteq> []"
  defines "l' \<equiv> snd (new_segment (next_offset l) l)"
  shows "log_inv l'" and "log_records l' = log_records l" and "first_offset l' = first_offset l"
    and "next_offset l' = next_offset l" and "seg_records (active l') = []"
    and "max_segment_bytes l' = max_segment_bytes l"
proof -
  define s where "s = active l"
  define ss where "ss = butlast (segments l)"
  have segs: "segments l = ss @ [s]"
    using inv segments_split by (simp add: log_inv_def s_def ss_def)
  let ?n = "segment_of (next_offset l) (max 1 (log_interval l)) [] 0"
  have l': "l' = l\<lparr>segments := ss @ [s, ?n]\<rparr>"
    by (simp add: l'_def new_segment_eq segs)
  have rep: "seg_rep s (seg_records s)" and chain: "seg_chain (ss @ [s])"
    using inv by (auto simp: log_inv_def segs seg_chain_snoc)
  have nxt: "next_offset l = base_offset s + int (length (seg_records s))"
    using inv seg_rep_fields(1) [OF rep] by (simp add: log_inv_def segs)
  have "0 \<le> next_offset l"
    using rep nxt by (simp add: seg_rep_def)
  then have "seg_rep ?n []"
    by (intro seg_repI) auto
  moreover have "seg_records ?n = []"
    by (simp add: seg_records_segment_of)
  ultimately have "seg_chain ((ss @ [s]) @ [?n])"
    using chain full nxt by (subst seg_chain_snoc) (simp add: s_def)
  then show "log_inv l'"
    using inv by (auto simp: log_inv_def l' segs next_of_def)
  show "log_records l' = log_records l"
    by (simp add: log_records_def l' segs seg_records_segment_of)
  show "first_offset l' = first_offset l"
    by (cases ss) (simp_all add: first_offset_def l' segs)
  show "next_offset l' = next_offset l" "seg_records (active l') = []"
    "max_segment_bytes l' = max_segment_bytes l"
    by (simp_all add: l' active_def seg_records_segment_of)
qed

lemma active_segment:
  assumes "log_inv l"
  shows "active l = segment_of (base_offset (active l)) (index_interval_bytes (active l))
      (seg_records (active l)) (max_timestamp (active l))"
    and "seg_rep (active l) (seg_records (active l))"
    and "next_offset l = base_offset (active l) + int (length (seg_records (active l)))"
proof -
  show rep: "seg_rep (active l) (seg_records (active l))"
    using assms seg_chain_rep [of "segments l" "active l"] by (simp add: log_inv_def active_def)
  then show "active l = segment_of (base_offset (active l)) (index_interval_bytes (active l))
      (seg_records (active l)) (max_timestamp (active l))"
    by (rule seg_repE)
  show "next_offset l = base_offset (active l) + int (length (seg_records (active l)))"
    using assms seg_rep_fields(1) [OF rep] by (simp add: log_inv_def active_def)
qed

lemma append_active:
  assumes inv: "log_inv l" and valid: "valid_record r" and off: "rec_offset r = next_offset l"
    and room: "room_for [r] (active l)"
  shows "append_record (rec_offset r) (record_bytes r) (rec_timestamp r) (active l) =
    (Inr (), segment_of (base_offset (active l)) (index_interval_bytes (active l))
       (seg_records (active l) @ [r]) (max (max_timestamp (active l)) (rec_timestamp r)))"
proof -
  have "0 \<le> base_offset (active l)"
    using active_segment(2) [OF inv] by (rule seg_repE)
  moreover have "length (file_bytes (seg_records (active l))) < 2 ^ 64"
    using room by (simp add: room_for_def)
  moreover have "base_offset (active l) \<le> rec_offset r"
    using off active_segment(3) [OF inv] by simp
  ultimately have "append_record (rec_offset r) (record_bytes r) (rec_timestamp r)
      (segment_of (base_offset (active l)) (index_interval_bytes (active l))
        (seg_records (active l)) (max_timestamp (active l))) =
    (Inr (), segment_of (base_offset (active l)) (index_interval_bytes (active l))
       (seg_records (active l) @ [r]) (max (max_timestamp (active l)) (rec_timestamp r)))"
    using valid by (intro append_segment_of)
  then show ?thesis
    unfolding active_segment(1) [OF inv, symmetric] .
qed

lemma append_log_inv:
  assumes inv: "log_inv l" and valid: "valid_record (mk_record (next_offset l) ts pl)"
    and room: "room_for [mk_record (next_offset l) ts pl] (active l)"
  shows "\<exists>l'. append_log pl (Some ts) now l = (Inr (next_offset l), l') \<and> log_inv l'
    \<and> log_records l' = log_records l @ [mk_record (next_offset l) ts pl]
    \<and> first_offset l' = first_offset l \<and> next_offset l' = next_offset l + 1"
proof -
  let ?r = "mk_record (next_offset l) ts pl"
  define l1 where "l1 = (if seg_size (last (segments l)) \<ge> max_segment_bytes l
      then snd (new_segment (next_offset l) l) else l)"
  have l1: "log_inv l1 \<and> log_records l1 = log_records l \<and> first_offset l1 = first_offset l
      \<and> next_offset l1 = next_offset l \<and> room_for [?r] (active l1)"
  proof (cases "seg_size (last (segments l)) \<ge> max_segment_bytes l")
    case True
    then have "seg_records (active l) \<noteq> []"
      using inv seg_rep_fields(2) [OF active_segment(2) [OF inv]]
      by (auto simp: log_inv_def active_def)
    with roll_inv [OF inv this] room True show ?thesis
      by (auto simp: l1_def room_for_def)
  qed (use inv room in \<open>simp add: l1_def\<close>)
  have "append_record (next_offset l) (record_bytes ?r) ts (last (segments l1)) =
    (Inr (), segment_of (base_offset (active l1)) (index_interval_bytes (active l1))
       (seg_records (active l1) @ [?r]) (max (max_timestamp (active l1)) ts))"
    using append_active [of l1 ?r] l1 valid by (simp add: active_def)
  moreover have "encode_record (next_offset l) pl ts = Inr (record_bytes ?r)"
    using encode_valid [OF valid] by simp
  moreover have "(if seg_size (last (segments l)) \<ge> max_segment_bytes l
      then new_segment (next_offset l) l else (Inr (), l)) = (Inr (), l1)"
    by (simp add: l1_def new_segment_eq)
  moreover have "segments l \<noteq> []"
    using inv by (simp add: log_inv_def)
  ultimately have "append_log pl (Some ts) now l =
      (Inr (next_offset l), extend_active [?r] (max (max_timestamp (active l1)) ts) l1)"
    using l1 by (simp add: append_log_def extend_active_def Let_def)
  moreover have "consecutive (next_offset l1) [?r]"
    using l1 by (simp add: consecutive_Cons)
  ultimately show ?thesis
    using extend_active_inv [of l1 "[?r]"] l1 valid by auto
qed

section \<open>Group commit\<close>

definition item_of :: "log_record \<Rightarrow> item" where
  "item_of r = (rec_offset r, rec_payload r, Some (rec_timestamp r))"

fun batch_of :: "int \<Rightarrow> log_record list \<Rightarrow> batch" where
  "batch_of pos [] = []"
| "batch_of pos (r # rs) = (rec_offset r, pos, rec_timestamp r, record_bytes r)
     # batch_of (pos + int (length (record_bytes r))) rs"

lemma batch_bytes_of: "batch_bytes (batch_of pos rs) = file_bytes rs"
  by (induction rs arbitrary: pos) (auto simp: batch_bytes_def)

lemma gather_items:
  "\<forall>r \<in> set rs. valid_record r \<Longrightarrow>
     \<exists>k \<le> length rs. gather limit first pos (map item_of rs)
         = Inr (batch_of pos (take k rs), map item_of (drop k rs))
       \<and> (first \<longrightarrow> rs \<noteq> [] \<longrightarrow> 0 < k)"
proof (induction rs arbitrary: first pos)
  case (Cons r rs)
  show ?case
  proof (cases "\<not> first \<and> pos + int (length (record_bytes r)) > limit")
    case True
    with Cons.prems show ?thesis
      by (intro exI [of _ 0]) (auto simp: item_of_def [of r] encode_valid)
  next
    case False
    obtain k where "k \<le> length rs" "gather limit False (pos + int (length (record_bytes r)))
        (map item_of rs) = Inr (batch_of (pos + int (length (record_bytes r))) (take k rs),
          map item_of (drop k rs))"
      using Cons.IH [of False "pos + int (length (record_bytes r))"] Cons.prems by auto
    with False Cons.prems show ?thesis
      by (intro exI [of _ "Suc k"]) (auto simp: item_of_def [of r] encode_valid)
  qed
qed simp

lemma index_batch_step:
  assumes "valid_record r" "0 \<le> base" "base \<le> rec_offset r" "length (file_bytes dn) < 2 ^ 64"
  obtains s1 where "maybe_index (rec_offset r) (int (length (file_bytes dn)))
      ((segment_of base iv dn mt)\<lparr>log_file := F, seg_size := z\<rparr>) = (Inr (), s1)"
    "s1\<lparr>seg_next_offset := rec_offset r + 1, max_timestamp := max (max_timestamp s1) (rec_timestamp r)\<rparr>
      = (segment_of base iv (dn @ [r]) (max mt (rec_timestamp r)))\<lparr>log_file := F, seg_size := z\<rparr>"
proof -
  define s1 where "s1 = snd (maybe_index (rec_offset r) (int (length (file_bytes dn)))
      ((segment_of base iv dn mt)\<lparr>log_file := F, seg_size := z\<rparr>))"
  have "maybe_index (rec_offset r) (int (length (file_bytes dn)))
      ((segment_of base iv dn mt)\<lparr>log_file := F, seg_size := z\<rparr>) = (Inr (), s1)"
    using assms by (simp add: s1_def maybe_index_fits valid_rel_fits position_fits)
  moreover have "s1\<lparr>seg_next_offset := rec_offset r + 1,
        max_timestamp := max (max_timestamp s1) (rec_timestamp r)\<rparr>
      = (segment_of base iv (dn @ [r]) (max mt (rec_timestamp r)))\<lparr>log_file := F, seg_size := z\<rparr>"
    using assms
    by (cases "dn = []"; cases "iv \<le> int (length (file_bytes dn)) - snd (last (sparse_index iv base dn))")
       (simp_all add: s1_def maybe_index_fits valid_rel_fits position_fits segment_of_def
          sparse_index_snoc Let_def next_of_def)
  ultimately show thesis by (rule that)
qed

lemma index_batch_records:
  assumes "\<forall>r \<in> set rs. valid_record r \<and> base \<le> rec_offset r" "0 \<le> base"
    "length (file_bytes (dn @ rs)) < 2 ^ 64"
  shows "\<exists>mt'. index_batch (batch_of (int (length (file_bytes dn))) rs)
      ((segment_of base iv dn mt)\<lparr>log_file := F, seg_size := z\<rparr>)
    = (Inr (), (segment_of base iv (dn @ rs) mt')\<lparr>log_file := F, seg_size := z\<rparr>)"
  using assms
proof (induction rs arbitrary: dn mt)
  case (Cons r rs)
  have "length (file_bytes dn) < 2 ^ 64"
    using Cons.prems by simp
  then obtain s1 where s1: "maybe_index (rec_offset r) (int (length (file_bytes dn)))
      ((segment_of base iv dn mt)\<lparr>log_file := F, seg_size := z\<rparr>) = (Inr (), s1)"
    "s1\<lparr>seg_next_offset := rec_offset r + 1, max_timestamp := max (max_timestamp s1) (rec_timestamp r)\<rparr>
      = (segment_of base iv (dn @ [r]) (max mt (rec_timestamp r)))\<lparr>log_file := F, seg_size := z\<rparr>"
    using index_batch_step [where r = r and base = base and dn = dn and iv = iv and mt = mt and F = F and z = z] Cons.prems by auto
  have "max (max_timestamp s1) (rec_timestamp r) =
      (if max_timestamp s1 < rec_timestamp r then rec_timestamp r else max_timestamp s1)"
    by (simp add: max_def)
  with s1 Cons.IH [of "dn @ [r]" "max mt (rec_timestamp r)"] Cons.prems show ?case
    by (simp add: max.commute)
qed auto

lemma write_batch_records:
  assumes "\<forall>r \<in> set rs. valid_record r \<and> base \<le> rec_offset r" "0 \<le> base"
    "length (file_bytes (dn @ rs)) < 2 ^ 64"
  shows "\<exists>mt'. write_batch (batch_of (int (length (file_bytes dn))) rs) (segment_of base iv dn mt)
    = (Inr (), segment_of base iv (dn @ rs) mt')"
proof -
  let ?s = "(segment_of base iv dn mt)\<lparr>log_file := Some (file_bytes dn @ file_bytes rs)\<rparr>"
  have "?s = (segment_of base iv dn mt)\<lparr>log_file := Some (file_bytes dn @ file_bytes rs),
      seg_size := int (length (file_bytes dn))\<rparr>"
    by (simp add: segment_of_def Let_def)
  then obtain mt' where "index_batch (batch_of (int (length (file_bytes dn))) rs) ?s =
      (Inr (), (segment_of base iv (dn @ rs) mt')\<lparr>log_file := Some (file_bytes dn @ file_bytes rs),
         seg_size := int (length (file_bytes dn))\<rparr>)"
    using index_batch_records [OF assms, where F = "Some (file_bytes dn @ file_bytes rs)"
        and z = "int (length (file_bytes dn))"] by metis
  then have "write_batch (batch_of (int (length (file_bytes dn))) rs) (segment_of base iv dn mt)
      = (Inr (), segment_of base iv (dn @ rs) mt')"
    by (simp add: write_batch_def batch_bytes_of segment_of_def Let_def)
  then show ?thesis ..
qed

text \<open>
  During a group commit the attribute \<^verbatim>\<open>next_offset\<close> of the log lags behind the segments; the
  invariant is kept by the log in which it has caught up.
\<close>

definition caught_up :: "commit_log \<Rightarrow> commit_log" where
  "caught_up l = l\<lparr>next_offset := seg_next_offset (last (segments l))\<rparr>"

lemma caught_up_simps [simp]:
  "segments (caught_up l) = segments l" "max_segment_bytes (caught_up l) = max_segment_bytes l"
  "active (caught_up l) = active l" "log_records (caught_up l) = log_records l"
  "first_offset (caught_up l) = first_offset l"
  "next_offset (caught_up l) = seg_next_offset (active l)"
  by (simp_all add: caught_up_def active_def log_records_def first_offset_def)

lemma caught_up_inv: "log_inv l \<Longrightarrow> caught_up l = l"
  by (simp add: caught_up_def log_inv_def)

lemma write_batch_active:
  assumes inv: "log_inv (caught_up l)" and cons: "consecutive (seg_next_offset (active l)) rs"
    and valid: "\<forall>r \<in> set rs. valid_record r" and room: "room_for rs (active l)"
  obtains s where "write_batch (batch_of (seg_size (active l)) rs) (active l) = (Inr (), s)"
    "log_inv (caught_up (set_active s l))" "log_records (set_active s l) = log_records l @ rs"
    "first_offset (set_active s l) = first_offset l"
    "seg_next_offset (active (set_active s l)) = seg_next_offset (active l) + int (length rs)"
    "seg_records (active (set_active s l)) = seg_records (active l) @ rs"
proof -
  let ?a = "active l"
  have rep: "seg_rep ?a (seg_records ?a)"
    and seg: "?a = segment_of (base_offset ?a) (index_interval_bytes ?a) (seg_records ?a) (max_timestamp ?a)"
    using active_segment(1,2) [OF inv] by simp_all
  have nxt: "seg_next_offset ?a = base_offset ?a + int (length (seg_records ?a))"
    and sz: "seg_size ?a = int (length (file_bytes (seg_records ?a)))"
    using seg_rep_fields [OF rep] by simp_all
  have "\<forall>r \<in> set rs. valid_record r \<and> base_offset ?a \<le> rec_offset r"
    using valid cons nxt by (auto simp: consecutive_def in_set_conv_nth)
  moreover have "0 \<le> base_offset ?a"
    using rep by (rule seg_repE)
  moreover have "length (file_bytes (seg_records ?a @ rs)) < 2 ^ 64"
    using room by (simp add: room_for_def)
  ultimately obtain mt where "write_batch (batch_of (int (length (file_bytes (seg_records ?a)))) rs)
      (segment_of (base_offset ?a) (index_interval_bytes ?a) (seg_records ?a) (max_timestamp ?a))
    = (Inr (), segment_of (base_offset ?a) (index_interval_bytes ?a) (seg_records ?a @ rs) mt)"
    using write_batch_records by metis
  then have w: "write_batch (batch_of (seg_size ?a) rs) ?a
      = (Inr (), segment_of (base_offset ?a) (index_interval_bytes ?a) (seg_records ?a @ rs) mt)"
    unfolding seg [symmetric] sz .
  let ?s = "segment_of (base_offset ?a) (index_interval_bytes ?a) (seg_records ?a @ rs) mt"
  let ?l' = "extend_active rs mt (caught_up l)"
  have segs: "segments ?l' = segments (set_active ?s l)"
    by (simp add: extend_active_def set_active_def)
  have ext: "log_inv ?l'" "log_records ?l' = log_records l @ rs" "first_offset ?l' = first_offset l"
    "next_offset ?l' = seg_next_offset ?a + int (length rs)"
    using extend_active_inv [OF inv, of rs mt] cons valid room by simp_all
  have form: "?l' = (set_active ?s l)\<lparr>next_offset := next_offset ?l'\<rparr>"
    by (simp add: extend_active_def set_active_def) (simp add: caught_up_def)
  have "next_offset ?l' = seg_next_offset (last (segments (set_active ?s l)))"
    using ext(1) by (simp only: log_inv_def segs)
  then have cu: "caught_up (set_active ?s l) = ?l'"
    by (subst form) (simp add: caught_up_def)
  have "seg_records (active (set_active ?s l)) = seg_records ?a @ rs"
    using valid rep by (simp add: active_def set_active_def)
       (subst seg_records_segment_of, auto elim: seg_repE)
  moreover have "seg_next_offset (active (set_active ?s l)) = seg_next_offset ?a + int (length rs)"
    using ext(4) cu by (metis caught_up_simps(6))
  ultimately show thesis
    using that [OF w] ext cu by (metis caught_up_simps(4,5))
qed

lemma append_loop_inv:
  assumes "log_inv (caught_up l)" "consecutive (seg_next_offset (active l)) rs"
    "\<forall>r \<in> set rs. valid_record r" "room_for rs (active l)"
  shows "\<exists>l'. append_loop (map item_of rs) l = (Inr (), l') \<and> log_inv (caught_up l')
    \<and> log_records l' = log_records l @ rs \<and> first_offset l' = first_offset l
    \<and> seg_next_offset (active l') = seg_next_offset (active l) + int (length rs)"
  using assms
proof (induction "length rs" arbitrary: rs l rule: less_induct)
  case less
  show ?case
  proof (cases "rs = []")
    case True
    with less.prems show ?thesis by (subst append_loop.simps) simp
  next
    case False
    obtain k where k: "k \<le> length rs" "0 < k"
      "gather (max_segment_bytes l) True (seg_size (active l)) (map item_of rs)
         = Inr (batch_of (seg_size (active l)) (take k rs), map item_of (drop k rs))"
      using gather_items [OF less.prems(3), of "max_segment_bytes l" True] False by metis
    have cons: "consecutive (seg_next_offset (active l)) (take k rs)"
      "consecutive (seg_next_offset (active l) + int k) (drop k rs)"
      using less.prems(2) k(1) by (auto intro: consecutive_take consecutive_drop)
    have valid: "\<forall>r \<in> set (take k rs). valid_record r" "\<forall>r \<in> set (drop k rs). valid_record r"
      using less.prems(3) by (auto dest: in_set_takeD in_set_dropD)
    have parts: "length (file_bytes rs) = length (file_bytes (take k rs)) + length (file_bytes (drop k rs))"
      by (metis append_take_drop_id file_bytes_simps(3) length_append)
    have "room_for (take k rs) (active l)"
      using less.prems(4) parts by (simp add: room_for_def)
    then obtain s where s: "write_batch (batch_of (seg_size (active l)) (take k rs)) (active l) = (Inr (), s)"
      "log_inv (caught_up (set_active s l))" "log_records (set_active s l) = log_records l @ take k rs"
      "first_offset (set_active s l) = first_offset l"
      "seg_next_offset (active (set_active s l)) = seg_next_offset (active l) + int k"
      "seg_records (active (set_active s l)) = seg_records (active l) @ take k rs"
      using write_batch_active [OF less.prems(1) cons(1) valid(1)] k(1) by (metis length_take min.absorb2)
    have nonempty: "segments l \<noteq> []"
      using less.prems(1) by (simp add: log_inv_def)
    show ?thesis
    proof (cases "drop k rs = []")
      case True
      then have "append_loop (map item_of rs) l = (Inr (), set_active s l)"
        using False nonempty k(3) s(1) by (subst append_loop.simps) (simp add: active_def Let_def)
      with True k(1) s show ?thesis by simp
    next
      case more: False
      define l1 where "l1 = set_active s l"
      define l2 where "l2 = snd (new_segment (seg_next_offset (active l1)) l1)"
      have hd: "rec_offset (hd (drop k rs)) = seg_next_offset (active l1)"
        using cons(2) more s(5) by (cases "drop k rs") (auto simp: consecutive_Cons l1_def)
      have step: "append_loop (map item_of rs) l = append_loop (map item_of (drop k rs)) l2"
        using False nonempty k(3) s(1) more hd
        by (subst append_loop.simps)
           (simp add: active_def Let_def hd_map item_of_def l2_def l1_def new_segment_eq)
      have "snd (new_segment (next_offset (caught_up l1)) (caught_up l1)) = caught_up l2"
        by (simp add: l2_def new_segment_eq caught_up_def next_of_def active_def)
      moreover have "seg_records (active (caught_up l1)) \<noteq> []"
        using s(6) k(2) False by (simp add: l1_def)
      ultimately have l2: "log_inv (caught_up l2)" "log_records l2 = log_records l1"
        "first_offset l2 = first_offset l1" "seg_next_offset (active l2) = seg_next_offset (active l1)"
        "seg_records (active l2) = []"
        using roll_inv [of "caught_up l1"] s(2) by (simp_all add: l1_def)
      have "room_for (drop k rs) (active l2)"
        using less.prems(4) parts by (simp add: room_for_def l2(5))
      moreover have "length (drop k rs) < length rs"
        using k False by simp
      moreover have "consecutive (seg_next_offset (active l2)) (drop k rs)"
        using cons(2) by (simp add: l2(4) l1_def s(5))
      ultimately obtain l' where l': "append_loop (map item_of (drop k rs)) l2 = (Inr (), l')"
        "log_inv (caught_up l')" "log_records l' = log_records l2 @ drop k rs"
        "first_offset l' = first_offset l2"
        "seg_next_offset (active l') = seg_next_offset (active l2) + int (length (drop k rs))"
        using less.hyps [of "drop k rs" l2] l2(1) valid(2) by auto
      have "log_records l' = log_records l @ rs" "first_offset l' = first_offset l"
        "seg_next_offset (active l') = seg_next_offset (active l) + int (length rs)"
        using k(1) by (simp_all add: l' l2 l1_def s)
      with l'(1,2) step show ?thesis by simp
    qed
  qed
qed

definition many_records :: "int \<Rightarrow> bytes list \<Rightarrow> int list \<Rightarrow> log_record list" where
  "many_records off payloads tss =
     map (\<lambda>j. mk_record (off + int j) (tss ! j) (payloads ! j)) [0..<length payloads]"

lemma many_items_records:
  "length payloads \<le> length tss \<Longrightarrow>
     many_items off payloads tss = map item_of (many_records off payloads tss)"
  by (simp add: many_items_def many_records_def item_of_def)

lemma consecutive_many: "consecutive off (many_records off payloads tss)"
  by (simp add: consecutive_def many_records_def)

lemma length_many [simp]: "length (many_records off payloads tss) = length payloads"
  by (simp add: many_records_def)

lemma append_many_inv:
  assumes inv: "log_inv l" and len: "length payloads \<le> length tss"
    and valid: "\<forall>r \<in> set (many_records (next_offset l) payloads tss). valid_record r"
    and room: "room_for (many_records (next_offset l) payloads tss) (active l)"
  shows "\<exists>l'. append_many payloads (Some tss) now l =
      (Inr (map (\<lambda>j. next_offset l + int j) [0..<length payloads]), l') \<and> log_inv l'
    \<and> log_records l' = log_records l @ many_records (next_offset l) payloads tss
    \<and> first_offset l' = first_offset l \<and> next_offset l' = next_offset l + int (length payloads)"
proof (cases "payloads = []")
  case True
  with inv show ?thesis by (simp add: append_many_def many_records_def)
next
  case False
  let ?rs = "many_records (next_offset l) payloads tss"
  have nxt: "seg_next_offset (active l) = next_offset l"
    using inv by (simp add: log_inv_def active_def)
  obtain l' where l': "append_loop (many_items (next_offset l) payloads tss) l = (Inr (), l')"
    "log_inv (caught_up l')" "log_records l' = log_records l @ ?rs" "first_offset l' = first_offset l"
    "seg_next_offset (active l') = next_offset l + int (length payloads)"
    using append_loop_inv [of l ?rs] assms nxt consecutive_many
    by (auto simp: caught_up_inv many_items_records)
  let ?offs = "map (\<lambda>j. next_offset l + int j) [0..<length payloads]"
  have "last ?offs + 1 = seg_next_offset (last (segments l'))"
    using False l'(5) by (cases payloads) (auto simp: last_map active_def)
  then have "l'\<lparr>next_offset := last ?offs + 1\<rparr> = caught_up l'"
    by (simp add: caught_up_def)
  then have "append_many payloads (Some tss) now l = (Inr ?offs, caught_up l')"
    using False l'(1) by (simp add: append_many_def Let_def)
  with l' show ?thesis by simp
qed

section \<open>Reading\<close>

lemma index_search_upper:
  assumes "lo \<le> hi" "hi \<le> length idx" "hi = length idx \<or> t < fst (idx ! hi)"
  shows "index_search idx t lo hi = length idx \<or> t < fst (idx ! index_search idx t lo hi)"
  using assms
proof (induction idx t lo hi rule: index_search.induct)
  case (1 idx t lo hi)
  show ?case
  proof (cases "lo < hi")
    case True
    with "1.IH"(1) [OF True refl] "1.IH"(2) [OF True refl] "1.prems" show ?thesis
      by (subst (1 2) index_search.simps) (auto simp: Let_def not_le)
  next
    case False
    with "1.prems" show ?thesis by (simp add: index_search_done)
  qed
qed

lemma bisect_right_spec:
  assumes "sorted_wrt (<) bs"
  shows "bisect_right bs x \<le> length bs" and "\<forall>i < bisect_right bs x. bs ! i \<le> x"
    and "\<forall>i. bisect_right bs x \<le> i \<longrightarrow> i < length bs \<longrightarrow> x < bs ! i"
proof -
  define p where "p = bisect_right bs x"
  let ?idx = "map (\<lambda>b. (b, 0::int)) bs"
  have pos: "p \<le> length bs" "p = 0 \<or> fst (?idx ! (p - 1)) \<le> x" "p = length bs \<or> x < fst (?idx ! p)"
    using index_search_spec [of 0 "length bs" ?idx x] index_search_upper [of 0 "length bs" ?idx x]
    by (simp_all add: p_def bisect_right_def)
  have p: "p \<le> length bs" "p = 0 \<or> bs ! (p - 1) \<le> x"
    using pos(1,2) by (cases "p = 0"; simp)+
  have p': "p = length bs \<or> x < bs ! p"
    using pos(1,3) by (cases "p = length bs"; simp)
  have mono: "bs ! i \<le> bs ! j" if "i \<le> j" "j < length bs" for i j
    using assms that by (cases "i = j") (auto simp: sorted_wrt_iff_nth_less less_imp_le)
  show "bisect_right bs x \<le> length bs" using p by (simp add: p_def)
  show "\<forall>i < bisect_right bs x. bs ! i \<le> x"
  proof (intro allI impI)
    fix i assume "i < bisect_right bs x"
    then have "bs ! i \<le> bs ! (p - 1)" "p \<noteq> 0"
      using p(1) by (auto simp: p_def [symmetric] intro!: mono)
    with p(2) show "bs ! i \<le> x" by simp
  qed
  show "\<forall>i. bisect_right bs x \<le> i \<longrightarrow> i < length bs \<longrightarrow> x < bs ! i"
  proof (intro allI impI)
    fix i assume "bisect_right bs x \<le> i" "i < length bs"
    then have "bs ! p \<le> bs ! i" "p \<noteq> length bs"
      by (auto simp: p_def [symmetric] intro!: mono)
    with p' show "x < bs ! i" by simp
  qed
qed

lemma locate_segment:
  assumes chain: "seg_chain ss" and pos: "bisect_right (map base_offset ss) off = pos" "0 < pos"
  obtains pre s post where "ss = pre @ s # post" "length pre = pos - 1" "base_offset s \<le> off"
    "\<forall>t \<in> set post. off < base_offset t"
proof -
  have spec: "pos \<le> length ss" "\<forall>i < pos. base_offset (ss ! i) \<le> off"
    "\<forall>i. pos \<le> i \<longrightarrow> i < length ss \<longrightarrow> off < base_offset (ss ! i)"
    using bisect_right_spec [OF seg_chain_bases_sorted [OF chain], of off] pos by auto
  have "ss = take (pos - 1) ss @ ss ! (pos - 1) # drop pos ss"
    using spec(1) pos(2) by (metis Suc_pred' diff_less id_take_nth_drop less_le_trans zero_less_one)
  moreover have "\<forall>t \<in> set (drop pos ss). off < base_offset t"
    using spec(3) by (auto simp: in_set_conv_nth)
  ultimately show thesis
    using spec pos(2) by (intro that [of "take (pos - 1) ss" "ss ! (pos - 1)" "drop pos ss"]) auto
qed

lemma no_segment: "seg_chain ss \<Longrightarrow> ss \<noteq> [] \<Longrightarrow>
    bisect_right (map base_offset ss) off = 0 \<longleftrightarrow> off < base_offset (hd ss)"
  using bisect_right_spec [OF seg_chain_bases_sorted, of ss off]
  by (cases ss) (auto simp: not_less neq0_conv intro: gr0I)

lemma chain_end:
  "seg_chain (pre @ s # post) \<Longrightarrow>
     base_offset s = base_offset (hd (pre @ [s])) + int (length (concat (map seg_records pre)))"
proof (induction pre)
  case (Cons t pre)
  then show ?case by (cases pre) (auto simp: seg_chain_Cons)
qed simp

lemma seg_read_alog: "seg_rep s rs \<Longrightarrow> seg_read a s = alog_read (base_offset s) rs a"
  by (simp add: seg_read_rep alog_read_def)

lemma alog_read_chain:
  assumes chain: "seg_chain (pre @ s # post)" and "base_offset s \<le> off"
    and post: "\<forall>t \<in> set post. off < base_offset t"
  shows "alog_read (base_offset (hd (pre @ [s]))) (concat (map seg_records (pre @ s # post))) off
    = seg_read off s"
proof -
  have rep: "seg_rep s (seg_records s)"
    using seg_chain_rep [OF chain] by simp
  have "alog_read (base_offset s + int (length (seg_records s))) (concat (map seg_records post)) off = None"
    if "base_offset s + int (length (seg_records s)) \<le> off"
  proof (cases post)
    case (Cons t ts)
    have "seg_chain (s # t # ts)"
      using seg_chain_append [OF chain] Cons by simp
    with post Cons that show ?thesis by auto
  qed (simp add: alog_read_def)
  with assms chain_end [OF chain] show ?thesis
    by (auto simp: alog_read_append seg_read_alog [OF rep] alog_read_above not_less)
qed

lemma read_log_inv:
  assumes "log_inv l"
  shows "read_log off l = alog_read (first_offset l) (log_records l) off"
proof -
  have chain: "seg_chain (segments l)" "segments l \<noteq> []"
    using assms by (simp_all add: log_inv_def)
  define pos where "pos = bisect_right (map base_offset (segments l)) off"
  show ?thesis
  proof (cases "pos = 0")
    case True
    with no_segment [OF chain] show ?thesis
      by (simp add: read_log_def pos_def alog_read_below first_offset_def)
  next
    case False
    then obtain pre s post where split: "segments l = pre @ s # post" "length pre = pos - 1"
      "base_offset s \<le> off" "\<forall>t \<in> set post. off < base_offset t"
      using locate_segment [OF chain(1) pos_def [symmetric]] by auto
    have hd: "hd (pre @ s # post) = hd (pre @ [s])"
      by (cases pre) simp_all
    have eq: "alog_read (first_offset l) (log_records l) off = seg_read off s"
      using alog_read_chain [of pre s post off] chain(1) split
      by (simp add: first_offset_def log_records_def hd del: hd_append)
    have at: "segments l ! (pos - 1) = s"
      by (metis nth_append_length split(1,2))
    have prev: "seg_read off (segments l ! (pos - 2)) = None" if "1 < pos"
    proof -
      have "pre = butlast pre @ [last pre]"
        using that split(2) by (metis append_butlast_last_id diff_is_0_eq list.size(3) not_le)
      then have segs: "segments l = butlast pre @ last pre # s # post"
        using split(1) by (metis append.assoc append_Cons append_Nil)
      then have "seg_chain (last pre # s # post)"
        using chain(1) seg_chain_append by metis
      moreover have "length (butlast pre) = pos - 2"
        using split(2) by simp
      then have "segments l ! (pos - 2) = last pre"
        unfolding segs by (metis nth_append_length)
      ultimately show ?thesis
        using split(3) by (auto simp: seg_read_alog intro!: alog_read_above)
    qed
    show ?thesis
    proof (cases "seg_read off s")
      case None
      then show ?thesis
        using False at prev eq by (simp add: read_log_def pos_def [symmetric] Let_def)
    next
      case (Some r)
      then show ?thesis
        using False at eq by (simp add: read_log_def pos_def [symmetric] Let_def)
    qed
  qed
qed

section \<open>Truncation\<close>

lemma seg_truncate_chain:
  assumes rep: "seg_rep s rs" and "base_offset s \<le> off"
  obtains ch s' where "seg_truncate_from off s = (Inr ch, s')"
    "seg_rep s' (take (nat (off - base_offset s)) rs)" "base_offset s' = base_offset s"
    "index_interval_bytes s' = index_interval_bytes s" "ch \<longleftrightarrow> off < base_offset s + int (length rs)"
proof -
  define k where "k = nat (off - base_offset s)"
  have small: "length (file_bytes (take k rs)) < 2 ^ 64"
    using seg_rep_props(4) [OF rep]
    by (metis append_take_drop_id file_bytes_simps(3) le_add1 le_less_trans length_append)
  have keep: "seg_rep (segment_of (base_offset s) iv (take k rs) mt) (take k rs)" for iv mt
    using seg_rep_props(1-3) [OF rep] small
    by (intro seg_repI) (auto intro: consecutive_take dest: in_set_takeD)
  consider (all) "off = base_offset s" | (cut) "base_offset s < off" "off < base_offset s + int (length rs)"
    | (none) "base_offset s < off" "base_offset s + int (length rs) \<le> off"
    using assms(2) by linarith
  then show thesis
  proof cases
    case all
    show thesis
      by (rule that [of "rs \<noteq> []" "segment_of (base_offset s) (index_interval_bytes s) (take k rs) 0"])
         (use all keep seg_truncate_rep [OF rep, of off] in \<open>simp_all add: k_def\<close>)
  next
    case cut
    show thesis
      by (rule that [of True "segment_of (base_offset s) (index_interval_bytes s) (take k rs) (max_timestamp s)"])
         (use cut keep seg_truncate_rep [OF rep, of off] in \<open>simp_all add: k_def\<close>)
  next
    case none
    then have "length rs \<le> k" by (simp add: k_def)
    then have "take k rs = rs" by simp
    show thesis
      by (rule that [of False s])
         (use none rep \<open>take k rs = rs\<close> seg_truncate_rep [OF rep, of off] in \<open>simp_all add: k_def\<close>)
  qed
qed

lemma chain_after:
  assumes "seg_chain (pre @ s # post)" "post \<noteq> []" "\<forall>t \<in> set post. off < base_offset t"
  shows "off < base_offset s + int (length (seg_records s))"
  using seg_chain_append [OF assms(1)] assms(2,3) by (cases post) auto

lemma truncate_from_inv:
  assumes inv: "log_inv l"
  shows "\<exists>l'. truncate_from off l = (Inr (first_offset l \<le> off \<and> off < next_offset l), l') \<and> log_inv l'
    \<and> first_offset l' = first_offset l
    \<and> log_records l' = (if off < first_offset l then log_records l
        else take (nat (off - first_offset l)) (log_records l))
    \<and> next_offset l' = (if off < first_offset l then next_offset l else min off (next_offset l))"
proof -
  have chain: "seg_chain (segments l)" "segments l \<noteq> []"
    using inv by (simp_all add: log_inv_def)
  define pos where "pos = bisect_right (map base_offset (segments l)) off"
  show ?thesis
  proof (cases "pos = 0")
    case True
    with no_segment [OF chain] inv show ?thesis
      by (simp add: truncate_from_def pos_def first_offset_def)
  next
    case False
    then obtain pre s post where split: "segments l = pre @ s # post" "length pre = pos - 1"
      "base_offset s \<le> off" "\<forall>t \<in> set post. off < base_offset t"
      using locate_segment [OF chain(1) pos_def [symmetric]] by auto
    have rep: "seg_rep s (seg_records s)"
      using seg_chain_rep [OF chain(1)] split(1) by simp
    obtain ch s' where s': "seg_truncate_from off s = (Inr ch, s')"
      "seg_rep s' (take (nat (off - base_offset s)) (seg_records s))" "base_offset s' = base_offset s"
      "index_interval_bytes s' = index_interval_bytes s"
      "ch \<longleftrightarrow> off < base_offset s + int (length (seg_records s))"
      using seg_truncate_chain [OF rep split(3)] by metis
    define l' where "l' = l\<lparr>segments := pre @ [s'], next_offset := seg_next_offset s'\<rparr>"
    have at: "segments l ! (pos - 1) = s" "take pos (segments l) = pre @ [s]" "drop pos (segments l) = post"
      using False split(1,2) by (auto simp: nth_append)
    have tr: "truncate_from off l = (Inr (post \<noteq> [] \<or> ch), l')"
      using False at s'(1) by (simp add: truncate_from_def pos_def [symmetric] Let_def set_active_def l'_def)
    have recs: "seg_records s' = take (nat (off - base_offset s)) (seg_records s)"
      using s'(2) by (rule seg_records_rep)
    have "seg_chain ((pre @ [s]) @ post)"
      using chain(1) split(1) by simp
    then have "seg_chain (pre @ [s])"
      using seg_chain_append by blast
    then have "seg_chain (pre @ [s'])"
      using s'(2,3) recs by (simp add: seg_chain_snoc)
    then have inv': "log_inv l'"
      using inv s'(4) by (auto simp: log_inv_def l'_def split(1))
    have first: "first_offset l' = first_offset l" "first_offset l = base_offset (hd (pre @ [s]))"
      using s'(3) by (cases pre; simp add: first_offset_def l'_def split(1))+
    have len: "base_offset s = first_offset l + int (length (concat (map seg_records pre)))"
      using chain_end [of pre s post] chain(1) split(1) first(2) by simp
    have beyond: "nat (off - base_offset s) \<le> length (seg_records s)" if "post \<noteq> []"
      using chain_after [of pre s post off] chain(1) split that by simp
    have "nat (off - first_offset l) = length (concat (map seg_records pre)) + nat (off - base_offset s)"
      using len split(3) by simp
    then have recs': "log_records l' = take (nat (off - first_offset l)) (log_records l)"
      using beyond by (cases "post = []") (simp_all add: log_records_def l'_def split(1) recs)
    have le: "first_offset l \<le> off"
      using len split(3) by simp
    have nx: "next_offset l' = min off (next_offset l)"
      using log_inv_records(2) [OF inv'] log_inv_records(2) [OF inv] le 
      by (simp add: first(1) recs' min_def) arith
    have "(post \<noteq> [] \<or> ch) \<longleftrightarrow> off < next_offset l"
    proof (cases "post = []")
      case True
      then show ?thesis
        using s'(5) log_inv_records(2) [OF inv] len by (simp add: log_records_def split(1) add.assoc)
    next
      case False
      have "off < base_offset s + int (length (seg_records s))"
        using chain_after [of pre s post off] chain(1) split False by simp
      also have "\<dots> \<le> next_offset l"
        using log_inv_records(2) [OF inv] len by (simp add: log_records_def split(1))
      finally show ?thesis using False by simp
    qed
    with tr inv' first(1) recs' nx le show ?thesis by auto
  qed
qed

section \<open>Retention\<close>

lemma kept_segments:
  "ss \<noteq> [] \<Longrightarrow> filter (\<lambda>p. \<not> removable m (length ss) p) (enumerate 0 ss) =
     filter (\<lambda>p. \<not> (is_empty (snd p) \<or> base_offset (snd p) < m)) (enumerate 0 (butlast ss))
       @ [(length ss - 1, last ss)]"
proof (induction ss rule: rev_induct)
  case (snoc s ss)
  have "filter (\<lambda>p. \<not> removable m (Suc (length ss)) p) (enumerate 0 ss) =
      filter (\<lambda>p. \<not> (is_empty (snd p) \<or> base_offset (snd p) < m)) (enumerate 0 ss)"
    by (rule filter_cong) (auto simp: removable_def in_set_enumerate_eq)
  then show ?case
    by (simp add: enumerate_append_eq removable_def)
qed simp

lemma filter_enumerate: "map snd (filter (\<lambda>p. P (snd p)) (enumerate k xs)) = filter P xs"
  by (induction xs arbitrary: k) auto

lemma filter_sorted_bases:
  "sorted_wrt (<) (map base_offset ss) \<Longrightarrow>
     filter (\<lambda>s. \<not> base_offset s < m) ss = dropWhile (\<lambda>s. base_offset s < m) ss"
  by (induction ss) (fastforce simp: dropWhile_eq_self_iff dest: hd_in_set)+

lemma retention_chain:
  assumes "seg_chain ss" "ss \<noteq> []"
  shows "map snd (filter (\<lambda>p. \<not> removable m (length ss) p) (enumerate 0 ss))
    = dropWhile (\<lambda>s. base_offset s < m) (butlast ss) @ [last ss]"
proof -
  have "ss = butlast ss @ [last ss]"
    using assms(2) by simp
  have full: "\<not> is_empty s" if "s \<in> set (butlast ss)" for s
    using assms(1) that
  proof (induction ss rule: seg_chain.induct)
    case (3 s' t ss)
    then show ?case by (auto simp: seg_rep_fields(5) split: if_splits)
  qed auto
  have "sorted_wrt (<) (map base_offset (butlast ss))"
    using seg_chain_bases_sorted [OF assms(1)] by (simp add: map_butlast sorted_wrt_iff_nth_less nth_butlast)
  then have "dropWhile (\<lambda>s. base_offset s < m) (butlast ss) = filter (\<lambda>s. \<not> base_offset s < m) (butlast ss)"
    by (simp add: filter_sorted_bases)
  also have "\<dots> = filter (\<lambda>s. \<not> (is_empty s \<or> base_offset s < m)) (butlast ss)"
    using full by (intro filter_cong) auto
  finally show ?thesis
    using filter_enumerate [of "\<lambda>s. \<not> (is_empty s \<or> base_offset s < m)" 0 "butlast ss"]
    by (simp add: kept_segments [OF assms(2)])
qed

text \<open>
  Retention drops a prefix of the segments: those that start below the cut, but never the
  active one; the records that remain are a suffix of the log.
\<close>

lemma truncate_segments_before_inv:
  assumes inv: "log_inv l"
  shows "\<exists>k l'. truncate_segments_before m l = (k, l') \<and> k < length (segments l)
    \<and> segments l' = drop k (segments l) \<and> log_inv l' \<and> next_offset l' = next_offset l
    \<and> log_records l' = drop (nat (first_offset l' - first_offset l)) (log_records l)
    \<and> first_offset l \<le> first_offset l'
    \<and> (\<forall>s \<in> set (take k (segments l)). base_offset s < m)
    \<and> (m \<le> first_offset l' \<or> length (segments l') = 1)"
proof -
  let ?ss = "segments l"
  have chain: "seg_chain ?ss" "?ss \<noteq> []"
    using inv by (simp_all add: log_inv_def)
  define k where "k = length (takeWhile (\<lambda>s. base_offset s < m) (butlast ?ss))"
  define l' where "l' = l\<lparr>segments := drop k ?ss\<rparr>"
  have k: "k \<le> length (butlast ?ss)"
    unfolding k_def by (rule length_takeWhile_le)
  then have k_less: "k < length ?ss"
    using chain(2) by simp (metis Suc_pred length_greater_0_conv less_Suc_eq_le)
  have drop: "drop k ?ss = dropWhile (\<lambda>s. base_offset s < m) (butlast ?ss) @ [last ?ss]"
    using k chain(2) by (metis append_butlast_last_id diff_is_0_eq drop0 drop_append dropWhile_eq_drop k_def)
  have kept: "map snd (filter (\<lambda>p. \<not> removable m (length ?ss) p) (enumerate 0 ?ss)) = drop k ?ss"
    using retention_chain [OF chain] drop by simp
  have "length (filter (removable m (length ?ss)) (enumerate 0 ?ss)) + length (drop k ?ss) = length ?ss"
    unfolding kept [symmetric] by (simp add: sum_length_filter_compl)
  then have tr: "truncate_segments_before m l = (k, l')"
    using k_less kept by (simp add: truncate_segments_before_def Let_def l'_def)
  have split: "?ss = take k ?ss @ drop k ?ss" by simp
  have chain': "seg_chain (drop k ?ss)" "drop k ?ss \<noteq> []"
    using seg_chain_append [of "take k ?ss" "drop k ?ss"] chain(1) k_less by auto
  then have inv': "log_inv l'"
    using inv k_less by (auto simp: log_inv_def l'_def dest: in_set_dropD)
  have len: "first_offset l' = first_offset l + int (length (concat (map seg_records (take k ?ss))))"
  proof -
    obtain t ts where t: "drop k ?ss = t # ts"
      using chain'(2) by (cases "drop k ?ss") auto
    then have ss: "?ss = take k ?ss @ t # ts"
      using split by metis
    have "hd (take k ?ss @ [t]) = hd ?ss"
      using t by (metis append_self_conv2 hd_append list.sel(1) split)
    then show ?thesis
      using chain_end [of "take k ?ss" t ts] chain(1) ss t by (simp add: first_offset_def l'_def)
  qed
  have "concat (map seg_records ?ss) =
      concat (map seg_records (take k ?ss)) @ concat (map seg_records (drop k ?ss))"
    by (metis concat_append map_append split)
  then have "log_records l = concat (map seg_records (take k ?ss)) @ log_records l'"
    by (simp add: log_records_def l'_def)
  then have recs: "log_records l' = drop (nat (first_offset l' - first_offset l)) (log_records l)"
    using len by simp
  have "k \<le> length ?ss - 1"
    using k by simp
  then have "take k ?ss = take k (butlast ?ss)"
    by (simp add: butlast_conv_take)
  also have "\<dots> = takeWhile (\<lambda>s. base_offset s < m) (butlast ?ss)"
    unfolding k_def by (rule takeWhile_eq_take [symmetric])
  finally have prefix: "take k ?ss = takeWhile (\<lambda>s. base_offset s < m) (butlast ?ss)" .
  have "\<forall>s \<in> set (take k ?ss). base_offset s < m"
    unfolding prefix by (auto dest: set_takeWhileD)
  moreover have "m \<le> first_offset l' \<or> length (segments l') = 1"
    using hd_dropWhile [of "\<lambda>s. base_offset s < m" "butlast ?ss"] drop
    by (cases "dropWhile (\<lambda>s. base_offset s < m) (butlast ?ss)")
       (auto simp: first_offset_def l'_def)
  ultimately show ?thesis
    using tr k_less inv' recs len by (auto simp: l'_def)
qed

section \<open>File names\<close>

lemma int_of_digits_snoc: "int_of_digits (s @ [c]) = 10 * int_of_digits s + (of_char c - 48)"
  by (simp add: int_of_digits_def)

lemma digit_range: "d < 10 \<Longrightarrow> (of_char (digit_char d) :: nat) = 48 + d"
  by (simp add: digit_char_def)

lemma digit_value: "d < 10 \<Longrightarrow> (of_char (digit_char d) :: int) = 48 + int d"
  using digit_range [of d] of_nat_of_char [of "digit_char d", where 'a = int] by simp

lemma int_of_nat_str: "int_of_digits (nat_str n) = int n"
proof (induction n rule: nat_str.induct)
  case (1 n)
  show ?case
  proof (cases "n < 10")
    case True
    then show ?thesis
      by (subst nat_str.simps) (simp add: int_of_digits_def digit_value)
  next
    case False
    have "int n = 10 * (int n div 10) + int n mod 10" by simp
    with False "1.IH" show ?thesis
      by (subst nat_str.simps) (simp add: int_of_digits_snoc digit_value zdiv_int zmod_int)
  qed
qed

lemma nat_str_digits: "is_digits (nat_str n)"
proof (induction n rule: nat_str.induct)
  case (1 n)
  then show ?case
    by (subst nat_str.simps) (auto simp: is_digits_def digit_range)
qed

lemma int_of_padded: "int_of_digits (replicate k (CHR ''0'') @ s) = int_of_digits s"
  by (induction k) (simp_all add: int_of_digits_def)

lemma stem_digits: "is_digits (stem b)"
  using nat_str_digits [of "nat b"] by (auto simp: stem_def pad_left_def is_digits_def list_all_iff)

lemma int_of_stem [simp]: "0 \<le> b \<Longrightarrow> int_of_digits (stem b) = b"
  by (simp add: stem_def pad_left_def int_of_padded int_of_nat_str)

lemma stem_inj: "0 \<le> a \<Longrightarrow> 0 \<le> b \<Longrightarrow> stem a = stem b \<longleftrightarrow> a = b"
  by (metis int_of_stem)

lemma ends_with_append: "ends_with t (s @ t)"
  by (simp add: ends_with_def)

lemma index_not_log: "\<not> ends_with ''.log'' (s @ ''.index'')"
proof -
  have "length (s @ ''.index'') - length ''.log'' = length s + 2" by simp
  then show ?thesis by (simp add: ends_with_def)
qed

lemma log_not_index: "s @ ''.log'' \<noteq> t @ ''.index''"
  using index_not_log [of t] ends_with_append [of "''.log''" s] by metis

definition seg_files :: "segment \<Rightarrow> directory" where
  "seg_files s = [(stem (base_offset s) @ ''.log'', contents (log_file s)),
     (stem (base_offset s) @ ''.index'', contents (index_file s))]"

lemma dir_of_seg_files: "dir_of l = concat (map seg_files (segments l))"
  by (simp add: dir_of_def seg_files_def [abs_def])

lemma dir_stems_files:
  assumes "\<forall>s \<in> set ss. 0 \<le> base_offset s" "sorted_wrt (<) (map base_offset ss)"
  shows "dir_stems (concat (map seg_files ss)) = map base_offset ss"
proof -
  let ?keep = "\<lambda>name. ends_with ''.log'' name \<and> is_digits (take (length name - 4) name)"
  have "map (\<lambda>name. int_of_digits (take (length name - 4) name))
      (filter ?keep (map fst (concat (map seg_files ss)))) = map base_offset ss"
    using assms(1)
    by (induction ss)
       (simp_all add: seg_files_def ends_with_append index_not_log stem_digits)
  moreover have "sorted (map base_offset ss)"
    using assms(2) by (simp add: strict_sorted_iff)
  ultimately show ?thesis
    by (simp add: dir_stems_def sorted_sort_id)
qed

lemma map_of_files:
  assumes "\<forall>s \<in> set ss. 0 \<le> base_offset s" "distinct (map base_offset ss)" "s \<in> set ss"
  shows "map_of (concat (map seg_files ss)) (stem (base_offset s) @ ''.log'') = Some (contents (log_file s))"
  using assms
proof (induction ss)
  case (Cons t ss)
  show ?case
  proof (cases "s = t")
    case False
    with Cons.prems have "base_offset s \<in> base_offset ` set ss"
      by simp
    with Cons.prems have "base_offset s \<noteq> base_offset t"
      by auto
    with Cons.prems have "stem (base_offset s) \<noteq> stem (base_offset t)"
      by (auto simp: stem_inj)
    with False Cons show ?thesis
      by (simp add: seg_files_def log_not_index)
  qed (simp add: seg_files_def)
qed simp

section \<open>Reopening after a crash\<close>

text \<open>
  A crash can leave the active log file cut at any byte, and the index files in any state;
  \<open>torn n l\<close> is the log whose active file holds only its first \<open>n\<close> bytes.
\<close>

definition torn :: "nat \<Rightarrow> commit_log \<Rightarrow> commit_log" where
  "torn n l = set_active ((active l)\<lparr>log_file := Some (take n (contents (log_file (active l))))\<rparr>) l"

lemma recover_whole:
  assumes "seg_rep s rs"
  shows "recover (segment_init (base_offset s) iv (Some (file_bytes rs)) idxf) =
    (Inr (base_offset s + int (length rs)), segment_of (base_offset s) (max 1 iv) rs (max_ts rs))"
proof -
  have "\<forall>r \<in> set rs. valid_record r \<and> base_offset s \<le> rec_offset r"
    using seg_rep_props(2,3) [OF assms] by (auto simp: consecutive_def in_set_conv_nth)
  then show ?thesis
    using recover_segment [of "segment_init (base_offset s) iv (Some (file_bytes rs)) idxf" rs "[]"]
      seg_rep_props [OF assms]
    by (simp add: segment_init_def next_of_consecutive)
qed

lemma recover_cut:
  assumes "seg_rep s rs"
  shows "recover (segment_init (base_offset s) iv (Some (take n (file_bytes rs))) idxf) =
    (Inr (base_offset s + int (length (whole_records n rs))),
     segment_of (base_offset s) (max 1 iv) (whole_records n rs) (max_ts (whole_records n rs)))"
proof -
  note props = seg_rep_props [OF assms]
  obtain k where k: "whole_records n rs = take k rs"
    using whole_records_prefix [OF props(3)] by metis
  obtain ws tail where parse: "parse_records (take n (file_bytes rs)) = (ws, tail)"
    by fastforce
  then have ws: "ws = take k rs" "take n (file_bytes rs) = file_bytes ws @ tail" "no_record tail"
    using k parse_records_sound [OF parse] by (simp_all add: whole_records_def)
  have "\<forall>r \<in> set ws. valid_record r \<and> base_offset s \<le> rec_offset r"
    using props(2,3) ws(1) by (fastforce simp: consecutive_def in_set_conv_nth dest: in_set_takeD)
  moreover have "length (file_bytes ws) < 2 ^ 64"
    using props(4) arg_cong [OF ws(2), of length] by simp
  moreover have "consecutive (base_offset s) ws"
    using props(2) ws(1) by (simp add: consecutive_take)
  ultimately show ?thesis
    using recover_segment [of "segment_init (base_offset s) iv (Some (take n (file_bytes rs))) idxf" ws tail]
      props(1) ws k by (simp add: segment_init_def next_of_consecutive)
qed

lemma recover_segments_append:
  "recover_segments (xs @ ys) =
     (case recover_segments xs of Inl e \<Rightarrow> Inl e
      | Inr xs' \<Rightarrow> (case recover_segments ys of Inl e \<Rightarrow> Inl e | Inr ys' \<Rightarrow> Inr (xs' @ ys')))"
  by (induction xs) (auto split: sum.splits prod.splits)

lemma recover_segments_whole:
  "\<forall>s \<in> set ss. seg_rep s (seg_records s) \<Longrightarrow>
     recover_segments (map (\<lambda>s. segment_init (base_offset s) iv (Some (file_bytes (seg_records s))) (idxf s)) ss)
     = Inr (map (\<lambda>s. segment_of (base_offset s) (max 1 iv) (seg_records s) (max_ts (seg_records s))) ss)"
  by (induction ss) (simp_all add: recover_whole)

lemma length_file_take: "length (file_bytes (take k rs)) \<le> length (file_bytes rs)"
  by (metis append_take_drop_id file_bytes_simps(3) le_add1 length_append)

lemma seg_chain_cong:
  assumes "seg_chain (ss @ [a])" "map base_offset ts = map base_offset ss" "base_offset b = base_offset a"
    "map seg_records ts = map seg_records ss" "\<forall>t \<in> set (ts @ [b]). seg_rep t (seg_records t)"
  shows "seg_chain (ts @ [b])"
  using assms
proof (induction ts arbitrary: ss)
  case (Cons t ts)
  then obtain s ss' where ss: "ss = s # ss'" by (cases ss) auto
  with Cons have IH: "seg_chain (ts @ [b])"
    by (cases "ss' = []") (auto simp: seg_chain_Cons)
  have "base_offset (hd (ts @ [b])) = base_offset (hd (ss' @ [a]))"
    using Cons.prems ss by (cases ts; cases ss') auto
  with IH Cons.prems ss show ?case
    by (auto simp: seg_chain_Cons)
qed simp

text \<open>What the constructor builds from the files of a list of segments before it recovers them.\<close>

definition seg_inits :: "directory \<Rightarrow> int \<Rightarrow> segment list" where
  "seg_inits dir iv = map (\<lambda>b. segment_init b iv (map_of dir (stem b @ ''.log''))
     (map_of dir (stem b @ ''.index''))) (dir_stems dir)"

lemma seg_inits_files:
  assumes "\<forall>s \<in> set ss. 0 \<le> base_offset s" "sorted_wrt (<) (map base_offset ss)"
  shows "\<exists>idxf. seg_inits (concat (map seg_files ss)) iv =
    map (\<lambda>s. segment_init (base_offset s) iv (Some (contents (log_file s))) (idxf s)) ss"
proof -
  let ?dir = "concat (map seg_files ss)"
  have "distinct (map base_offset ss)"
    using assms(2) by (simp add: strict_sorted_iff)
  then have "map_of ?dir (stem (base_offset s) @ ''.log'') = Some (contents (log_file s))"
    if "s \<in> set ss" for s
    using map_of_files [OF assms(1)] that by blast
  then have "seg_inits ?dir iv = map (\<lambda>s. segment_init (base_offset s) iv
      (Some (contents (log_file s))) (map_of ?dir (stem (base_offset s) @ ''.index''))) ss"
    by (simp add: seg_inits_def dir_stems_files [OF assms])
  then show ?thesis
    by (rule exI [of _ "\<lambda>s. map_of ?dir (stem (base_offset s) @ ''.index'')"])
qed

text \<open>The segments that recovery makes of a chain whose last file holds only the records \<open>ws\<close>.\<close>

definition rebuilt :: "int \<Rightarrow> segment list \<Rightarrow> segment \<Rightarrow> log_record list \<Rightarrow> segment list" where
  "rebuilt iv ss a ws =
     map (\<lambda>s. segment_of (base_offset s) iv (seg_records s) (max_ts (seg_records s))) ss
       @ [segment_of (base_offset a) iv ws (max_ts ws)]"

lemma rebuilt_chain:
  assumes chain: "seg_chain (ss @ [a])" and ws: "ws = take k (seg_records a)"
  shows "seg_chain (rebuilt iv ss a ws)"
    and "map seg_records (rebuilt iv ss a ws) = map seg_records ss @ [ws]"
proof -
  have reps: "\<forall>s \<in> set (ss @ [a]). seg_rep s (seg_records s)"
    using seg_chain_rep [OF chain] by blast
  then have arep: "seg_rep a (seg_records a)" by simp
  let ?rec = "\<lambda>s rs. segment_of (base_offset s) iv rs (max_ts rs)"
  have wrep: "seg_rep (?rec a ws) ws"
    using seg_rep_props [OF arep] length_file_take [of k "seg_records a"]
    by (intro seg_repI) (auto simp: ws consecutive_take dest: in_set_takeD)
  have rrep: "seg_rep (?rec s (seg_records s)) (seg_records s)" if "s \<in> set ss" for s
    using seg_rep_props reps that by (intro seg_repI) auto
  have front: "map seg_records (map (\<lambda>s. ?rec s (seg_records s)) ss) = map seg_records ss"
    using seg_records_rep [OF rrep] by simp
  then show "map seg_records (rebuilt iv ss a ws) = map seg_records ss @ [ws]"
    using seg_records_rep [OF wrep] by (simp only: rebuilt_def map_append list.map)
  show "seg_chain (rebuilt iv ss a ws)"
    unfolding rebuilt_def
  proof (rule seg_chain_cong [OF chain])
    show "\<forall>t \<in> set (map (\<lambda>s. ?rec s (seg_records s)) ss @ [?rec a ws]). seg_rep t (seg_records t)"
      using seg_rep_records [OF rrep] seg_rep_records [OF wrep] by simp
  qed (use front in simp_all)
qed

lemma recover_rebuilt:
  assumes "\<forall>s \<in> set (ss @ [a]). seg_rep s (seg_records s)"
  shows "recover_segments (map (\<lambda>s. segment_init (base_offset s) iv (Some (contents (log_file s))) (idxf s))
      (ss @ [a\<lparr>log_file := Some (take n (file_bytes (seg_records a)))\<rparr>]))
    = Inr (rebuilt (max 1 iv) ss a (whole_records n (seg_records a)))"
proof -
  have "contents (log_file s) = file_bytes (seg_records s)" if "s \<in> set ss" for s
    using seg_rep_fields(3) [of s "seg_records s"] assms that by simp
  then have front: "map (\<lambda>s. segment_init (base_offset s) iv (Some (contents (log_file s))) (idxf s)) ss
      = map (\<lambda>s. segment_init (base_offset s) iv (Some (file_bytes (seg_records s))) (idxf s)) ss"
    by simp
  show ?thesis
    unfolding map_append front
    using assms recover_cut [of a "seg_records a" iv n]
    by (simp add: recover_segments_append recover_segments_whole rebuilt_def)
qed

lemma reopen_torn:
  assumes inv: "log_inv l"
  shows "\<exists>l'. open_log (dir_of (torn n l)) (max_segment_bytes l) (log_interval l) = Inr l' \<and> log_inv l'
    \<and> first_offset l' = first_offset l
    \<and> log_records l' = concat (map seg_records (butlast (segments l)))
        @ whole_records n (seg_records (active l))
    \<and> next_offset l' = first_offset l + int (length (log_records l'))"
proof -
  define a where "a = active l"
  define ss where "ss = butlast (segments l)"
  define ws where "ws = whole_records n (seg_records a)"
  define a' where "a' = a\<lparr>log_file := Some (take n (file_bytes (seg_records a)))\<rparr>"
  define ss' where "ss' = rebuilt (max 1 (log_interval l)) ss a ws"
  have segs: "segments l = ss @ [a]"
    using inv segments_split by (simp add: log_inv_def a_def ss_def)
  have chain: "seg_chain (ss @ [a])"
    using inv by (simp add: log_inv_def segs)
  have reps: "\<forall>s \<in> set (ss @ [a]). seg_rep s (seg_records s)"
    using seg_chain_rep [OF chain] by blast
  have "contents (log_file a) = file_bytes (seg_records a)"
    using seg_rep_fields(3) [of a "seg_records a"] reps by simp
  then have "segments (torn n l) = ss @ [a']"
    by (simp add: torn_def set_active_def a'_def segs a_def [symmetric])
  then have dir: "dir_of (torn n l) = concat (map seg_files (ss @ [a']))"
    by (simp add: dir_of_seg_files)
  have "sorted_wrt (<) (map base_offset (ss @ [a']))"
    using seg_chain_bases_sorted [OF chain] by (simp add: a'_def)
  moreover have "\<forall>s \<in> set (ss @ [a']). 0 \<le> base_offset s"
    using reps seg_rep_props(1) by (auto simp: a'_def)
  ultimately obtain idxf where inits: "seg_inits (dir_of (torn n l)) (log_interval l) =
      map (\<lambda>s. segment_init (base_offset s) (log_interval l) (Some (contents (log_file s))) (idxf s)) (ss @ [a'])"
    unfolding dir using seg_inits_files by blast
  define l' where "l' = \<lparr>max_segment_bytes = max 1 (max_segment_bytes l), log_interval = log_interval l,
      segments = ss', next_offset = seg_next_offset (last ss')\<rparr>"
  have recovered: "recover_segments (seg_inits (dir_of (torn n l)) (log_interval l)) = Inr ss'"
    unfolding inits a'_def ss'_def ws_def using reps by (rule recover_rebuilt)
  have "seg_inits (dir_of (torn n l)) (log_interval l) \<noteq> []"
    by (simp add: inits)
  with recovered have opened: "open_log (dir_of (torn n l)) (max_segment_bytes l) (log_interval l) = Inr l'"
    unfolding open_log_def Let_def seg_inits_def [symmetric] by (simp add: l'_def)
  have "seg_rep a (seg_records a)"
    using reps by simp
  then obtain k where k: "ws = take k (seg_records a)"
    using whole_records_prefix [of "seg_records a"] seg_rep_props(3) by (metis ws_def)
  note chain' = rebuilt_chain [OF chain k, of "max 1 (log_interval l)", folded ss'_def]
  have inv': "log_inv l'"
    using chain'(1) by (auto simp: log_inv_def l'_def ss'_def rebuilt_def)
  have "first_offset l' = first_offset l"
    by (cases ss) (simp_all add: first_offset_def l'_def ss'_def rebuilt_def segs)
  moreover have "log_records l' = concat (map seg_records ss) @ ws"
    using chain'(2) by (simp add: log_records_def l'_def)
  ultimately show ?thesis
    using opened inv' log_inv_records(2) [OF inv'] by (auto simp: ss_def a_def ws_def)
qed

section \<open>A new log, and the log as an instance of its interface\<close>

definition fresh_log :: "int \<Rightarrow> int \<Rightarrow> commit_log" where
  "fresh_log max_bytes iv = \<lparr>max_segment_bytes = max 1 max_bytes, log_interval = iv,
     segments = [segment_of 0 (max 1 iv) [] 0], next_offset = 0\<rparr>"

lemma open_empty: "open_log [] max_bytes iv = Inr (fresh_log max_bytes iv)"
  by (simp add: open_log_def dir_stems_def new_segment_eq fresh_log_def)

lemma fresh_segment: "seg_rep (segment_of 0 (max 1 iv) [] 0) []"
  by (intro seg_repI) auto

lemma fresh_log_inv: "log_inv (fresh_log max_bytes iv)"
  using fresh_segment [of iv] seg_rep_records [OF fresh_segment, of iv]
  by (auto simp: log_inv_def fresh_log_def next_of_def)

lemma fresh_log_fields [simp]:
  "log_records (fresh_log max_bytes iv) = []" "first_offset (fresh_log max_bytes iv) = 0"
  "next_offset (fresh_log max_bytes iv) = 0" "seg_records (active (fresh_log max_bytes iv)) = []"
  by (simp_all add: fresh_log_def log_records_def first_offset_def active_def
      seg_records_segment_of)

text \<open>A record that fits the format and the 64-bit positions of the index.\<close>

definition accepts_record :: "bytes \<Rightarrow> int \<Rightarrow> commit_log \<Rightarrow> bool" where
  "accepts_record pl ts l \<longleftrightarrow> valid_record (mk_record (next_offset l) ts pl)
     \<and> room_for [mk_record (next_offset l) ts pl] (active l)"

lemmas format_simps = valid_record_def fits_unsigned_def fits_signed_def MAX_RECORD_BYTES_def
  length_record_bytes HEADER_SIZE_def

lemma fresh_accepts: "length pl \<le> 100 \<Longrightarrow> 0 \<le> ts \<Longrightarrow> ts < 100 \<Longrightarrow> accepts_record pl ts (fresh_log m iv)"
  by (simp add: accepts_record_def room_for_def format_simps)

interpretation cl: growing_log log_inv first_offset log_records next_offset read_log
  "\<lambda>pl ts. append_log pl (Some ts) now" accepts_record for now
proof
  fix l pl ts
  assume "log_inv l" "accepts_record pl ts l"
  then show "\<exists>l'. append_log pl (Some ts) now l = (Inr (next_offset l), l') \<and> log_inv l'
      \<and> first_offset l' = first_offset l
      \<and> log_records l' = log_records l @ [mk_record (next_offset l) ts pl]"
    using append_log_inv [of l ts pl now] by (auto simp: accepts_record_def)
qed (simp_all add: log_inv_records read_log_inv)

interpretation cut: cutting_log log_inv first_offset log_records next_offset read_log truncate_from
proof
  fix l a
  assume "log_inv l" "first_offset l \<le> a"
  then show "\<exists>l'. truncate_from a l = (Inr (a < next_offset l), l') \<and> log_inv l'
      \<and> first_offset l' = first_offset l
      \<and> log_records l' = take (nat (a - first_offset l)) (log_records l)"
    using truncate_from_inv [of l a] by fastforce
qed

end
