(* ===== verification/Log_Histories.thy ===== *)
theory Log_Histories
  imports Commit_Log_Props
begin

text \<open>
  The states a commit log can reach, calls that raise an exception included. An append raises when the record format
  cannot hold the timestamp or the offset, and may have started a new segment by then; a group commit raises in the
  middle of its loop, when earlier batches are already on disk. The lemmas follow both through these
  paths: the segments stay a chain of whole records, and only after a group commit that raised behind its
  first batch does the next offset of the object lag behind the segments.
\<close>

section \<open>Appending with any outcome\<close>

text \<open>The record format accepts the lengths of the payloads, and the active file stays below \<open>2 ^ 64\<close> bytes.\<close>

definition payload_room :: "bytes list \<Rightarrow> commit_log \<Rightarrow> bool" where
  "payload_room payloads l \<longleftrightarrow> (\<forall>pl \<in> set payloads. int (length pl) \<le> MAX_RECORD_BYTES)
     \<and> seg_size (active l) + int (sum_list (map (\<lambda>pl. HEADER_SIZE + length pl) payloads)) < 2 ^ 64"

lemma active_size: "log_inv (caught_up l) \<Longrightarrow> seg_size (active l) = int (length (file_bytes (seg_records (active l))))"
  using active_segment(2) [of "caught_up l"] seg_rep_fields(2) by simp

lemma length_file_payloads:
  "length (file_bytes rs) = sum_list (map (\<lambda>r. HEADER_SIZE + length (rec_payload r)) rs)"
  by (induction rs) (simp_all add: length_record_bytes)

lemma encoded_valid:
  assumes "encode_record off pl ts = Inr rb" "int (length pl) \<le> MAX_RECORD_BYTES"
  shows "valid_record (mk_record off ts pl)" "rb = record_bytes (mk_record off ts pl)"
  using assms encode_record_eq [of "mk_record off ts pl"] by (auto simp: valid_record_def split: if_splits)

lemma append_log_default: "append_log pl ts_opt now l = append_log pl (Some (case ts_opt of None \<Rightarrow> now | Some t \<Rightarrow> t)) now l"
  by (simp add: append_log_def Let_def)

lemma append_log_any:
  assumes inv: "log_inv l" and room: "payload_room [pl] l" and run: "append_log pl ts_opt now l = (res, l')"
  shows "log_inv l'"
proof -
  define ts where "ts = (case ts_opt of None \<Rightarrow> now | Some t \<Rightarrow> t)"
  have run': "append_log pl (Some ts) now l = (res, l')"
    using run append_log_default [of pl ts_opt now l] by (simp add: ts_def)
  show ?thesis
  proof (cases "encode_record (next_offset l) pl ts")
    case (Inr rb)
    moreover have "seg_size (active l) = int (length (file_bytes (seg_records (active l))))"
      using inv active_size caught_up_inv by metis
    ultimately show ?thesis
      using append_log_inv [of l ts pl now] encoded_valid(1) [OF Inr] inv room run'
      by (auto simp: payload_room_def room_for_def length_record_bytes)
  next
    case (Inl e)
    define l1 where "l1 = (if seg_size (last (segments l)) \<ge> max_segment_bytes l
        then snd (new_segment (next_offset l) l) else l)"
    have "log_inv l1"
    proof (cases "seg_size (last (segments l)) \<ge> max_segment_bytes l")
      case True
      then have "seg_records (active l) \<noteq> []"
        using inv seg_rep_fields(2) [OF active_segment(2) [OF inv]] by (auto simp: log_inv_def active_def)
      then show ?thesis using roll_inv(1) [OF inv] True by (simp add: l1_def)
    qed (use inv in \<open>simp add: l1_def\<close>)
    moreover have "l' = l1"
      using run' Inl inv by (auto simp: append_log_def Let_def l1_def new_segment_eq log_inv_def split: if_splits)
    ultimately show ?thesis by simp
  qed
qed

section \<open>Group commit with any outcome\<close>

text \<open>A batch that was gathered holds records in the order of the items, and no record the format refuses.\<close>

lemma gather_records:
  assumes "gather limit first pos items = Inr (b, rest)" "\<forall>(off, pl, t) \<in> set items. int (length pl) \<le> MAX_RECORD_BYTES"
  shows "\<exists>rs. items = map item_of rs @ rest \<and> b = batch_of pos rs \<and> (\<forall>r \<in> set rs. valid_record r)
    \<and> (first \<longrightarrow> items \<noteq> [] \<longrightarrow> rs \<noteq> [])"
  using assms
proof (induction limit first pos items arbitrary: b rest rule: gather.induct)
  case (2 limit first pos off pl ts_opt items)
  from "2.prems"(1) obtain ts rb where t: "ts_opt = Some ts" "encode_record off pl ts = Inr rb"
    by (auto split: option.splits sum.splits)
  let ?r = "mk_record off ts pl"
  have r: "valid_record ?r" "rb = record_bytes ?r" "item_of ?r = (off, pl, ts_opt)"
    using encoded_valid [OF t(2)] "2.prems"(2) t(1) by (auto simp: item_of_def)
  show ?case
  proof (cases "\<not> first \<and> pos + int (length rb) > limit")
    case True
    then show ?thesis using "2.prems"(1) t by (auto intro: exI [of _ "[]"])
  next
    case False
    then obtain b' where b': "gather limit False (pos + int (length rb)) items = Inr (b', rest)"
        "b = (off, pos, ts, rb) # b'"
      using "2.prems"(1) t by (auto split: sum.splits prod.splits)
    then obtain rs where "items = map item_of rs @ rest" "b' = batch_of (pos + int (length rb)) rs"
        "\<forall>r \<in> set rs. valid_record r"
      using "2.IH" [OF t False] "2.prems"(2) by fastforce
    then show ?thesis using r b' by (intro exI [of _ "?r # rs"]) simp
  qed
qed simp

definition items_from :: "int \<Rightarrow> item list \<Rightarrow> bool" where
  "items_from a items \<longleftrightarrow> (\<forall>j < length items. fst (items ! j) = a + int j)"

lemma items_from_append:
  "items_from a (map item_of rs @ rest) \<longleftrightarrow> consecutive a rs \<and> items_from (a + int (length rs)) rest"
proof
  assume l: "items_from a (map item_of rs @ rest)"
  have "rec_offset (rs ! j) = a + int j" if "j < length rs" for j
    using l that by (auto simp: items_from_def nth_append item_of_def dest!: spec [of _ j])
  moreover have "fst (rest ! j) = a + int (length rs) + int j" if "j < length rest" for j
    using l that by (auto simp: items_from_def nth_append dest!: spec [of _ "length rs + j"])
  ultimately show "consecutive a rs \<and> items_from (a + int (length rs)) rest"
    by (simp add: consecutive_def items_from_def)
qed (auto simp: items_from_def consecutive_def nth_append item_of_def)

definition item_room :: "item list \<Rightarrow> segment \<Rightarrow> bool" where
  "item_room items s \<longleftrightarrow> (\<forall>(off, pl, t) \<in> set items. int (length pl) \<le> MAX_RECORD_BYTES)
     \<and> length (file_bytes (seg_records s)) + sum_list (map (\<lambda>(off, pl, t). HEADER_SIZE + length pl) items) < 2 ^ 64"

lemma sum_items_records: "sum_list (map (\<lambda>(off, pl, t). HEADER_SIZE + length pl) (map item_of rs)) = length (file_bytes rs)"
  by (simp add: length_file_payloads item_of_def comp_def)

lemma append_loop_any:
  assumes "log_inv (caught_up l)" "items_from (seg_next_offset (active l)) items" "item_room items (active l)"
    and "append_loop items l = (res, l')"
  shows "log_inv (caught_up l') \<and> max_segment_bytes l' = max_segment_bytes l \<and> log_interval l' = log_interval l
    \<and> (res = Inr () \<longrightarrow> seg_next_offset (active l') = seg_next_offset (active l) + int (length items))"
  using assms
proof (induction "length items" arbitrary: items l rule: less_induct)
  case less
  have nonempty: "segments l \<noteq> []" using less.prems(1) by (simp add: log_inv_def)
  show ?case
  proof (cases "items = [] \<or> (\<exists>e. gather (max_segment_bytes l) True (seg_size (active l)) items = Inl e)")
    case True
    then have "l' = l \<and> (res = Inr () \<longrightarrow> items = [])"
      using less.prems(4) nonempty by (subst (asm) append_loop.simps) (auto simp: active_def split: if_splits)
    then show ?thesis using less.prems(1) by auto
  next
    case False
    then obtain b rest where g: "gather (max_segment_bytes l) True (seg_size (active l)) items = Inr (b, rest)"
      by (cases "gather (max_segment_bytes l) True (seg_size (active l)) items") auto
    then obtain rs where rs: "items = map item_of rs @ rest" "b = batch_of (seg_size (active l)) rs"
        "\<forall>r \<in> set rs. valid_record r" "rs \<noteq> []"
      using gather_records [OF g] less.prems(3) False by (auto simp: item_room_def)
    have cons: "consecutive (seg_next_offset (active l)) rs"
      and more: "items_from (seg_next_offset (active l) + int (length rs)) rest"
      using less.prems(2) rs(1) by (simp_all add: items_from_append)
    have "room_for rs (active l)"
      using less.prems(3) rs(1) sum_items_records [of rs] by (simp add: item_room_def room_for_def)
    then obtain s where s: "write_batch b (active l) = (Inr (), s)" "log_inv (caught_up (set_active s l))"
        "seg_next_offset (active (set_active s l)) = seg_next_offset (active l) + int (length rs)"
        "seg_records (active (set_active s l)) = seg_records (active l) @ rs"
      using write_batch_active [OF less.prems(1) cons rs(3)] rs(2) by metis
    define l1 where "l1 = set_active s l"
    define l2 where "l2 = snd (new_segment (seg_next_offset (active l1)) l1)"
    have kept: "max_segment_bytes l1 = max_segment_bytes l" "log_interval l1 = log_interval l"
      by (simp_all add: l1_def set_active_def)
    show ?thesis
    proof (cases "rest = []")
      case True
      then have "l' = l1"
        using less.prems(4) g s(1) False nonempty
        by (subst (asm) append_loop.simps) (simp add: active_def l1_def)
      then show ?thesis using s True rs(1) kept by (simp add: l1_def)
    next
      case cont: False
      have hd: "fst (hd rest) = seg_next_offset (active l1)"
        using more cont s(3) by (auto simp: items_from_def hd_conv_nth l1_def)
      have "append_loop items l = append_loop rest l2"
        using g s(1) False nonempty cont hd
        by (subst append_loop.simps) (simp add: active_def l2_def l1_def new_segment_eq)
      then have step: "append_loop rest l2 = (res, l')"
        using less.prems(4) by simp
      have "snd (new_segment (next_offset (caught_up l1)) (caught_up l1)) = caught_up l2"
        by (simp add: l2_def new_segment_eq caught_up_def next_of_def active_def)
      moreover have "seg_records (active (caught_up l1)) \<noteq> []"
        using s(4) rs(4) by (simp add: l1_def)
      ultimately have l2: "log_inv (caught_up l2)" "seg_next_offset (active l2) = seg_next_offset (active l1)"
          "seg_records (active l2) = []"
        using roll_inv [of "caught_up l1"] s(2) by (simp_all add: l1_def)
      have "item_room rest (active l2)" "length rest < length items"
        using less.prems(3) rs(1,4) l2(3) by (auto simp: item_room_def)
      moreover have "items_from (seg_next_offset (active l2)) rest"
        using more by (simp add: l2(2) l1_def s(3))
      moreover have "max_segment_bytes l2 = max_segment_bytes l" "log_interval l2 = log_interval l"
        using kept by (simp_all add: l2_def new_segment_eq)
      ultimately show ?thesis
        using less.hyps [of rest l2] l2(1,2) step s(3) rs(1) by (auto simp: l1_def)
    qed
  qed
qed

lemma many_items_from: "items_from a (many_items a payloads tss)"
  by (simp add: items_from_def many_items_def)

lemma many_items_room:
  assumes "log_inv l" "payload_room payloads l"
  shows "item_room (many_items a payloads tss) (active l)"
proof -
  have "map (\<lambda>(off, pl, t). HEADER_SIZE + length pl) (many_items a payloads tss) = map (\<lambda>pl. HEADER_SIZE + length pl) payloads"
    by (rule nth_equalityI) (simp_all add: many_items_def)
  moreover have "\<forall>(off, pl, t) \<in> set (many_items a payloads tss). pl \<in> set payloads"
    by (auto simp: many_items_def)
  ultimately show ?thesis
    using assms active_size [of l] caught_up_inv [of l] by (fastforce simp: item_room_def payload_room_def)
qed

lemma append_many_any:
  assumes inv: "log_inv l" and room: "payload_room payloads l"
    and run: "append_many payloads tss_opt now l = (res, l')"
  shows "log_inv (caught_up l') \<and> max_segment_bytes l' = max_segment_bytes l \<and> log_interval l' = log_interval l
    \<and> (\<forall>offs. res = Inr offs \<longrightarrow> log_inv l')"
proof (cases "payloads = []")
  case True
  then show ?thesis using run inv caught_up_inv [of l] by (simp add: append_many_def)
next
  case False
  define tss where "tss = (case tss_opt of None \<Rightarrow> replicate (length payloads) now | Some ts \<Rightarrow> ts)"
  let ?items = "many_items (next_offset l) payloads tss"
  obtain r l1 where r: "append_loop ?items l = (r, l1)" by fastforce
  have nxt: "seg_next_offset (active l) = next_offset l"
    using inv by (simp add: log_inv_def active_def)
  have loop: "log_inv (caught_up l1)" "max_segment_bytes l1 = max_segment_bytes l" "log_interval l1 = log_interval l"
    "r = Inr () \<Longrightarrow> seg_next_offset (active l1) = next_offset l + int (length payloads)"
    using append_loop_any [OF _ _ many_items_room [OF inv room] r] inv nxt many_items_from
    by (auto simp: caught_up_inv many_items_def)
  show ?thesis
  proof (cases r)
    case (Inl e)
    then show ?thesis using run r False loop by (auto simp: append_many_def Let_def tss_def [symmetric])
  next
    case (Inr u)
    have "last (map (\<lambda>j. next_offset l + int j) [0..<length payloads]) + 1 = seg_next_offset (last (segments l1))"
      using False loop(4) Inr by (cases payloads) (auto simp: last_map active_def)
    then have "l' = caught_up l1"
      using run r False Inr by (simp add: append_many_def Let_def tss_def [symmetric] caught_up_def)
    then show ?thesis
      using loop caught_up_inv [OF loop(1)] by (simp add: caught_up_def)
  qed
qed

section \<open>Reachable states\<close>

text \<open>
  A history of one log directory. Calls take any arguments whose payloads have at most 64 MiB while files stay below
  \<open>2 ^ 64\<close> bytes, and they may raise; \<open>reopened\<close> is a crash that loses a suffix of the active file, followed by the
  constructor. A group commit that raised before it wrote anything leaves the state as it was; after any other
  group commit that raised the history goes on only with reopening (\<open>recovered\<close>).
\<close>

inductive log_reachable :: "commit_log \<Rightarrow> bool" where
  opened: "open_log [] max_bytes iv = Inr l \<Longrightarrow> log_reachable l"
| appended: "log_reachable l \<Longrightarrow> payload_room [pl] l
    \<Longrightarrow> append_log pl ts_opt now l = (res, l') \<Longrightarrow> log_reachable l'"
| appended_many: "log_reachable l \<Longrightarrow> payload_room payloads l
    \<Longrightarrow> append_many payloads tss_opt now l = (Inr offs, l') \<Longrightarrow> log_reachable l'"
| recovered: "log_reachable l \<Longrightarrow> payload_room payloads l
    \<Longrightarrow> append_many payloads tss_opt now l = (Inl e, l1)
    \<Longrightarrow> open_log (dir_of (torn n l1)) (max_segment_bytes l) (log_interval l) = Inr l' \<Longrightarrow> log_reachable l'"
| truncated: "log_reachable l \<Longrightarrow> truncate_from off l = (res'', l') \<Longrightarrow> log_reachable l'"
| retained: "log_reachable l \<Longrightarrow> truncate_segments_before m l = (k, l') \<Longrightarrow> log_reachable l'"
| reopened: "log_reachable l
    \<Longrightarrow> open_log (dir_of (torn n l)) (max_segment_bytes l) (log_interval l) = Inr l'
    \<Longrightarrow> log_reachable l'"

lemma dir_of_torn_caught_up: "dir_of (torn n (caught_up l)) = dir_of (torn n l)"
  by (simp add: dir_of_def torn_def set_active_def)

lemma log_reachable_inv: "log_reachable l \<Longrightarrow> log_inv l"
proof (induction rule: log_reachable.induct)
  case (opened max_bytes iv l)
  then show ?case by (auto simp: open_empty fresh_log_inv)
next
  case (appended l pl ts_opt now res l')
  then show ?case by (blast intro: append_log_any)
next
  case (appended_many l payloads tss_opt now offs l')
  then show ?case using append_many_any by blast
next
  case (recovered l payloads tss_opt now e l1 n l')
  then have "log_inv (caught_up l1)" "max_segment_bytes l1 = max_segment_bytes l" "log_interval l1 = log_interval l"
    using append_many_any by blast+
  then show ?case
    using reopen_torn [of "caught_up l1" n] recovered.hyps(4) dir_of_torn_caught_up [of n l1]
    by (auto simp: caught_up_def)
next
  case (truncated l off res'' l')
  then show ?case using truncate_from_inv [of l off] by auto
next
  case (retained l m k l')
  then show ?case using truncate_segments_before_inv [of l m] by auto
next
  case (reopened l n l')
  then show ?case using reopen_torn [of l n] by auto
qed

end
