(* ===== verification/Log_Theorems.thy ===== *)
theory Log_Theorems
  imports Log_Histories
begin

text \<open>
  The properties of the storage layer (\<^verbatim>\<open>pylog/log.py\<close>), each with a concrete instance: the
  record format, one segment, the commit log, its recovery after a crash, and the limits of
  the code that the model brings out.
\<close>

section \<open>The record format\<close>

text \<open>
  C10. The decoder accepts exactly the encodings of records of at most 64 MiB, and returns the
  record and the unread rest of the file: encoding followed by decoding is the identity, and
  no other byte sequence reads as a record.
\<close>

theorem read_record_exact:
  "read_record f = Inr (Some r, rest) \<longleftrightarrow>
     int (length (rec_payload r)) \<le> MAX_RECORD_BYTES
     \<and> (\<exists>b. encode_record (rec_offset r) (rec_payload r) (rec_timestamp r) = Inr b \<and> f = b @ rest)"
proof
  assume "read_record f = Inr (Some r, rest)"
  then have r: "valid_record r" "f = record_bytes r @ rest"
    using read_record_sound by blast+
  from encode_valid [OF r(1)] r
  show "int (length (rec_payload r)) \<le> MAX_RECORD_BYTES
      \<and> (\<exists>b. encode_record (rec_offset r) (rec_payload r) (rec_timestamp r) = Inr b \<and> f = b @ rest)"
    by (simp add: valid_record_def)
next
  assume r: "int (length (rec_payload r)) \<le> MAX_RECORD_BYTES
      \<and> (\<exists>b. encode_record (rec_offset r) (rec_payload r) (rec_timestamp r) = Inr b \<and> f = b @ rest)"
  then have "valid_record r" "f = record_bytes r @ rest"
    by (auto simp: encode_record_eq valid_record_def split: if_splits)
  then show "read_record f = Inr (Some r, rest)"
    by (simp add: read_record_encoded)
qed

text \<open>
  A torn write is detected: every proper, non-empty prefix of an encoded record makes the
  decoder raise \<^verbatim>\<open>CorruptRecord\<close>.
\<close>

theorem torn_record_refused:
  assumes "encode_record off pl ts = Inr b" "int (length pl) \<le> MAX_RECORD_BYTES"
    and "0 < n" "n < length b"
  shows "\<exists>why. read_record (take n b) = Inl (CorruptRecord why)"
proof -
  have "valid_record (mk_record off ts pl)" "b = record_bytes (mk_record off ts pl)"
    using assms(1,2) encode_record_eq [of "mk_record off ts pl"]
    by (auto simp: valid_record_def split: if_splits)
  then show ?thesis
    using read_record_prefix assms(3,4) by blast
qed

theorem torn_record_refused_witness:
  "\<exists>why. read_record (take 29 (record_bytes (mk_record 7 9 [1, 2]))) = Inl (CorruptRecord why)"
  using torn_record_refused [of 7 "[1, 2]" 9 "record_bytes (mk_record 7 9 [1, 2])" 29]
    encode_valid [of "mk_record 7 9 [1, 2]"]
  by (simp add: valid_record_def fits_unsigned_def fits_signed_def MAX_RECORD_BYTES_def
      length_record_bytes HEADER_SIZE_def)

text \<open>
  The encoder has no size limit of its own below 4 GiB: a payload of more than 64 MiB is
  encoded without an error and is refused when it is read back, whatever follows it.
\<close>

theorem oversize_record_unreadable:
  assumes "MAX_RECORD_BYTES < int (length pl)" "int (length pl) < 2 ^ 32"
    and "fits_unsigned 8 off" "fits_signed 8 ts"
  shows "\<exists>b. encode_record off pl ts = Inr b
    \<and> read_record (b @ rest) = Inl (CorruptRecord ''implausible payload length'')"
proof -
  let ?r = "mk_record off ts pl"
  have fits: "fits_unsigned 4 (int (length pl))"
    using assms(2) by (simp add: fits_unsigned_def)
  then have "encode_record off pl ts = Inr (record_bytes ?r)"
    using assms encode_record_eq [of ?r] by simp
  moreover have "read_record (record_bytes ?r @ rest) = Inl (CorruptRecord ''implausible payload length'')"
    using assms(1) fits unfolding record_bytes_def append_assoc
    by (simp add: read_record_fields codec_simps)
  ultimately show ?thesis by blast
qed

theorem oversize_record_unreadable_witness:
  "\<exists>b. encode_record 0 (replicate 67108865 0) 0 = Inr b
    \<and> read_record (b @ []) = Inl (CorruptRecord ''implausible payload length'')"
  by (rule oversize_record_unreadable)
     (simp_all add: MAX_RECORD_BYTES_def fits_unsigned_def fits_signed_def)

section \<open>One segment\<close>

text \<open>
  Recovery of a segment is total on its own files: whatever bytes follow the last whole
  record, the records before them are kept, the file is cut there, and index, size, next
  offset and largest timestamp are those of the records kept.
\<close>

theorem segment_recovers:
  assumes "log_file s = Some f" "parse_records f = (rs, tail)" "0 \<le> base_offset s"
    and "\<forall>r \<in> set rs. base_offset s \<le> rec_offset r" "length f < 2 ^ 64"
  shows "recover s = (Inr (next_of (base_offset s) rs),
      segment_of (base_offset s) (index_interval_bytes s) rs (max_ts rs))"
proof -
  have f: "f = file_bytes rs @ tail" "\<forall>r \<in> set rs. valid_record r" "no_record tail"
    using parse_records_sound [OF assms(2)] by simp_all
  then have "length (file_bytes rs) < 2 ^ 64"
    using assms(5) by simp
  with f assms show ?thesis
    by (intro recover_segment) auto
qed

theorem segment_recovers_witness:
  "recover (segment_init 3 16 (Some [1, 2]) None) = (Inr 3, segment_of 3 16 [] 0)"
proof -
  have "read_record [1, 2] = Inl (CorruptRecord ''truncated record header'')"
    by (simp add: read_record_def HEADER_SIZE_def)
  then have "parse_records [1, 2] = ([], [1, 2])"
    by (subst parse_records.simps) simp
  then show ?thesis
    using segment_recovers [of "segment_init 3 16 (Some [1, 2]) None" "[1, 2]" "[]" "[1, 2]"]
    by (simp add: segment_init_def next_of_def max_ts_def)
qed

text \<open>
  C14. The optimised lookup of a segment, a binary search in the sparse index followed by a scan
  of the file, returns exactly the record that a list of the records holds at that offset.
\<close>

theorem segment_read_is_lookup:
  assumes "seg_rep s rs"
  shows "seg_read a s = (if base_offset s \<le> a \<and> a < base_offset s + int (length rs)
    then Some (rs ! nat (a - base_offset s)) else None)"
  using assms by (rule seg_read_rep)

theorem segment_read_is_lookup_witness:
  "seg_read 4 (segment_of 3 1 [mk_record 3 0 [8], mk_record 4 0 [9]] 0) = Some (mk_record 4 0 [9])"
proof -
  have "seg_rep (segment_of 3 1 [mk_record 3 0 [8], mk_record 4 0 [9]] 0)
      [mk_record 3 0 [8], mk_record 4 0 [9]]"
    by (intro seg_repI) (auto simp: consecutive_Cons valid_record_def fits_unsigned_def
        fits_signed_def MAX_RECORD_BYTES_def length_record_bytes HEADER_SIZE_def)
  from segment_read_is_lookup [OF this, of 4] show ?thesis
    by simp
qed

section \<open>The commit log\<close>

lemma fresh_settings:
  "max_segment_bytes (fresh_log m iv) = max 1 m" "log_interval (fresh_log m iv) = iv"
  by (simp_all add: fresh_log_def)

text \<open>
  C22. The log stays well formed through every history in which payloads have at most 64 MiB and files fewer than
  \<open>2 ^ 64\<close> bytes: the segments form a chain of whole records with consecutive offsets, the next offset is one past the
  last record, and every offset between the first and the next one reads its record. A history consists of appends and group
  commits with any timestamps or the default one, truncations, retention, crashes that tear the active file and reopening.
  Calls that raise are part of it, with one exception: a group commit that raises after it has written a batch
  must be followed by reopening the log.
\<close>

theorem reachable_log_well_formed:
  assumes "log_reachable l"
  shows "log_inv l \<and> consecutive (first_offset l) (log_records l)
    \<and> next_offset l = first_offset l + int (length (log_records l))
    \<and> (\<forall>a. read_log a l = (if first_offset l \<le> a \<and> a < next_offset l
          then Some (log_records l ! nat (a - first_offset l)) else None))"
  using log_reachable_inv [OF assms] log_inv_records [OF log_reachable_inv [OF assms]] read_log_inv [OF log_reachable_inv [OF assms]]
  by (simp add: alog_read_def)

text \<open>
  An append whose timestamp does not fit raises; a group commit whose list of timestamps is too short raises
  behind its first batch.
\<close>

definition short_commit :: "(commit_log, int list) outcome" where
  "short_commit = append_many [[7], [8], [9]] (Some [0, 0]) 0 (fresh_log 1 16)"

lemma short_commit_fails:
  "(fst short_commit, map seg_size (segments (snd short_commit))) = (Inl IndexError, [29, 0])"
  by code_simp

lemma fresh_payload_room: "\<forall>pl \<in> set pls. length pl \<le> 100 \<Longrightarrow> length pls \<le> 3 \<Longrightarrow> payload_room pls (fresh_log m iv)"
proof -
  assume a: "\<forall>pl \<in> set pls. length pl \<le> 100" "length pls \<le> 3"
  have "sum_list (map (\<lambda>pl. HEADER_SIZE + length pl) pls) \<le> 128 * length pls"
    using a(1) by (induction pls) (auto simp: HEADER_SIZE_def)
  moreover have "seg_size (active (fresh_log m iv)) = 0"
    by (simp add: fresh_log_def active_def)
  ultimately show ?thesis
    using a by (fastforce simp: payload_room_def MAX_RECORD_BYTES_def)
qed

theorem reachable_log_well_formed_witness:
  "\<exists>l l1 l2. append_log [7] (Some (2 ^ 63)) 0 (fresh_log 1 16) = (Inl StructError, l) \<and> log_inv l
    \<and> short_commit = (Inl IndexError, l1) \<and> map seg_size (segments l1) = [29, 0]
    \<and> open_log (dir_of (torn 100 l1)) (max 1 1) 16 = Inr l2 \<and> log_inv l2"
proof -
  let ?f = "fresh_log 1 16"
  have f: "log_reachable ?f" by (rule log_reachable.opened [OF open_empty])
  have room: "payload_room [[7], [8], [9]] ?f" "payload_room [[7]] ?f"
    by (intro fresh_payload_room; simp)+
  obtain l where l: "append_log [7] (Some (2 ^ 63)) 0 ?f = (Inl StructError, l)"
    by (simp add: append_log_def fresh_log_def encode_record_def pack_header_def fits_signed_def)
  then have "log_inv l"
    using reachable_log_well_formed [OF log_reachable.appended [OF f room(2)]] by blast
  moreover obtain l1 where l1: "short_commit = (Inl IndexError, l1)" "map seg_size (segments l1) = [29, 0]"
    using short_commit_fails [unfolded prod.inject] by (metis prod.collapse)
  then have run: "append_many [[7], [8], [9]] (Some [0, 0]) 0 ?f = (Inl IndexError, l1)"
    by (simp add: short_commit_def)
  have "log_inv (caught_up l1)" "max_segment_bytes l1 = max 1 1" "log_interval l1 = 16"
    using append_many_any [OF fresh_log_inv room(1) run] by (simp_all add: fresh_settings)
  then obtain l2 where l2: "open_log (dir_of (torn 100 l1)) (max 1 1) 16 = Inr l2"
    using reopen_torn [of "caught_up l1" 100] dir_of_torn_caught_up [of 100 l1] by (auto simp: caught_up_def)
  then have "log_inv l2"
    using reachable_log_well_formed [OF log_reachable.recovered [OF f room(1) run, of 100]] by (simp add: fresh_settings)
  ultimately show ?thesis using l l1 l2 by (intro exI conjI)
qed

text \<open>
  C12. Appending a record of at most 64 MiB, with a timestamp, an offset and a position that fit the 64-bit fields, returns
  the next offset and stores the record there: it can be read
  back at once, everything readable before is still readable and unchanged, and the next
  offset grows by one, whether or not a new segment was started.
\<close>

theorem append_then_read:
  assumes "log_inv l" "accepts_record pl ts l"
  shows "\<exists>l'. append_log pl (Some ts) now l = (Inr (next_offset l), l') \<and> log_inv l'
    \<and> next_offset l' = next_offset l + 1
    \<and> read_log (next_offset l) l' = Some (mk_record (next_offset l) ts pl)
    \<and> (\<forall>a r. read_log a l = Some r \<longrightarrow> read_log a l' = Some r)"
  using assms by (rule cl.app_read_back)

theorem append_then_read_witness:
  "\<exists>l'. append_log [7] (Some 5) 0 (fresh_log 64 16) = (Inr 0, l') \<and> log_inv l'
    \<and> next_offset l' = 1 \<and> read_log 0 l' = Some (mk_record 0 5 [7])"
  using append_then_read [OF fresh_log_inv, of "[7]" 5 64 16 0] fresh_accepts [of "[7]" 5 64 16]
  by auto

text \<open>
  C17. Group commit of records that the format can hold is equivalent to appending one after the other: it stores the same
  records with the same offsets, whatever segments it rolls on the way.
\<close>

theorem append_many_appends_all:
  assumes "log_inv l" "length payloads \<le> length tss"
    and "list_all valid_record (many_records (next_offset l) payloads tss)"
    and "room_for (many_records (next_offset l) payloads tss) (active l)"
  shows "\<exists>l'. append_many payloads (Some tss) now l =
      (Inr (map (\<lambda>j. next_offset l + int j) [0..<length payloads]), l') \<and> log_inv l'
    \<and> log_records l' = log_records l @ many_records (next_offset l) payloads tss
    \<and> first_offset l' = first_offset l \<and> next_offset l' = next_offset l + int (length payloads)"
  using append_many_inv [of l payloads tss now] assms by (auto simp: list_all_iff)

theorem append_many_appends_all_witness:
  "\<exists>l'. append_many [[7], [8, 9]] (Some [5, 6]) 0 (fresh_log 1 16) = (Inr [0, 1], l')
    \<and> log_inv l' \<and> log_records l' = [mk_record 0 5 [7], mk_record 1 6 [8, 9]]
    \<and> next_offset l' = 2"
  using append_many_appends_all [OF fresh_log_inv, of "[[7], [8, 9]]" "[5, 6]" 1 16 0]
  by (auto simp: many_records_def room_for_def format_simps upt_rec)

text \<open>
  Reading a range returns the records of consecutive offsets from the start offset, up to
  the limit or the end of the log, and nothing when the start has been removed by retention.
\<close>

theorem read_range_is_slice:
  assumes "log_inv l"
  shows "read_range start limit l =
    (if start < first_offset l then []
     else take (nat limit) (drop (nat (start - first_offset l)) (log_records l)))"
  using assms by (simp add: read_range_def cl.read_loop_recs cl.read_loop_before)

theorem read_range_is_slice_witness: "read_range 0 10 (fresh_log 64 16) = []"
  using read_range_is_slice [OF fresh_log_inv, of 0 10 64 16] by simp

text \<open>
  C24. Cutting the log at an offset it holds, or beyond its end, removes exactly the records from
  that offset on: reads below the cut are unchanged, reads from it find nothing, and the next
  append reuses the offset of the cut. The result says whether a record was removed.
\<close>

theorem truncate_from_cuts:
  assumes "log_inv l" "first_offset l \<le> a"
  shows "\<exists>l'. truncate_from a l = (Inr (a < next_offset l), l') \<and> log_inv l'
    \<and> next_offset l' = min a (next_offset l)
    \<and> (\<forall>b. read_log b l' = (if b < a then read_log b l else None))"
  using assms by (rule cut.cut_reads)

theorem truncate_from_cuts_witness:
  "\<exists>l l'. append_log [7] (Some 5) 0 (fresh_log 64 16) = (Inr 0, l)
    \<and> truncate_from 0 l = (Inr True, l') \<and> log_inv l' \<and> next_offset l' = 0 \<and> read_log 0 l' = None"
proof -
  obtain l where l: "append_log [7] (Some 5) 0 (fresh_log 64 16) = (Inr 0, l)" "log_inv l"
      "first_offset l = 0" "log_records l = [mk_record 0 5 [7]]"
    using cl.app_recs [OF fresh_log_inv fresh_accepts, of "[7]" 5 0 64 16] by auto
  moreover have "next_offset l = 1" using log_inv_records(2) [OF l(2)] l(3,4) by simp
  ultimately show ?thesis using truncate_from_cuts [OF l(2), of 0] by auto
qed

text \<open>
  Cutting below the first offset of the log removes nothing, although every record lies at or
  above the cut: after retention the call is silently ignored.
\<close>

theorem truncate_below_first_ignored:
  assumes "log_inv l" "a < first_offset l"
  shows "truncate_from a l = (Inr False, l)"
proof -
  have "segments l \<noteq> []" "seg_chain (segments l)"
    using assms(1) by (simp_all add: log_inv_def)
  then have "bisect_right (map base_offset (segments l)) a = 0"
    using no_segment [of "segments l" a] assms(2) by (simp add: first_offset_def)
  then show ?thesis by (simp add: truncate_from_def)
qed

theorem truncate_below_first_ignored_witness:
  "truncate_from (-1) (fresh_log 64 16) = (Inr False, fresh_log 64 16)"
  using truncate_below_first_ignored [OF fresh_log_inv, of "-1" 64 16] by simp

text \<open>
  Retention removes whole segments from the front only, never the active one, and only
  segments that start below the given base; what remains is a suffix of the log, still well
  formed, and the next offset does not change.
\<close>

theorem retention_drops_prefix:
  assumes "log_inv l"
  shows "\<exists>k l'. truncate_segments_before m l = (k, l') \<and> k < length (segments l)
    \<and> segments l' = drop k (segments l) \<and> log_inv l' \<and> next_offset l' = next_offset l
    \<and> log_records l' = drop (nat (first_offset l' - first_offset l)) (log_records l)
    \<and> first_offset l \<le> first_offset l'
    \<and> (\<forall>s \<in> set (take k (segments l)). base_offset s < m)
    \<and> (m \<le> first_offset l' \<or> length (segments l') = 1)"
  using assms by (rule truncate_segments_before_inv)

theorem retention_drops_prefix_witness:
  "\<exists>k l'. truncate_segments_before 5 (fresh_log 64 16) = (k, l') \<and> k < 1 \<and> log_inv l'"
  using retention_drops_prefix [OF fresh_log_inv, of 5 64 16] by (auto simp: fresh_log_def)

text \<open>
  C5. Crash recovery: if a crash leaves only the first \<open>n\<close> bytes of the active file, reopening
  the directory yields a well-formed log with the same first offset that holds all records of
  the sealed segments and of the active one exactly those that lie within the \<open>n\<close> bytes.
\<close>

theorem reopen_after_crash:
  assumes "log_inv l"
  shows "\<exists>l' k. open_log (dir_of (torn n l)) (max_segment_bytes l) (log_interval l) = Inr l'
    \<and> log_inv l' \<and> first_offset l' = first_offset l
    \<and> log_records l' = concat (map seg_records (butlast (segments l)))
        @ take k (seg_records (active l))
    \<and> length (file_bytes (take k (seg_records (active l)))) \<le> n
    \<and> (\<forall>j \<le> length (seg_records (active l)).
         length (file_bytes (take j (seg_records (active l)))) \<le> n \<longrightarrow> j \<le> k)
    \<and> next_offset l' = first_offset l + int (length (log_records l'))"
proof -
  obtain l' where l': "open_log (dir_of (torn n l)) (max_segment_bytes l) (log_interval l) = Inr l'"
    "log_inv l'" "first_offset l' = first_offset l"
    "log_records l' = concat (map seg_records (butlast (segments l)))
        @ whole_records n (seg_records (active l))"
    "next_offset l' = first_offset l + int (length (log_records l'))"
    using reopen_torn [OF assms] by blast
  have "\<forall>r \<in> set (seg_records (active l)). valid_record r"
    using seg_rep_props(3) [OF active_segment(2) [OF assms]] .
  from whole_records_prefix [OF this, of n] obtain k where
    "whole_records n (seg_records (active l)) = take k (seg_records (active l))"
    "\<forall>j \<le> length (seg_records (active l)).
       length (file_bytes (take j (seg_records (active l)))) \<le> n \<longrightarrow> j \<le> k"
    by metis
  moreover have "length (file_bytes (whole_records n (seg_records (active l)))) \<le> n"
    by (rule whole_records_length)
  ultimately show ?thesis
    using l' by auto
qed

theorem reopen_after_crash_witness:
  "\<exists>l'. open_log (dir_of (torn 0 (fresh_log 64 16))) 64 16 = Inr l' \<and> log_inv l'
    \<and> log_records l' = []"
proof -
  have "segments (fresh_log 64 16) = [active (fresh_log 64 16)]"
    by (simp add: fresh_log_def active_def)
  then show ?thesis
    using reopen_after_crash [OF fresh_log_inv, of 0 64 16]
    by (auto simp: fresh_settings)
qed

text \<open>
  A group commit of a single payload never starts a new segment: the first record of a batch
  is written to the active segment whatever its size, and segments are only rolled between
  the records of one call. A caller that commits one record per call keeps one segment forever.
\<close>

theorem append_many_single_never_rolls:
  assumes "segments l \<noteq> []"
  shows "length (segments (snd (append_many [pl] (Some [ts]) now l))) = length (segments l)"
  using assms
  by (auto simp: append_many_def many_items_def append_loop.simps [of "_ # _"] set_active_def Let_def
      split: sum.splits prod.splits)

theorem append_many_single_never_rolls_witness:
  "length (segments (snd (append_many [[7]] (Some [5]) 0 (fresh_log 1 16)))) = 1"
  using append_many_single_never_rolls [of "fresh_log 1 16" "[7]" 5 0] by (simp add: fresh_log_def)

end
