(* ===== verification/Raft_Log.thy ===== *)
theory Raft_Log
  imports Prelude
begin

text \<open>
  The class \<^verbatim>\<open>RaftLog\<close> of \<^verbatim>\<open>pylog/raft.py\<close>: the in-memory log of a Raft node with its snapshot
  point. An entry dictionary is a record with its three keys. \<open>merge\<close> is the core of
  AppendEntries; it returns the triple of the code and the log.
\<close>

section \<open>State\<close>

record entry =
  e_index :: int
  e_term :: int
  e_payload :: bytes

record raft_log =
  entries :: "entry list"
  first_index :: int
  snapshot_last_index :: int
  snapshot_last_term :: int

definition raft_log_init :: raft_log where
  "raft_log_init =
     \<lparr>entries = [], first_index = 1, snapshot_last_index = 0, snapshot_last_term = 0\<rparr>"

text \<open>The slice \<^verbatim>\<open>xs[:n]\<close>, with a negative bound counted from the end.\<close>

definition py_take :: "int \<Rightarrow> 'a list \<Rightarrow> 'a list" where
  "py_take n xs = (if n \<ge> 0 then take (nat n) xs else take (length xs - nat (- n)) xs)"

section \<open>Queries\<close>

definition last_index :: "raft_log \<Rightarrow> int" where
  "last_index l = (if entries l = [] then 0 else e_index (last (entries l)))"

definition last_term :: "raft_log \<Rightarrow> int" where
  "last_term l = (if entries l = [] then 0 else e_term (last (entries l)))"

definition term_at :: "raft_log \<Rightarrow> int \<Rightarrow> int" where
  "term_at l i =
     (if i = 0 then 0
      else let pos = i - first_index l in
        if 0 \<le> pos \<and> pos < int (length (entries l)) then e_term (entries l ! nat pos) else -1)"

definition entries_from :: "raft_log \<Rightarrow> int \<Rightarrow> int option \<Rightarrow> entry list" where
  "entries_from l i limit =
     (let out = drop (nat (max 0 (i - first_index l))) (entries l) in
      case limit of None \<Rightarrow> out | Some n \<Rightarrow> if n = 0 then out else py_take n out)"

definition get_entry :: "raft_log \<Rightarrow> int \<Rightarrow> entry option" where
  "get_entry l i =
     (let pos = i - first_index l in
      if 0 \<le> pos \<and> pos < int (length (entries l)) then Some (entries l ! nat pos) else None)"

section \<open>Updates\<close>

definition append_entry :: "int \<Rightarrow> bytes \<Rightarrow> raft_log \<Rightarrow> entry \<times> raft_log" where
  "append_entry t pl l =
     (let e = \<lparr>e_index = last_index l + 1, e_term = t, e_payload = pl\<rparr>
      in (e, l\<lparr>entries := entries l @ [e]\<rparr>))"

definition compact_log :: "int \<Rightarrow> int \<Rightarrow> raft_log \<Rightarrow> bool \<times> raft_log" where
  "compact_log idx t l =
     (if idx < first_index l - 1 then (False, l)
      else if idx \<ge> last_index l \<and> entries l \<noteq> [] then (False, l)
      else if entries l = [] \<and> idx < first_index l - 1 then (False, l)
      else (True, l\<lparr>snapshot_last_index := idx, snapshot_last_term := t,
                    entries := filter (\<lambda>e. e_index e > idx) (entries l),
                    first_index := idx + 1\<rparr>))"

function conflict_back :: "raft_log \<Rightarrow> int \<Rightarrow> int \<Rightarrow> int" where
  "conflict_back l t i =
     (if i > first_index l - 1 \<and> term_at l i \<noteq> t then conflict_back l t (i - 1) else i)"
  by pat_completeness auto
termination
  by (relation "measure (\<lambda>(l, _, i). nat (i - (first_index l - 1)))") auto

function conflict_run :: "raft_log \<Rightarrow> int \<Rightarrow> int \<Rightarrow> int" where
  "conflict_run l t i = (if i > 1 \<and> term_at l (i - 1) = t then conflict_run l t (i - 1) else i)"
  by pat_completeness auto
termination
  by (relation "measure (\<lambda>(_, _, i). nat i)") auto

declare conflict_back.simps [simp del] conflict_run.simps [simp del]

definition conflict_term_first_index :: "raft_log \<Rightarrow> int \<Rightarrow> int \<Rightarrow> int" where
  "conflict_term_first_index l t from_index =
     max 1 (conflict_run l t (conflict_back l t from_index))"

text \<open>
  The loop over the incoming entries: the index where entries are to be inserted and the
  incoming entries from there on, after a conflicting tail has been deleted.
\<close>

fun merge_scan :: "int \<Rightarrow> entry list \<Rightarrow> raft_log \<Rightarrow> (int \<times> entry list) option \<times> raft_log" where
  "merge_scan idx [] l = (None, l)"
| "merge_scan idx (inc # incs) l =
     (let local_term = term_at l idx in
      if local_term = -1 then (Some (idx, inc # incs), l)
      else if local_term \<noteq> e_term inc then
        (Some (idx, inc # incs), l\<lparr>entries := py_take (idx - first_index l) (entries l)\<rparr>)
      else merge_scan (idx + 1) incs l)"

fun renumber :: "int \<Rightarrow> entry list \<Rightarrow> entry list" where
  "renumber idx [] = []"
| "renumber idx (inc # incs) = inc\<lparr>e_index := idx\<rparr> # renumber (idx + 1) incs"

definition merge :: "int \<Rightarrow> int \<Rightarrow> entry list \<Rightarrow> raft_log \<Rightarrow> (bool \<times> int \<times> int) \<times> raft_log" where
  "merge prev_index prev_term incoming l =
     (if prev_index > last_index l then ((False, 0, last_index l + 1), l)
      else if term_at l prev_index \<noteq> prev_term then
        ((False, 0, conflict_term_first_index l (term_at l prev_index) prev_index), l)
      else
        let (insert_at, l1) = merge_scan (prev_index + 1) incoming l;
            l2 = (case insert_at of
                    None \<Rightarrow> l1
                  | Some (idx, rest) \<Rightarrow> l1\<lparr>entries := entries l1 @ renumber idx rest\<rparr>)
        in ((True, prev_index + int (length incoming), 0), l2))"

section \<open>Well-formed logs\<close>

text \<open>Contiguous indexes from the first one, which lies just above the snapshot point.\<close>

definition log_wf :: "raft_log \<Rightarrow> bool" where
  "log_wf l \<longleftrightarrow> first_index l = snapshot_last_index l + 1 \<and> 0 \<le> snapshot_last_index l
     \<and> (\<forall>k < length (entries l). e_index (entries l ! k) = first_index l + int k)
     \<and> (\<forall>e \<in> set (entries l). 0 \<le> e_term e)"

definition wf_entries :: "int \<Rightarrow> entry list \<Rightarrow> bool" where
  "wf_entries i es \<longleftrightarrow> (\<forall>k < length es. e_index (es ! k) = i + int k) \<and> (\<forall>e \<in> set es. 0 \<le> e_term e)"

lemma wf_entries_Nil [simp]: "wf_entries i []"
  by (simp add: wf_entries_def)

lemma wf_entries_Cons:
  "wf_entries i (e # es) \<longleftrightarrow> e_index e = i \<and> 0 \<le> e_term e \<and> wf_entries (i + 1) es"
  by (auto simp: wf_entries_def All_less_Suc2 add.assoc)

lemma wf_entries_append:
  "wf_entries i (es @ fs) \<longleftrightarrow> wf_entries i es \<and> wf_entries (i + int (length es)) fs"
  by (induction es arbitrary: i) (auto simp: wf_entries_Cons add.assoc)

lemma wf_entries_take: "wf_entries i es \<Longrightarrow> wf_entries i (take k es)"
  by (auto simp: wf_entries_def dest: in_set_takeD)

lemma wf_entries_drop: "wf_entries i es \<Longrightarrow> k \<le> length es \<Longrightarrow> wf_entries (i + int k) (drop k es)"
  by (auto simp: wf_entries_def dest: in_set_dropD)

lemma log_wf_alt:
  "log_wf l \<longleftrightarrow> first_index l = snapshot_last_index l + 1 \<and> 0 \<le> snapshot_last_index l
     \<and> wf_entries (first_index l) (entries l)"
  by (simp add: log_wf_def wf_entries_def)

lemma log_wf_entries: "log_wf l \<Longrightarrow> wf_entries (first_index l) (entries l)"
  by (auto simp: log_wf_alt)

lemma wf_entries_range: "wf_entries i es \<Longrightarrow> e \<in> set es \<Longrightarrow> i \<le> e_index e \<and> e_index e < i + int (length es)"
  by (auto simp: wf_entries_def in_set_conv_nth)

lemma log_wf_init: "log_wf raft_log_init"
  by (simp add: log_wf_def raft_log_init_def)

lemma wf_entries_last: "wf_entries i es \<Longrightarrow> es \<noteq> [] \<Longrightarrow> e_index (last es) = i + int (length es) - 1"
  by (cases es rule: rev_cases) (auto simp: wf_entries_append wf_entries_Cons)

lemma last_index_wf:
  "log_wf l \<Longrightarrow> entries l \<noteq> [] \<Longrightarrow> last_index l = first_index l + int (length (entries l)) - 1"
  using wf_entries_last [of "first_index l" "entries l"] by (auto simp: last_index_def log_wf_alt)

lemma wf_first_pos: "log_wf l \<Longrightarrow> 1 \<le> first_index l"
  by (simp add: log_wf_def)

lemma term_at_0 [simp]: "term_at l 0 = 0"
  by (simp add: term_at_def)

lemma term_at_pos:
  "1 \<le> first_index l \<Longrightarrow> k < length (entries l) \<Longrightarrow>
     term_at l (first_index l + int k) = e_term (entries l ! k)"
  by (simp add: term_at_def)

lemma term_at_beyond:
  "1 \<le> first_index l \<Longrightarrow> first_index l + int (length (entries l)) \<le> i \<Longrightarrow> term_at l i = -1"
  by (simp add: term_at_def Let_def)

section \<open>What merging does\<close>

text \<open>How many leading entries of two lists have the same terms.\<close>

fun agree :: "entry list \<Rightarrow> entry list \<Rightarrow> nat" where
  "agree (a # as) (b # bs) = (if e_term a = e_term b then Suc (agree as bs) else 0)"
| "agree as bs = 0"

lemma agree_le: "agree as bs \<le> length as" "agree as bs \<le> length bs"
  by (induction as bs rule: agree.induct) auto

lemma agree_terms: "i < agree as bs \<Longrightarrow> e_term (as ! i) = e_term (bs ! i)"
proof (induction as bs arbitrary: i rule: agree.induct)
  case (1 a as b bs)
  then show ?case by (cases i) (auto split: if_splits)
qed auto

text \<open>
  The reference: keep the entries up to the first incoming entry that is missing or has
  another term, and put the rest of the incoming entries there; nothing changes when all
  incoming entries are present.
\<close>

definition graft :: "nat \<Rightarrow> entry list \<Rightarrow> entry list \<Rightarrow> entry list" where
  "graft p incoming es =
     (let j = agree (drop p es) incoming in
      if j = length incoming then es else take (p + j) es @ drop j incoming)"

lemma renumber_wf: "wf_entries i incs \<Longrightarrow> renumber i incs = incs"
  by (induction incs arbitrary: i) (simp_all add: wf_entries_Cons)

lemma renumber_length [simp]: "length (renumber i incs) = length incs"
  by (induction incs arbitrary: i) simp_all

lemma merge_scan_graft:
  assumes "1 \<le> first_index l" "p \<le> length (entries l)" "\<forall>e \<in> set (entries l). 0 \<le> e_term e"
  shows "merge_scan (first_index l + int p) incoming l =
    (let j = agree (drop p (entries l)) incoming in
     if j = length incoming then (None, l)
     else (Some (first_index l + int (p + j), drop j incoming),
           l\<lparr>entries := take (p + j) (entries l)\<rparr>))"
  using assms
proof (induction incoming arbitrary: p)
  case (Cons inc incs)
  show ?case
  proof (cases "p < length (entries l)")
    case True
    then have d: "drop p (entries l) = entries l ! p # drop (Suc p) (entries l)"
      by (simp add: Cons_nth_drop_Suc)
    have "0 \<le> e_term (entries l ! p)"
      using Cons.prems nth_mem [OF True] by blast
    then have ne: "e_term (entries l ! p) \<noteq> -1" by linarith
    then have t: "term_at l (first_index l + int p) = e_term (entries l ! p)"
      "e_term (entries l ! p) \<noteq> -1"
      using True Cons.prems by (simp_all add: term_at_pos)
    show ?thesis
    proof (cases "e_term (entries l ! p) = e_term inc")
      case same: True
      have "merge_scan (first_index l + int (Suc p)) incs l =
        (let j = agree (drop (Suc p) (entries l)) incs in
         if j = length incs then (None, l)
         else (Some (first_index l + int (Suc p + j), drop j incs),
               l\<lparr>entries := take (Suc p + j) (entries l)\<rparr>))"
        using Cons.prems True by (intro Cons.IH) auto
      with same t show ?thesis
        by (simp add: d Let_def add.assoc add.commute add.left_commute)
    next
      case False
      with t show ?thesis by (simp add: d py_take_def Let_def)
    qed
  next
    case False
    with Cons.prems have "p = length (entries l)" by simp
    with Cons.prems show ?thesis by (simp add: term_at_beyond Let_def)
  qed
qed simp

lemma merge_accepts:
  assumes wf: "log_wf l" and "first_index l - 1 \<le> prev" "prev \<le> last_index l"
    and "term_at l prev = pt" and inc: "wf_entries (prev + 1) incoming"
  shows "merge prev pt incoming l =
    ((True, prev + int (length incoming), 0),
     l\<lparr>entries := graft (nat (prev + 1 - first_index l)) incoming (entries l)\<rparr>)"
proof -
  define p where "p = nat (prev + 1 - first_index l)"
  have p: "prev + 1 = first_index l + int p"
    using assms(2) by (simp add: p_def)
  have le: "p \<le> length (entries l)"
  proof (cases "entries l = []")
    case True
    with assms(3) wf_first_pos [OF wf] p show ?thesis
      by (simp add: last_index_def)
  next
    case False
    with last_index_wf [OF wf] assms(3) p show ?thesis by simp
  qed
  let ?j = "agree (drop p (entries l)) incoming"
  have "wf_entries (prev + 1 + int ?j) (drop ?j incoming)"
    using inc agree_le(2) by (intro wf_entries_drop) auto
  then have ren: "renumber (first_index l + int (p + ?j)) (drop ?j incoming) = drop ?j incoming"
    by (simp add: renumber_wf p add.assoc)
  have "\<forall>e \<in> set (entries l). 0 \<le> e_term e"
    using wf by (simp add: log_wf_def)
  then have scan: "merge_scan (prev + 1) incoming l =
    (let j = agree (drop p (entries l)) incoming in
     if j = length incoming then (None, l)
     else (Some (first_index l + int (p + j), drop j incoming),
           l\<lparr>entries := take (p + j) (entries l)\<rparr>))"
    unfolding p using wf_first_pos [OF wf] le by (intro merge_scan_graft)
  show ?thesis
    using assms(3,4) ren
    by (simp add: merge_def scan Let_def graft_def p_def [symmetric])
qed

lemma graft_wf:
  assumes "wf_entries i es" "wf_entries (i + int p) incoming" "p \<le> length es"
  shows "wf_entries i (graft p incoming es)"
proof -
  define j where "j = agree (drop p es) incoming"
  have j: "p + j \<le> length es" "j \<le> length incoming"
    using agree_le [of "drop p es" incoming] assms(3) by (simp_all add: j_def)
  have "wf_entries (i + int p + int j) (drop j incoming)"
    using assms(2) j(2) by (rule wf_entries_drop)
  then show ?thesis
    using assms(1) j by (auto simp: graft_def j_def [symmetric] wf_entries_append wf_entries_take
        add.assoc min_absorb2)
qed

lemma graft_before: "k \<le> p \<Longrightarrow> p \<le> length es \<Longrightarrow> take k (graft p incoming es) = take k es"
  by (auto simp: graft_def Let_def min_absorb1)

lemma graft_length: "p \<le> length es \<Longrightarrow> p + length incoming \<le> length (graft p incoming es)"
  using agree_le [of "drop p es" incoming] by (auto simp: graft_def Let_def min_def)

lemma graft_terms:
  assumes "p \<le> length es" "i < length incoming"
  shows "e_term (graft p incoming es ! (p + i)) = e_term (incoming ! i)"
proof -
  define j where "j = agree (drop p es) incoming"
  have j: "p + j \<le> length es" "j \<le> length incoming"
    using agree_le [of "drop p es" incoming] assms(1) by (simp_all add: j_def)
  show ?thesis
  proof (cases "i < j")
    case True
    then have "e_term (es ! (p + i)) = e_term (incoming ! i)"
      using agree_terms [of i "drop p es" incoming] assms(1) by (simp add: j_def)
    with True j show ?thesis
      by (auto simp: graft_def j_def [symmetric] Let_def nth_append)
  next
    case False
    with assms j show ?thesis
      by (auto simp: graft_def j_def [symmetric] Let_def nth_append)
  qed
qed

text \<open>
  Log matching. Two logs match when entries of the same term at the same place agree
  together with everything before them.
\<close>

definition matching :: "entry list \<Rightarrow> entry list \<Rightarrow> bool" where
  "matching es fs \<longleftrightarrow> (\<forall>k < min (length es) (length fs).
     e_term (es ! k) = e_term (fs ! k) \<longrightarrow> take (Suc k) es = take (Suc k) fs)"

lemma matching_agree:
  assumes "matching es fs" "take p es = take p fs" "p \<le> length es" "p \<le> length fs"
  shows "take (p + agree (drop p es) (drop p fs)) es = take (p + agree (drop p es) (drop p fs)) fs"
proof (cases "agree (drop p es) (drop p fs)")
  case (Suc k)
  then have "e_term (drop p es ! k) = e_term (drop p fs ! k)"
    using agree_terms [of k "drop p es" "drop p fs"] by simp
  moreover have "p + k < length es" "p + k < length fs"
    using Suc agree_le [of "drop p es" "drop p fs"] assms(3,4) by auto
  ultimately show ?thesis
    using assms(1) Suc by (simp add: matching_def)
qed (use assms in simp)

text \<open>
  The heart of AppendEntries: when the receiver's log matches the sender's and agrees with
  it up to the previous entry, merging a piece of the sender's log makes them agree to the
  end of that piece.
\<close>

lemma agree_take: "agree as (take n bs) = min n (agree as bs)"
proof (induction as bs arbitrary: n rule: agree.induct)
  case (1 a as b bs)
  then show ?case by (cases n) auto
qed auto

lemma graft_agrees:
  assumes m: "matching es fs" and pre: "take p es = take p fs"
    and len: "p \<le> length es" "p \<le> length fs" and inc: "incoming = take n (drop p fs)"
  shows "take (p + length incoming) (graft p incoming es) = take (p + length incoming) fs"
proof -
  define j where "j = agree (drop p es) incoming"
  have j: "j = min n (agree (drop p es) (drop p fs))"
    by (simp add: j_def inc agree_take)
  have same: "take (p + j) es = take (p + j) fs"
    using matching_agree [OF m pre len] by (metis j min.cobounded2 add_left_mono min.absorb1 take_take)
  have le: "j \<le> length incoming" "p + j \<le> length es"
    using agree_le [of "drop p es" incoming] len by (simp_all add: j_def)
  show ?thesis
  proof (cases "j = length incoming")
    case True
    with same show ?thesis by (simp add: graft_def j_def)
  next
    case False
    have "graft p incoming es = take (p + j) fs @ drop j incoming"
      using False same by (simp add: graft_def j_def [symmetric] Let_def)
    have "p + length incoming \<le> length fs"
      using inc len by simp
    moreover have "take (length incoming) (drop p fs) = incoming"
      by (simp add: inc min_def)
    moreover have "take j (drop p fs) = take j incoming"
      using le(1) by (simp add: inc min_absorb1 j)
    ultimately have "take (p + length incoming) fs = take (p + j) fs @ drop j incoming"
      by (simp add: take_add)
    with \<open>graft p incoming es = _\<close> show ?thesis
      using \<open>p + length incoming \<le> length fs\<close> le by simp
  qed
qed

section \<open>Rejection hints\<close>

lemma conflict_back_same: "term_at l i = t \<Longrightarrow> conflict_back l t i = i"
  by (simp add: conflict_back.simps)

lemma conflict_back_below: "i < first_index l \<Longrightarrow> conflict_back l t i = i"
  by (simp add: conflict_back.simps)

lemma conflict_run_spec:
  assumes "1 \<le> i" "term_at l i = t"
  shows "1 \<le> conflict_run l t i \<and> conflict_run l t i \<le> i
    \<and> (\<forall>k. conflict_run l t i \<le> k \<and> k \<le> i \<longrightarrow> term_at l k = t)
    \<and> (conflict_run l t i = 1 \<or> term_at l (conflict_run l t i - 1) \<noteq> t)"
  using assms
proof (induction l t i rule: conflict_run.induct)
  case (1 l t i)
  show ?case
  proof (cases "i > 1 \<and> term_at l (i - 1) = t")
    case True
    then have step: "conflict_run l t i = conflict_run l t (i - 1)"
      by (subst conflict_run.simps) simp
    have "term_at l k = t" if "conflict_run l t (i - 1) \<le> k" "k \<le> i" for k
      using that "1.IH" [OF True] True "1.prems" by (cases "k = i") auto
    with "1.IH" [OF True] True step show ?thesis by auto
  next
    case False
    then have "conflict_run l t i = i"
      by (subst conflict_run.simps) auto
    with False "1.prems" show ?thesis by auto
  qed
qed

lemma conflict_hint:
  fixes l i
  assumes "1 \<le> i"
  defines "h \<equiv> conflict_term_first_index l (term_at l i) i"
  shows "1 \<le> h \<and> h \<le> i \<and> (\<forall>k. h \<le> k \<and> k \<le> i \<longrightarrow> term_at l k = term_at l i)
    \<and> (h = 1 \<or> term_at l (h - 1) \<noteq> term_at l i)"
proof -
  note run = conflict_run_spec [OF assms(1) refl, of l]
  then have "h = conflict_run l (term_at l i) i"
    unfolding h_def conflict_term_first_index_def conflict_back_same [OF refl] by linarith
  with run show ?thesis by blast
qed

section \<open>Compaction\<close>

lemma filter_above:
  "wf_entries i es \<Longrightarrow> i \<le> j + 1 \<Longrightarrow> filter (\<lambda>e. e_index e > j) es = drop (nat (j + 1 - i)) es"
proof (induction es arbitrary: i)
  case (Cons e es)
  show ?case
  proof (cases "i = j + 1")
    case True
    then have "\<forall>x \<in> set (e # es). e_index x > j"
      using wf_entries_range [OF Cons.prems(1)] by fastforce
    then have "filter (\<lambda>e. e_index e > j) (e # es) = e # es"
      by (simp only: filter_True)
    with True show ?thesis by simp
  next
    case False
    then have "nat (j + 1 - i) = Suc (nat (j + 1 - (i + 1)))"
      using Cons.prems(2) by simp
    moreover have "filter (\<lambda>e. e_index e > j) es = drop (nat (j + 1 - (i + 1))) es"
      using Cons.prems False by (intro Cons.IH) (auto simp: wf_entries_Cons)
    ultimately show ?thesis
      using Cons.prems False by (simp add: wf_entries_Cons)
  qed
qed simp

lemma compact_wf:
  assumes wf: "log_wf l" and "first_index l - 1 \<le> idx" "idx < last_index l"
  shows "\<exists>l'. compact_log idx t l = (True, l') \<and> log_wf l' \<and> last_index l' = last_index l
    \<and> snapshot_last_index l' = idx \<and> snapshot_last_term l' = t \<and> first_index l' = idx + 1
    \<and> (\<forall>i > idx. term_at l' i = term_at l i \<and> get_entry l' i = get_entry l i)"
proof -
  define k where "k = nat (idx + 1 - first_index l)"
  have ne: "entries l \<noteq> []"
    using assms wf_first_pos [OF wf] by (auto simp: last_index_def)
  have k: "idx + 1 = first_index l + int k" "k < length (entries l)"
    using assms last_index_wf [OF wf ne] by (simp_all add: k_def)
  define l' where "l' = l\<lparr>snapshot_last_index := idx, snapshot_last_term := t,
      entries := drop k (entries l), first_index := idx + 1\<rparr>"
  note wfe = log_wf_entries [OF wf]
  have "compact_log idx t l = (True, l')"
    using assms ne filter_above [OF wfe, of idx] by (simp add: compact_log_def l'_def k_def)
  moreover have "wf_entries (first_index l + int k) (drop k (entries l))"
    using wfe k(2) by (intro wf_entries_drop) auto
  then have "log_wf l'"
    using k(1) wf_first_pos [OF wf] assms(2) by (simp add: log_wf_alt l'_def)
  moreover have "last_index l' = last_index l"
    using k ne by (simp add: l'_def last_index_def last_drop)
  moreover have "nat (i - first_index l) = k + nat (i - (idx + 1))" if "i > idx" for i
    using that k(1) by linarith
  then have "\<forall>i > idx. term_at l' i = term_at l i \<and> get_entry l' i = get_entry l i"
    using k wf_first_pos [OF wf] by (auto simp: term_at_def get_entry_def l'_def Let_def)
  ultimately show ?thesis
    by (auto simp: l'_def)
qed

section \<open>The interface of a replicated log\<close>

text \<open>
  What a Raft node relies on, for a log whose first entry has index 1: the view is the list of
  its entries, \<open>fits\<close> says which entries the store can take, and the operations act on the
  view as their counterparts do on a list. Both the in-memory log and the durable one are
  instances.
\<close>

lemma graft_repeat:
  assumes "p \<le> length es"
  shows "graft p incoming (graft p incoming es) = graft p incoming es"
proof -
  have "agree as bs = length bs" if "length bs \<le> length as" "\<forall>i < length bs. e_term (as ! i) = e_term (bs ! i)"
    for as bs using that
  proof (induction as bs rule: agree.induct)
    case (1 a as b bs)
    then show ?case by (auto simp: All_less_Suc2)
  qed auto
  from this [of incoming "drop p (graft p incoming es)"]
  have "agree (drop p (graft p incoming es)) incoming = length incoming"
    using graft_length [OF assms, of incoming] graft_terms [OF assms] by simp
  then show ?thesis by (simp add: graft_def [of p incoming "graft p incoming es"])
qed

locale replicated_log =
  fixes inv :: "'l \<Rightarrow> bool" and view :: "'l \<Rightarrow> entry list" and last_ix :: "'l \<Rightarrow> int"
    and trm :: "'l \<Rightarrow> int \<Rightarrow> int" and app :: "int \<Rightarrow> bytes \<Rightarrow> 'l \<Rightarrow> ('l, entry) outcome"
    and mrg :: "int \<Rightarrow> int \<Rightarrow> entry list \<Rightarrow> 'l \<Rightarrow> ('l, bool \<times> int \<times> int) outcome"
    and fits :: "entry list \<Rightarrow> 'l \<Rightarrow> bool"
  assumes view_wf: "inv l \<Longrightarrow> wf_entries 1 (view l)"
    and last_view: "inv l \<Longrightarrow> last_ix l = int (length (view l))"
    and trm_view: "inv l \<Longrightarrow> trm l i =
      (if i = 0 then 0 else if 1 \<le> i \<and> i \<le> int (length (view l)) then e_term (view l ! nat (i - 1))
       else -1)"
    and app_view: "inv l \<Longrightarrow> e = \<lparr>e_index = last_ix l + 1, e_term = t, e_payload = pl\<rparr> \<Longrightarrow> 0 \<le> t
      \<Longrightarrow> fits [e] l \<Longrightarrow> \<exists>l'. app t pl l = (Inr e, l') \<and> inv l' \<and> view l' = view l @ [e]"
    and mrg_view: "inv l \<Longrightarrow> 0 \<le> prev \<Longrightarrow> prev \<le> last_ix l \<Longrightarrow> trm l prev = pt
      \<Longrightarrow> wf_entries (prev + 1) inc \<Longrightarrow> fits inc l
      \<Longrightarrow> \<exists>l'. mrg prev pt inc l = (Inr (True, prev + int (length inc), 0), l') \<and> inv l'
            \<and> view l' = graft (nat prev) inc (view l)"
    and mrg_reject: "inv l \<Longrightarrow> prev > last_ix l \<or> trm l prev \<noteq> pt
      \<Longrightarrow> \<exists>hint. mrg prev pt inc l = (Inr (False, 0, hint), l)"
begin

text \<open>An accepted append leaves the log in agreement with the sender's up to the last entry sent.\<close>

lemma mrg_agrees:
  assumes "inv l" "0 \<le> prev" "prev \<le> last_ix l" "trm l prev = pt"
    and fs: "wf_entries 1 fs" "matching (view l) fs" "take (nat prev) (view l) = take (nat prev) fs"
    and inc: "inc = take n (drop (nat prev) fs)" "prev \<le> int (length fs)" "fits inc l"
  shows "\<exists>l'. mrg prev pt inc l = (Inr (True, prev + int (length inc), 0), l') \<and> inv l'
    \<and> take (nat prev + length inc) (view l') = take (nat prev + length inc) fs"
proof -
  have "wf_entries (1 + int (nat prev)) (drop (nat prev) fs)"
    using fs(1) inc(2) by (intro wf_entries_drop) auto
  then have "wf_entries (prev + 1) inc"
    using assms(2) inc(1) by (simp add: wf_entries_take add.commute)
  from mrg_view [OF assms(1-4) this inc(3)] obtain l' where
    "mrg prev pt inc l = (Inr (True, prev + int (length inc), 0), l')" "inv l'"
    "view l' = graft (nat prev) inc (view l)" by blast
  moreover have "take (nat prev + length inc) (graft (nat prev) inc (view l))
      = take (nat prev + length inc) fs"
    using assms(3) last_view [OF assms(1)] inc fs(2,3) by (intro graft_agrees [of _ fs]) auto
  ultimately show ?thesis by auto
qed

text \<open>A message delivered twice in a row has no further effect.\<close>

lemma mrg_twice:
  assumes "inv l" "0 \<le> prev" "prev \<le> last_ix l" "trm l prev = pt"
    and inc: "wf_entries (prev + 1) inc" "fits inc l"
      "\<And>res l'. mrg prev pt inc l = (res, l') \<Longrightarrow> fits inc l'"
  shows "\<exists>l' l''. mrg prev pt inc l = (Inr (True, prev + int (length inc), 0), l')
    \<and> mrg prev pt inc l' = (Inr (True, prev + int (length inc), 0), l'') \<and> view l'' = view l'"
proof -
  obtain l' where l': "mrg prev pt inc l = (Inr (True, prev + int (length inc), 0), l')" "inv l'"
    "view l' = graft (nat prev) inc (view l)"
    using mrg_view [OF assms(1-6)] by blast
  have le: "nat prev \<le> length (view l)"
    using assms(3) last_view [OF assms(1)] by simp
  then have len: "nat prev + length inc \<le> length (view l')"
    using graft_length l'(3) by metis
  have "trm l' prev = pt"
  proof (cases "prev = 0")
    case False
    have "take (nat prev) (view l') ! nat (prev - 1) = take (nat prev) (view l) ! nat (prev - 1)"
      using graft_before [OF order_refl le, of inc] by (simp add: l'(3))
    with False assms(2,4) le len show ?thesis
      by (auto simp: trm_view [OF l'(2)] trm_view [OF assms(1)] split: if_splits)
  qed (use assms in \<open>simp add: trm_view [OF l'(2)] trm_view [OF assms(1)]\<close>)
  moreover have "prev \<le> last_ix l'"
    using len assms(2) last_view [OF l'(2)] by linarith
  ultimately obtain l'' where "mrg prev pt inc l' = (Inr (True, prev + int (length inc), 0), l'')"
    "view l'' = graft (nat prev) inc (view l')"
    using mrg_view [OF l'(2) assms(2) _ _ inc(1) inc(3) [OF l'(1)]] by blast
  with l' show ?thesis
    using graft_repeat [OF le] by metis
qed

end

definition mem_inv :: "raft_log \<Rightarrow> bool" where
  "mem_inv l \<longleftrightarrow> log_wf l \<and> first_index l = 1"

lemma mem_last: "mem_inv l \<Longrightarrow> last_index l = int (length (entries l))"
  using last_index_wf [of l] by (cases "entries l = []") (auto simp: mem_inv_def last_index_def)

lemma mem_term:
  "mem_inv l \<Longrightarrow> term_at l i =
     (if i = 0 then 0 else if 1 \<le> i \<and> i \<le> int (length (entries l)) then e_term (entries l ! nat (i - 1))
      else -1)"
  by (auto simp: mem_inv_def term_at_def)

interpretation mem: replicated_log mem_inv entries last_index term_at
  "\<lambda>t pl l. (Inr (fst (append_entry t pl l)), snd (append_entry t pl l))"
  "\<lambda>prev pt inc l. (Inr (fst (merge prev pt inc l)), snd (merge prev pt inc l))" "\<lambda>_ _. True"
proof
  fix l e t pl
  assume l: "mem_inv l" and e: "e = \<lparr>e_index = last_index l + 1, e_term = t, e_payload = pl\<rparr>" "0 \<le> (t :: int)"
  then have "wf_entries 1 (entries l @ [e])"
    using mem_last [OF l] log_wf_entries [of l]
    by (auto simp: mem_inv_def wf_entries_append wf_entries_Cons)
  with l e show "\<exists>l'. (Inr (fst (append_entry t pl l)), snd (append_entry t pl l)) = (Inr e, l') \<and> mem_inv l'
      \<and> entries l' = entries l @ [e]"
    by (auto simp: append_entry_def Let_def mem_inv_def log_wf_alt)
next
  fix l prev pt inc
  assume l: "mem_inv l" and prev: "0 \<le> prev" "prev \<le> last_index l" "term_at l prev = pt"
    "wf_entries (prev + 1) inc"
  have m: "merge prev pt inc l =
      ((True, prev + int (length inc), 0), l\<lparr>entries := graft (nat prev) inc (entries l)\<rparr>)"
    using merge_accepts [of l prev pt inc] l prev by (simp add: mem_inv_def)
  have "wf_entries 1 (graft (nat prev) inc (entries l))"
    using l prev mem_last [OF l] log_wf_entries [of l]
    by (intro graft_wf) (auto simp: mem_inv_def add.commute)
  with l m show "\<exists>l'. (Inr (fst (merge prev pt inc l)), snd (merge prev pt inc l)) =
      (Inr (True, prev + int (length inc), 0), l') \<and> mem_inv l' \<and> entries l' = graft (nat prev) inc (entries l)"
    by (auto simp: mem_inv_def log_wf_alt)
next
  fix l prev pt inc
  assume "prev > last_index l \<or> term_at l prev \<noteq> pt"
  then show "\<exists>hint. (Inr (fst (merge prev pt inc l)), snd (merge prev pt inc l)) = (Inr (False, 0, hint), l)"
    by (auto simp: merge_def)
next
  fix l
  assume "mem_inv l"
  then show "wf_entries 1 (entries l)"
    using log_wf_entries [of l] by (simp add: mem_inv_def)
qed (simp_all add: mem_last mem_term)

end
