(* ===== verification/Durable_Log.thy ===== *)
theory Durable_Log
  imports Raft_Log Commit_Log_Props
begin

text \<open>
  \<^verbatim>\<open>pylog/durable_log.py\<close>: the Raft log kept on disk in a commit log. The object is the
  in-memory log it inherits (\<open>cache\<close>) together with the commit log (\<open>disk\<close>). The lemmas
  show that it behaves as the in-memory log does and that disk and cache hold the same
  entries after every operation.
\<close>

section \<open>Entry payloads\<close>

definition encode_entry_payload :: "int \<Rightarrow> bytes \<Rightarrow> bytes result" where
  "encode_entry_payload t pl =
     (if fits_unsigned 8 t then Inr (be_bytes 8 t @ pl) else Inl StructError)"

definition decode_entry_payload :: "bytes \<Rightarrow> (int \<times> bytes) result" where
  "decode_entry_payload blob =
     (if length blob < 8 then Inl StructError else Inr (be_uint (take 8 blob), drop 8 blob))"

section \<open>State and operations\<close>

record durable_log =
  cache :: raft_log
  disk :: commit_log

fun load_entries :: "log_record list \<Rightarrow> entry list result" where
  "load_entries [] = Inr []"
| "load_entries (r # rs) =
     (case decode_entry_payload (rec_payload r) of
        Inl e \<Rightarrow> Inl e
      | Inr (t, pl) \<Rightarrow>
          (case load_entries rs of
             Inl e \<Rightarrow> Inl e
           | Inr es \<Rightarrow> Inr (\<lparr>e_index = rec_offset r + 1, e_term = t, e_payload = pl\<rparr> # es)))"

definition open_durable :: "directory \<Rightarrow> int \<Rightarrow> durable_log result" where
  "open_durable dir max_bytes =
     (case open_log dir max_bytes 4096 of
        Inl e \<Rightarrow> Inl e
      | Inr d \<Rightarrow>
          (case load_entries (read_range 0 (next_offset d) d) of
             Inl e \<Rightarrow> Inl e
           | Inr es \<Rightarrow> Inr \<lparr>cache = raft_log_init\<lparr>entries := es\<rparr>, disk = d\<rparr>))"

definition durable_append :: "int \<Rightarrow> int \<Rightarrow> bytes \<Rightarrow> durable_log \<Rightarrow> (durable_log, entry) outcome" where
  "durable_append now t pl d =
     (let e = \<lparr>e_index = last_index (cache d) + 1, e_term = t, e_payload = pl\<rparr>;
          d1 = d\<lparr>cache := (cache d)\<lparr>entries := entries (cache d) @ [e]\<rparr>\<rparr>
      in case encode_entry_payload t pl of
           Inl err \<Rightarrow> (Inl err, d1)
         | Inr blob \<Rightarrow>
             (case append_many [blob] None now (disk d) of
                (Inl err, k) \<Rightarrow> (Inl err, d1\<lparr>disk := k\<rparr>)
              | (Inr _, k) \<Rightarrow> (Inr e, d1\<lparr>disk := k\<rparr>)))"

definition truncate_disk_through :: "int \<Rightarrow> durable_log \<Rightarrow> (durable_log, unit) outcome" where
  "truncate_disk_through raft_index d =
     (case truncate_from raft_index (disk d) of
        (Inl e, k) \<Rightarrow> (Inl e, d\<lparr>disk := k\<rparr>)
      | (Inr _, k) \<Rightarrow> (Inr (), d\<lparr>disk := k\<rparr>))"

fun find_cut :: "raft_log \<Rightarrow> int \<Rightarrow> entry list \<Rightarrow> int option" where
  "find_cut l idx [] = None"
| "find_cut l idx (inc # incs) =
     (let local_term = term_at l idx in
      if local_term = -1 \<or> local_term \<noteq> e_term inc then Some idx else find_cut l (idx + 1) incs)"

fun new_entries :: "int \<Rightarrow> int \<Rightarrow> entry list \<Rightarrow> entry list" where
  "new_entries existing_last nxt [] = []"
| "new_entries existing_last nxt (inc # incs) =
     (if e_index inc > existing_last
      then \<lparr>e_index = nxt, e_term = e_term inc, e_payload = e_payload inc\<rparr>
             # new_entries existing_last (nxt + 1) incs
      else new_entries existing_last nxt incs)"

fun encode_all :: "entry list \<Rightarrow> bytes list result" where
  "encode_all [] = Inr []"
| "encode_all (e # es) =
     (case encode_entry_payload (e_term e) (e_payload e) of
        Inl err \<Rightarrow> Inl err
      | Inr b \<Rightarrow> (case encode_all es of Inl err \<Rightarrow> Inl err | Inr bs \<Rightarrow> Inr (b # bs)))"

definition cut_at :: "int \<Rightarrow> durable_log \<Rightarrow> (durable_log, bool) outcome" where
  "cut_at at d =
     (let d1 = d\<lparr>cache := (cache d)\<lparr>entries := filter (\<lambda>e. e_index e < at) (entries (cache d))\<rparr>\<rparr>;
          (res, k) = truncate_from (at - 1) (disk d)
      in (res, d1\<lparr>disk := k\<rparr>))"

definition durable_merge ::
  "int \<Rightarrow> int \<Rightarrow> int \<Rightarrow> entry list \<Rightarrow> durable_log \<Rightarrow> (durable_log, bool \<times> int \<times> int) outcome" where
  "durable_merge now prev_index prev_term incoming d =
     (let local_term = term_at (cache d) prev_index in
      if prev_index > last_index (cache d) then (Inr (False, 0, last_index (cache d) + 1), d)
      else if local_term \<noteq> prev_term then
        (Inr (False, 0, conflict_term_first_index (cache d) local_term prev_index), d)
      else
        let (res, d1) = (case find_cut (cache d) (prev_index + 1) incoming of
                           None \<Rightarrow> (Inr False, d)
                         | Some at \<Rightarrow> cut_at at d)
        in case res of
             Inl err \<Rightarrow> (Inl err, d1)
           | Inr _ \<Rightarrow>
               let existing_last = last_index (cache d1);
                   to_add = new_entries existing_last (existing_last + 1) incoming;
                   d2 = d1\<lparr>cache := (cache d1)\<lparr>entries := entries (cache d1) @ to_add\<rparr>\<rparr>;
                   answer = (True, prev_index + int (length incoming), 0)
               in if to_add = [] then (Inr answer, d2)
                  else case encode_all to_add of
                         Inl err \<Rightarrow> (Inl err, d2)
                       | Inr payloads \<Rightarrow>
                           (case append_many payloads None now (disk d2) of
                              (Inl err, k) \<Rightarrow> (Inl err, d2\<lparr>disk := k\<rparr>)
                            | (Inr _, k) \<Rightarrow> (Inr answer, d2\<lparr>disk := k\<rparr>)))"

record durable_stats =
  raft_last_index :: int
  disk_records :: int
  disk_bytes :: int
  disk_segments :: nat

definition durable_stats_of :: "durable_log \<Rightarrow> durable_stats" where
  "durable_stats_of d = \<lparr>raft_last_index = last_index (cache d), disk_records = next_offset (disk d),
     disk_bytes = stat_size_bytes (stats (disk d)), disk_segments = length (segments (disk d))\<rparr>"

section \<open>Coherence of cache and disk\<close>

definition entry_bytes :: "entry \<Rightarrow> bytes" where
  "entry_bytes e = be_bytes 8 (e_term e) @ e_payload e"

definition durable_inv :: "durable_log \<Rightarrow> bool" where
  "durable_inv d \<longleftrightarrow> mem_inv (cache d) \<and> log_inv (disk d) \<and> first_offset (disk d) = 0
     \<and> map rec_payload (log_records (disk d)) = map entry_bytes (entries (cache d))
     \<and> (\<forall>e \<in> set (entries (cache d)). fits_unsigned 8 (e_term e))"

text \<open>Entries that the record format and the 64-bit positions of the store can take.\<close>

definition durable_fits :: "int \<Rightarrow> entry list \<Rightarrow> durable_log \<Rightarrow> bool" where
  "durable_fits now es d \<longleftrightarrow> fits_signed 8 now
     \<and> (\<forall>e \<in> set es. fits_unsigned 8 (e_term e) \<and> int (length (e_payload e)) + 8 \<le> MAX_RECORD_BYTES)
     \<and> int (length (entries (cache d))) + int (length es) < 2 ^ 64
     \<and> length (file_bytes (log_records (disk d))) + sum_list (map (\<lambda>e. length (e_payload e) + 36) es)
         < 2 ^ 64"

lemma durable_next: "durable_inv d \<Longrightarrow> next_offset (disk d) = last_index (cache d)"
proof -
  assume d: "durable_inv d"
  then have "length (log_records (disk d)) = length (entries (cache d))"
    by (metis durable_inv_def length_map)
  with d show ?thesis
    using log_inv_records(2) [of "disk d"] mem_last [of "cache d"] by (simp add: durable_inv_def)
qed

lemma encode_all_ok:
  "\<forall>e \<in> set es. fits_unsigned 8 (e_term e) \<Longrightarrow> encode_all es = Inr (map entry_bytes es)"
  by (induction es) (auto simp: encode_entry_payload_def entry_bytes_def)

lemma decode_encode:
  "fits_unsigned 8 t \<Longrightarrow> decode_entry_payload (be_bytes 8 t @ pl) = Inr (t, pl)"
  by (simp add: decode_entry_payload_def codec_simps)

lemma load_entries_ok:
  "consecutive (i - 1) rs \<Longrightarrow> map rec_payload rs = map entry_bytes es \<Longrightarrow> wf_entries i es \<Longrightarrow>
     \<forall>e \<in> set es. fits_unsigned 8 (e_term e) \<Longrightarrow> load_entries rs = Inr es"
proof (induction rs arbitrary: i es)
  case (Cons r rs)
  then obtain e es' where es: "es = e # es'" by (cases es) auto
  with Cons have "load_entries rs = Inr es'"
    by (intro Cons.IH [of "i + 1"]) (auto simp: consecutive_Cons wf_entries_Cons)
  with Cons.prems es show ?case
    by (auto simp: consecutive_Cons wf_entries_Cons entry_bytes_def decode_encode)
qed simp

lemma append_many_default:
  "append_many payloads None now l = append_many payloads (Some (replicate (length payloads) now)) now l"
  by (simp add: append_many_def Let_def)

lemma room_for_whole:
  assumes "log_inv l" "length (file_bytes (log_records l)) + length (file_bytes rs) < 2 ^ 64"
  shows "room_for rs (active l)"
proof -
  obtain ss where "segments l = ss @ [active l]"
    using assms(1) segments_split by (auto simp: log_inv_def)
  then have "length (file_bytes (seg_records (active l))) \<le> length (file_bytes (log_records l))"
    by (simp add: log_records_def)
  with assms(2) show ?thesis by (simp add: room_for_def)
qed

lemma length_file_many:
  "length (file_bytes (many_records off (map entry_bytes es) tss))
     = sum_list (map (\<lambda>e. length (e_payload e) + 36) es)"
proof -
  have "length (file_bytes rs) = sum_list (map (\<lambda>r. HEADER_SIZE + length (rec_payload r)) rs)" for rs
    by (induction rs) (simp_all add: length_record_bytes)
  moreover have "map (\<lambda>r. HEADER_SIZE + length (rec_payload r)) (many_records off (map entry_bytes es) tss)
      = map (\<lambda>e. length (e_payload e) + 36) es"
    by (rule nth_equalityI) (simp_all add: many_records_def entry_bytes_def HEADER_SIZE_def)
  ultimately show ?thesis by simp
qed

lemma payloads_many: "map rec_payload (many_records off payloads tss) = payloads"
  by (rule nth_equalityI) (simp_all add: many_records_def)

text \<open>Writing entries behind the last one keeps cache and disk equal.\<close>

lemma durable_write:
  assumes d: "durable_inv d" and fits: "durable_fits now es d"
    and wf: "wf_entries (last_index (cache d) + 1) es"
  shows "\<exists>k offs. append_many (map entry_bytes es) None now (disk d) = (Inr offs, k)
    \<and> durable_inv (d\<lparr>cache := (cache d)\<lparr>entries := entries (cache d) @ es\<rparr>, disk := k\<rparr>)"
proof -
  let ?n = "length es" and ?tss = "replicate (length es) now"
  let ?rs = "many_records (next_offset (disk d)) (map entry_bytes es) ?tss"
  have inv: "mem_inv (cache d)" "log_inv (disk d)" "first_offset (disk d) = 0"
    using d by (simp_all add: durable_inv_def)
  have small: "next_offset (disk d) + int ?n < 2 ^ 64"
    using fits durable_next [OF d] mem_last [OF inv(1)] by (simp add: durable_fits_def)
  have "0 \<le> next_offset (disk d)"
    using durable_next [OF d] mem_last [OF inv(1)] by simp
  moreover have "int (length (entry_bytes (es ! j))) \<le> MAX_RECORD_BYTES" if "j < ?n" for j
    using fits nth_mem [OF that] by (auto simp: durable_fits_def entry_bytes_def)
  ultimately have "\<forall>r \<in> set ?rs. valid_record r"
    using small fits
    by (auto simp: many_records_def valid_record_def durable_fits_def fits_unsigned_def)
  moreover have "room_for ?rs (active (disk d))"
    using fits inv(2) length_file_many by (intro room_for_whole) (auto simp: durable_fits_def)
  ultimately obtain k where k: "append_many (map entry_bytes es) (Some ?tss) now (disk d) =
      (Inr (map (\<lambda>j. next_offset (disk d) + int j) [0..<?n]), k)" "log_inv k"
    "log_records k = log_records (disk d) @ ?rs" "first_offset k = first_offset (disk d)"
    using append_many_inv [of "disk d" "map entry_bytes es" ?tss now] inv(2) by auto
  have "wf_entries 1 (entries (cache d) @ es)"
    using wf mem_last [OF inv(1)] mem.view_wf [OF inv(1)] by (simp add: wf_entries_append add.commute)
  then have "mem_inv ((cache d)\<lparr>entries := entries (cache d) @ es\<rparr>)"
    using inv(1) by (auto simp: mem_inv_def log_wf_alt)
  moreover have "\<forall>e \<in> set es. fits_unsigned 8 (e_term e)"
    using fits by (simp add: durable_fits_def)
  ultimately have "durable_inv (d\<lparr>cache := (cache d)\<lparr>entries := entries (cache d) @ es\<rparr>, disk := k\<rparr>)"
    using d k by (auto simp: durable_inv_def payloads_many)
  with k(1) show ?thesis
    by (auto simp: append_many_default)
qed

lemma durable_append_ok:
  assumes d: "durable_inv d" and e: "e = \<lparr>e_index = last_index (cache d) + 1, e_term = t, e_payload = pl\<rparr>"
    and fits: "durable_fits now [e] d"
  shows "\<exists>d'. durable_append now t pl d = (Inr e, d') \<and> durable_inv d'
    \<and> cache d' = snd (append_entry t pl (cache d))"
proof -
  have t: "fits_unsigned 8 t"
    using fits e by (simp add: durable_fits_def)
  then have "wf_entries (last_index (cache d) + 1) [e]"
    by (simp add: wf_entries_Cons e fits_unsigned_def)
  from durable_write [OF d fits this] obtain k offs where
    k: "append_many [entry_bytes e] None now (disk d) = (Inr offs, k)"
    "durable_inv (d\<lparr>cache := (cache d)\<lparr>entries := entries (cache d) @ [e]\<rparr>, disk := k\<rparr>)" by auto
  have "durable_append now t pl d =
      (Inr e, d\<lparr>cache := (cache d)\<lparr>entries := entries (cache d) @ [e]\<rparr>, disk := k\<rparr>)"
    using t k(1) by (simp add: durable_append_def encode_entry_payload_def entry_bytes_def e Let_def)
  then show ?thesis
    using k(2) e by (simp add: append_entry_def Let_def)
qed

section \<open>Merging\<close>

lemma find_cut_agree:
  assumes "mem_inv l" "p \<le> length (entries l)"
  shows "find_cut l (1 + int p) incoming =
    (let j = agree (drop p (entries l)) incoming in
     if j = length incoming then None else Some (1 + int (p + j)))"
  using assms
proof (induction incoming arbitrary: p)
  case (Cons inc incs)
  show ?case
  proof (cases "p < length (entries l)")
    case True
    then have d: "drop p (entries l) = entries l ! p # drop (Suc p) (entries l)"
      by (simp add: Cons_nth_drop_Suc)
    have "0 \<le> e_term (entries l ! p)"
      using nth_mem [OF True] Cons.prems by (auto simp: mem_inv_def log_wf_def)
    moreover have "term_at l (1 + int p) = e_term (entries l ! p)"
      using True Cons.prems by (simp add: mem_term)
    moreover have "find_cut l (1 + int (Suc p)) incs =
      (let j = agree (drop (Suc p) (entries l)) incs in
       if j = length incs then None else Some (1 + int (Suc p + j)))"
      using True Cons.prems by (intro Cons.IH) auto
    ultimately show ?thesis
      by (simp add: d Let_def ac_simps)
  next
    case False
    with Cons.prems show ?thesis by (simp add: mem_term Let_def)
  qed
qed simp

lemma filter_below:
  "wf_entries i es \<Longrightarrow> filter (\<lambda>e. e_index e < i + int n) es = take n es"
proof (induction es arbitrary: i n)
  case (Cons e es)
  show ?case
  proof (cases n)
    case 0
    then have "\<forall>x \<in> set (e # es). \<not> e_index x < i + int n"
      using wf_entries_range [OF Cons.prems] by fastforce
    with 0 show ?thesis by (simp only: filter_False take_0)
  next
    case (Suc m)
    have "filter (\<lambda>e. e_index e < i + 1 + int m) es = take m es"
      using Cons.prems by (intro Cons.IH) (simp add: wf_entries_Cons)
    with Suc Cons.prems show ?thesis by (simp add: wf_entries_Cons add.assoc)
  qed
qed simp

lemma new_entries_none: "\<forall>e \<in> set incs. e_index e \<le> m \<Longrightarrow> new_entries m n incs = []"
  by (induction incs) auto

lemma new_entries_all: "wf_entries n incs \<Longrightarrow> m < n \<Longrightarrow> new_entries m n incs = incs"
  by (induction incs arbitrary: n) (auto simp: wf_entries_Cons)

lemma new_entries_append:
  "\<forall>e \<in> set xs. e_index e \<le> m \<Longrightarrow> new_entries m n (xs @ ys) = new_entries m n ys"
  by (induction xs) auto

lemma new_entries_suffix:
  assumes wf: "wf_entries i incs" and j: "j \<le> length incs" and m: "m = i + int j - 1"
  shows "new_entries m (m + 1) incs = drop j incs"
proof -
  have "wf_entries i (take j incs)" "wf_entries (m + 1) (drop j incs)"
    using wf_entries_take [OF wf] wf_entries_drop [OF wf j] m by (simp_all add: algebra_simps)
  moreover from this(1) have "\<forall>e \<in> set (take j incs). e_index e \<le> m"
    using wf_entries_range j m by fastforce
  ultimately have "new_entries m (m + 1) (take j incs @ drop j incs) = drop j incs"
    by (simp only: new_entries_append new_entries_all)
  then show ?thesis by simp
qed

lemma cut_at_ok:
  assumes d: "durable_inv d" and n: "n \<le> length (entries (cache d))"
  shows "\<exists>ch k. cut_at (1 + int n) d =
      (Inr ch, d\<lparr>cache := (cache d)\<lparr>entries := take n (entries (cache d))\<rparr>, disk := k\<rparr>)
    \<and> durable_inv (d\<lparr>cache := (cache d)\<lparr>entries := take n (entries (cache d))\<rparr>, disk := k\<rparr>)
    \<and> log_records k = take n (log_records (disk d))"
proof -
  have inv: "mem_inv (cache d)" "log_inv (disk d)" "first_offset (disk d) = 0"
    using d by (simp_all add: durable_inv_def)
  obtain k where k: "truncate_from (int n) (disk d) = (Inr (int n < next_offset (disk d)), k)"
    "log_inv k" "first_offset k = 0" "log_records k = take n (log_records (disk d))"
    using cut.cut_recs [OF inv(2), of "int n"] inv(3) by auto
  have "filter (\<lambda>e. e_index e < 1 + int n) (entries (cache d)) = take n (entries (cache d))"
    using mem.view_wf [OF inv(1)] by (rule filter_below)
  then have "cut_at (1 + int n) d = (Inr (int n < next_offset (disk d)),
      d\<lparr>cache := (cache d)\<lparr>entries := take n (entries (cache d))\<rparr>, disk := k\<rparr>)"
    using k(1) by (simp add: cut_at_def)
  moreover have "mem_inv ((cache d)\<lparr>entries := take n (entries (cache d))\<rparr>)"
    using inv(1) by (auto simp: mem_inv_def log_wf_alt wf_entries_take)
  then have "durable_inv (d\<lparr>cache := (cache d)\<lparr>entries := take n (entries (cache d))\<rparr>, disk := k\<rparr>)"
    using d k by (auto simp: durable_inv_def take_map [symmetric] dest: in_set_takeD)
  ultimately show ?thesis
    using k(4) by blast
qed

lemma fits_after_cut:
  assumes "durable_fits now es d" "length (entries (cache d')) \<le> length (entries (cache d))"
    "log_records (disk d') = take n (log_records (disk d))" "j \<le> length es"
  shows "durable_fits now (drop j es) d'"
proof -
  let ?w = "\<lambda>e :: entry. length (e_payload e) + 36"
  have "map ?w es = map ?w (take j es) @ map ?w (drop j es)"
    by (simp flip: map_append)
  then have "sum_list (map ?w (drop j es)) \<le> sum_list (map ?w es)"
    by (metis le_add2 sum_list_append)
  with assms length_file_take [of n "log_records (disk d)"] show ?thesis
    by (auto simp: durable_fits_def dest: in_set_dropD)
qed

lemma durable_merge_ok:
  assumes d: "durable_inv d" and prev: "0 \<le> prev" "prev \<le> last_index (cache d)"
    and pt: "term_at (cache d) prev = pt" and inc: "wf_entries (prev + 1) incoming"
    and fits: "durable_fits now incoming d"
  shows "\<exists>d'. durable_merge now prev pt incoming d = (Inr (True, prev + int (length incoming), 0), d')
    \<and> durable_inv d' \<and> entries (cache d') = graft (nat prev) incoming (entries (cache d))"
proof -
  define p where "p = nat prev"
  define es where "es = entries (cache d)"
  define j where "j = agree (drop p es) incoming"
  have mem: "mem_inv (cache d)"
    using d by (simp add: durable_inv_def)
  have p: "prev = int p" "p \<le> length es" "prev + 1 = 1 + int p"
    using prev mem_last [OF mem] by (simp_all add: p_def es_def)
  have j: "p + j \<le> length es" "j \<le> length incoming"
    using agree_le [of "drop p es" incoming] p(2) by (simp_all add: j_def)
  have scan: "find_cut (cache d) (prev + 1) incoming =
      (if j = length incoming then None else Some (1 + int (p + j)))"
    using find_cut_agree [OF mem, of p incoming] p(2) unfolding p(3)
    by (simp add: es_def j_def Let_def)
  show ?thesis
  proof (cases "j = length incoming")
    case True
    have "\<forall>e \<in> set incoming. e_index e \<le> last_index (cache d)"
      using wf_entries_range [OF inc] mem_last [OF mem] True j p by (fastforce simp: es_def)
    then have none: "new_entries (last_index (cache d)) (last_index (cache d) + 1) incoming = []"
      by (rule new_entries_none)
    have "d\<lparr>cache := (cache d)\<lparr>entries := entries (cache d)\<rparr>\<rparr> = d" by simp
    then have "durable_merge now prev pt incoming d = (Inr (True, prev + int (length incoming), 0), d)"
      using True prev(2) pt scan none by (simp add: durable_merge_def Let_def)
    moreover have "graft p incoming es = es"
      using True by (simp add: graft_def j_def)
    ultimately show ?thesis
      using d by (simp add: p_def es_def)
  next
    case False
    obtain ch k where k: "cut_at (1 + int (p + j)) d =
        (Inr ch, d\<lparr>cache := (cache d)\<lparr>entries := take (p + j) es\<rparr>, disk := k\<rparr>)"
      "durable_inv (d\<lparr>cache := (cache d)\<lparr>entries := take (p + j) es\<rparr>, disk := k\<rparr>)"
      "log_records k = take (p + j) (log_records (disk d))"
      using cut_at_ok [OF d, of "p + j"] j(1) by (auto simp: es_def)
    define d1 where "d1 = d\<lparr>cache := (cache d)\<lparr>entries := take (p + j) es\<rparr>, disk := k\<rparr>"
    have d1: "durable_inv d1" "last_index (cache d1) = int (p + j)"
      using k(2) mem_last [of "cache d1"] j(1) by (simp_all add: d1_def durable_inv_def)
    have add: "new_entries (last_index (cache d1)) (last_index (cache d1) + 1) incoming = drop j incoming"
      using inc j(2) d1(2) p by (intro new_entries_suffix) auto
    have "durable_fits now (drop j incoming) d1"
      using fits k(3) j by (intro fits_after_cut [of now incoming d _ "p + j"]) (auto simp: d1_def es_def)
    moreover have "wf_entries (last_index (cache d1) + 1) (drop j incoming)"
      using wf_entries_drop [OF inc j(2)] d1(2) p by (simp add: algebra_simps)
    ultimately obtain k' offs where k': "append_many (map entry_bytes (drop j incoming)) None now (disk d1) = (Inr offs, k')"
      "durable_inv (d1\<lparr>cache := (cache d1)\<lparr>entries := entries (cache d1) @ drop j incoming\<rparr>, disk := k'\<rparr>)"
      using durable_write [OF d1(1)] by blast
    have "encode_all (drop j incoming) = Inr (map entry_bytes (drop j incoming))"
      using fits by (intro encode_all_ok) (auto simp: durable_fits_def dest: in_set_dropD)
    moreover have "drop j incoming \<noteq> []"
      using False j(2) by simp
    ultimately have "durable_merge now prev pt incoming d = (Inr (True, prev + int (length incoming), 0),
        d1\<lparr>cache := (cache d1)\<lparr>entries := entries (cache d1) @ drop j incoming\<rparr>, disk := k'\<rparr>)"
      using False prev(2) pt scan k(1) add k'(1)
      by (simp add: durable_merge_def Let_def d1_def [symmetric])
    moreover have "entries (cache d1) @ drop j incoming = graft p incoming es"
      using False by (simp add: d1_def graft_def j_def Let_def)
    ultimately show ?thesis
      using k'(2) by (simp add: p_def es_def)
  qed
qed

lemma durable_merge_reject:
  assumes "prev > last_index (cache d) \<or> term_at (cache d) prev \<noteq> pt"
  shows "\<exists>hint. durable_merge now prev pt incoming d = (Inr (False, 0, hint), d)"
  using assms by (auto simp: durable_merge_def Let_def)

interpretation dur: replicated_log durable_inv "\<lambda>d. entries (cache d)" "\<lambda>d. last_index (cache d)"
  "\<lambda>d. term_at (cache d)" "durable_append now" "durable_merge now" "durable_fits now" for now
proof
  fix d e t pl
  assume "durable_inv d" "e = \<lparr>e_index = last_index (cache d) + 1, e_term = t, e_payload = pl\<rparr>"
    "0 \<le> t" "durable_fits now [e] d"
  then show "\<exists>d'. durable_append now t pl d = (Inr e, d') \<and> durable_inv d'
      \<and> entries (cache d') = entries (cache d) @ [e]"
    using durable_append_ok [of d e t pl now] by (auto simp: append_entry_def Let_def)
qed (erule durable_merge_ok | erule durable_merge_reject
     | simp add: durable_inv_def mem.view_wf mem.last_view mem.trm_view; fail)+

section \<open>Reopening\<close>

lemma open_durable_ok:
  assumes d: "log_inv k" "first_offset k = 0" and opened: "open_log dir max_bytes 4096 = Inr k"
    and es: "map rec_payload (log_records k) = map entry_bytes es" "wf_entries 1 es"
      "\<forall>e \<in> set es. fits_unsigned 8 (e_term e)"
  shows "\<exists>d'. open_durable dir max_bytes = Inr d' \<and> durable_inv d' \<and> entries (cache d') = es"
proof -
  have "read_range 0 (next_offset k) k = log_records k"
    using d cl.read_loop_recs [OF d(1), of 0] log_inv_records(2) [OF d(1)] by (simp add: read_range_def)
  moreover have "load_entries (log_records k) = Inr es"
    using es d log_inv_records(1) [OF d(1)] by (intro load_entries_ok [of 1]) auto
  ultimately have "open_durable dir max_bytes = Inr \<lparr>cache = raft_log_init\<lparr>entries := es\<rparr>, disk = k\<rparr>"
    using opened by (simp add: open_durable_def)
  moreover have "mem_inv (raft_log_init\<lparr>entries := es\<rparr>)"
    using es(2) by (simp add: mem_inv_def log_wf_alt raft_log_init_def)
  ultimately show ?thesis
    using d es by (auto simp: durable_inv_def)
qed

lemma durable_reopen:
  assumes d: "durable_inv d" and iv: "log_interval (disk d) = 4096"
  shows "\<exists>d' n. open_durable (dir_of (torn b (disk d))) (max_segment_bytes (disk d)) = Inr d'
    \<and> durable_inv d' \<and> entries (cache d') = take n (entries (cache d))
    \<and> (length (contents (log_file (active (disk d)))) \<le> b \<longrightarrow> entries (cache d') = entries (cache d))"
proof -
  let ?k = "disk d" and ?a = "active (disk d)"
  have inv: "log_inv ?k" "first_offset ?k = 0" "mem_inv (cache d)"
    "map rec_payload (log_records ?k) = map entry_bytes (entries (cache d))"
    "\<forall>e \<in> set (entries (cache d)). fits_unsigned 8 (e_term e)"
    using d by (simp_all add: durable_inv_def)
  obtain k' where k': "open_log (dir_of (torn b ?k)) (max_segment_bytes ?k) 4096 = Inr k'" "log_inv k'"
    "first_offset k' = 0" "log_records k' = concat (map seg_records (butlast (segments ?k)))
        @ whole_records b (seg_records ?a)"
    using reopen_torn [OF inv(1), of b] inv(2) iv by auto
  have rep: "seg_rep ?a (seg_records ?a)"
    using active_segment(2) [OF inv(1)] .
  obtain m where m: "m \<le> length (seg_records ?a)" "whole_records b (seg_records ?a) = take m (seg_records ?a)"
    "\<forall>j \<le> length (seg_records ?a). length (file_bytes (take j (seg_records ?a))) \<le> b \<longrightarrow> j \<le> m"
    using whole_records_prefix [OF seg_rep_props(3) [OF rep]] by metis
  obtain ss where ss: "segments ?k = ss @ [?a]"
    using inv(1) segments_split by (auto simp: log_inv_def)
  define n where "n = length (concat (map seg_records ss)) + m"
  have recs: "log_records k' = take n (log_records ?k)"
    using k'(4) m(2) ss by (simp add: log_records_def n_def)
  have "wf_entries 1 (take n (entries (cache d)))"
    using mem.view_wf [OF inv(3)] by (rule wf_entries_take)
  moreover have "map rec_payload (log_records k') = map entry_bytes (take n (entries (cache d)))"
    using inv(4) by (simp add: recs take_map [symmetric])
  ultimately obtain d' where d': "open_durable (dir_of (torn b ?k)) (max_segment_bytes ?k) = Inr d'"
    "durable_inv d'" "entries (cache d') = take n (entries (cache d))"
    using open_durable_ok [OF k'(2,3,1)] inv(5) by (auto dest: in_set_takeD)
  have "entries (cache d') = entries (cache d)" if "length (contents (log_file ?a)) \<le> b"
  proof -
    have "m = length (seg_records ?a)"
      using that m(1,3) seg_rep_fields(3) [OF rep] by (auto intro: antisym)
    then have "n = length (log_records ?k)"
      using ss by (simp add: n_def log_records_def)
    also have "\<dots> = length (entries (cache d))"
      using inv(4) by (metis length_map)
    finally show ?thesis
      using d'(3) by simp
  qed
  with d' show ?thesis by blast
qed

end
