(* ===== verification/Raft_Log_Theorems.thy ===== *)
theory Raft_Log_Theorems
  imports Durable_Log
begin

text \<open>
  The properties of the Raft log in memory (\<^verbatim>\<open>RaftLog\<close>) and on disk (\<^verbatim>\<open>DurableRaftLog\<close>), each with
  a concrete instance.
\<close>

definition sample_entry :: "int \<Rightarrow> int \<Rightarrow> bytes \<Rightarrow> entry" where
  "sample_entry i t pl = \<lparr>e_index = i, e_term = t, e_payload = pl\<rparr>"

definition sample_log :: raft_log where
  "sample_log = raft_log_init\<lparr>entries := [sample_entry 1 1 [7], sample_entry 2 1 [8]]\<rparr>"

lemma sample_entry_fields [simp]:
  "e_index (sample_entry i t pl) = i" "e_term (sample_entry i t pl) = t" "e_payload (sample_entry i t pl) = pl"
  by (simp_all add: sample_entry_def)

lemma sample_log_fields [simp]:
  "entries sample_log = [sample_entry 1 1 [7], sample_entry 2 1 [8]]" "first_index sample_log = 1"
  "snapshot_last_index sample_log = 0" "last_index sample_log = 2"
  by (simp_all add: sample_log_def raft_log_init_def last_index_def)

lemma sample_log_mem: "mem_inv sample_log"
  by (simp add: mem_inv_def log_wf_alt wf_entries_Cons)

section \<open>Merging\<close>

text \<open>
  When the previous entry is present with the given term, \<^verbatim>\<open>merge\<close> succeeds, reports the index of
  the last incoming entry, and the log keeps its entries up to the first incoming entry that
  is missing or conflicts, followed by the incoming entries from there; nothing is removed when
  all of them are present. Indexes stay contiguous.
\<close>

theorem merge_grafts:
  assumes "log_wf l" "first_index l - 1 \<le> prev" "prev \<le> last_index l" "term_at l prev = pt"
    and "wf_entries (prev + 1) incoming"
  shows "merge prev pt incoming l =
      ((True, prev + int (length incoming), 0),
       l\<lparr>entries := graft (nat (prev + 1 - first_index l)) incoming (entries l)\<rparr>)
    \<and> log_wf (snd (merge prev pt incoming l))"
proof -
  have m: "merge prev pt incoming l = ((True, prev + int (length incoming), 0),
       l\<lparr>entries := graft (nat (prev + 1 - first_index l)) incoming (entries l)\<rparr>)"
    using assms by (rule merge_accepts)
  have "nat (prev + 1 - first_index l) \<le> length (entries l)"
    using assms(1-3) last_index_wf [OF assms(1)] wf_first_pos [OF assms(1)]
    by (cases "entries l = []") (auto simp: last_index_def)
  then have "wf_entries (first_index l) (graft (nat (prev + 1 - first_index l)) incoming (entries l))"
    using assms log_wf_entries [OF assms(1)] by (intro graft_wf) (auto simp: algebra_simps)
  then show ?thesis
    using m assms(1) by (simp add: log_wf_alt)
qed

theorem merge_grafts_witness:
  "merge 1 1 [sample_entry 2 3 [9]] sample_log =
     ((True, 2, 0), sample_log\<lparr>entries := [sample_entry 1 1 [7], sample_entry 2 3 [9]]\<rparr>)"
proof -
  have "log_wf sample_log" "term_at sample_log 1 = 1"
    using sample_log_mem by (simp_all add: mem_inv_def term_at_def)
  then show ?thesis
    using merge_grafts [of sample_log 1 1 "[sample_entry 2 3 [9]]"]
    by (simp add: wf_entries_Cons graft_def Let_def)
qed

text \<open>
  Log matching: if the receiver's log and the sender's satisfy the matching property and agree up
  to the previous entry, then after the merge of any piece of the sender's log they agree up to
  the end of that piece.
\<close>

theorem merge_agrees_with_sender:
  assumes "mem_inv l" "0 \<le> prev" "prev \<le> last_index l" "term_at l prev = pt"
    and "wf_entries 1 fs" "matching (entries l) fs" "take (nat prev) (entries l) = take (nat prev) fs"
    and "inc = take n (drop (nat prev) fs)" "prev \<le> int (length fs)"
  shows "\<exists>l'. merge prev pt inc l = ((True, prev + int (length inc), 0), l') \<and> mem_inv l'
    \<and> take (nat prev + length inc) (entries l') = take (nat prev + length inc) fs"
  using mem.mrg_agrees [OF assms TrueI] by (auto simp: prod_eq_iff)

theorem merge_agrees_with_sender_witness:
  "\<exists>l'. merge 1 1 [sample_entry 2 3 [9]] sample_log = ((True, 2, 0), l') \<and> mem_inv l'
    \<and> take 2 (entries l') = [sample_entry 1 1 [7], sample_entry 2 3 [9]]"
proof -
  let ?fs = "[sample_entry 1 1 [7], sample_entry 2 3 [9]]"
  have "matching (entries sample_log) ?fs"
    by (auto simp: matching_def less_Suc_eq)
  moreover have "term_at sample_log 1 = 1"
    by (simp add: term_at_def)
  ultimately show ?thesis
    using merge_agrees_with_sender [OF sample_log_mem, of 1 1 ?fs "[sample_entry 2 3 [9]]" 1]
    by (simp add: wf_entries_Cons numeral_2_eq_2)
qed

text \<open>
  A duplicated AppendEntries message is harmless: merging the same entries twice succeeds both
  times with the same answer and leaves the log as the first merge did.
\<close>

theorem merge_twice_is_once:
  assumes "mem_inv l" "0 \<le> prev" "prev \<le> last_index l" "term_at l prev = pt"
    and "wf_entries (prev + 1) inc"
  shows "\<exists>l' l''. merge prev pt inc l = ((True, prev + int (length inc), 0), l')
    \<and> merge prev pt inc l' = ((True, prev + int (length inc), 0), l'') \<and> entries l'' = entries l'"
  using mem.mrg_twice [OF assms] by (auto simp: prod_eq_iff)

theorem merge_twice_is_once_witness:
  "\<exists>l' l''. merge 2 1 [sample_entry 3 1 [9]] sample_log = ((True, 3, 0), l')
    \<and> merge 2 1 [sample_entry 3 1 [9]] l' = ((True, 3, 0), l'') \<and> entries l'' = entries l'"
  using merge_twice_is_once [OF sample_log_mem, of 2 1 "[sample_entry 3 1 [9]]"]
  by (simp add: wf_entries_Cons term_at_def)

text \<open>
  The hint of a rejected merge is the first index of the run of entries that share the term of
  the entry at the previous index: it lies between 1 and that index, every entry from the hint
  to it has that term, and the entry before the hint has another.
\<close>

theorem rejection_hint_starts_term:
  assumes "1 \<le> prev" "prev \<le> last_index l" "term_at l prev \<noteq> pt"
  shows "\<exists>h. merge prev pt inc l = ((False, 0, h), l) \<and> 1 \<le> h \<and> h \<le> prev
    \<and> (\<forall>k. h \<le> k \<and> k \<le> prev \<longrightarrow> term_at l k = term_at l prev)
    \<and> (h = 1 \<or> term_at l (h - 1) \<noteq> term_at l prev)"
proof -
  have "merge prev pt inc l =
      ((False, 0, conflict_term_first_index l (term_at l prev) prev), l)"
    using assms(2,3) by (simp add: merge_def)
  then show ?thesis
    using conflict_hint [OF assms(1), of l] by blast
qed

theorem rejection_hint_starts_term_witness:
  "\<exists>h. merge 2 5 [] sample_log = ((False, 0, h), sample_log) \<and> 1 \<le> h \<and> h \<le> 2"
  using rejection_hint_starts_term [of 2 sample_log 5 "[]"] by (auto simp: term_at_def)

section \<open>Compaction\<close>

text \<open>
  Compacting below the last entry keeps every entry above the snapshot point with its index and
  term, keeps the log contiguous, and does not change its last index.
\<close>

theorem compaction_keeps_suffix:
  assumes "log_wf l" "first_index l - 1 \<le> idx" "idx < last_index l"
  shows "\<exists>l'. compact_log idx t l = (True, l') \<and> log_wf l' \<and> last_index l' = last_index l
    \<and> snapshot_last_index l' = idx \<and> snapshot_last_term l' = t \<and> first_index l' = idx + 1
    \<and> (\<forall>i > idx. term_at l' i = term_at l i \<and> get_entry l' i = get_entry l i)"
  using assms by (rule compact_wf)

theorem compaction_keeps_suffix_witness:
  "\<exists>l'. compact_log 1 1 sample_log = (True, l') \<and> log_wf l' \<and> last_index l' = 2"
  using compaction_keeps_suffix [of sample_log 1 1] sample_log_mem by (auto simp: mem_inv_def)

text \<open>
  A leader that has compacted its log up to an index sends the term -1 as the term of the previous
  entry; a follower that still holds the entry at that index rejects every such message and
  keeps its log, so replication to it cannot proceed from the snapshot point.
\<close>

theorem compacted_leader_is_rejected:
  assumes "log_wf lead" "first_index lead - 1 \<le> idx" "idx < last_index lead" "1 \<le> idx"
    and "log_wf foll" "first_index foll \<le> idx" "idx \<le> last_index foll"
  shows "\<exists>h. merge idx (term_at (snd (compact_log idx t lead)) idx) inc foll = ((False, 0, h), foll)"
proof -
  obtain l' where "compact_log idx t lead = (True, l')" "first_index l' = idx + 1"
    using compact_wf [OF assms(1-3)] by blast
  then have "term_at (snd (compact_log idx t lead)) idx = -1"
    using assms(4) by (simp add: term_at_def)
  moreover have "term_at foll idx \<noteq> -1"
  proof -
    have "entries foll \<noteq> []"
      using assms(4,7) by (auto simp: last_index_def)
    then have "nat (idx - first_index foll) < length (entries foll)"
      using assms(6,7) last_index_wf [OF assms(5)] by simp
    moreover from this have "0 \<le> e_term (entries foll ! nat (idx - first_index foll))"
      using assms(5) nth_mem by (auto simp: log_wf_def)
    ultimately show ?thesis
      using assms(4,6) by (simp add: term_at_def Let_def)
  qed
  ultimately show ?thesis
    using assms(7) by (simp add: merge_def)
qed

theorem compacted_leader_is_rejected_witness:
  "\<exists>h. merge 1 (term_at (snd (compact_log 1 1 sample_log)) 1) [sample_entry 2 1 [8]] sample_log
     = ((False, 0, h), sample_log)"
  using compacted_leader_is_rejected [of sample_log 1 sample_log 1] sample_log_mem
  by (simp add: mem_inv_def)

text \<open>
  After compaction a delayed message that starts at the very beginning of the log is still
  accepted, because index 0 always has term 0: its entries are appended behind the present
  ones with the indexes 1, 2 and so on, and the log is no longer contiguous.
\<close>

theorem stale_append_breaks_contiguity:
  "let l = snd (compact_log 1 1 sample_log); r = merge 0 0 [sample_entry 1 1 [7]] l
   in log_wf l \<and> fst r = (True, 1, 0) \<and> map e_index (entries (snd r)) = [2, 1] \<and> \<not> log_wf (snd r)"
proof -
  let ?l = "snd (compact_log 1 1 sample_log)"
  have e: "entries ?l = [sample_entry 2 1 [8]]" "first_index ?l = 2" "snapshot_last_index ?l = 1"
    by (simp_all add: compact_log_def)
  then have "last_index ?l = 2" "term_at ?l 1 = -1"
    by (simp_all add: last_index_def term_at_def)
  then have r: "merge 0 0 [sample_entry 1 1 [7]] ?l =
      ((True, 1, 0), ?l\<lparr>entries := [sample_entry 2 1 [8], sample_entry 1 1 [7]]\<rparr>)"
    using e by (simp add: merge_def sample_entry_def)
  have "log_wf ?l"
    using e by (simp add: log_wf_alt wf_entries_Cons)
  then show ?thesis
    unfolding Let_def r using e by (simp add: log_wf_alt wf_entries_Cons)
qed

section \<open>The durable log\<close>

definition fresh_durable :: durable_log where
  "fresh_durable = \<lparr>cache = raft_log_init, disk = fresh_log 1000 4096\<rparr>"

lemma fresh_durable_inv: "durable_inv fresh_durable"
  by (simp add: fresh_durable_def durable_inv_def mem_inv_def log_wf_init fresh_log_inv)
     (simp add: raft_log_init_def)

lemma fresh_durable_fields [simp]:
  "entries (cache fresh_durable) = []" "last_index (cache fresh_durable) = 0"
  "term_at (cache fresh_durable) 0 = 0" "log_interval (disk fresh_durable) = 4096"
  "max_segment_bytes (disk fresh_durable) = 1000"
  by (simp_all add: fresh_durable_def raft_log_init_def last_index_def fresh_log_def)

lemma fresh_durable_fits:
  "\<forall>e \<in> set es. fits_unsigned 8 (e_term e) \<and> int (length (e_payload e)) + 8 \<le> MAX_RECORD_BYTES \<Longrightarrow>
     int (length es) < 2 ^ 64 \<Longrightarrow> sum_list (map (\<lambda>e. length (e_payload e) + 36) es) < 2 ^ 64 \<Longrightarrow>
     durable_fits 0 es fresh_durable"
  by (simp add: durable_fits_def fits_signed_def) (simp add: fresh_durable_def)

text \<open>
  Appending to the durable log does to the cache exactly what the in-memory log does, and cache
  and disk hold the same entries afterwards; in particular the next offset on disk equals the
  last index.
\<close>

theorem durable_append_coherent:
  assumes "durable_inv d" "durable_fits now [\<lparr>e_index = last_index (cache d) + 1, e_term = t, e_payload = pl\<rparr>] d"
  shows "\<exists>d'. durable_append now t pl d = (Inr (fst (append_entry t pl (cache d))), d') \<and> durable_inv d'
    \<and> cache d' = snd (append_entry t pl (cache d)) \<and> next_offset (disk d') = last_index (cache d')"
proof -
  obtain d' where "durable_append now t pl d =
      (Inr \<lparr>e_index = last_index (cache d) + 1, e_term = t, e_payload = pl\<rparr>, d')"
    "durable_inv d'" "cache d' = snd (append_entry t pl (cache d))"
    using durable_append_ok [OF assms(1) refl assms(2)] by blast
  then show ?thesis
    using durable_next by (auto simp: append_entry_def Let_def)
qed

theorem durable_append_coherent_witness:
  "\<exists>d'. durable_append 0 3 [7] fresh_durable = (Inr (sample_entry 1 3 [7]), d') \<and> durable_inv d'
    \<and> next_offset (disk d') = last_index (cache d')"
proof -
  have "durable_fits 0 [\<lparr>e_index = last_index (cache fresh_durable) + 1, e_term = 3, e_payload = [7]\<rparr>] fresh_durable"
    by (rule fresh_durable_fits) (simp_all add: fits_unsigned_def MAX_RECORD_BYTES_def)
  from durable_append_coherent [OF fresh_durable_inv this] show ?thesis
    by (auto simp: append_entry_def Let_def sample_entry_def)
qed

text \<open>
  C7. Merging into the durable log refines merging into the in-memory log. A message that does not fit the log is
  refused with the answer of the in-memory log, hint included, and changes nothing, whatever the state of the log. On a log that
  has not been compacted and agrees with its disk, every message with well-formed entries that fit the record format, accepted
  or refused, gets the answer of the in-memory log and leaves the same entries, a conflicting tail is removed from disk,
  the new entries are committed as a group, and cache and disk agree afterwards.
\<close>

theorem durable_merge_refines:
  "(prev > last_index (cache d) \<or> term_at (cache d) prev \<noteq> pt \<longrightarrow>
      \<not> fst (fst (merge prev pt inc (cache d))) \<and> snd (merge prev pt inc (cache d)) = cache d
      \<and> durable_merge now prev pt inc d = (Inr (fst (merge prev pt inc (cache d))), d))
   \<and> (durable_inv d \<and> 0 \<le> prev \<and> wf_entries (prev + 1) inc \<and> durable_fits now inc d \<longrightarrow>
      (\<exists>d'. durable_merge now prev pt inc d = (Inr (fst (merge prev pt inc (cache d))), d')
        \<and> durable_inv d' \<and> entries (cache d') = entries (snd (merge prev pt inc (cache d)))
        \<and> next_offset (disk d') = last_index (cache d')))"
proof -
  have refused: "\<not> fst (fst (merge prev pt inc (cache d))) \<and> snd (merge prev pt inc (cache d)) = cache d
      \<and> durable_merge now prev pt inc d = (Inr (fst (merge prev pt inc (cache d))), d)"
    if "prev > last_index (cache d) \<or> term_at (cache d) prev \<noteq> pt"
    using that by (auto simp: merge_def durable_merge_def)
  have "\<exists>d'. durable_merge now prev pt inc d = (Inr (fst (merge prev pt inc (cache d))), d')
        \<and> durable_inv d' \<and> entries (cache d') = entries (snd (merge prev pt inc (cache d)))"
    if d: "durable_inv d" "0 \<le> prev" "wf_entries (prev + 1) inc" "durable_fits now inc d"
  proof (cases "prev > last_index (cache d) \<or> term_at (cache d) prev \<noteq> pt")
    case True
    from refused [OF this] show ?thesis using d(1) by auto
  next
    case False
    then have prev: "prev \<le> last_index (cache d)" "term_at (cache d) prev = pt" by auto
    have "mem_inv (cache d)" using d(1) by (simp add: durable_inv_def)
    then have "merge prev pt inc (cache d) = ((True, prev + int (length inc), 0),
        (cache d)\<lparr>entries := graft (nat prev) inc (entries (cache d))\<rparr>)"
      using merge_accepts [of "cache d" prev pt inc] d(2,3) prev by (simp add: mem_inv_def)
    then show ?thesis
      using durable_merge_ok [OF d(1,2) prev d(3,4)] by auto
  qed
  with refused durable_next show ?thesis by blast
qed

theorem durable_merge_refines_witness:
  "(\<exists>d'. durable_merge 0 0 0 [sample_entry 1 3 [7]] fresh_durable
      = (Inr (fst (merge 0 0 [sample_entry 1 3 [7]] (cache fresh_durable))), d')
    \<and> durable_inv d' \<and> next_offset (disk d') = last_index (cache d'))
   \<and> durable_merge 0 5 2 [] fresh_durable = (Inr (False, 0, 1), fresh_durable)"
proof
  have "durable_fits 0 [sample_entry 1 3 [7]] fresh_durable"
    by (rule fresh_durable_fits) (simp_all add: fits_unsigned_def MAX_RECORD_BYTES_def)
  then show "\<exists>d'. durable_merge 0 0 0 [sample_entry 1 3 [7]] fresh_durable
      = (Inr (fst (merge 0 0 [sample_entry 1 3 [7]] (cache fresh_durable))), d')
    \<and> durable_inv d' \<and> next_offset (disk d') = last_index (cache d')"
    using durable_merge_refines [of fresh_durable 0 0 "[sample_entry 1 3 [7]]" 0] fresh_durable_inv
    by (auto simp: wf_entries_Cons)
  have "fst (merge 5 2 [] (cache fresh_durable)) = (False, 0, 1)"
    by (simp add: merge_def)
  then show "durable_merge 0 5 2 [] fresh_durable = (Inr (False, 0, 1), fresh_durable)"
    using durable_merge_refines [of fresh_durable 5 2 "[]" 0] by simp
qed

text \<open>
  C27. Reopening the durable log after a crash that cut the active file yields a coherent log that
  holds a prefix of the entries, and all of them when nothing was cut.
\<close>

theorem durable_log_survives_crash:
  assumes "durable_inv d" "log_interval (disk d) = 4096"
  shows "\<exists>d' n. open_durable (dir_of (torn b (disk d))) (max_segment_bytes (disk d)) = Inr d'
    \<and> durable_inv d' \<and> entries (cache d') = take n (entries (cache d))
    \<and> (length (contents (log_file (active (disk d)))) \<le> b \<longrightarrow> entries (cache d') = entries (cache d))"
  using assms by (rule durable_reopen)

theorem durable_log_survives_crash_witness:
  "\<exists>d'. open_durable (dir_of (torn 5 (disk fresh_durable))) 1000 = Inr d' \<and> durable_inv d'"
  using durable_log_survives_crash [OF fresh_durable_inv, of 5] by auto

text \<open>
  After a snapshot has been installed, \<^verbatim>\<open>truncate_disk_through\<close> is meant to keep only the entries above
  the snapshot index; it removes exactly these and keeps the entries up to the index.
\<close>

theorem truncate_disk_through_keeps_prefix:
  assumes "durable_inv d" "0 \<le> idx"
  shows "\<exists>d'. truncate_disk_through idx d = (Inr (), d')
    \<and> log_records (disk d') = take (nat idx) (log_records (disk d))
    \<and> next_offset (disk d') = min idx (next_offset (disk d))"
proof -
  have inv: "log_inv (disk d)" "first_offset (disk d) = 0"
    using assms(1) by (simp_all add: durable_inv_def)
  obtain k where "truncate_from idx (disk d) = (Inr (idx < next_offset (disk d)), k)"
    "log_records k = take (nat idx) (log_records (disk d))" "next_offset k = min idx (next_offset (disk d))"
    using truncate_from_inv [OF inv(1), of idx] inv(2) assms(2) by fastforce
  then show ?thesis by (simp add: truncate_disk_through_def)
qed

theorem truncate_disk_through_keeps_prefix_witness:
  "\<exists>d'. truncate_disk_through 0 fresh_durable = (Inr (), d') \<and> log_records (disk d') = []"
  using truncate_disk_through_keeps_prefix [OF fresh_durable_inv, of 0] by auto

end
