(* ===== verification/Unicode.thy ===== *)
theory Unicode
  imports Prelude
begin

text \<open>
  Python strings as lists of code points, and the UTF-8 codec that \<^verbatim>\<open>str.encode\<close> and
  \<^verbatim>\<open>bytes.decode\<close> apply: strict decoding, and decoding with \<^verbatim>\<open>errors="replace"\<close>. The library
  works on all parts of the program that turn text into bytes: keys and payloads of the
  broker, the commands of the key-value store, the JSON files and the wire protocol.
\<close>

type_synonym ustr = "nat list"

definition ascii :: "string \<Rightarrow> ustr" where
  "ascii s = map of_char s"

section \<open>Encoding\<close>

definition scalar :: "nat \<Rightarrow> bool" where
  "scalar c \<longleftrightarrow> c < 0xD800 \<or> (0xE000 \<le> c \<and> c < 0x110000)"

definition utf8_code :: "nat \<Rightarrow> nat list" where
  "utf8_code c =
     (if c < 0x80 then [c]
      else if c < 0x800 then [0xC0 + c div 64, 0x80 + c mod 64]
      else if c < 0x10000 then [0xE0 + c div 4096, 0x80 + (c div 64) mod 64, 0x80 + c mod 64]
      else [0xF0 + c div 262144, 0x80 + (c div 4096) mod 64, 0x80 + (c div 64) mod 64,
            0x80 + c mod 64])"

definition utf8_encode :: "ustr \<Rightarrow> bytes result" where
  "utf8_encode s =
     (if list_all scalar s then Inr (map of_nat (concat (map utf8_code s)))
      else Inl UnicodeEncodeError)"

section \<open>Decoding\<close>

definition cont :: "nat \<Rightarrow> bool" where
  "cont b \<longleftrightarrow> 0x80 \<le> b \<and> b < 0xC0"

text \<open>Which second byte may follow a lead byte: no overlong form, no surrogate, at most U+10FFFF.\<close>

definition second_ok :: "nat \<Rightarrow> nat \<Rightarrow> bool" where
  "second_ok b0 b1 \<longleftrightarrow> cont b1
     \<and> (b0 = 0xE0 \<longrightarrow> 0xA0 \<le> b1) \<and> (b0 = 0xED \<longrightarrow> b1 < 0xA0)
     \<and> (b0 = 0xF0 \<longrightarrow> 0x90 \<le> b1) \<and> (b0 = 0xF4 \<longrightarrow> b1 < 0x90)"

text \<open>
  One step of the decoder: the code point and the unread bytes, or no code point and the bytes
  after the longest prefix that could have started one.
\<close>

fun utf8_step :: "nat list \<Rightarrow> nat option \<times> nat list" where
  "utf8_step [] = (None, [])"
| "utf8_step (b0 # r) =
     (if b0 < 0x80 then (Some b0, r)
      else if 0xC2 \<le> b0 \<and> b0 < 0xE0 then
        (case r of
           [] \<Rightarrow> (None, [])
         | b1 # r1 \<Rightarrow> if cont b1 then (Some ((b0 - 0xC0) * 64 + (b1 - 0x80)), r1) else (None, r))
      else if 0xE0 \<le> b0 \<and> b0 < 0xF0 then
        (case r of
           [] \<Rightarrow> (None, [])
         | b1 # r1 \<Rightarrow>
             if \<not> second_ok b0 b1 then (None, r)
             else (case r1 of
                     [] \<Rightarrow> (None, [])
                   | b2 # r2 \<Rightarrow>
                       if cont b2
                       then (Some ((b0 - 0xE0) * 4096 + (b1 - 0x80) * 64 + (b2 - 0x80)), r2)
                       else (None, r1)))
      else if 0xF0 \<le> b0 \<and> b0 < 0xF5 then
        (case r of
           [] \<Rightarrow> (None, [])
         | b1 # r1 \<Rightarrow>
             if \<not> second_ok b0 b1 then (None, r)
             else (case r1 of
                     [] \<Rightarrow> (None, [])
                   | b2 # r2 \<Rightarrow>
                       if \<not> cont b2 then (None, r1)
                       else (case r2 of
                               [] \<Rightarrow> (None, [])
                             | b3 # r3 \<Rightarrow>
                                 if cont b3
                                 then (Some ((b0 - 0xF0) * 262144 + (b1 - 0x80) * 4096
                                        + (b2 - 0x80) * 64 + (b3 - 0x80)), r3)
                                 else (None, r2))))
      else (None, r))"

lemma utf8_step_shorter: "length (snd (utf8_step (b # r))) \<le> length r"
  by (auto split: list.splits)

lemma utf8_step_less: "utf8_step (b # r) = (c, rest) \<Longrightarrow> length rest < Suc (length r)"
  using utf8_step_shorter [of b r] by (simp del: utf8_step.simps)

text \<open>The list of decoded code points, with \<open>None\<close> for each ill-formed sequence.\<close>

function utf8_points :: "nat list \<Rightarrow> nat option list" where
  "utf8_points [] = []"
| "utf8_points (b # r) = (case utf8_step (b # r) of (c, rest) \<Rightarrow> c # utf8_points rest)"
  by pat_completeness auto
termination
  by (relation "measure length") (auto simp del: utf8_step.simps dest!: utf8_step_less [OF sym])

declare utf8_step.simps(2) [simp del]

definition utf8_decode :: "bytes \<Rightarrow> ustr result" where
  "utf8_decode bs =
     (let cs = utf8_points (map unat bs) in
      if None \<in> set cs then Inl UnicodeDecodeError else Inr (map the cs))"

definition utf8_decode_replace :: "bytes \<Rightarrow> ustr" where
  "utf8_decode_replace bs =
     map (\<lambda>c. case c of None \<Rightarrow> 0xFFFD | Some n \<Rightarrow> n) (utf8_points (map unat bs))"

section \<open>Round trip\<close>

lemma base64_split:
  fixes c :: nat
  obtains q d where "c = 64 * q + d" "d < 64"
  using that [of "c div 64" "c mod 64"] by simp

lemma utf8_step_code:
  assumes "scalar c"
  shows "utf8_step (utf8_code c @ rest) = (Some c, rest)"
proof -
  obtain q d where d: "c = 64 * q + d" "d < 64" by (rule base64_split)
  obtain p e where e: "q = 64 * p + e" "e < 64" by (rule base64_split)
  obtain a f where f: "p = 64 * a + f" "f < 64" by (rule base64_split)
  have q: "c div 64 = q" "c mod 64 = d" using d by simp_all
  have p: "c div 4096 = p" "q mod 64 = e" using d e by simp_all
  have a: "c div 262144 = a" "p mod 64 = f" using d e f by simp_all
  note digits = q p a
  consider "c < 0x80" | "0x80 \<le> c" "c < 0x800" | "0x800 \<le> c" "c < 0x10000" | "0x10000 \<le> c" "c < 0x110000"
    using assms by (fastforce simp: scalar_def)
  then show ?thesis
  proof cases
    case 2
    with d show ?thesis
      by (simp add: utf8_code_def utf8_step.simps(2) cont_def digits)
  next
    case 3
    then have "second_ok (0xE0 + p) (0x80 + e)"
      using assms d e by (auto simp: second_ok_def cont_def scalar_def)
    moreover have "utf8_code c = [0xE0 + p, 0x80 + e, 0x80 + d]"
      using 3 by (simp add: utf8_code_def digits)
    ultimately show ?thesis
      using 3 d e by (simp add: utf8_step.simps(2) cont_def)
  next
    case 4
    then have "second_ok (0xF0 + a) (0x80 + f)"
      using d e f by (auto simp: second_ok_def cont_def)
    moreover have "utf8_code c = [0xF0 + a, 0x80 + f, 0x80 + e, 0x80 + d]"
      using 4 by (simp add: utf8_code_def digits)
    ultimately show ?thesis
      using 4 d e f by (simp add: utf8_step.simps(2) cont_def)
  qed (simp add: utf8_code_def utf8_step.simps(2))
qed

lemma utf8_code_range: "scalar c \<Longrightarrow> b \<in> set (utf8_code c) \<Longrightarrow> b < 256"
  by (auto simp: utf8_code_def scalar_def div_less_iff_less_mult split: if_splits)

lemma utf8_code_nonempty [simp]: "utf8_code c \<noteq> []"
  by (simp add: utf8_code_def)

lemma utf8_points_code: "scalar c \<Longrightarrow> utf8_points (utf8_code c @ rest) = Some c # utf8_points rest"
proof -
  assume c: "scalar c"
  obtain b r where br: "utf8_code c = b # r" by (cases "utf8_code c") auto
  have "utf8_step (b # (r @ rest)) = (Some c, rest)"
    using utf8_step_code [OF c, of rest] br by simp
  then show ?thesis by (simp add: br)
qed

lemma utf8_points_codes: "list_all scalar s \<Longrightarrow> utf8_points (concat (map utf8_code s)) = map Some s"
  by (induction s) (simp_all add: utf8_points_code)

lemma utf8_round_trip:
  assumes "utf8_encode s = Inr bs"
  shows "utf8_decode bs = Inr s"
proof -
  have s: "list_all scalar s" and bs: "bs = map of_nat (concat (map utf8_code s))"
    using assms by (auto simp: utf8_encode_def split: if_splits)
  have "\<forall>b \<in> set (concat (map utf8_code s)). b < 256"
    using s utf8_code_range by (auto simp: list_all_iff)
  then have "map unat bs = concat (map utf8_code s)"
    unfolding bs map_map by (intro map_idI) (auto simp: unat_of_nat)
  with s show ?thesis
    by (simp add: utf8_decode_def utf8_points_codes comp_def)
qed

text \<open>The decoder yields Unicode scalar values only.\<close>

lemma scalar_3:
  assumes "0xE0 \<le> a" "a < 0xF0" "second_ok a b" "cont d"
  shows "scalar ((a - 0xE0) * 4096 + (b - 0x80) * 64 + (d - 0x80))"
proof -
  obtain i j k where "a = 0xE0 + i" "b = 0x80 + j" "d = 0x80 + k" "j < 64" "k < 64" "i < 16"
    using assms that [of "a - 0xE0" "b - 0x80" "d - 0x80"] by (auto simp: second_ok_def cont_def)
  moreover have "i = 13 \<Longrightarrow> j < 32"
    using assms(3) calculation by (simp add: second_ok_def)
  ultimately show ?thesis
    by (cases "i = 13"; cases "i < 13") (auto simp: scalar_def)
qed

lemma scalar_4:
  assumes "0xF0 \<le> a" "a < 0xF5" "second_ok a b" "cont d" "cont e"
  shows "scalar ((a - 0xF0) * 262144 + (b - 0x80) * 4096 + (d - 0x80) * 64 + (e - 0x80))"
proof -
  obtain i j k l where ijk: "a = 0xF0 + i" "b = 0x80 + j" "d = 0x80 + k" "e = 0x80 + l"
    "j < 64" "k < 64" "l < 64" "i < 5"
    using assms that [of "a - 0xF0" "b - 0x80" "d - 0x80" "e - 0x80"] by (auto simp: second_ok_def cont_def)
  moreover have "i = 0 \<Longrightarrow> 16 \<le> j" "i = 4 \<Longrightarrow> j < 16"
    using assms(3) ijk by (simp_all add: second_ok_def)
  ultimately show ?thesis
    by (cases "i = 0"; cases "i = 4") (auto simp: scalar_def)
qed

lemma utf8_step_scalar:
  assumes "utf8_step bs = (Some c, rest)"
  shows "scalar c"
proof -
  obtain b r where b: "bs = b # r" using assms by (cases bs) auto
  consider "b < 0x80" | "0xC2 \<le> b" "b < 0xE0" | "0xE0 \<le> b" "b < 0xF0" | "0xF0 \<le> b" "b < 0xF5"
    using assms b by (auto simp: utf8_step.simps(2) split: if_splits)
  then show ?thesis
  proof cases
    case 3
    with assms b show ?thesis
      using scalar_3 [of b] by (auto simp: utf8_step.simps(2) split: list.splits if_splits)
  next
    case 4
    with assms b show ?thesis
      using scalar_4 [of b] by (auto simp: utf8_step.simps(2) split: list.splits if_splits)
  qed (use assms b in \<open>auto simp: utf8_step.simps(2) scalar_def cont_def split: list.splits if_splits\<close>)
qed

lemma utf8_points_scalar: "Some c \<in> set (utf8_points bs) \<Longrightarrow> scalar c"
proof (induction bs rule: utf8_points.induct)
  case (2 b r)
  obtain x rest where "utf8_step (b # r) = (x, rest)" by fastforce
  with 2 show ?case using utf8_step_scalar by auto
qed simp

lemma utf8_decode_scalar: "utf8_decode bs = Inr s \<Longrightarrow> list_all scalar s"
  using utf8_points_scalar [of _ "map unat bs"]
  by (auto simp: utf8_decode_def Let_def list_all_iff split: if_splits) (metis option.collapse)

lemma utf8_replace_valid:
  assumes "utf8_decode bs = Inr s"
  shows "utf8_decode_replace bs = s"
  using assms by (force simp: utf8_decode_def utf8_decode_replace_def Let_def split: if_splits option.splits)

end
