(* ===== verification/Json.thy ===== *)
theory Json
  imports Unicode
begin

text \<open>
  The functions \<^verbatim>\<open>json.dumps\<close> and \<^verbatim>\<open>json.loads\<close> with their default settings, which the program uses
  for its state files, its configuration entries and its messages. Objects are association
  lists in insertion order. A number with a fraction or an exponent keeps its literal: the
  program never computes with one. The recursive descent takes fuel; twice the length of the
  text is enough because every second call consumes a character.
\<close>

datatype json =
    JNull
  | JBool bool
  | JInt int
  | JFloat ustr
  | JStr ustr
  | JList "json list"
  | JObj "(ustr \<times> json) list"

section \<open>Dictionaries in insertion order\<close>

fun dict_put :: "'k \<Rightarrow> 'v \<Rightarrow> ('k \<times> 'v) list \<Rightarrow> ('k \<times> 'v) list" where
  "dict_put k v [] = [(k, v)]"
| "dict_put k v ((k', v') # d) = (if k' = k then (k', v) # d else (k', v') # dict_put k v d)"

lemma dict_put_map_of: "map_of (dict_put k v d) = (map_of d)(k \<mapsto> v)"
  by (induction d) auto

lemma dict_put_new: "k \<notin> fst ` set d \<Longrightarrow> dict_put k v d = d @ [(k, v)]"
  by (induction d) auto

lemma dict_put_keys: "fst ` set (dict_put k v d) = insert k (fst ` set d)"
  by (induction k v d rule: dict_put.induct) auto

lemma dict_put_set: "set (dict_put k v d) \<subseteq> insert (k, v) (set d)"
  by (induction k v d rule: dict_put.induct) auto

lemma dict_put_distinct: "distinct (map fst d) \<Longrightarrow> distinct (map fst (dict_put k v d))"
proof (induction d)
  case (Cons p d)
  then show ?case
    using dict_put_keys [of k v d] by (cases p) (auto simp flip: set_map)
qed simp

section \<open>Serialising\<close>

fun nat_dec :: "nat \<Rightarrow> ustr" where
  "nat_dec n = (if n < 10 then [48 + n] else nat_dec (n div 10) @ [48 + n mod 10])"

declare nat_dec.simps [simp del]

definition int_dec :: "int \<Rightarrow> ustr" where
  "int_dec i = (if i < 0 then 45 # nat_dec (nat (- i)) else nat_dec (nat i))"

definition hex_digit :: "nat \<Rightarrow> nat" where
  "hex_digit d = (if d < 10 then 48 + d else 87 + d)"

definition hex4 :: "nat \<Rightarrow> ustr" where
  "hex4 n = [92, 117, hex_digit (n div 4096), hex_digit (n div 256 mod 16),
     hex_digit (n div 16 mod 16), hex_digit (n mod 16)]"

definition esc :: "nat \<Rightarrow> ustr" where
  "esc c =
     (if c = 34 then [92, 34] else if c = 92 then [92, 92]
      else if c = 10 then [92, 110] else if c = 13 then [92, 114] else if c = 9 then [92, 116]
      else if c = 12 then [92, 102] else if c = 8 then [92, 98]
      else if 32 \<le> c \<and> c \<le> 126 then [c]
      else if c < 0x10000 then hex4 c
      else hex4 (0xD800 + (c - 0x10000) div 1024) @ hex4 (0xDC00 + (c - 0x10000) mod 1024))"

definition dump_str :: "ustr \<Rightarrow> ustr" where
  "dump_str s = 34 # concat (map esc s) @ [34]"

text \<open>
  The separators are \<^verbatim>\<open>", "\<close> and \<^verbatim>\<open>": "\<close> by default and \<^verbatim>\<open>","\<close> and \<^verbatim>\<open>":"\<close> in messages: \<open>gap\<close> is what
  follows the comma and the colon.
\<close>

fun commas :: "ustr \<Rightarrow> ustr list \<Rightarrow> ustr" where
  "commas gap [] = []"
| "commas gap [x] = x"
| "commas gap (x # y # xs) = x @ [44] @ gap @ commas gap (y # xs)"

fun dumps_sep :: "ustr \<Rightarrow> json \<Rightarrow> ustr" where
  "dumps_sep gap JNull = [110, 117, 108, 108]"
| "dumps_sep gap (JBool b) = (if b then [116, 114, 117, 101] else [102, 97, 108, 115, 101])"
| "dumps_sep gap (JInt i) = int_dec i"
| "dumps_sep gap (JFloat lit) = lit"
| "dumps_sep gap (JStr s) = dump_str s"
| "dumps_sep gap (JList vs) = [91] @ commas gap (map (dumps_sep gap) vs) @ [93]"
| "dumps_sep gap (JObj kvs) =
     [123] @ commas gap (map (\<lambda>(k, v). dump_str k @ [58] @ gap @ dumps_sep gap v) kvs) @ [125]"

abbreviation dumps :: "json \<Rightarrow> ustr" where
  "dumps \<equiv> dumps_sep [32]"

abbreviation dumps_compact :: "json \<Rightarrow> ustr" where
  "dumps_compact \<equiv> dumps_sep []"

section \<open>Parsing\<close>

definition is_ws :: "nat \<Rightarrow> bool" where
  "is_ws c \<longleftrightarrow> c = 32 \<or> c = 9 \<or> c = 10 \<or> c = 13"

definition skip_ws :: "ustr \<Rightarrow> ustr" where
  "skip_ws s = dropWhile is_ws s"

definition is_digit :: "nat \<Rightarrow> bool" where
  "is_digit c \<longleftrightarrow> 48 \<le> c \<and> c \<le> 57"

definition hex_val :: "nat \<Rightarrow> nat option" where
  "hex_val c =
     (if 48 \<le> c \<and> c \<le> 57 then Some (c - 48)
      else if 97 \<le> c \<and> c \<le> 102 then Some (c - 87)
      else if 65 \<le> c \<and> c \<le> 70 then Some (c - 55) else None)"

fun u4 :: "ustr \<Rightarrow> (nat \<times> ustr) option" where
  "u4 (a # b # c # d # r) =
     (case (hex_val a, hex_val b, hex_val c, hex_val d) of
        (Some x, Some y, Some z, Some w) \<Rightarrow> Some (4096 * x + 256 * y + 16 * z + w, r)
      | _ \<Rightarrow> None)"
| "u4 _ = None"

text \<open>The low surrogate that may follow a high one, with the text behind it.\<close>

fun low_half :: "ustr \<Rightarrow> (nat \<times> ustr) option" where
  "low_half (b # u # r) =
     (if b = 92 \<and> u = 117 then
        (case u4 r of
           Some (x, r') \<Rightarrow> if 0xDC00 \<le> x \<and> x < 0xE000 then Some (x, r') else None
         | None \<Rightarrow> None)
      else None)"
| "low_half _ = None"

definition unescape :: "nat \<Rightarrow> nat option" where
  "unescape e =
     (if e = 34 then Some 34 else if e = 92 then Some 92 else if e = 47 then Some 47
      else if e = 98 then Some 8 else if e = 102 then Some 12 else if e = 110 then Some 10
      else if e = 114 then Some 13 else if e = 116 then Some 9 else None)"

lemma u4_shorter: "u4 s = Some (x, r) \<Longrightarrow> length r < length s"
  by (cases s rule: u4.cases) (auto split: option.splits)

lemma low_half_shorter: "low_half s = Some (x, r) \<Longrightarrow> length r < length s"
  by (cases s rule: low_half.cases) (auto split: option.splits if_splits dest: u4_shorter)

definition prepend :: "nat \<Rightarrow> (ustr \<times> ustr) option \<Rightarrow> (ustr \<times> ustr) option" where
  "prepend c r = (case r of None \<Rightarrow> None | Some (s, rest) \<Rightarrow> Some (c # s, rest))"

function scan_string :: "ustr \<Rightarrow> (ustr \<times> ustr) option" where
  "scan_string s =
     (case s of
        [] \<Rightarrow> None
      | c # cs \<Rightarrow>
          if c = 34 then Some ([], cs)
          else if c < 32 then None
          else if c \<noteq> 92 then prepend c (scan_string cs)
          else
            (case cs of
               [] \<Rightarrow> None
             | e # r \<Rightarrow>
                 if e = 117 then
                   (case u4 r of
                      None \<Rightarrow> None
                    | Some (u, r1) \<Rightarrow>
                        if 0xD800 \<le> u \<and> u < 0xDC00 then
                          (case low_half r1 of
                             Some (u2, r2) \<Rightarrow>
                               prepend (0x10000 + (u - 0xD800) * 1024 + (u2 - 0xDC00)) (scan_string r2)
                           | None \<Rightarrow> prepend u (scan_string r1))
                        else prepend u (scan_string r1))
                 else
                   (case unescape e of None \<Rightarrow> None | Some x \<Rightarrow> prepend x (scan_string r))))"
  by pat_completeness auto
termination
  by (relation "measure length") (auto dest!: u4_shorter low_half_shorter)

declare scan_string.simps [simp del]

definition dec_val :: "ustr \<Rightarrow> nat" where
  "dec_val ds = foldl (\<lambda>a c. 10 * a + (c - 48)) 0 ds"

definition frac_part :: "ustr \<Rightarrow> ustr \<times> ustr" where
  "frac_part s =
     (case s of
        c # d # r \<Rightarrow> if c = 46 \<and> is_digit d then (c # takeWhile is_digit (d # r), dropWhile is_digit (d # r))
                     else ([], s)
      | _ \<Rightarrow> ([], s))"

definition exp_part :: "ustr \<Rightarrow> ustr \<times> ustr" where
  "exp_part s =
     (case s of
        c # r \<Rightarrow>
          if c = 101 \<or> c = 69 then
            (let (sgn, r1) = (case r of d # r' \<Rightarrow> if d = 43 \<or> d = 45 then ([d], r') else ([], r) | [] \<Rightarrow> ([], r));
                 ds = takeWhile is_digit r1
             in if ds = [] then ([], s) else (c # sgn @ ds, dropWhile is_digit r1))
          else ([], s)
      | [] \<Rightarrow> ([], s))"

definition scan_number :: "ustr \<Rightarrow> (json \<times> ustr) option" where
  "scan_number s =
     (let (sgn, s1) = (case s of c # r \<Rightarrow> if c = 45 then ([c], r) else ([], s) | [] \<Rightarrow> ([], s));
          ds = (case s1 of c # r \<Rightarrow> if c = 48 then [c] else takeWhile is_digit s1 | [] \<Rightarrow> []);
          s2 = drop (length ds) s1;
          (fr, s3) = frac_part s2;
          (ex, s4) = exp_part s3
      in if ds = [] then None
         else if fr = [] \<and> ex = [] then
           Some (JInt (if sgn = [] then int (dec_val ds) else - int (dec_val ds)), s4)
         else Some (JFloat (sgn @ ds @ fr @ ex), s4))"

definition keyword :: "string \<Rightarrow> ustr \<Rightarrow> bool" where
  "keyword w s \<longleftrightarrow> take (length w) s = ascii w"

fun p_value :: "nat \<Rightarrow> ustr \<Rightarrow> (json \<times> ustr) option"
  and p_items :: "nat \<Rightarrow> json list \<Rightarrow> ustr \<Rightarrow> (json \<times> ustr) option"
  and p_members :: "nat \<Rightarrow> (ustr \<times> json) list \<Rightarrow> ustr \<Rightarrow> (json \<times> ustr) option" where
  "p_value 0 s = None"
| "p_value (Suc n) s =
     (case s of
        [] \<Rightarrow> None
      | c # cs \<Rightarrow>
          if c = 34 then (case scan_string cs of None \<Rightarrow> None | Some (x, r) \<Rightarrow> Some (JStr x, r))
          else if c = 123 then
            (case skip_ws cs of
               [] \<Rightarrow> None
             | d # r \<Rightarrow> if d = 125 then Some (JObj [], r) else if d = 34 then p_members n [] r else None)
          else if c = 91 then
            (case skip_ws cs of
               [] \<Rightarrow> None
             | d # r \<Rightarrow> if d = 93 then Some (JList [], r) else p_items n [] (d # r))
          else if keyword ''null'' s then Some (JNull, drop 4 s)
          else if keyword ''true'' s then Some (JBool True, drop 4 s)
          else if keyword ''false'' s then Some (JBool False, drop 5 s)
          else
            (case scan_number s of
               Some res \<Rightarrow> Some res
             | None \<Rightarrow>
                 if keyword ''NaN'' s then Some (JFloat (ascii ''NaN''), drop 3 s)
                 else if keyword ''Infinity'' s then Some (JFloat (ascii ''Infinity''), drop 8 s)
                 else if keyword ''-Infinity'' s then Some (JFloat (ascii ''-Infinity''), drop 9 s)
                 else None))"
| "p_items 0 acc s = None"
| "p_items (Suc n) acc s =
     (case p_value n s of
        None \<Rightarrow> None
      | Some (v, r) \<Rightarrow>
          (case skip_ws r of
             [] \<Rightarrow> None
           | d # r1 \<Rightarrow>
               if d = 93 then Some (JList (acc @ [v]), r1)
               else if d = 44 then p_items n (acc @ [v]) (skip_ws r1) else None))"
| "p_members 0 acc s = None"
| "p_members (Suc n) acc s =
     (case scan_string s of
        None \<Rightarrow> None
      | Some (k, r) \<Rightarrow>
          (case skip_ws r of
             [] \<Rightarrow> None
           | d # r1 \<Rightarrow>
               if d \<noteq> 58 then None
               else (case p_value n (skip_ws r1) of
                       None \<Rightarrow> None
                     | Some (v, r2) \<Rightarrow>
                         (case skip_ws r2 of
                            [] \<Rightarrow> None
                          | e # r3 \<Rightarrow>
                              if e = 125 then Some (JObj (dict_put k v acc), r3)
                              else if e = 44 then
                                (case skip_ws r3 of
                                   [] \<Rightarrow> None
                                 | q # r4 \<Rightarrow>
                                     if q = 34 then p_members n (dict_put k v acc) r4 else None)
                              else None))))"

definition loads :: "ustr \<Rightarrow> json result" where
  "loads s =
     (let s0 = skip_ws s in
      if s \<noteq> [] \<and> hd s = 0xFEFF then Inl (ValueError ''JSONDecodeError'')
      else case p_value (2 * length s0 + 2) s0 of
             None \<Rightarrow> Inl (ValueError ''JSONDecodeError'')
           | Some (v, rest) \<Rightarrow>
               if skip_ws rest = [] then Inr v else Inl (ValueError ''JSONDecodeError''))"

text \<open>\<^verbatim>\<open>d.get(key)\<close> on a loaded object.\<close>

definition obj_get :: "ustr \<Rightarrow> (ustr \<times> json) list \<Rightarrow> json option" where
  "obj_get k kvs = map_of kvs k"

end
