(* ===== verification/Json_Props.thy ===== *)
theory Json_Props
  imports Json
begin

text \<open>
  What the program relies on in \<^verbatim>\<open>json\<close>: a value that is serialised and parsed again is the same
  value. \<open>wf_json\<close> describes the values the program serialises: no fractional numbers, strings
  of Unicode scalar values, objects without repeated keys.
\<close>

fun wf_json :: "json \<Rightarrow> bool" where
  "wf_json (JFloat lit) \<longleftrightarrow> False"
| "wf_json (JStr s) \<longleftrightarrow> list_all scalar s"
| "wf_json (JList vs) \<longleftrightarrow> (\<forall>v \<in> set vs. wf_json v)"
| "wf_json (JObj kvs) \<longleftrightarrow> distinct (map fst kvs)
     \<and> (\<forall>kv \<in> set kvs. list_all scalar (fst kv)) \<and> (\<forall>v \<in> snd ` set kvs. wf_json v)"
| "wf_json v \<longleftrightarrow> True"

section \<open>Strings\<close>

lemma hex_val_digit [simp]: "d < 16 \<Longrightarrow> hex_val (hex_digit d) = Some d"
  by (auto simp: hex_val_def hex_digit_def)

lemma u4_hex4: "n < 65536 \<Longrightarrow> u4 (drop 2 (hex4 n) @ r) = Some (n, r)"
proof -
  assume n: "n < 65536"
  have "4096 * (n div 4096) + 256 * (n div 256 mod 16) + 16 * (n div 16 mod 16) + n mod 16 = n"
  proof -
    define a where "a = n div 16"
    define b where "b = a div 16"
    have "n div 256 = b" "n div 4096 = b div 16"
      by (simp_all add: a_def b_def div_mult2_eq [symmetric])
    moreover have "b div 16 * 16 + b mod 16 = b" "16 * b + a mod 16 = a" "16 * a + n mod 16 = n"
      by (simp_all add: a_def b_def)
    ultimately show ?thesis
      unfolding a_def [symmetric] \<open>n div 256 = b\<close> \<open>n div 4096 = b div 16\<close> by linarith
  qed
  with n show ?thesis
    by (simp add: hex4_def div_less_iff_less_mult)
qed

lemma hex4_cases: "hex4 n = 92 # 117 # drop 2 (hex4 n)"
  by (simp add: hex4_def)

lemma scan_hex4:
  assumes "n < 65536" "n < 0xD800 \<or> 0xDC00 \<le> n"
  shows "scan_string (hex4 n @ r) = prepend n (scan_string r)"
  using assms u4_hex4 [of n r]
  by (subst hex4_cases, subst scan_string.simps) auto

lemma low_half_hex4: "0xDC00 \<le> n \<Longrightarrow> n < 0xE000 \<Longrightarrow> low_half (hex4 n @ r) = Some (n, r)"
  using u4_hex4 [of n r] by (subst hex4_cases) simp

lemma scan_pair:
  assumes "0xD800 \<le> h" "h < 0xDC00" "0xDC00 \<le> l" "l < 0xE000"
  shows "scan_string (hex4 h @ hex4 l @ r) = prepend (0x10000 + (h - 0xD800) * 1024 + (l - 0xDC00)) (scan_string r)"
  using assms u4_hex4 [of h "hex4 l @ r"] low_half_hex4 [of l r]
  by (subst hex4_cases [of h], subst scan_string.simps) simp

lemma scan_esc:
  assumes "scalar c"
  shows "scan_string (esc c @ r) = prepend c (scan_string r)"
proof (cases "c < 0x10000")
  case True
  consider "c \<in> {34, 92, 10, 13, 9, 12, 8}" | "c \<notin> {34, 92, 10, 13, 9, 12, 8}" "32 \<le> c \<and> c \<le> 126"
    | "c \<notin> {34, 92, 10, 13, 9, 12, 8}" "\<not> (32 \<le> c \<and> c \<le> 126)" by blast
  then show ?thesis
  proof cases
    case 1
    then show ?thesis
      by (subst scan_string.simps) (auto simp: esc_def unescape_def)
  next
    case 2
    then show ?thesis
      by (subst scan_string.simps) (simp add: esc_def)
  next
    case 3
    then have "esc c = hex4 c"
      using True by (auto simp: esc_def)
    then show ?thesis
      using True assms scan_hex4 [of c r] by (auto simp: scalar_def)
  qed
next
  case False
  define h where "h = 0xD800 + (c - 0x10000) div 1024"
  define l where "l = 0xDC00 + (c - 0x10000) mod 1024"
  have "c < 0x110000"
    using assms by (auto simp: scalar_def)
  then have "(c - 0x10000) div 1024 < 1024"
    by (simp add: div_less_iff_less_mult)
  then have hl: "0xD800 \<le> h" "h < 0xDC00" "0xDC00 \<le> l" "l < 0xE000"
    by (simp_all add: h_def l_def)
  have "(c - 0x10000) div 1024 * 1024 + (c - 0x10000) mod 1024 = c - 0x10000" by simp
  then have "0x10000 + (h - 0xD800) * 1024 + (l - 0xDC00) = c"
    using False by (simp add: h_def l_def)
  moreover have "esc c = hex4 h @ hex4 l"
    using False by (simp add: esc_def h_def l_def)
  ultimately show ?thesis
    using scan_pair [OF hl, of r] by simp
qed

lemma scan_dumped:
  "list_all scalar s \<Longrightarrow> scan_string (concat (map esc s) @ 34 # r) = Some (s, r)"
proof (induction s)
  case Nil
  then show ?case by (subst scan_string.simps) simp
next
  case (Cons c s)
  then show ?case by (simp add: scan_esc prepend_def)
qed

section \<open>Numbers\<close>

lemma nat_dec_digits: "list_all is_digit (nat_dec n)"
proof (induction n rule: nat_dec.induct)
  case (1 n)
  then show ?case by (subst nat_dec.simps) (simp add: is_digit_def [of "48 + _"] less_Suc_eq_le [symmetric])
qed

lemma nat_dec_nonempty [simp]: "nat_dec n \<noteq> []"
  by (subst nat_dec.simps) simp

lemma nat_dec_val: "dec_val (nat_dec n) = n"
proof (induction n rule: nat_dec.induct)
  case (1 n)
  show ?case
  proof (cases "n < 10")
    case True
    then show ?thesis by (subst nat_dec.simps) (simp add: dec_val_def)
  next
    case False
    then have "nat_dec n = nat_dec (n div 10) @ [48 + n mod 10]"
      by (subst nat_dec.simps) simp
    then have "dec_val (nat_dec n) = 10 * dec_val (nat_dec (n div 10)) + n mod 10"
      by (simp add: dec_val_def)
    with 1 False show ?thesis by simp
  qed
qed

lemma nat_dec_head: "n \<noteq> 0 \<Longrightarrow> hd (nat_dec n) \<noteq> 48"
proof (induction n rule: nat_dec.induct)
  case (1 n)
  show ?case
  proof (cases "n < 10")
    case True
    with 1 show ?thesis by (subst nat_dec.simps) simp
  next
    case False
    then have "nat_dec n = nat_dec (n div 10) @ [48 + n mod 10]"
      by (subst nat_dec.simps) simp
    with 1 False show ?thesis by simp
  qed
qed

text \<open>What may follow a number without becoming part of it.\<close>

definition delimited :: "ustr \<Rightarrow> bool" where
  "delimited r \<longleftrightarrow> r = [] \<or> hd r = 44 \<or> hd r = 93 \<or> hd r = 125"

lemma delimited_stop:
  assumes "delimited r"
  shows "takeWhile is_digit r = []" "frac_part r = ([], r)" "exp_part r = ([], r)"
  using assms by (cases r; auto simp: delimited_def is_digit_def frac_part_def exp_part_def split: list.splits)+

lemma digits_of_nat:
  assumes "delimited r"
  shows "(case nat_dec n @ r of c # _ \<Rightarrow> if c = 48 then [c] else takeWhile is_digit (nat_dec n @ r) | [] \<Rightarrow> [])
    = nat_dec n"
proof (cases "n = 0")
  case True
  then show ?thesis by (simp add: nat_dec.simps)
next
  case False
  obtain c ds where c: "nat_dec n = c # ds" by (cases "nat_dec n") auto
  then have "c \<noteq> 48"
    using nat_dec_head [OF False] by simp
  moreover have "takeWhile is_digit (nat_dec n @ r) = nat_dec n"
    using nat_dec_digits [of n] delimited_stop(1) [OF assms] by (auto simp: list_all_iff takeWhile_append)
  ultimately show ?thesis
    by (simp add: c)
qed

lemma scan_nat:
  assumes "delimited r"
  shows "scan_number (nat_dec n @ r) = Some (JInt (int n), r)"
proof -
  obtain c ds where c: "nat_dec n = c # ds" by (cases "nat_dec n") auto
  then have ne: "c \<noteq> 45"
    using nat_dec_digits [of n] by (auto simp: is_digit_def)
  then have "(case nat_dec n @ r of c # r' \<Rightarrow> if c = 45 then ([c], r') else ([], nat_dec n @ r)
      | [] \<Rightarrow> ([], nat_dec n @ r)) = ([], nat_dec n @ r)"
    by (simp add: c)
  then show ?thesis
    using delimited_stop [OF assms] digits_of_nat [OF assms, of n] nat_dec_val [of n]
    by (simp add: scan_number_def)
qed

lemma scan_negative:
  assumes "delimited r"
  shows "scan_number (45 # nat_dec n @ r) = Some (JInt (- int n), r)"
  using delimited_stop [OF assms] digits_of_nat [OF assms, of n] nat_dec_val [of n]
  by (simp add: scan_number_def)

lemma scan_int: "delimited r \<Longrightarrow> scan_number (int_dec i @ r) = Some (JInt i, r)"
  using scan_nat [of r "nat i"] scan_negative [of r "nat (- i)"] by (simp add: int_dec_def)

section \<open>Values\<close>

lemma skip_ws_delimited: "delimited r \<Longrightarrow> skip_ws r = r"
  by (cases r) (auto simp: delimited_def skip_ws_def is_ws_def)

lemma skip_ws_other: "\<not> is_ws c \<Longrightarrow> skip_ws (c # r) = c # r"
  by (simp add: skip_ws_def)

lemma skip_ws_space [simp]: "skip_ws (32 # r) = skip_ws r"
  by (simp add: skip_ws_def is_ws_def)

definition blank :: "ustr \<Rightarrow> bool" where
  "blank g \<longleftrightarrow> g = [] \<or> g = [32]"

lemma skip_ws_gap: "blank g \<Longrightarrow> skip_ws (g @ r) = skip_ws r"
  by (auto simp: blank_def)

lemma dumps_head:
  assumes "wf_json v"
  obtains c cs where "dumps_sep g v = c # cs" "\<not> is_ws c" "c \<noteq> 93"
proof (cases v)
  case (JInt i)
  have "\<exists>c cs. nat_dec n = c # cs \<and> is_digit c" for n
    using nat_dec_digits [of n] by (cases "nat_dec n") auto
  then obtain c cs where "nat_dec (nat i) = c # cs" "is_digit c" by blast
  then show ?thesis
    using that JInt by (cases "i < 0") (auto simp: int_dec_def is_ws_def is_digit_def)
next
  case (JBool b)
  then show ?thesis using that by (cases b) (auto simp: is_ws_def)
qed (use assms that in \<open>auto simp: dump_str_def is_ws_def\<close>)

lemma p_value_string:
  "list_all scalar s \<Longrightarrow> p_value (Suc n) (dump_str s @ r) = Some (JStr s, r)"
  using scan_dumped [of s r] by (simp add: dump_str_def)

lemma keyword_head: "keyword w (c # cs) \<Longrightarrow> w \<noteq> [] \<Longrightarrow> c = of_char (hd w)"
  by (cases w) (simp_all add: keyword_def ascii_def)

lemma p_value_int:
  assumes "delimited r"
  shows "p_value (Suc n) (int_dec i @ r) = Some (JInt i, r)"
proof -
  obtain c cs where c: "int_dec i @ r = c # cs" "c = 45 \<or> is_digit c"
  proof (cases "i < 0")
    case False
    obtain d ds where "nat_dec (nat i) = d # ds" by (cases "nat_dec (nat i)") auto
    then show ?thesis
      using that False nat_dec_digits [of "nat i"] by (simp add: int_dec_def)
  qed (use that in \<open>simp add: int_dec_def\<close>)
  have "\<not> keyword ''null'' (c # cs)" "\<not> keyword ''true'' (c # cs)" "\<not> keyword ''false'' (c # cs)"
    using c(2) keyword_head [of "''null''" c cs] keyword_head [of "''true''" c cs]
      keyword_head [of "''false''" c cs] by (auto simp: is_digit_def)
  then have "p_value (Suc n) (c # cs) = Some (JInt i, r)"
    using c scan_int [OF assms, of i] by (simp add: is_digit_def) linarith
  then show ?thesis by (simp only: c(1))
qed

lemma dict_put_append:
  "k \<notin> fst ` set acc \<Longrightarrow> dict_put k v acc = acc @ [(k, v)]"
  by (rule dict_put_new)

text \<open>Parsing a comma-separated list of dumped values, given the round trip of each.\<close>

lemma p_items_dumped:
  assumes gap: "blank g" and "vs \<noteq> []" "\<And>v. v \<in> set vs \<Longrightarrow> wf_json v"
    and each: "\<And>v m r. v \<in> set vs \<Longrightarrow> delimited r \<Longrightarrow> 2 * length (dumps_sep g v) \<le> m \<Longrightarrow>
      p_value m (dumps_sep g v @ r) = Some (v, r)"
    and "2 * length (commas g (map (dumps_sep g) vs)) < m"
  shows "p_items m acc (commas g (map (dumps_sep g) vs) @ 93 # rest) = Some (JList (acc @ vs), rest)"
  using assms(2-)
proof (induction vs arbitrary: m acc)
  case (Cons v vs)
  obtain n where m: "m = Suc n"
    using Cons.prems(4) by (cases m) auto
  have here: "p_value n (dumps_sep g v @ r) = Some (v, r)" if "delimited r" for r
    using Cons.prems(3) [of v r n] Cons.prems(4) that m by (cases vs) auto
  show ?case
  proof (cases vs)
    case Nil
    then show ?thesis
      using here [of "93 # rest"] m by (simp add: delimited_def skip_ws_other is_ws_def skip_ws_gap gap)
  next
    case vs: (Cons w ws)
    let ?more = "commas g (map (dumps_sep g) vs) @ 93 # rest"
    have "wf_json w" using Cons.prems(2) vs by simp
    then obtain c cs where "dumps_sep g w = c # cs" "\<not> is_ws c" by (rule dumps_head)
    then obtain cs' where "?more = c # cs'"
      using vs by (cases ws) auto
    then have skip: "skip_ws ?more = ?more"
      using \<open>\<not> is_ws c\<close> skip_ws_other by simp
    have "p_items n (acc @ [v]) ?more = Some (JList ((acc @ [v]) @ vs), rest)"
      using Cons.prems m vs by (intro Cons.IH) auto
    then show ?thesis
      using here [of "44 # g @ ?more"] m vs skip
      by (simp add: delimited_def skip_ws_other is_ws_def skip_ws_gap gap)
  qed
qed simp

lemma p_members_dumped:
  fixes kvs :: "(ustr \<times> json) list" and g :: ustr
  defines "txt kv \<equiv> dump_str (fst kv) @ [58] @ g @ dumps_sep g (snd kv)"
  assumes gap: "blank g" and "kvs \<noteq> []" "\<And>kv. kv \<in> set kvs \<Longrightarrow> wf_json (snd kv) \<and> list_all scalar (fst kv)"
    and each: "\<And>kv m r. kv \<in> set kvs \<Longrightarrow> delimited r \<Longrightarrow> 2 * length (dumps_sep g (snd kv)) \<le> m \<Longrightarrow>
      p_value m (dumps_sep g (snd kv) @ r) = Some (snd kv, r)"
    and "2 * length (commas g (map txt kvs)) < m" "distinct (map fst (acc @ kvs))"
  shows "p_members m acc (tl (commas g (map txt kvs)) @ 125 # rest) = Some (JObj (acc @ kvs), rest)"
  using assms(3-)
proof (induction kvs arbitrary: m acc)
  case (Cons kv kvs)
  obtain k v where kv: "kv = (k, v)" by fastforce
  obtain n where m: "m = Suc n"
    using Cons.prems(4) by (cases m) auto
  have here: "p_value n (dumps_sep g v @ r) = Some (v, r)" if "delimited r" for r
    using Cons.prems(3) [of kv r n] Cons.prems(4) that m kv by (cases kvs) (auto simp: txt_def)
  have key: "scan_string (concat (map esc k) @ 34 # r) = Some (k, r)" for r
    using Cons.prems(2) [of kv] kv by (simp add: scan_dumped)
  have new: "dict_put k v acc = acc @ [(k, v)]"
    using Cons.prems(5) kv by (intro dict_put_new) auto
  have "wf_json v" using Cons.prems(2) [of kv] kv by simp
  then obtain c cs where "dumps_sep g v = c # cs" "\<not> is_ws c" by (rule dumps_head)
  then have skip: "skip_ws (dumps_sep g v @ r) = dumps_sep g v @ r" for r
    by (simp add: skip_ws_other)
  show ?case
  proof (cases kvs)
    case Nil
    then show ?thesis
      using here [of "125 # rest"] m key skip new kv
      by (simp add: txt_def dump_str_def delimited_def skip_ws_other is_ws_def skip_ws_gap gap)
  next
    case kvs: (Cons kw kws)
    let ?more = "tl (commas g (map txt kvs)) @ 125 # rest"
    have shape: "commas g (map txt kvs) @ 125 # rest = 34 # ?more"
      using kvs by (cases kws) (simp_all add: txt_def dump_str_def)
    have "p_members n (acc @ [(k, v)]) ?more = Some (JObj ((acc @ [(k, v)]) @ kvs), rest)"
      using Cons.prems m kvs kv by (intro Cons.IH) auto
    moreover have "tl (commas g (map txt (kv # kvs))) @ 125 # rest =
        concat (map esc k) @ 34 # 58 # g @ dumps_sep g v @ 44 # g @ 34 # ?more"
      using kvs kv shape by (simp add: txt_def dump_str_def)
    ultimately show ?thesis
      using here [of "44 # g @ 34 # ?more"] m key skip new kv
      by (simp add: delimited_def skip_ws_other is_ws_def skip_ws_gap gap)
  qed
qed simp

lemma p_value_dumped:
  "blank g \<Longrightarrow> wf_json v \<Longrightarrow> delimited r \<Longrightarrow> 2 * length (dumps_sep g v) \<le> m \<Longrightarrow> p_value m (dumps_sep g v @ r) = Some (v, r)"
proof (induction v arbitrary: m r)
  case (JList vs)
  obtain n where m: "m = Suc n" using JList.prems(4) by (cases m) auto
  show ?case
  proof (cases vs)
    case Nil
    then show ?thesis using m by (simp add: skip_ws_other is_ws_def)
  next
    case (Cons w ws)
    let ?t = "commas g (map (dumps_sep g) vs) @ 93 # r"
    have items: "p_items n [] ?t = Some (JList ([] @ vs), r)"
      using JList Cons m by (intro p_items_dumped) auto
    have "wf_json w" using JList.prems(2) Cons by simp
    then obtain c cs where c: "dumps_sep g w = c # cs" "\<not> is_ws c" "c \<noteq> 93" by (rule dumps_head)
    then obtain cs' where t: "?t = c # cs'" using Cons by (cases ws) auto
    then have "skip_ws ?t = c # cs'" using c skip_ws_other by simp
    with items m c t show ?thesis by simp
  qed
next
  case (JObj kvs)
  obtain n where m: "m = Suc n" using JObj.prems(4) by (cases m) auto
  let ?txt = "\<lambda>kv. dump_str (fst kv) @ [58] @ g @ dumps_sep g (snd kv)"
  have eq: "(\<lambda>(k, v). dump_str k @ [58] @ g @ dumps_sep g v) = ?txt" by auto
  show ?case
  proof (cases kvs)
    case Nil
    then show ?thesis using m by (simp add: skip_ws_other is_ws_def)
  next
    case (Cons kw kws)
    have shape: "commas g (map ?txt kvs) = 34 # tl (commas g (map ?txt kvs))"
      using Cons by (cases kws) (simp_all add: dump_str_def)
    have each: "p_value m' (dumps_sep g (snd kv) @ r') = Some (snd kv, r')"
      if "kv \<in> set kvs" "delimited r'" "2 * length (dumps_sep g (snd kv)) \<le> m'" for kv m' r'
      using JObj.IH [of kv "snd kv" r' m'] that JObj.prems(1,2) by (auto simp: snds.simps)
    have "2 * length (commas g (map ?txt kvs)) < n"
      using JObj.prems(4) m unfolding dumps_sep.simps eq by simp
    then have mem: "p_members n [] (tl (commas g (map ?txt kvs)) @ 125 # r) = Some (JObj ([] @ kvs), r)"
      using JObj.prems(1,2) Cons by (intro p_members_dumped each) auto
    have "dumps_sep g (JObj kvs) @ r = 123 # 34 # tl (commas g (map ?txt kvs)) @ 125 # r"
      unfolding dumps_sep.simps eq by (subst shape) simp
    with mem m show ?thesis by (simp add: skip_ws_other is_ws_def)
  qed
next
  case JNull
  then obtain n where "m = Suc n" by (cases m) auto
  then show ?case by (simp add: keyword_def ascii_def)
next
  case (JBool b)
  then obtain n where "m = Suc n" by (cases m; cases b) auto
  then show ?case by (simp add: keyword_def ascii_def)
next
  case (JInt i)
  then obtain n where "m = Suc n" by (cases m) (auto simp: int_dec_def split: if_splits)
  with JInt.prems(3) show ?case by (simp only: dumps_sep.simps p_value_int)
next
  case (JStr s)
  then obtain n where "m = Suc n" by (cases m) (auto simp: dump_str_def)
  with JStr.prems(2) show ?case by (simp only: dumps_sep.simps wf_json.simps p_value_string)
qed simp

lemma loads_dumps_sep:
  assumes "blank g" "wf_json v"
  shows "loads (dumps_sep g v) = Inr v"
proof -
  obtain c cs where c: "dumps_sep g v = c # cs" "\<not> is_ws c"
    using assms(2) by (rule dumps_head)
  then have skip: "skip_ws (dumps_sep g v) = dumps_sep g v"
    by (simp add: skip_ws_other)
  have "c < 128"
  proof (cases v)
    case (JInt i)
    then show ?thesis
      using c nat_dec_digits [of "nat i"] by (auto simp: int_dec_def is_digit_def split: if_splits)
  qed (use c assms in \<open>auto simp: dump_str_def split: if_splits\<close>)
  then have "hd (dumps_sep g v) \<noteq> 0xFEFF"
    using c by simp
  moreover have "p_value (2 * length (dumps_sep g v) + 2) (dumps_sep g v @ []) = Some (v, [])"
    using assms by (intro p_value_dumped) (simp_all add: delimited_def)
  then have "p_value (2 * length (dumps_sep g v) + 2) (dumps_sep g v) = Some (v, [])"
    by (simp only: append_Nil2)
  moreover have "skip_ws [] = []"
    by (simp add: skip_ws_def)
  ultimately show ?thesis
    unfolding loads_def Let_def skip by (simp only: option.case prod.case if_True if_False simp_thms)
qed

lemma blank_gaps [simp]: "blank [32]" "blank []"
  by (simp_all add: blank_def)

lemmas loads_dumps = loads_dumps_sep [OF blank_gaps(1)]

text \<open>The ASCII output of \<^verbatim>\<open>dumps\<close> always encodes to UTF-8, and comes back from a file unchanged.\<close>

lemma hex_digit_ascii: "d < 16 \<Longrightarrow> hex_digit d < 128"
  by (simp add: hex_digit_def)

lemma hex4_ascii: "n < 65536 \<Longrightarrow> list_all (\<lambda>c. c < 128) (hex4 n)"
  by (simp add: hex4_def hex_digit_ascii div_less_iff_less_mult)

lemma esc_ascii:
  assumes "scalar c"
  shows "list_all (\<lambda>c. c < 128) (esc c)"
proof -
  have "c < 0x110000"
    using assms by (auto simp: scalar_def)
  then have "(c - 0x10000) div 1024 < 1024"
    by (simp add: div_less_iff_less_mult)
  then show ?thesis
    by (auto simp: esc_def intro!: hex4_ascii)
qed

lemma dump_str_ascii: "list_all scalar s \<Longrightarrow> list_all (\<lambda>c. c < 128) (dump_str s)"
  using esc_ascii by (auto simp: dump_str_def list_all_iff)

lemma commas_ascii: "blank g \<Longrightarrow> (\<And>x. x \<in> set xs \<Longrightarrow> list_all (\<lambda>c. c < 128) x) \<Longrightarrow> list_all (\<lambda>c. c < 128) (commas g xs)"
  by (induction g xs rule: commas.induct) (auto simp: blank_def)

lemma dumps_ascii: "blank g \<Longrightarrow> wf_json v \<Longrightarrow> list_all (\<lambda>c. c < 128) (dumps_sep g v)"
proof (induction v)
  case (JInt i)
  have "list_all (\<lambda>c. c < 128) (nat_dec n)" for n
    using nat_dec_digits [of n] by (auto simp: list_all_iff is_digit_def)
  then show ?case by (simp add: int_dec_def)
next
  case (JList vs)
  then show ?case by (auto intro!: commas_ascii)
next
  case (JObj kvs)
  have "list_all (\<lambda>c. c < 128) (dump_str k @ [58] @ g @ dumps_sep g v)" if "(k, v) \<in> set kvs" for k v
  proof -
    have "list_all scalar k" "wf_json v"
      using JObj.prems that by auto
    then show ?thesis
      using JObj.IH [of "(k, v)" v] JObj.prems(1) that dump_str_ascii [of k]
      by (auto simp: snds.simps blank_def)
  qed
  then have "list_all (\<lambda>c. c < 128) (commas g (map (\<lambda>(k, v). dump_str k @ [58] @ g @ dumps_sep g v) kvs))"
    using JObj.prems(1) by (intro commas_ascii) auto
  then show ?case by simp
qed (simp_all add: dump_str_ascii)

lemma dumps_encodes: "blank g \<Longrightarrow> wf_json v \<Longrightarrow> \<exists>bs. utf8_encode (dumps_sep g v) = Inr bs \<and> utf8_decode bs = Inr (dumps_sep g v)"
  using dumps_ascii [of g v] utf8_round_trip [of "dumps_sep g v"]
  by (auto simp: utf8_encode_def list_all_iff scalar_def)

end
