(* ===== verification/Atomic_File.thy ===== *)
theory Atomic_File
  imports Json_Props
begin

text \<open>
  A small JSON file that is replaced as a whole: the new content is written to a temporary file
  beside it, flushed, and renamed over it. \<^verbatim>\<open>DurableState.save\<close>, \<^verbatim>\<open>ConsumerGroup.commit\<close> and the
  snapshot files are written this way. \<open>replace_trace\<close> lists what a crash can leave on disk, the
  file and the temporary file, at each moment of a replacement; the locale states what an
  object has to know of its encoding for its file to survive.
\<close>

definition encode_ascii :: "ustr \<Rightarrow> bytes" where
  "encode_ascii s = map of_nat s"

definition replace_trace :: "bytes option \<Rightarrow> bytes \<Rightarrow> (bytes option \<times> bytes option) list" where
  "replace_trace old new =
     map (\<lambda>k. (old, Some (take k new))) [0..<Suc (length new)] @ [(Some new, None)]"

lemma replace_trace_file:
  "(f, tmp) \<in> set (replace_trace old new) \<Longrightarrow> f = old \<or> f = Some new"
  by (auto simp: replace_trace_def)

text \<open>JSON text is ASCII: encoding it as UTF-8 writes one byte for each character.\<close>

lemma dumps_encode_ascii:
  assumes "blank g" "wf_json j"
  shows "utf8_encode (dumps_sep g j) = Inr (encode_ascii (dumps_sep g j))"
proof -
  let ?t = "dumps_sep g j"
  have "\<forall>c \<in> set ?t. c < 128"
    using dumps_ascii [OF assms] by (simp add: list_all_iff)
  then have "map utf8_code ?t = map (\<lambda>c. [c]) ?t" "list_all scalar ?t"
    by (auto simp: utf8_code_def list_all_iff scalar_def)
  then have "concat (map utf8_code ?t) = ?t" "list_all scalar ?t"
    by (simp_all only: concat_map_singleton map_ident)
  then show ?thesis
    by (simp add: utf8_encode_def encode_ascii_def)
qed

lemmas encode_ascii_decode = utf8_round_trip [OF dumps_encode_ascii]

text \<open>
  \<open>start\<close> is the value of an object whose file does not exist; \<open>ok\<close> singles out the values the
  encoding can represent.
\<close>

locale atomic_file =
  fixes enc :: "'v \<Rightarrow> bytes" and dec :: "bytes \<Rightarrow> 'v result" and start :: 'v and ok :: "'v \<Rightarrow> bool"
  assumes dec_enc: "ok v \<Longrightarrow> dec (enc v) = Inr v"
begin

definition reload :: "bytes option \<Rightarrow> 'v result" where
  "reload f = (case f of None \<Rightarrow> Inr start | Some b \<Rightarrow> dec b)"

lemma reload_written: "ok v \<Longrightarrow> reload (Some (enc v)) = Inr v"
  by (simp add: reload_def dec_enc)

lemma crash_old_or_new:
  assumes "reload f = Inr old" "ok new" "(g, tmp) \<in> set (replace_trace f (enc new))"
  shows "reload g = Inr old \<or> reload g = Inr new"
  using replace_trace_file [OF assms(3)] assms(1,2) reload_written by auto

end

end
