(* ===== verification/KV_Store.thy ===== *)
theory KV_Store
  imports Json_Props
begin

text \<open>
  \<^verbatim>\<open>pylog/statemachine.py\<close>: the key-value store that Raft replicates. A dictionary is an
  association list in insertion order; its values are JSON values because \<^verbatim>\<open>restore\<close> takes over
  whatever a snapshot holds. A snapshot whose \<^verbatim>\<open>ops\<close> is not an integer makes the model's
  \<open>kv_restore\<close> fail at once, where the code fails at the next \<^verbatim>\<open>apply\<close>.
\<close>

record kv_store =
  kv_data :: "(ustr \<times> json) list"
  kv_ops :: int

datatype kv_result = SetOp ustr | GetOp ustr "json option"

definition kv_init :: kv_store where
  "kv_init = \<lparr>kv_data = [], kv_ops = 0\<rparr>"

text \<open>\<^verbatim>\<open>s.split("=", 1)\<close>: the part before the first separator and, if there is one, the part after it.\<close>

definition split_eq :: "ustr \<Rightarrow> ustr \<times> ustr option" where
  "split_eq s =
     (let before = takeWhile (\<lambda>c. c \<noteq> 61) s; rest = dropWhile (\<lambda>c. c \<noteq> 61) s in
      (before, case rest of [] \<Rightarrow> None | _ # after \<Rightarrow> Some after))"

definition kv_apply :: "bytes \<Rightarrow> kv_store \<Rightarrow> (kv_store, kv_result) outcome" where
  "kv_apply payload kv =
     (let kv1 = kv\<lparr>kv_ops := kv_ops kv + 1\<rparr> in
      case utf8_decode payload of
        Inl e \<Rightarrow> (Inl e, kv1)
      | Inr txt \<Rightarrow>
          (case split_eq txt of
             (k, Some v) \<Rightarrow> (Inr (SetOp k), kv1\<lparr>kv_data := dict_put k (JStr v) (kv_data kv1)\<rparr>)
           | (k, None) \<Rightarrow> (Inr (GetOp k (map_of (kv_data kv1) k)), kv1)))"

definition kv_get :: "ustr \<Rightarrow> kv_store \<Rightarrow> json option" where
  "kv_get k kv = map_of (kv_data kv) k"

definition kv_snapshot :: "kv_store \<Rightarrow> json" where
  "kv_snapshot kv = JObj [(ascii ''keys'', JObj (kv_data kv)), (ascii ''ops'', JInt (kv_ops kv))]"

text \<open>\<^verbatim>\<open>dict(x)\<close> of a JSON value; sequences of pairs are not accepted here.\<close>

definition as_dict :: "json \<Rightarrow> (ustr \<times> json) list result" where
  "as_dict v =
     (case v of
        JObj kvs \<Rightarrow> Inr kvs
      | JList vs \<Rightarrow> if vs = [] then Inr [] else Inl TypeError
      | JStr s \<Rightarrow> if s = [] then Inr [] else Inl TypeError
      | _ \<Rightarrow> Inl TypeError)"

definition kv_restore :: "json \<Rightarrow> kv_store \<Rightarrow> (kv_store, unit) outcome" where
  "kv_restore state kv =
     (case state of
        JObj st \<Rightarrow>
          (case as_dict (case map_of st (ascii ''keys'') of None \<Rightarrow> JObj [] | Some k \<Rightarrow> k) of
             Inl e \<Rightarrow> (Inl e, kv)
           | Inr d \<Rightarrow>
               (case map_of st (ascii ''ops'') of
                  None \<Rightarrow> (Inr (), kv\<lparr>kv_data := d, kv_ops := 0\<rparr>)
                | Some (JInt i) \<Rightarrow> (Inr (), kv\<lparr>kv_data := d, kv_ops := i\<rparr>)
                | Some (JBool b) \<Rightarrow> (Inr (), kv\<lparr>kv_data := d, kv_ops := (if b then 1 else 0)\<rparr>)
                | Some _ \<Rightarrow> (Inl TypeError, kv\<lparr>kv_data := d\<rparr>)))
      | _ \<Rightarrow> (Inl AttributeError, kv))"

section \<open>Behaviour\<close>

definition kv_inv :: "kv_store \<Rightarrow> bool" where
  "kv_inv kv \<longleftrightarrow> distinct (map fst (kv_data kv))
     \<and> (\<forall>(k, v) \<in> set (kv_data kv). list_all scalar k \<and> wf_json v)"

lemma split_eq_set: "61 \<notin> set k \<Longrightarrow> split_eq (k @ 61 # v) = (k, Some v)"
  by (simp add: split_eq_def takeWhile_append2 dropWhile_append2 takeWhile_eq_all_conv
      dropWhile_eq_Nil_conv takeWhile_append dropWhile_append)

lemma split_eq_get:
  assumes "61 \<notin> set k"
  shows "split_eq k = (k, None)"
proof -
  have "\<forall>c \<in> set k. c \<noteq> 61"
    using assms by blast
  then have "takeWhile (\<lambda>c. c \<noteq> 61) k = k" "dropWhile (\<lambda>c. c \<noteq> 61) k = []"
    by simp_all
  then show ?thesis unfolding split_eq_def Let_def by (simp only: list.case)
qed

lemma split_eq_parts:
  assumes "split_eq s = (k, vo)"
  shows "61 \<notin> set k \<and> s = (case vo of None \<Rightarrow> k | Some v \<Rightarrow> k @ 61 # v)"
proof -
  let ?rest = "dropWhile (\<lambda>c. c \<noteq> 61) s"
  have k: "k = takeWhile (\<lambda>c. c \<noteq> 61) s"
    and vo: "vo = (case ?rest of [] \<Rightarrow> None | _ # after \<Rightarrow> Some after)"
    using assms by (simp_all add: split_eq_def)
  have s: "s = k @ ?rest"
    unfolding k by (rule takeWhile_dropWhile_id [symmetric])
  have "61 \<notin> set k"
    unfolding k by (auto dest: set_takeWhileD)
  moreover have "s = (case vo of None \<Rightarrow> k | Some v \<Rightarrow> k @ 61 # v)"
  proof (cases ?rest)
    case Nil
    then have "vo = None" unfolding vo Nil by (simp only: list.case)
    moreover have "s = k" using s unfolding Nil by simp
    ultimately show ?thesis by simp
  next
    case (Cons x xs)
    then have "x = 61" by (simp add: dropWhile_eq_Cons_conv)
    with Cons s vo show ?thesis by simp
  qed
  ultimately show ?thesis by blast
qed

lemma kv_apply_set:
  assumes "61 \<notin> set k" "utf8_encode (k @ 61 # v) = Inr pl"
  shows "kv_apply pl kv = (Inr (SetOp k),
    kv\<lparr>kv_ops := kv_ops kv + 1, kv_data := dict_put k (JStr v) (kv_data kv)\<rparr>)"
  using utf8_round_trip [OF assms(2)] split_eq_set [OF assms(1)] by (simp add: kv_apply_def Let_def)

lemma kv_apply_get:
  assumes "61 \<notin> set k" "utf8_encode k = Inr pl"
  shows "kv_apply pl kv = (Inr (GetOp k (kv_get k kv)), kv\<lparr>kv_ops := kv_ops kv + 1\<rparr>)"
  using utf8_round_trip [OF assms(2)] split_eq_get [OF assms(1)]
  by (simp add: kv_apply_def kv_get_def Let_def)

lemma kv_get_put:
  "kv_get k (kv\<lparr>kv_data := dict_put k' v (kv_data kv)\<rparr>) = (if k = k' then Some v else kv_get k kv)"
  by (simp add: kv_get_def dict_put_map_of)

lemma ascii_keys_distinct: "ascii ''keys'' \<noteq> ascii ''ops''"
  by (simp add: ascii_def)

lemma kv_restore_snapshot: "kv_restore (kv_snapshot kv) kv' = (Inr (), kv)"
  using ascii_keys_distinct by (simp add: kv_restore_def kv_snapshot_def as_dict_def)

lemma ascii_scalar: "list_all scalar (ascii s)"
proof -
  have "of_char c < (256 :: nat)" for c :: char
    by (metis of_char_mod_256 mod_less_divisor zero_less_numeral)
  then have "scalar (of_char c)" for c :: char
    unfolding scalar_def by (intro disjI1) (rule less_trans, assumption, simp)
  then show ?thesis
    by (simp add: ascii_def list_all_iff)
qed

lemma kv_snapshot_wf: "kv_inv kv \<Longrightarrow> wf_json (kv_snapshot kv)"
  using ascii_keys_distinct ascii_scalar by (auto simp: kv_snapshot_def kv_inv_def)

lemma kv_apply_inv:
  assumes "kv_inv kv"
  shows "kv_inv (snd (kv_apply pl kv))"
proof (cases "utf8_decode pl")
  case (Inl e)
  with assms show ?thesis by (simp add: kv_apply_def kv_inv_def Let_def)
next
  case (Inr str)
  obtain k vo where kv: "split_eq str = (k, vo)" by fastforce
  show ?thesis
  proof (cases vo)
    case None
    with assms Inr kv show ?thesis by (simp add: kv_apply_def kv_inv_def Let_def)
  next
    case (Some v)
    then have "list_all scalar k" "list_all scalar v"
      using split_eq_parts [OF kv] utf8_decode_scalar [OF Inr] by auto
    then have "\<forall>(a, b) \<in> set (dict_put k (JStr v) (kv_data kv)). list_all scalar a \<and> wf_json b"
      using assms by (fastforce simp: kv_inv_def dest: subsetD [OF dict_put_set])
    then show ?thesis
      using assms Some Inr kv by (simp add: kv_apply_def kv_inv_def Let_def dict_put_distinct)
  qed
qed

end
