(* ===== verification/Durable_State.thy ===== *)
theory Durable_State
  imports Atomic_File KV_Store
begin

text \<open>
  The class \<^verbatim>\<open>DurableState\<close> of \<^verbatim>\<open>pylog/raft.py\<close>: current term and vote, kept in a JSON file that is
  replaced atomically. \<open>state_path\<close> says whether the object has a path at all; \<open>state_file\<close> is
  the content of the file. \<open>save_trace\<close> lists what a crash can leave on disk at each moment of a
  save: the file and the temporary file beside it.
\<close>

record durable_state =
  current_term :: int
  voted_for :: "ustr option"
  state_path :: bool
  state_file :: "bytes option"

definition state_json :: "int \<Rightarrow> ustr option \<Rightarrow> json" where
  "state_json t v =
     JObj [(ascii ''term'', JInt t),
           (ascii ''voted_for'', case v of None \<Rightarrow> JNull | Some p \<Rightarrow> JStr p)]"

text \<open>\<^verbatim>\<open>_load\<close>; a term or vote of another JSON type is reported as a type error at once.\<close>

definition load_state :: "bytes \<Rightarrow> (int \<times> ustr option) result" where
  "load_state f =
     (case utf8_decode f of
        Inl e \<Rightarrow> Inl e
      | Inr s \<Rightarrow>
          (case loads s of
             Inl e \<Rightarrow> Inl e
           | Inr data \<Rightarrow>
               (case data of
                  JObj kvs \<Rightarrow>
                    (case map_of kvs (ascii ''term'') of
                       None \<Rightarrow> Inl KeyError
                     | Some (JInt t) \<Rightarrow>
                         (case map_of kvs (ascii ''voted_for'') of
                            None \<Rightarrow> Inr (t, None)
                          | Some JNull \<Rightarrow> Inr (t, None)
                          | Some (JStr p) \<Rightarrow> Inr (t, Some p)
                          | Some _ \<Rightarrow> Inl TypeError)
                     | Some _ \<Rightarrow> Inl TypeError)
                | _ \<Rightarrow> Inl TypeError)))"

definition durable_state_init :: "bool \<Rightarrow> bytes option \<Rightarrow> durable_state result" where
  "durable_state_init has_path f =
     (let ds = \<lparr>current_term = 0, voted_for = None, state_path = has_path, state_file = f\<rparr> in
      case f of
        None \<Rightarrow> Inr ds
      | Some bs \<Rightarrow>
          if \<not> has_path then Inr ds
          else (case load_state bs of
                  Inl e \<Rightarrow> Inl e
                | Inr (t, v) \<Rightarrow> Inr (ds\<lparr>current_term := t, voted_for := v\<rparr>)))"

definition save :: "int \<Rightarrow> ustr option \<Rightarrow> durable_state \<Rightarrow> durable_state" where
  "save t v ds =
     (let ds1 = ds\<lparr>current_term := t, voted_for := v\<rparr> in
      if \<not> state_path ds then ds1
      else ds1\<lparr>state_file := Some (encode_ascii (dumps (state_json t v)))\<rparr>)"

definition save_trace ::
  "int \<Rightarrow> ustr option \<Rightarrow> durable_state \<Rightarrow> (bytes option \<times> bytes option) list" where
  "save_trace t v ds = replace_trace (state_file ds) (encode_ascii (dumps (state_json t v)))"

lemma save_fields [simp]:
  "current_term (save t v ds) = t" "voted_for (save t v ds) = v"
  "state_path (save t v ds) = state_path ds"
  by (simp_all add: save_def Let_def)

lemma ascii_keys_differ: "ascii ''term'' \<noteq> ascii ''voted_for''"
  by (simp add: ascii_def)

lemma state_json_wf: "(\<And>p. v = Some p \<Longrightarrow> list_all scalar p) \<Longrightarrow> wf_json (state_json t v)"
  by (auto simp: state_json_def ascii_scalar ascii_keys_differ split: option.splits)

lemma load_saved:
  assumes "\<And>p. v = Some p \<Longrightarrow> list_all scalar p"
  shows "load_state (encode_ascii (dumps (state_json t v))) = Inr (t, v)"
proof -
  have wf: "wf_json (state_json t v)"
    using assms by (rule state_json_wf)
  then show ?thesis
    using encode_ascii_decode [OF blank_gaps(1) wf] loads_dumps [OF wf]
    by (auto simp: load_state_def state_json_def ascii_def split: option.splits)
qed

text \<open>Term and vote as the content of an atomically replaced file.\<close>

interpretation vote_file: atomic_file
  "\<lambda>(t, v). encode_ascii (dumps (state_json t v))" load_state "(0, None)"
  "\<lambda>(t, v). \<forall>p. v = Some p \<longrightarrow> list_all scalar p"
  by unfold_locales (auto intro: load_saved)

lemma durable_state_reload:
  "durable_state_init True f =
     (case vote_file.reload f of
        Inl e \<Rightarrow> Inl e
      | Inr (t, v) \<Rightarrow> Inr \<lparr>current_term = t, voted_for = v, state_path = True, state_file = f\<rparr>)"
  by (auto simp: durable_state_init_def vote_file.reload_def Let_def split: option.splits sum.splits)

end
