(* ===== verification/Raft_Node.thy ===== *)
theory Raft_Node
  imports Complex_Main "HOL-Library.List_Lexorder" Raft_Log Durable_State
begin

text \<open>
  The class \<^verbatim>\<open>RaftNode\<close> of \<^verbatim>\<open>pylog/raft.py\<close>, every method. The object is a record; a message
  dictionary is a value of \<open>message\<close>; \<^verbatim>\<open>transport.send\<close> appends to \<open>outbox\<close> and \<^verbatim>\<open>on_apply\<close> to
  \<open>apply_calls\<close>. The clock is read once per call: every operation that reads it takes the
  argument \<open>now\<close>. Milliseconds are rationals. The random generator is a sequence of draws from
  \<open>[0, 1)\<close> with the number of draws made; \<^verbatim>\<open>uniform(a, b)\<close> is \<open>a + (b - a) * draw\<close>. The log is the
  plain \<^verbatim>\<open>RaftLog\<close>, which has no \<^verbatim>\<open>truncate_disk_through\<close>. Sets of node names are finite sets; where
  the code iterates over one, the model takes the names in sorted order, which only fixes the
  order of dictionary keys. A configuration entry is understood when its \<^verbatim>\<open>servers\<close> is a list of
  strings, a string or an object; a list with other elements counts as an exception.
\<close>

section \<open>Messages and state\<close>

datatype role = FOLLOWER | CANDIDATE | LEADER

datatype message =
    M_prevote (m_term: int) (m_candidate: ustr) (m_last_index: int) (m_last_term: int)
  | M_prevote_resp (m_term: int) (m_from: ustr) (m_granted: bool)
  | M_vote (m_term: int) (m_candidate: ustr) (m_last_index: int) (m_last_term: int)
  | M_vote_resp (m_term: int) (m_from: ustr) (m_granted: bool)
  | M_append (m_term: int) (m_leader: ustr) (m_prev_index: int) (m_prev_term: int)
      (m_entries: "entry list") (m_commit: int)
  | M_append_resp (m_term: int) (m_from: ustr) (m_success: bool) (m_match: int)
      (m_conflict: "int option")
  | M_timeout_now (m_term: int)
  | M_install_snapshot (m_term: int) (m_leader: ustr) (m_included_index: int)
      (m_included_term: int) (m_data: json)

type_synonym snapshot = "int \<times> int \<times> json"

record raft_node =
  node_id :: ustr
  peers :: "ustr list"
  config :: "ustr set"
  old_config :: "ustr set option"
  joint_index :: int
  draws :: "nat \<Rightarrow> rat"
  drawn :: nat
  persister :: durable_state
  state_machine :: "kv_store option"
  on_apply :: bool
  election_min :: rat
  election_max :: rat
  heartbeat_interval :: rat
  quorum_check_interval :: rat
  max_batch :: int
  use_prevote :: bool
  rlog :: raft_log
  snapshot_dir :: bool
  auto_snapshot_every :: "int option"
  last_snapshot :: "snapshot option"
  node_role :: role
  leader_id :: "ustr option"
  pre_candidate :: bool
  commit_index :: int
  applied_index :: int
  election_deadline :: rat
  votes :: "ustr set"
  next_index :: "(ustr \<times> int) list"
  match_index :: "(ustr \<times> int) list"
  last_peer_ack :: "(ustr \<times> rat) list"
  last_leader_contact :: rat
  next_heartbeat :: rat
  next_quorum_check :: rat
  transfer_target :: "ustr option"
  transfer_deadline :: rat
  prevote_term :: int
  snapshot_files :: "(ustr \<times> bytes) list"
  outbox :: "(ustr \<times> message) list"
  apply_calls :: "(int \<times> bytes \<times> kv_result option) list"

type_synonym 'a node_op = "raft_node \<Rightarrow> (raft_node, 'a) outcome"

definition send :: "ustr \<Rightarrow> message \<Rightarrow> raft_node \<Rightarrow> raft_node" where
  "send dest m n = n\<lparr>outbox := outbox n @ [(dest, m)]\<rparr>"

definition cur_term :: "raft_node \<Rightarrow> int" where
  "cur_term n = current_term (persister n)"

definition NOOP :: bytes where
  "NOOP = encode_ascii (ascii ''__raft_noop__'')"

definition CFG :: bytes where
  "CFG = encode_ascii (ascii ''__cfg:'')"

definition starts_with :: "bytes \<Rightarrow> bytes \<Rightarrow> bool" where
  "starts_with p s \<longleftrightarrow> take (length p) s = p"

text \<open>Truth value of an optional name: \<^verbatim>\<open>None\<close> and the empty string are false.\<close>

definition truthy :: "ustr option \<Rightarrow> bool" where
  "truthy x \<longleftrightarrow> x \<noteq> None \<and> x \<noteq> Some []"

definition dict_get :: "('k \<times> 'v) list \<Rightarrow> 'k \<Rightarrow> 'v \<Rightarrow> 'v" where
  "dict_get d k v = (case map_of d k of None \<Rightarrow> v | Some x \<Rightarrow> x)"

definition dict_pop :: "'k \<Rightarrow> ('k \<times> 'v) list \<Rightarrow> ('k \<times> 'v) list" where
  "dict_pop k d = filter (\<lambda>p. fst p \<noteq> k) d"

section \<open>Timers\<close>

definition reset_election_deadline :: "rat \<Rightarrow> bool \<Rightarrow> raft_node \<Rightarrow> raft_node" where
  "reset_election_deadline now initial n =
     (let base = election_min n + (election_max n - election_min n) * draws n (drawn n) in
      if initial then
        n\<lparr>election_deadline := now + (base + (0 + (50 - 0) * draws n (drawn n + 1))),
          drawn := drawn n + 2\<rparr>
      else n\<lparr>election_deadline := now + base, drawn := drawn n + 1\<rparr>)"

definition has_majority :: "ustr set \<Rightarrow> raft_node \<Rightarrow> bool" where
  "has_majority voters n =
     (case old_config n of
        Some oldc \<Rightarrow>
          card (voters \<inter> oldc) \<ge> card oldc div 2 + 1
          \<and> card (voters \<inter> config n) \<ge> card (config n) div 2 + 1
      | None \<Rightarrow> card voters > card (config n) div 2)"

definition next_event_due :: "raft_node \<Rightarrow> rat" where
  "next_event_due n =
     (if node_role n = LEADER then
        (if truthy (transfer_target n)
         then min (min (next_heartbeat n) (next_quorum_check n)) (transfer_deadline n)
         else min (next_heartbeat n) (next_quorum_check n))
      else election_deadline n)"

section \<open>Snapshots\<close>

definition pad_zeros :: "nat \<Rightarrow> ustr \<Rightarrow> ustr" where
  "pad_zeros w s = replicate (w - length s) 48 @ s"

definition snapshot_name :: "int \<Rightarrow> ustr" where
  "snapshot_name idx = ascii ''snapshot-'' @ pad_zeros 20 (int_dec idx) @ ascii ''.json''"

definition snapshot_json :: "int \<Rightarrow> int \<Rightarrow> json \<Rightarrow> json" where
  "snapshot_json idx t st =
     JObj [(ascii ''last_included_index'', JInt idx), (ascii ''last_included_term'', JInt t),
           (ascii ''state_machine'', st)]"

definition write_snapshot_file :: "int \<Rightarrow> int \<Rightarrow> json \<Rightarrow> raft_node \<Rightarrow> raft_node" where
  "write_snapshot_file idx t st n =
     (if \<not> snapshot_dir n then n
      else n\<lparr>snapshot_files := dict_put (snapshot_name idx)
                 (encode_ascii (dumps (snapshot_json idx t st))) (snapshot_files n)\<rparr>)"

definition take_snapshot :: "raft_node \<Rightarrow> snapshot option \<times> raft_node" where
  "take_snapshot n =
     (case state_machine n of
        None \<Rightarrow> (None, n)
      | Some sm \<Rightarrow>
          if applied_index n = 0 then (None, n)
          else
            let idx = applied_index n;
                t0 = term_at (rlog n) idx;
                t = (if t0 < 0 \<and> snapshot_last_index (rlog n) = idx
                     then snapshot_last_term (rlog n) else t0);
                st = kv_snapshot sm;
                n1 = write_snapshot_file idx t st n;
                n2 = n1\<lparr>last_snapshot := Some (idx, t, st), rlog := snd (compact_log idx t (rlog n1))\<rparr>
            in (Some (idx, t, st), n2))"

section \<open>Applying committed entries\<close>

definition json_str :: "json \<Rightarrow> ustr option" where
  "json_str v = (case v of JStr s \<Rightarrow> Some s | _ \<Rightarrow> None)"

definition cfg_servers :: "bytes \<Rightarrow> ustr set option" where
  "cfg_servers payload =
     (case utf8_decode (drop 6 payload) of
        Inl _ \<Rightarrow> None
      | Inr s \<Rightarrow>
          (case loads s of
             Inr (JObj kvs) \<Rightarrow>
               (case map_of kvs (ascii ''servers'') of
                  None \<Rightarrow> Some {}
                | Some (JList vs) \<Rightarrow>
                    if list_all (\<lambda>v. json_str v \<noteq> None) vs
                    then Some (set (map (\<lambda>v. the (json_str v)) vs)) else None
                | Some (JStr str) \<Rightarrow> Some (set (map (\<lambda>c. [c]) str))
                | Some (JObj m) \<Rightarrow> Some (set (map fst m))
                | Some _ \<Rightarrow> None)
           | _ \<Rightarrow> None))"

definition other_names :: "ustr set \<Rightarrow> raft_node \<Rightarrow> ustr list" where
  "other_names S n = filter (\<lambda>p. p \<noteq> node_id n) (sorted_list_of_set S)"

text \<open>Starting to track a peer that has no entry in \<^verbatim>\<open>next_index\<close> yet.\<close>

definition init_peer :: "rat \<Rightarrow> ustr \<Rightarrow> raft_node \<Rightarrow> raft_node" where
  "init_peer now p n =
     (if p \<noteq> node_id n \<and> map_of (next_index n) p = None
      then n\<lparr>next_index := dict_put p (last_index (rlog n) + 1) (next_index n),
             match_index := dict_put p 0 (match_index n),
             last_peer_ack := dict_put p now (last_peer_ack n)\<rparr>
      else n)"

definition drop_peer :: "ustr \<Rightarrow> raft_node \<Rightarrow> raft_node" where
  "drop_peer p n =
     (if p \<notin> config n
      then n\<lparr>next_index := dict_pop p (next_index n), match_index := dict_pop p (match_index n),
             last_peer_ack := dict_pop p (last_peer_ack n)\<rparr>
      else n)"

definition apply_config :: "rat \<Rightarrow> ustr set \<Rightarrow> raft_node \<Rightarrow> raft_node" where
  "apply_config now servers n =
     (let n1 = n\<lparr>config := servers, peers := other_names servers n\<rparr>;
          n2 = fold (init_peer now) (sorted_list_of_set servers) n1;
          n3 = fold drop_peer (map fst (next_index n2)) n2
      in n3\<lparr>old_config := None, joint_index := 0\<rparr>)"

text \<open>One committed entry: a configuration, or a command for the state machine.\<close>

definition apply_entry :: "rat \<Rightarrow> entry \<Rightarrow> unit node_op" where
  "apply_entry now e n =
     (let nxt = applied_index n + 1; payload = e_payload e in
      if payload \<noteq> [] \<and> starts_with CFG payload then
        (let n1 = (case cfg_servers payload of
                     None \<Rightarrow> n
                   | Some servers \<Rightarrow> if servers \<noteq> {} then apply_config now servers n else n)
         in (Inr (), n1\<lparr>applied_index := nxt\<rparr>))
      else
        (case state_machine n of
           None \<Rightarrow> (Inr (), n\<lparr>applied_index := nxt\<rparr>)
         | Some sm \<Rightarrow>
             let (res, sm1) = (if payload \<noteq> [] \<and> \<not> starts_with NOOP payload
                               then (case kv_apply payload sm of
                                       (Inl err, s) \<Rightarrow> (Inl err, s)
                                     | (Inr r, s) \<Rightarrow> (Inr (Some r), s))
                               else (Inr None, sm));
                 n1 = n\<lparr>state_machine := Some sm1\<rparr>
             in case res of
                  Inl err \<Rightarrow> (Inl err, n1)
                | Inr r \<Rightarrow>
                    let n2 = n1\<lparr>applied_index := nxt\<rparr> in
                    (Inr (), if on_apply n
                             then n2\<lparr>apply_calls := apply_calls n2 @ [(e_index e, payload, r)]\<rparr>
                             else n2)))"

lemma fold_init_peer_fields:
  "applied_index (fold (init_peer now) ps n) = applied_index n"
  "commit_index (fold (init_peer now) ps n) = commit_index n"
  by (induction ps arbitrary: n) (simp_all add: init_peer_def)

lemma fold_drop_peer_fields:
  "applied_index (fold drop_peer ps n) = applied_index n"
  "commit_index (fold drop_peer ps n) = commit_index n"
  by (induction ps arbitrary: n) (simp_all add: drop_peer_def)

lemma apply_entry_indexes:
  "commit_index (snd (apply_entry now e n)) = commit_index n"
  "apply_entry now e n = (Inr (), n') \<Longrightarrow> applied_index n' = applied_index n + 1"
  by (auto simp: apply_entry_def apply_config_def Let_def fold_init_peer_fields fold_drop_peer_fields
      split: option.splits if_splits sum.splits prod.splits)

lemma apply_entry_next:
  "(Inr u, n') = apply_entry now e n \<Longrightarrow>
     commit_index n' = commit_index n \<and> applied_index n' = applied_index n + 1"
  using apply_entry_indexes [of now e n] by (metis old.unit.exhaust snd_conv)

text \<open>The loop of \<^verbatim>\<open>_apply_committed\<close>; the result tells whether it ended with \<^verbatim>\<open>return\<close>.\<close>

function apply_loop :: "rat \<Rightarrow> bool node_op" where
  "apply_loop now n =
     (if applied_index n < commit_index n then
        (case get_entry (rlog n) (applied_index n + 1) of
           None \<Rightarrow>
             if state_machine n = None then (Inr True, n\<lparr>applied_index := commit_index n\<rparr>)
             else (Inr False, n)
         | Some e \<Rightarrow>
             (case apply_entry now e n of
                (Inl err, n1) \<Rightarrow> (Inl err, n1)
              | (Inr _, n1) \<Rightarrow> apply_loop now n1))
      else (Inr False, n))"
  by pat_completeness auto
termination
  by (relation "measure (\<lambda>(_, n). nat (commit_index n - applied_index n))")
    (auto dest!: apply_entry_next)

declare apply_loop.simps [simp del]

definition snapshot_due :: "raft_node \<Rightarrow> bool" where
  "snapshot_due n =
     (case auto_snapshot_every n of
        None \<Rightarrow> False
      | Some k \<Rightarrow>
          k \<noteq> 0 \<and> snapshot_dir n
          \<and> applied_index n - (case last_snapshot n of None \<Rightarrow> 0 | Some (i, _, _) \<Rightarrow> i) \<ge> k)"

definition apply_committed :: "rat \<Rightarrow> unit node_op" where
  "apply_committed now n =
     (case apply_loop now n of
        (Inl e, n1) \<Rightarrow> (Inl e, n1)
      | (Inr returned, n1) \<Rightarrow>
          if returned then (Inr (), n1)
          else (Inr (), if snapshot_due n1 then snd (take_snapshot n1) else n1))"

section \<open>Replication by the leader\<close>

definition send_append :: "ustr \<Rightarrow> raft_node \<Rightarrow> raft_node" where
  "send_append peer n =
     (let ni = dict_get (next_index n) peer (last_index (rlog n) + 1) in
      if ni < first_index (rlog n) then
        (let (idx, t, data) = (case last_snapshot n of
                                 Some s \<Rightarrow> s
                               | None \<Rightarrow> (snapshot_last_index (rlog n), snapshot_last_term (rlog n), JObj []))
         in send peer (M_install_snapshot (cur_term n) (node_id n) idx t data) n)
      else
        let prev = ni - 1 in
        send peer (M_append (cur_term n) (node_id n) prev (term_at (rlog n) prev)
          (entries_from (rlog n) ni (Some (max_batch n))) (commit_index n)) n)"

definition send_all_appends :: "raft_node \<Rightarrow> raft_node" where
  "send_all_appends n = fold send_append (peers n) n"

definition commit_quorum :: "int \<Rightarrow> raft_node \<Rightarrow> bool" where
  "commit_quorum candidate n =
     (let holders = map fst (filter (\<lambda>(p, mi). mi \<ge> candidate) (match_index n)) in
      case old_config n of
        Some oldc \<Rightarrow>
          (if node_id n \<in> oldc then 1 else 0) + length (filter (\<lambda>p. p \<in> oldc) holders) \<ge> card oldc div 2 + 1
          \<and> 1 + length (filter (\<lambda>p. p \<in> config n) holders) \<ge> card (config n) div 2 + 1
      | None \<Rightarrow> 1 + length (filter (\<lambda>p. p \<in> config n) holders) \<ge> card (config n) div 2 + 1)"

text \<open>The loop over \<^verbatim>\<open>range(last_index, commit_index, -1)\<close>; \<open>low\<close> is its fixed lower end.\<close>

function advance_loop :: "rat \<Rightarrow> int \<Rightarrow> int \<Rightarrow> unit node_op" where
  "advance_loop now low candidate n =
     (if candidate \<le> low then (Inr (), n)
      else if term_at (rlog n) candidate \<noteq> cur_term n then advance_loop now low (candidate - 1) n
      else if commit_quorum candidate n then
        apply_committed now (n\<lparr>commit_index := candidate\<rparr>)
      else advance_loop now low (candidate - 1) n)"
  by pat_completeness auto
termination
  by (relation "measure (\<lambda>(_, low, c, _). nat (c - low))") auto

declare advance_loop.simps [simp del]

definition advance_commit :: "rat \<Rightarrow> unit node_op" where
  "advance_commit now n = advance_loop now (commit_index n) (last_index (rlog n)) n"

definition propose :: "rat \<Rightarrow> bytes \<Rightarrow> int option node_op" where
  "propose now payload n =
     (if node_role n \<noteq> LEADER \<or> transfer_target n \<noteq> None then (Inr None, n)
      else
        let (e, l) = append_entry (cur_term n) payload (rlog n) in
        (case advance_commit now (n\<lparr>rlog := l\<rparr>) of
           (Inl err, n1) \<Rightarrow> (Inl err, n1)
         | (Inr _, n1) \<Rightarrow> (Inr (Some (e_index e)), send_all_appends n1)))"

section \<open>Elections\<close>

definition progress :: "raft_node \<Rightarrow> int \<times> int" where
  "progress n =
     (let li = last_index (rlog n); lt = last_term (rlog n) in
      if li = 0 \<and> snapshot_last_index (rlog n) > 0
      then (snapshot_last_term (rlog n), snapshot_last_index (rlog n)) else (lt, li))"

text \<open>The comparison \<^verbatim>\<open>>=\<close> of pairs.\<close>

definition at_least :: "int \<times> int \<Rightarrow> int \<times> int \<Rightarrow> bool" where
  "at_least a b \<longleftrightarrow> fst a > fst b \<or> (fst a = fst b \<and> snd a \<ge> snd b)"

definition broadcast :: "message \<Rightarrow> raft_node \<Rightarrow> raft_node" where
  "broadcast m n = fold (\<lambda>p. send p m) (peers n) n"

definition track_peer :: "rat \<Rightarrow> ustr \<Rightarrow> raft_node \<Rightarrow> raft_node" where
  "track_peer now p n =
     n\<lparr>match_index := dict_put p 0 (match_index n),
       next_index := dict_put p (last_index (rlog n) + 1) (next_index n),
       last_peer_ack := dict_put p now (last_peer_ack n)\<rparr>"

definition become_leader :: "rat \<Rightarrow> unit node_op" where
  "become_leader now n =
     (let n1 = n\<lparr>node_role := LEADER, leader_id := Some (node_id n), pre_candidate := False,
                 transfer_target := None, transfer_deadline := 0, match_index := [], next_index := []\<rparr>;
          n2 = fold (track_peer now) (peers n) n1;
          (res, n3) = (if state_machine n \<noteq> None then propose now NOOP n2 else (Inr None, n2))
      in case res of
           Inl e \<Rightarrow> (Inl e, n3)
         | Inr _ \<Rightarrow>
             (Inr (), (send_all_appends n3)
                \<lparr>next_heartbeat := now + heartbeat_interval n3,
                  next_quorum_check := now + quorum_check_interval n3\<rparr>))"

definition maybe_win :: "rat \<Rightarrow> unit node_op" where
  "maybe_win now n =
     (if node_role n = CANDIDATE \<and> has_majority (votes n) n then become_leader now n else (Inr (), n))"

definition start_election :: "rat \<Rightarrow> unit node_op" where
  "start_election now n =
     (let n1 = n\<lparr>persister := save (cur_term n + 1) (Some (node_id n)) (persister n),
                 node_role := CANDIDATE, leader_id := None, votes := {node_id n}\<rparr>;
          n2 = reset_election_deadline now False n1;
          (lt, li) = progress n2;
          n3 = broadcast (M_vote (cur_term n2) (node_id n2) li lt) n2
      in if peers n3 = [] \<or> card (votes n3) > (length (peers n3) + 1) div 2
         then become_leader now n3 else (Inr (), n3))"

definition start_prevote_or_election :: "rat \<Rightarrow> unit node_op" where
  "start_prevote_or_election now n =
     (if use_prevote n \<and> \<not> pre_candidate n then
        (let n1 = n\<lparr>pre_candidate := True, prevote_term := cur_term n + 1, votes := {node_id n}\<rparr>;
             (lt, li) = progress n1;
             n2 = broadcast (M_prevote (prevote_term n1) (node_id n1) li lt) n1
         in (Inr (), reset_election_deadline now False n2))
      else start_election now (n\<lparr>pre_candidate := False\<rparr>))"

definition step_down :: "rat \<Rightarrow> int \<Rightarrow> raft_node \<Rightarrow> raft_node" where
  "step_down now t n =
     (let n1 = (if t > cur_term n then n\<lparr>persister := save t None (persister n)\<rparr> else n);
          n2 = n1\<lparr>node_role := FOLLOWER, pre_candidate := False, transfer_target := None,
                  transfer_deadline := 0\<rparr>
      in reset_election_deadline now False n2)"

section \<open>Liveness of the quorum, and ticks\<close>

definition fresh_peers :: "ustr set \<Rightarrow> rat \<Rightarrow> rat \<Rightarrow> raft_node \<Rightarrow> nat" where
  "fresh_peers S now window n =
     card {p \<in> S. p \<noteq> node_id n \<and> now - dict_get (last_peer_ack n) p (- (10 ^ 18)) \<le> window}"

definition check_quorum :: "rat \<Rightarrow> raft_node \<Rightarrow> raft_node" where
  "check_quorum now n =
     (let ack_window = election_max n * 2 in
      case old_config n of
        Some oldc \<Rightarrow>
          (let old_alive = (if node_id n \<in> oldc then 1 else 0) + fresh_peers oldc now ack_window n;
               new_alive = 1 + fresh_peers (config n) now ack_window n
           in if old_alive \<le> card oldc div 2 \<or> new_alive \<le> card (config n) div 2
              then step_down now (cur_term n) n else n)
      | None \<Rightarrow>
          if 1 + fresh_peers (config n) now ack_window n \<le> card (config n) div 2
          then step_down now (cur_term n) n else n)"

definition can_serve_linearizable_read :: "rat \<Rightarrow> raft_node \<Rightarrow> bool" where
  "can_serve_linearizable_read now n =
     (if node_role n \<noteq> LEADER then False
      else
        let window = election_min n in
        case old_config n of
          Some oldc \<Rightarrow>
            fresh_peers oldc now window n + (if node_id n \<in> oldc then 1 else 0) > card oldc div 2
            \<and> fresh_peers (config n) now window n + 1 > card (config n) div 2
        | None \<Rightarrow> 1 + fresh_peers (config n) now window n > card (config n) div 2)"

definition tick :: "rat \<Rightarrow> unit node_op" where
  "tick now n =
     (if node_role n = LEADER then
        (let n1 = (if truthy (transfer_target n) \<and> now \<ge> transfer_deadline n
                   then send_all_appends (n\<lparr>transfer_target := None, transfer_deadline := 0\<rparr>) else n);
             n2 = (if now \<ge> next_heartbeat n1
                   then (send_all_appends n1)\<lparr>next_heartbeat := now + heartbeat_interval n1\<rparr> else n1);
             n3 = (if now \<ge> next_quorum_check n2
                   then (check_quorum now n2)\<lparr>next_quorum_check := now + quorum_check_interval n2\<rparr> else n2)
         in (Inr (), n3))
      else if now \<ge> election_deadline n then start_prevote_or_election now n
      else (Inr (), n))"

section \<open>Leadership transfer and membership\<close>

definition transfer_leadership :: "rat \<Rightarrow> ustr \<Rightarrow> raft_node \<Rightarrow> bool \<times> raft_node" where
  "transfer_leadership now target n =
     (if node_role n \<noteq> LEADER \<or> target \<notin> set (peers n) then (False, n)
      else (True, send target (M_timeout_now (cur_term n))
              (n\<lparr>transfer_target := Some target, transfer_deadline := now + election_max n * 2\<rparr>)))"

definition propose_config :: "rat \<Rightarrow> ustr set \<Rightarrow> int option node_op" where
  "propose_config now new_servers n =
     (let oldc = config n;
          joint = oldc \<union> new_servers;
          n1 = (if old_config n = None then
                  (let a = n\<lparr>old_config := Some oldc, config := joint,
                             joint_index := last_index (rlog n) + 1\<rparr>;
                       b = fold (init_peer now) (sorted_list_of_set new_servers) a
                   in b\<lparr>peers := other_names joint b\<rparr>)
                else n);
          payload = CFG @ encode_ascii (dumps (JObj [(ascii ''servers'',
                      JList (map JStr (sorted_list_of_set new_servers)))]));
          (e, l) = append_entry (cur_term n1) payload (rlog n1)
      in case advance_commit now (n1\<lparr>rlog := l\<rparr>) of
           (Inl err, n2) \<Rightarrow> (Inl err, n2)
         | (Inr _, n2) \<Rightarrow> (Inr (Some (e_index e)), send_all_appends n2))"

definition propose_add_server :: "rat \<Rightarrow> ustr \<Rightarrow> int option node_op" where
  "propose_add_server now new_id n =
     (if node_role n \<noteq> LEADER \<or> new_id \<in> config n \<or> old_config n \<noteq> None then (Inr None, n)
      else propose_config now (config n \<union> {new_id}) n)"

definition propose_remove_server :: "rat \<Rightarrow> ustr \<Rightarrow> int option node_op" where
  "propose_remove_server now rm_id n =
     (if node_role n \<noteq> LEADER \<or> rm_id \<notin> config n \<or> rm_id = node_id n \<or> old_config n \<noteq> None
      then (Inr None, n)
      else if card (config n) \<le> 2 then (Inr None, n)
      else propose_config now (config n - {rm_id}) n)"

section \<open>Message handlers\<close>

definition on_prevote :: "rat \<Rightarrow> message \<Rightarrow> unit node_op" where
  "on_prevote now m n =
     (let up_to_date = at_least (m_last_term m, m_last_index m) (progress n);
          leader_alive = (now - last_leader_contact n < election_max n * 2);
          grant = (m_term m > cur_term n \<and> up_to_date
                   \<and> \<not> (node_role n = FOLLOWER \<and> leader_id n \<noteq> None \<and> leader_alive))
      in (Inr (), send (m_candidate m) (M_prevote_resp (m_term m) (node_id n) grant) n))"

definition on_prevote_resp :: "rat \<Rightarrow> message \<Rightarrow> unit node_op" where
  "on_prevote_resp now m n =
     (if \<not> pre_candidate n \<or> m_term m \<noteq> prevote_term n then (Inr (), n)
      else
        let n1 = (if m_granted m then n\<lparr>votes := insert (m_from m) (votes n)\<rparr> else n) in
        if has_majority (votes n1) n1 then start_election now (n1\<lparr>pre_candidate := False\<rparr>)
        else if \<not> m_granted m then (Inr (), reset_election_deadline now False n1)
        else (Inr (), n1))"

definition on_vote :: "rat \<Rightarrow> message \<Rightarrow> unit node_op" where
  "on_vote now m n =
     (if m_term m < cur_term n then
        (Inr (), send (m_candidate m) (M_vote_resp (cur_term n) (node_id n) False) n)
      else
        let n1 = (if m_term m > cur_term n then step_down now (m_term m) n else n);
            up_to_date = at_least (m_last_term m, m_last_index m) (progress n1);
            can_vote = (voted_for (persister n1) = None \<or> voted_for (persister n1) = Some (m_candidate m));
            grant = (can_vote \<and> up_to_date);
            n2 = (if grant
                  then reset_election_deadline now False
                         (n1\<lparr>persister := save (cur_term n1) (Some (m_candidate m)) (persister n1)\<rparr>)
                  else n1)
        in (Inr (), send (m_candidate m) (M_vote_resp (cur_term n2) (node_id n2) grant) n2))"

definition on_vote_resp :: "rat \<Rightarrow> message \<Rightarrow> unit node_op" where
  "on_vote_resp now m n =
     (if node_role n \<noteq> CANDIDATE \<or> m_term m \<noteq> cur_term n then (Inr (), n)
      else if m_granted m then maybe_win now (n\<lparr>votes := insert (m_from m) (votes n)\<rparr>)
      else (Inr (), n))"

definition on_append :: "rat \<Rightarrow> message \<Rightarrow> unit node_op" where
  "on_append now m n =
     (if m_term m < cur_term n then
        (Inr (), send (m_leader m) (M_append_resp (cur_term n) (node_id n) False 0 None) n)
      else
        let n1 = (if m_term m > cur_term n \<or> node_role n \<noteq> FOLLOWER then step_down now (m_term m) n else n);
            n2 = reset_election_deadline now False
                   (n1\<lparr>node_role := FOLLOWER, leader_id := Some (m_leader m), last_leader_contact := now\<rparr>);
            ((ok, mat, conflict), l) = merge (m_prev_index m) (m_prev_term m) (m_entries m) (rlog n2);
            n3 = n2\<lparr>rlog := l\<rparr>;
            (res, n4) = (if ok \<and> m_commit m > commit_index n3
                         then apply_committed now (n3\<lparr>commit_index := min (m_commit m) (last_index l)\<rparr>)
                         else (Inr (), n3))
        in case res of
             Inl e \<Rightarrow> (Inl e, n4)
           | Inr _ \<Rightarrow>
               (Inr (), send (m_leader m)
                  (M_append_resp (cur_term n4) (node_id n4) ok (if ok then mat else 0) (Some conflict)) n4))"

definition on_append_resp :: "rat \<Rightarrow> message \<Rightarrow> unit node_op" where
  "on_append_resp now m n =
     (if node_role n \<noteq> LEADER \<or> m_term m \<noteq> cur_term n then
        (Inr (), if m_term m > cur_term n then step_down now (m_term m) n else n)
      else
        let peer = m_from m;
            n1 = n\<lparr>last_peer_ack := dict_put peer now (last_peer_ack n)\<rparr>
        in if m_success m then
             (case map_of (match_index n1) peer of
                None \<Rightarrow> (Inl KeyError, n1)
              | Some mi \<Rightarrow>
                  advance_commit now
                    (n1\<lparr>match_index := dict_put peer (max mi (m_match m)) (match_index n1),
                        next_index := dict_put peer (max mi (m_match m) + 1) (next_index n1)\<rparr>))
           else
             (case map_of (next_index n1) peer of
                None \<Rightarrow> (Inl KeyError, n1)
              | Some ni \<Rightarrow>
                  let hint = (case m_conflict m of
                                None \<Rightarrow> ni - 1 | Some c \<Rightarrow> if c = 0 then ni - 1 else c);
                      n2 = n1\<lparr>next_index := dict_put peer (max 1 (min (ni - 1) hint)) (next_index n1)\<rparr>
                  in (Inr (), send_append peer n2)))"

definition on_timeout_now :: "rat \<Rightarrow> message \<Rightarrow> unit node_op" where
  "on_timeout_now now m n =
     (if m_term m \<ge> cur_term n \<and> node_role n \<noteq> LEADER then start_election now n else (Inr (), n))"

definition install_state :: "message \<Rightarrow> unit node_op" where
  "install_state m n =
     (let idx = m_included_index m; t = m_included_term m;
          (res, sm) = (case state_machine n of
                         None \<Rightarrow> (Inr (), None)
                       | Some s \<Rightarrow> (case kv_restore (m_data m) s of (r, s1) \<Rightarrow> (r, Some s1)));
          n1 = n\<lparr>state_machine := sm\<rparr>
      in case res of
           Inl e \<Rightarrow> (Inl e, n1)
         | Inr _ \<Rightarrow>
             let l = rlog n1;
                 n2 = n1\<lparr>rlog := l\<lparr>entries := filter (\<lambda>e. e_index e > idx) (entries l),
                                  first_index := idx + 1, snapshot_last_index := idx,
                                  snapshot_last_term := t\<rparr>\<rparr>
             in (Inr (), (write_snapshot_file idx t (m_data m) n2)\<lparr>last_snapshot := Some (idx, t, m_data m)\<rparr>))"

definition on_install_snapshot :: "rat \<Rightarrow> message \<Rightarrow> unit node_op" where
  "on_install_snapshot now m n =
     (if m_term m < cur_term n then
        (Inr (), send (m_leader m) (M_append_resp (cur_term n) (node_id n) False 0 None) n)
      else
        let n1 = (if m_term m > cur_term n \<or> node_role n \<noteq> FOLLOWER then step_down now (m_term m) n else n);
            n2 = reset_election_deadline now False
                   (n1\<lparr>leader_id := Some (m_leader m), last_leader_contact := now\<rparr>);
            idx = m_included_index m; t = m_included_term m;
            already_have = (term_at (rlog n2) idx = t \<or> snapshot_last_index (rlog n2) \<ge> idx);
            (res, n3) = (if already_have then (Inr (), n2) else install_state m n2)
        in case res of
             Inl e \<Rightarrow> (Inl e, n3)
           | Inr _ \<Rightarrow>
               let n4 = n3\<lparr>commit_index := max (commit_index n3) idx,
                           applied_index := (if already_have then applied_index n3
                                             else max (applied_index n3) idx)\<rparr>
               in (Inr (), send (m_leader m) (M_append_resp (cur_term n4) (node_id n4) True idx None) n4))"

definition handle :: "rat \<Rightarrow> message \<Rightarrow> unit node_op" where
  "handle now m n =
     (case m of
        M_prevote _ _ _ _ \<Rightarrow> on_prevote now m n
      | M_prevote_resp _ _ _ \<Rightarrow> on_prevote_resp now m n
      | M_vote _ _ _ _ \<Rightarrow> on_vote now m n
      | M_vote_resp _ _ _ \<Rightarrow> on_vote_resp now m n
      | M_append _ _ _ _ _ _ \<Rightarrow> on_append now m n
      | M_append_resp _ _ _ _ _ \<Rightarrow> on_append_resp now m n
      | M_timeout_now _ \<Rightarrow> on_timeout_now now m n
      | M_install_snapshot _ _ _ _ _ \<Rightarrow> on_install_snapshot now m n)"

section \<open>Construction\<close>

record node_params =
  p_election_timeout :: "rat \<times> rat"
  p_heartbeat :: rat
  p_quorum_check :: "rat option"
  p_max_batch :: int
  p_use_prevote :: bool
  p_on_apply :: bool
  p_snapshot_dir :: bool
  p_auto_snapshot :: "int option"

definition default_params :: node_params where
  "default_params = \<lparr>p_election_timeout = (150, 300), p_heartbeat = 50, p_quorum_check = None,
     p_max_batch = 256, p_use_prevote = True, p_on_apply = False, p_snapshot_dir = False,
     p_auto_snapshot = None\<rparr>"

definition is_snapshot_name :: "ustr \<Rightarrow> bool" where
  "is_snapshot_name s \<longleftrightarrow> take 9 s = ascii ''snapshot-''
     \<and> length s \<ge> 5 \<and> drop (length s - 5) s = ascii ''.json''"

definition json_int :: "json option \<Rightarrow> int result" where
  "json_int v = (case v of None \<Rightarrow> Inl KeyError | Some (JInt i) \<Rightarrow> Inr i | Some _ \<Rightarrow> Inl TypeError)"

definition parse_snapshot :: "bytes \<Rightarrow> snapshot result" where
  "parse_snapshot f =
     (case utf8_decode f of
        Inl e \<Rightarrow> Inl e
      | Inr s \<Rightarrow>
          (case loads s of
             Inl e \<Rightarrow> Inl e
           | Inr (JObj kvs) \<Rightarrow>
               (case json_int (map_of kvs (ascii ''last_included_index'')) of
                  Inl e \<Rightarrow> Inl e
                | Inr idx \<Rightarrow>
                    (case json_int (map_of kvs (ascii ''last_included_term'')) of
                       Inl e \<Rightarrow> Inl e
                     | Inr t \<Rightarrow>
                         (case map_of kvs (ascii ''state_machine'') of
                            None \<Rightarrow> Inl KeyError
                          | Some st \<Rightarrow> Inr (idx, t, st))))
           | Inr _ \<Rightarrow> Inl TypeError))"

definition load_snapshot_file :: "unit node_op" where
  "load_snapshot_file n =
     (case state_machine n of
        None \<Rightarrow> (Inr (), n)
      | Some sm \<Rightarrow>
          if \<not> snapshot_dir n then (Inr (), n)
          else
            (case filter is_snapshot_name (rev (sort (map fst (snapshot_files n)))) of
               [] \<Rightarrow> (Inr (), n)
             | name # _ \<Rightarrow>
                 (case parse_snapshot (dict_get (snapshot_files n) name []) of
                    Inl e \<Rightarrow> (Inl e, n)
                  | Inr (idx, t, st) \<Rightarrow>
                      (case kv_restore st sm of
                         (Inl e, sm1) \<Rightarrow> (Inl e, n\<lparr>state_machine := Some sm1\<rparr>)
                       | (Inr _, sm1) \<Rightarrow>
                           (Inr (), n\<lparr>state_machine := Some sm1, rlog := snd (compact_log idx t (rlog n)),
                              commit_index := max (commit_index n) idx,
                              applied_index := max (applied_index n) idx,
                              last_snapshot := Some (idx, t, st)\<rparr>)))))"

definition raft_node_init ::
  "ustr \<Rightarrow> ustr list \<Rightarrow> rat \<Rightarrow> (nat \<Rightarrow> rat) \<Rightarrow> durable_state \<Rightarrow> kv_store option \<Rightarrow> raft_log
     \<Rightarrow> (ustr \<times> bytes) list \<Rightarrow> node_params \<Rightarrow> (raft_node, unit) outcome" where
  "raft_node_init nid names now rng ds sm l files ps =
     (let others = filter (\<lambda>p. p \<noteq> nid) names;
          (emin, emax) = p_election_timeout ps;
          n = \<lparr>node_id = nid, peers = others, config = set (nid # others), old_config = None,
               joint_index = 0, draws = rng, drawn = 0, persister = ds, state_machine = sm,
               on_apply = p_on_apply ps, election_min = emin, election_max = emax,
               heartbeat_interval = p_heartbeat ps,
               quorum_check_interval = (case p_quorum_check ps of None \<Rightarrow> emax * 2 | Some q \<Rightarrow> q),
               max_batch = p_max_batch ps, use_prevote = p_use_prevote ps, rlog = l,
               snapshot_dir = p_snapshot_dir ps, auto_snapshot_every = p_auto_snapshot ps,
               last_snapshot = None, node_role = FOLLOWER, leader_id = None, pre_candidate = False,
               commit_index = 0, applied_index = 0, election_deadline = 0, votes = {},
               next_index = [], match_index = [], last_peer_ack = [], last_leader_contact = 0,
               next_heartbeat = 0, next_quorum_check = 0, transfer_target = None,
               transfer_deadline = 0, prevote_term = 0, snapshot_files = files, outbox = [],
               apply_calls = []\<rparr>;
          n1 = reset_election_deadline now True n
      in if snapshot_dir n1 then load_snapshot_file n1 else (Inr (), n1))"

record node_info =
  info_id :: ustr
  info_role :: role
  info_term :: int
  info_leader :: "ustr option"
  info_log_len :: int
  info_commit :: int
  info_applied :: int

definition info :: "raft_node \<Rightarrow> node_info" where
  "info n = \<lparr>info_id = node_id n, info_role = node_role n, info_term = cur_term n,
     info_leader = leader_id n, info_log_len = last_index (rlog n), info_commit = commit_index n,
     info_applied = applied_index n\<rparr>"

end
