(* ===== verification/Raft_Node_Props.thy ===== *)
theory Raft_Node_Props
  imports Raft_Node
begin

text \<open>
  What every operation of a Raft node does to the part of its state that elections depend on.
  \<open>election_view\<close> is that part, \<open>vote_grants\<close> the votes it has sent out. Most operations leave
  both alone as long as no configuration entry is in the log or in a message (\<open>clean\<close>); the
  relation \<open>calm\<close> says so and is closed under composition. The other operations are described
  by \<open>election_step\<close>.
\<close>

section \<open>Calm operations\<close>

definition is_cfg :: "bytes \<Rightarrow> bool" where
  "is_cfg payload \<longleftrightarrow> payload \<noteq> [] \<and> starts_with CFG payload"

definition no_cfg :: "entry list \<Rightarrow> bool" where
  "no_cfg es \<longleftrightarrow> (\<forall>e \<in> set es. \<not> is_cfg (e_payload e))"

fun clean_msg :: "message \<Rightarrow> bool" where
  "clean_msg (M_append t l prev pt es c) \<longleftrightarrow> no_cfg es"
| "clean_msg m \<longleftrightarrow> True"

definition clean :: "raft_node \<Rightarrow> bool" where
  "clean n \<longleftrightarrow> no_cfg (entries (rlog n)) \<and> (\<forall>(d, m) \<in> set (outbox n). clean_msg m)"

definition election_view where
  "election_view n = (node_id n, peers n, config n, old_config n, use_prevote n, pre_candidate n,
     persister n, node_role n, votes n)"

definition vote_grants :: "raft_node \<Rightarrow> (ustr \<times> int \<times> ustr) set" where
  "vote_grants n = {(d, t, v). (d, M_vote_resp t v True) \<in> set (outbox n)}"

definition calm :: "raft_node \<Rightarrow> raft_node \<Rightarrow> bool" where
  "calm n n' \<longleftrightarrow> (clean n \<longrightarrow> clean n' \<and> election_view n' = election_view n \<and> vote_grants n' = vote_grants n)"

named_theorems calm_intros \<open>operations that leave the election state alone\<close>

lemma calm_refl [calm_intros]: "calm n n"
  by (simp add: calm_def)

lemma calm_trans: "calm a b \<Longrightarrow> calm b c \<Longrightarrow> calm a c"
  by (auto simp: calm_def)

text \<open>Updates of fields that belong neither to the election view nor to log and outbox.\<close>

definition same_core :: "raft_node \<Rightarrow> raft_node \<Rightarrow> bool" where
  "same_core n n' \<longleftrightarrow> election_view n' = election_view n \<and> outbox n' = outbox n
     \<and> entries (rlog n') = entries (rlog n)"

lemma calm_core: "same_core n n' \<Longrightarrow> calm n n'"
  by (simp add: same_core_def calm_def clean_def vote_grants_def)

lemmas core_simps = same_core_def election_view_def

lemma calm_if [calm_intros]: "(P \<Longrightarrow> calm n a) \<Longrightarrow> (\<not> P \<Longrightarrow> calm n b) \<Longrightarrow> calm n (if P then a else b)"
  by simp

lemma calm_fold: "(\<And>x n. calm n (f x n)) \<Longrightarrow> calm n (fold f xs n)"
  by (induction xs arbitrary: n) (auto intro: calm_refl calm_trans)

lemma calm_send:
  assumes "clean n \<Longrightarrow> clean_msg m" "\<And>t v. m \<noteq> M_vote_resp t v True"
  shows "calm n (send d m n)"
  using assms by (auto simp: calm_def clean_def send_def election_view_def vote_grants_def)

lemma calm_reset [calm_intros]: "calm n (reset_election_deadline now b n)"
  by (rule calm_core) (simp add: core_simps reset_election_deadline_def Let_def)

lemma no_cfg_subset: "set es \<subseteq> set fs \<Longrightarrow> no_cfg fs \<Longrightarrow> no_cfg es"
  by (auto simp: no_cfg_def)

lemma no_cfg_append [simp]: "no_cfg (es @ fs) \<longleftrightarrow> no_cfg es \<and> no_cfg fs"
  by (auto simp: no_cfg_def)

lemma no_cfg_Nil [simp]: "no_cfg []"
  by (simp add: no_cfg_def)

lemma py_take_subset: "set (py_take k xs) \<subseteq> set xs"
  by (auto simp: py_take_def dest: in_set_takeD)

lemma no_cfg_from: "no_cfg (entries l) \<Longrightarrow> no_cfg (entries_from l i k)"
proof (rule no_cfg_subset)
  show "set (entries_from l i k) \<subseteq> set (entries l)"
    by (auto simp: entries_from_def Let_def split: option.splits if_splits
        dest!: subsetD [OF py_take_subset] dest: in_set_dropD)
qed

lemma calm_send_append [calm_intros]: "calm n (send_append p n)"
  unfolding send_append_def Let_def
  by (auto intro!: calm_send split: prod.splits) (auto simp: clean_def no_cfg_from)

lemma calm_send_all [calm_intros]: "calm n (send_all_appends n)"
  unfolding send_all_appends_def by (rule calm_fold) (rule calm_send_append)

lemma compact_subset: "set (entries (snd (compact_log i t l))) \<subseteq> set (entries l)"
  by (auto simp: compact_log_def)

lemma calm_snapshot [calm_intros]: "calm n (snd (take_snapshot n))"
proof (cases "state_machine n")
  case (Some sm)
  show ?thesis
    by (auto simp: Some take_snapshot_def Let_def calm_def clean_def election_view_def vote_grants_def
        write_snapshot_file_def intro: no_cfg_subset [OF compact_subset])
qed (simp add: take_snapshot_def calm_refl)

lemma calm_apply_entry:
  assumes "\<not> is_cfg (e_payload e)"
  shows "calm n (snd (apply_entry now e n))"
proof (rule calm_core)
  show "same_core n (snd (apply_entry now e n))"
    using assms unfolding apply_entry_def is_cfg_def
    by (auto simp: core_simps Let_def split: option.splits sum.splits prod.splits)
qed

lemma get_entry_member: "get_entry l i = Some e \<Longrightarrow> e \<in> set (entries l)"
  by (auto simp: get_entry_def Let_def split: if_splits)

lemma calm_apply_loop: "calm n (snd (apply_loop now n))"
proof (induction now n rule: apply_loop.induct)
  case (1 now n)
  show ?case
  proof (cases "applied_index n < commit_index n")
    case False
    then show ?thesis by (subst apply_loop.simps) (simp add: calm_refl)
  next
    case True
    show ?thesis
    proof (cases "get_entry (rlog n) (applied_index n + 1)")
      case None
      with True show ?thesis
        by (subst apply_loop.simps) (auto intro!: calm_core calm_refl simp: core_simps)
    next
      case (Some e)
      obtain r n1 where n1: "apply_entry now e n = (r, n1)" by fastforce
      have step: "calm n n1" if "clean n"
      proof -
        have "\<not> is_cfg (e_payload e)"
          using that get_entry_member [OF Some] by (auto simp: clean_def no_cfg_def)
        with calm_apply_entry n1 show ?thesis by (metis snd_conv)
      qed
      show ?thesis
      proof (cases r)
        case (Inl err)
        with True Some n1 step show ?thesis
          by (subst apply_loop.simps) (auto simp: calm_def)
      next
        case (Inr u)
        then have "calm n1 (snd (apply_loop now n1))"
          using "1.IH" [OF True Some n1 [symmetric] Inr] by blast
        moreover have "snd (apply_loop now n) = snd (apply_loop now n1)"
          using True Some n1 Inr by (subst apply_loop.simps) simp
        ultimately show ?thesis
          using step by (auto simp: calm_def)
      qed
    qed
  qed
qed

lemma calm_apply_committed [calm_intros]: "calm n (snd (apply_committed now n))"
proof -
  obtain r n1 where n1: "apply_loop now n = (r, n1)" by fastforce
  then have "calm n n1"
    using calm_apply_loop [of n now] by simp
  moreover have "calm n1 (snd (apply_committed now n))"
    using n1 by (auto simp: apply_committed_def intro: calm_intros split: sum.splits)
  ultimately show ?thesis by (rule calm_trans)
qed

lemma calm_advance_loop: "calm n (snd (advance_loop now low c n))"
proof (induction now low c n rule: advance_loop.induct)
  case (1 now low c n)
  have "calm n (n\<lparr>commit_index := c\<rparr>)"
    by (rule calm_core) (simp add: core_simps)
  then have "calm n (snd (apply_committed now (n\<lparr>commit_index := c\<rparr>)))"
    using calm_apply_committed calm_trans by blast
  with 1 show ?case
    by (subst advance_loop.simps) (simp add: calm_refl)
qed

lemma calm_advance_commit [calm_intros]: "calm n (snd (advance_commit now n))"
  by (simp add: advance_commit_def calm_advance_loop)

lemma append_entry_log: "append_entry t pl l = (e, l') \<Longrightarrow> entries l' = entries l @ [e] \<and> e_payload e = pl"
  by (auto simp: append_entry_def Let_def)

lemma calm_propose:
  assumes "\<not> is_cfg payload"
  shows "calm n (snd (propose now payload n))"
proof (cases "node_role n \<noteq> LEADER \<or> transfer_target n \<noteq> None")
  case True
  then show ?thesis by (auto simp: propose_def calm_refl)
next
  case False
  obtain e l where el: "append_entry (cur_term n) payload (rlog n) = (e, l)" by fastforce
  have "calm n (n\<lparr>rlog := l\<rparr>)"
    using append_entry_log [OF el] assms
    by (auto simp: calm_def clean_def no_cfg_def election_view_def vote_grants_def)
  moreover obtain r n1 where n1: "advance_commit now (n\<lparr>rlog := l\<rparr>) = (r, n1)" by fastforce
  then have "calm (n\<lparr>rlog := l\<rparr>) n1"
    using calm_advance_commit [of "n\<lparr>rlog := l\<rparr>" now] by simp
  moreover have "calm n1 (snd (propose now payload n))"
    using False el n1 by (cases r) (simp_all add: propose_def calm_intros)
  ultimately show ?thesis using calm_trans by blast
qed

lemma NOOP_not_cfg: "\<not> is_cfg NOOP"
  by (simp add: is_cfg_def starts_with_def NOOP_def CFG_def encode_ascii_def ascii_def)

lemma calm_track_peer [calm_intros]: "calm n (track_peer now p n)"
  by (rule calm_core) (simp add: core_simps track_peer_def)

lemma calm_broadcast:
  assumes "clean_msg m" "\<And>t v. m \<noteq> M_vote_resp t v True"
  shows "calm n (broadcast m n)"
  unfolding broadcast_def using assms by (intro calm_fold calm_send) auto

lemma no_cfg_renumber: "no_cfg es \<Longrightarrow> no_cfg (renumber i es)"
  by (induction es arbitrary: i) (auto simp: no_cfg_def)

lemma merge_scan_subset:
  "merge_scan idx incs l = (res, l') \<Longrightarrow> set (entries l') \<subseteq> set (entries l)
     \<and> (\<forall>j rest. res = Some (j, rest) \<longrightarrow> set rest \<subseteq> set incs)"
  using py_take_subset
  by (induction idx incs l rule: merge_scan.induct) (fastforce simp: Let_def split: if_splits)+

lemma no_cfg_merge:
  assumes "no_cfg (entries l)" "no_cfg incs"
  shows "no_cfg (entries (snd (merge prev pt incs l)))"
proof -
  obtain res l' where scan: "merge_scan (prev + 1) incs l = (res, l')" by fastforce
  have "no_cfg (entries l')" "\<And>j rest. res = Some (j, rest) \<Longrightarrow> no_cfg (renumber j rest)"
    using merge_scan_subset [OF scan] assms by (auto intro: no_cfg_subset no_cfg_renumber)
  then show ?thesis
    using assms(1) by (auto simp: merge_def scan Let_def split: option.splits prod.splits)
qed

section \<open>Steps that change roles, terms and votes\<close>

text \<open>A node of a fixed membership that does not use PreVote.\<close>

definition steady :: "raft_node \<Rightarrow> bool" where
  "steady n \<longleftrightarrow> clean n \<and> old_config n = None \<and> \<not> use_prevote n \<and> \<not> pre_candidate n
     \<and> card (config n) = length (peers n) + 1"

definition identity where
  "identity n = (node_id n, peers n, config n)"

text \<open>Terms never decrease, and a vote is never changed within a term.\<close>

definition vote_mono :: "raft_node \<Rightarrow> raft_node \<Rightarrow> bool" where
  "vote_mono n n' \<longleftrightarrow> cur_term n \<le> cur_term n'
     \<and> (cur_term n' = cur_term n \<and> voted_for (persister n) \<noteq> None
        \<longrightarrow> voted_for (persister n') = voted_for (persister n))"

definition majority :: "ustr set \<Rightarrow> raft_node \<Rightarrow> bool" where
  "majority S n \<longleftrightarrow> card S > card (config n) div 2"

text \<open>
  What one operation, run on the message \<open>m\<close> if there is one, may do: the votes it counts
  are those it had in this term and the one \<open>m\<close> brings, or its own vote in a new term; it
  becomes leader only with a majority; and it grants only the vote it has recorded.
\<close>

definition election_step :: "message option \<Rightarrow> raft_node \<Rightarrow> raft_node \<Rightarrow> bool" where
  "election_step m n n' \<longleftrightarrow> (steady n \<longrightarrow>
     steady n' \<and> identity n' = identity n \<and> vote_mono n n'
     \<and> (node_role n' = FOLLOWER
        \<or> (node_role n \<noteq> FOLLOWER \<and> cur_term n' = cur_term n
           \<and> votes n' \<subseteq> votes n \<union> {v. m = Some (M_vote_resp (cur_term n) v True)})
        \<or> (votes n' = {node_id n} \<and> voted_for (persister n') = Some (node_id n)))
     \<and> (node_role n' = LEADER \<longrightarrow>
          (node_role n = LEADER \<and> votes n' = votes n) \<or> majority (votes n') n')
     \<and> vote_grants n' \<subseteq> vote_grants n
          \<union> {(d, t, v). v = node_id n \<and> t = cur_term n' \<and> voted_for (persister n') = Some d})"

lemmas view_simps = election_view_def identity_def vote_mono_def steady_def majority_def cur_term_def

lemma calm_facts:
  assumes "calm n n'" "clean n"
  shows "clean n'" "node_id n' = node_id n" "peers n' = peers n" "config n' = config n"
    "old_config n' = old_config n" "use_prevote n' = use_prevote n" "pre_candidate n' = pre_candidate n"
    "persister n' = persister n" "node_role n' = node_role n" "votes n' = votes n"
    "vote_grants n' = vote_grants n"
  using assms by (auto simp: calm_def election_view_def)

lemma steady_clean: "steady n \<Longrightarrow> clean n"
  by (simp add: steady_def)

lemma calm_steady: "calm n n' \<Longrightarrow> steady n \<Longrightarrow> steady n'"
  using calm_facts [of n n'] by (simp add: steady_def)

lemma step_calm: "election_step m n n1 \<Longrightarrow> calm n1 n2 \<Longrightarrow> election_step m n n2"
  unfolding election_step_def
  using calm_facts [of n1 n2] calm_steady [of n1 n2] steady_clean [of n1]
  by (simp add: view_simps del: Un_iff) metis

lemma calm_step: "calm n n1 \<Longrightarrow> election_step m n1 n2 \<Longrightarrow> election_step m n n2"
  unfolding election_step_def
  using calm_facts [of n n1] calm_steady [of n n1] steady_clean [of n]
  by (simp add: view_simps del: Un_iff) metis

lemma step_refl: "election_step m n n"
  by (auto simp: election_step_def view_simps)

lemma step_of_calm: "calm n n' \<Longrightarrow> election_step m n n'"
  using step_refl step_calm by blast

lemma calm_role: "calm a b \<Longrightarrow> calm (a\<lparr>node_role := r\<rparr>) (b\<lparr>node_role := r\<rparr>)"
  by (simp add: calm_def clean_def election_view_def vote_grants_def)

text \<open>Stepping down, and everything that follows it in the same handler.\<close>

definition down :: "raft_node \<Rightarrow> raft_node \<Rightarrow> bool" where
  "down n n' \<longleftrightarrow> (steady n \<longrightarrow> steady n' \<and> identity n' = identity n \<and> vote_mono n n'
     \<and> node_role n' = FOLLOWER \<and> vote_grants n' = vote_grants n)"

lemma down_step: "down n n' \<Longrightarrow> election_step m n n'"
  by (auto simp: down_def election_step_def)

lemma down_calm: "down n n1 \<Longrightarrow> calm n1 n2 \<Longrightarrow> down n n2"
  unfolding down_def
  using calm_facts [of n1 n2] calm_steady [of n1 n2] steady_clean [of n1]
  by (simp add: view_simps)

lemma down_step_down: "down n (step_down now t n)"
  by (auto simp: down_def step_down_def reset_election_deadline_def Let_def view_simps clean_def
      vote_grants_def)

lemma calm_become_leader:
  "calm (n\<lparr>node_role := LEADER, pre_candidate := False\<rparr>) (snd (become_leader now n))"
proof -
  define n1 where "n1 = n\<lparr>node_role := LEADER, leader_id := Some (node_id n), pre_candidate := False,
      transfer_target := None, transfer_deadline := 0, match_index := [], next_index := []\<rparr>"
  define n2 where "n2 = fold (track_peer now) (peers n) n1"
  define p where "p = (if state_machine n \<noteq> None then propose now NOOP n2 else (Inr None, n2))"
  obtain r n3 where n3: "p = (r, n3)" by fastforce
  have "calm (n\<lparr>node_role := LEADER, pre_candidate := False\<rparr>) n1"
    by (rule calm_core) (simp add: core_simps n1_def)
  moreover have "calm n1 n2"
    unfolding n2_def by (rule calm_fold) (rule calm_track_peer)
  moreover have "calm n2 (snd p)"
    using calm_propose [OF NOOP_not_cfg] by (simp add: p_def calm_refl)
  then have "calm n2 n3"
    using n3 by simp
  moreover have "calm n3 (snd (become_leader now n))"
  proof (cases r)
    case (Inr x)
    then have "snd (become_leader now n) = (send_all_appends n3)\<lparr>next_heartbeat := now + heartbeat_interval n3,
        next_quorum_check := now + quorum_check_interval n3\<rparr>"
      unfolding become_leader_def Let_def n1_def [symmetric] n2_def [symmetric] p_def [symmetric] n3
      by simp
    moreover have "calm (send_all_appends n3) ((send_all_appends n3)\<lparr>next_heartbeat := now + heartbeat_interval n3,
        next_quorum_check := now + quorum_check_interval n3\<rparr>)"
      by (rule calm_core) (simp add: core_simps)
    ultimately show ?thesis
      using calm_send_all calm_trans by metis
  next
    case (Inl e)
    then have "snd (become_leader now n) = n3"
      unfolding become_leader_def Let_def n1_def [symmetric] n2_def [symmetric] p_def [symmetric] n3
      by simp
    then show ?thesis by (simp add: calm_refl)
  qed
  ultimately show ?thesis using calm_trans by blast
qed

lemma step_start_election: "election_step m n (snd (start_election now n))"
proof -
  define c where "c = n\<lparr>persister := save (cur_term n + 1) (Some (node_id n)) (persister n),
      node_role := CANDIDATE, votes := {node_id n}\<rparr>"
  define n1 where "n1 = n\<lparr>persister := save (cur_term n + 1) (Some (node_id n)) (persister n),
      node_role := CANDIDATE, leader_id := None, votes := {node_id n}\<rparr>"
  define n2 where "n2 = reset_election_deadline now False n1"
  obtain lt li where prog: "progress n2 = (lt, li)" by fastforce
  define n3 where "n3 = broadcast (M_vote (cur_term n2) (node_id n2) li lt) n2"
  have "calm c n1"
    by (rule calm_core) (simp add: core_simps c_def n1_def)
  then have "calm c n2"
    unfolding n2_def using calm_reset calm_trans by blast
  moreover have "calm n2 n3"
    unfolding n3_def by (rule calm_broadcast) simp_all
  ultimately have c3: "calm c n3" by (rule calm_trans)
  have cand: "election_step m n c"
    by (auto simp: election_step_def view_simps c_def clean_def vote_grants_def)
  have result: "snd (start_election now n) =
      (if peers n3 = [] \<or> card (votes n3) > (length (peers n3) + 1) div 2 then snd (become_leader now n3) else n3)"
    unfolding start_election_def Let_def n1_def [symmetric] n2_def [symmetric] prog prod.case n3_def [symmetric]
    by simp
  show ?thesis
  proof (cases "peers n3 = [] \<or> card (votes n3) > (length (peers n3) + 1) div 2")
    case False
    with result cand c3 show ?thesis by (simp add: step_calm)
  next
    case True
    have "election_step m n (c\<lparr>node_role := LEADER, pre_candidate := False\<rparr>)"
    proof (cases "steady n")
      case st: True
      then have "steady c" using cand by (simp add: election_step_def)
      then have "peers n3 = peers n" "votes n3 = {node_id n}"
        using calm_facts [OF c3] by (simp_all add: steady_clean c_def)
      moreover have "card (config n) = length (peers n) + 1"
        using st by (simp add: steady_def)
      ultimately have "majority {node_id n} n"
        using True by (cases "peers n = []") (simp_all add: majority_def)
      with st show ?thesis
        by (auto simp: election_step_def view_simps c_def clean_def vote_grants_def)
    qed (simp add: election_step_def)
    moreover have "calm (c\<lparr>node_role := LEADER, pre_candidate := False\<rparr>)
        (n3\<lparr>node_role := LEADER, pre_candidate := False\<rparr>)"
      using c3 by (simp add: calm_def clean_def election_view_def vote_grants_def)
    moreover note calm_become_leader [of n3 now]
    ultimately show ?thesis
      using result True step_calm by (metis (no_types, lifting))
  qed
qed

lemma step_prevote_or_election: "election_step m n (snd (start_prevote_or_election now n))"
proof (cases "steady n")
  case True
  then have "n\<lparr>pre_candidate := False\<rparr> = n" "\<not> use_prevote n"
    by (simp_all add: steady_def)
  then have "start_prevote_or_election now n = start_election now n"
    by (simp add: start_prevote_or_election_def)
  then show ?thesis by (simp add: step_start_election)
qed (simp add: election_step_def)

lemma step_vote_resp:
  assumes m: "m = M_vote_resp t v g"
  shows "election_step (Some m) n (snd (on_vote_resp now m n))"
proof (cases "node_role n = CANDIDATE \<and> t = cur_term n \<and> g")
  case False
  then have "on_vote_resp now m n = (Inr (), n)"
    by (auto simp: on_vote_resp_def m)
  then show ?thesis by (simp add: step_refl)
next
  case True
  define n1 where "n1 = n\<lparr>votes := insert v (votes n)\<rparr>"
  have res: "on_vote_resp now m n = maybe_win now n1"
    using True by (simp add: on_vote_resp_def m n1_def)
  show ?thesis
  proof (cases "has_majority (votes n1) n1")
    case False
    then have "on_vote_resp now m n = (Inr (), n1)"
      using res by (simp add: maybe_win_def)
    moreover have "election_step (Some m) n n1"
      using True by (auto simp: election_step_def view_simps n1_def m clean_def vote_grants_def)
    ultimately show ?thesis by simp
  next
    case maj: True
    have "election_step (Some m) n (n1\<lparr>node_role := LEADER, pre_candidate := False\<rparr>)"
      using True maj
      by (auto simp: election_step_def view_simps n1_def m clean_def vote_grants_def has_majority_def)
    moreover have "snd (on_vote_resp now m n) = snd (become_leader now n1)"
      using res maj True by (simp add: maybe_win_def n1_def)
    ultimately show ?thesis
      using calm_become_leader [of n1 now] step_calm by metis
  qed
qed

lemma step_vote: "election_step m' n (snd (on_vote now m n))"
proof (cases "m_term m < cur_term n")
  case True
  then have "snd (on_vote now m n) = send (m_candidate m) (M_vote_resp (cur_term n) (node_id n) False) n"
    by (simp add: on_vote_def)
  then show ?thesis by (simp add: step_of_calm calm_send)
next
  case False
  define n1 where "n1 = (if m_term m > cur_term n then step_down now (m_term m) n else n)"
  define grant where "grant \<longleftrightarrow> (voted_for (persister n1) = None \<or> voted_for (persister n1) = Some (m_candidate m))
      \<and> at_least (m_last_term m, m_last_index m) (progress n1)"
  have first: "election_step m' n n1 \<and> (steady n \<longrightarrow> vote_grants n1 = vote_grants n)"
    using down_step [OF down_step_down] down_step_down [of n now "m_term m"]
    by (auto simp: n1_def step_refl down_def)
  show ?thesis
  proof (cases grant)
    case no: False
    then have "snd (on_vote now m n) = send (m_candidate m) (M_vote_resp (cur_term n1) (node_id n1) False) n1"
      using False unfolding on_vote_def Let_def n1_def [symmetric] grant_def [symmetric] by simp
    then show ?thesis using first by (auto intro!: step_calm [of m' n n1] calm_send)
  next
    case yes: True
    define n2 where "n2 = n1\<lparr>persister := save (cur_term n1) (Some (m_candidate m)) (persister n1)\<rparr>"
    define n3 where "n3 = n2\<lparr>outbox := outbox n1 @ [(m_candidate m, M_vote_resp (cur_term n1) (node_id n1) True)]\<rparr>"
    have "election_step m' n n3"
    proof (cases "steady n")
      case st: True
      then have n1: "steady n1" "identity n1 = identity n" "vote_mono n n1" "vote_grants n1 = vote_grants n"
        using first by (auto simp: election_step_def)
      have grants: "vote_grants n3 = insert (m_candidate m, cur_term n1, node_id n1) (vote_grants n1)"
        by (auto simp: vote_grants_def n3_def)
      have clean3: "clean n3"
        using n1(1) by (auto simp: steady_def clean_def n3_def n2_def)
      have "vote_mono n n3"
        using n1(3) yes by (auto simp: vote_mono_def n3_def n2_def grant_def cur_term_def)
      moreover have "steady n3" "identity n3 = identity n"
        using n1 clean3 by (simp_all add: steady_def identity_def n3_def n2_def)
      moreover have "node_role n3 = node_role n1" "votes n3 = votes n1" "cur_term n3 = cur_term n1"
        "voted_for (persister n3) = Some (m_candidate m)" "config n3 = config n1"
        by (simp_all add: n3_def n2_def cur_term_def)
      ultimately show ?thesis
        using first yes grants n1 by (auto simp: election_step_def majority_def grant_def identity_def)
    qed (simp add: election_step_def)
    moreover have "snd (on_vote now m n) = reset_election_deadline now False n3"
      using False yes unfolding on_vote_def Let_def n1_def [symmetric] grant_def [symmetric]
      by (simp add: n2_def n3_def send_def reset_election_deadline_def cur_term_def)
    ultimately show ?thesis
      using step_calm [OF _ calm_reset] by simp
  qed
qed

lemma step_append:
  assumes "clean_msg m" and m: "m = M_append t ldr prev pt es c"
  shows "election_step m' n (snd (on_append now m n))"
proof (cases "t < cur_term n")
  case True
  then have "snd (on_append now m n) = send ldr (M_append_resp (cur_term n) (node_id n) False 0 None) n"
    by (simp add: on_append_def m)
  then show ?thesis by (simp add: step_of_calm calm_send)
next
  case False
  define n1 where "n1 = (if t > cur_term n \<or> node_role n \<noteq> FOLLOWER then step_down now t n else n)"
  define n2 where "n2 = reset_election_deadline now False
      (n1\<lparr>node_role := FOLLOWER, leader_id := Some ldr, last_leader_contact := now\<rparr>)"
  obtain ok mat conf l where mg: "merge prev pt es (rlog n2) = ((ok, mat, conf), l)" by (metis prod.collapse)
  define n3 where "n3 = n2\<lparr>rlog := l\<rparr>"
  define p where "p = (if ok \<and> c > commit_index n3
      then apply_committed now (n3\<lparr>commit_index := min c (last_index l)\<rparr>) else (Inr (), n3))"
  obtain r n4 where n4: "p = (r, n4)" by fastforce
  have "down n n1"
    using down_step_down by (auto simp: n1_def down_def view_simps)
  moreover have "steady n \<longrightarrow> node_role n1 = FOLLOWER"
    using \<open>down n n1\<close> by (simp add: down_def)
  ultimately have "down n (n1\<lparr>node_role := FOLLOWER, leader_id := Some ldr, last_leader_contact := now\<rparr>)"
    by (auto simp: down_def view_simps clean_def vote_grants_def)
  then have d2: "down n n2"
    unfolding n2_def using calm_reset by (rule down_calm)
  have "calm n2 n3"
    using no_cfg_merge [of "rlog n2" es prev pt] mg assms
    by (auto simp: calm_def clean_def n3_def election_view_def vote_grants_def)
  moreover have "calm n3 (snd p)"
  proof -
    have "calm n3 (n3\<lparr>commit_index := min c (last_index l)\<rparr>)"
      by (rule calm_core) (simp add: core_simps)
    then have "calm n3 (snd (apply_committed now (n3\<lparr>commit_index := min c (last_index l)\<rparr>)))"
      using calm_apply_committed calm_trans by blast
    then show ?thesis by (simp add: p_def calm_refl)
  qed
  then have "calm n3 n4" using n4 by simp
  moreover have "calm n4 (snd (on_append now m n))"
  proof -
    have "snd (on_append now m n) = (case r of Inl e \<Rightarrow> n4 | Inr _ \<Rightarrow> send ldr
        (M_append_resp (cur_term n4) (node_id n4) ok (if ok then mat else 0) (Some conf)) n4)"
      using False unfolding on_append_def m Let_def message.sel n1_def [symmetric] n2_def [symmetric] mg
        prod.case n3_def [symmetric] p_def [symmetric] n4 by (simp split: sum.splits)
    then show ?thesis
      by (auto intro: calm_refl calm_send split: sum.splits)
  qed
  ultimately have "down n (snd (on_append now m n))"
    using d2 down_calm by blast
  then show ?thesis by (rule down_step)
qed

lemma step_append_resp: "election_step m' n (snd (on_append_resp now m n))"
proof (cases "node_role n \<noteq> LEADER \<or> m_term m \<noteq> cur_term n")
  case True
  then have "snd (on_append_resp now m n) = (if m_term m > cur_term n then step_down now (m_term m) n else n)"
    unfolding on_append_resp_def by (simp only: if_True snd_conv)
  then show ?thesis by (simp add: step_refl down_step [OF down_step_down])
next
  case False
  define n1 where "n1 = n\<lparr>last_peer_ack := dict_put (m_from m) now (last_peer_ack n)\<rparr>"
  have c1: "calm n n1"
    by (rule calm_core) (simp add: core_simps n1_def)
  have upd: "calm n1 (n1\<lparr>match_index := a, next_index := b\<rparr>)" "calm n1 (n1\<lparr>next_index := b\<rparr>)" for a b
    by (rule calm_core, simp add: core_simps)+
  have "calm n1 (snd (on_append_resp now m n))"
    using False unfolding on_append_resp_def Let_def n1_def [symmetric]
    by (auto intro: calm_refl calm_trans [OF upd(1) calm_advance_commit] calm_trans [OF upd(2) calm_send_append]
        split: option.splits)
  then show ?thesis
    using c1 calm_trans step_of_calm by blast
qed

lemma calm_install: "calm n (snd (install_state m n))"
  by (auto simp: install_state_def Let_def calm_def clean_def election_view_def vote_grants_def
      write_snapshot_file_def no_cfg_def split: option.splits sum.splits prod.splits)

lemma step_install_snapshot: "election_step m' n (snd (on_install_snapshot now m n))"
proof (cases "m_term m < cur_term n")
  case True
  then have "snd (on_install_snapshot now m n) = send (m_leader m) (M_append_resp (cur_term n) (node_id n) False 0 None) n"
    by (simp add: on_install_snapshot_def)
  then show ?thesis by (simp add: step_of_calm calm_send)
next
  case False
  define n1 where "n1 = (if m_term m > cur_term n \<or> node_role n \<noteq> FOLLOWER then step_down now (m_term m) n else n)"
  define n2 where "n2 = reset_election_deadline now False
      (n1\<lparr>leader_id := Some (m_leader m), last_leader_contact := now\<rparr>)"
  define have_it where "have_it \<longleftrightarrow> term_at (rlog n2) (m_included_index m) = m_included_term m
      \<or> snapshot_last_index (rlog n2) \<ge> m_included_index m"
  define p where "p = (if have_it then (Inr (), n2) else install_state m n2)"
  obtain r n3 where n3: "p = (r, n3)" by fastforce
  have "down n n1"
    using down_step_down by (auto simp: n1_def down_def view_simps)
  moreover have "calm n1 (n1\<lparr>leader_id := Some (m_leader m), last_leader_contact := now\<rparr>)"
    by (rule calm_core) (simp add: core_simps)
  then have "calm n1 n2"
    unfolding n2_def using calm_reset calm_trans by blast
  moreover have "calm n2 (snd p)"
    by (simp add: p_def calm_refl calm_install)
  then have "calm n2 n3" using n3 by simp
  moreover have "calm n3 (snd (on_install_snapshot now m n))"
  proof (cases r)
    case (Inl e)
    then have "snd (on_install_snapshot now m n) = n3"
      using False unfolding on_install_snapshot_def Let_def n1_def [symmetric] n2_def [symmetric]
        have_it_def [symmetric] p_def [symmetric] n3 by simp
    then show ?thesis by (simp add: calm_refl)
  next
    case (Inr u)
    define n4 where "n4 = n3\<lparr>commit_index := max (commit_index n3) (m_included_index m),
        applied_index := (if have_it then applied_index n3 else max (applied_index n3) (m_included_index m))\<rparr>"
    have "calm n3 n4"
      by (rule calm_core) (simp add: core_simps n4_def)
    moreover have "snd (on_install_snapshot now m n) =
        send (m_leader m) (M_append_resp (cur_term n4) (node_id n4) True (m_included_index m) None) n4"
      using False Inr unfolding on_install_snapshot_def Let_def n1_def [symmetric] n2_def [symmetric]
        have_it_def [symmetric] p_def [symmetric] n3 by (simp add: n4_def)
    ultimately show ?thesis
      using calm_trans [of n3 n4] calm_send [of n4] by simp
  qed
  ultimately have "down n (snd (on_install_snapshot now m n))"
    using down_calm by blast
  then show ?thesis by (rule down_step)
qed

lemma step_handle:
  assumes "clean_msg m"
  shows "election_step (Some m) n (snd (handle now m n))"
proof (cases m)
  case (M_prevote t c li lt)
  then show ?thesis
    by (auto simp: handle_def on_prevote_def Let_def intro!: step_of_calm calm_send)
next
  case (M_prevote_resp t v g)
  then have "steady n \<Longrightarrow> handle now m n = (Inr (), n)"
    by (simp add: handle_def on_prevote_resp_def steady_def)
  then show ?thesis
    by (cases "steady n") (simp_all add: step_refl election_step_def)
next
  case (M_timeout_now t)
  then show ?thesis
    by (auto simp: handle_def on_timeout_now_def step_refl step_start_election)
qed (use assms in \<open>auto simp: handle_def step_vote step_vote_resp step_append step_append_resp
      step_install_snapshot\<close>)

lemma calm_set_timers: "calm n (n\<lparr>transfer_target := a, transfer_deadline := b\<rparr>)"
  "calm n (n\<lparr>next_heartbeat := b\<rparr>)" "calm n (n\<lparr>next_quorum_check := b\<rparr>)"
  by (rule calm_core, simp add: core_simps)+

lemma step_check_quorum: "calm n (check_quorum now n) \<or> down n (check_quorum now n)"
  using down_step_down [of n now "cur_term n"]
  by (auto simp: check_quorum_def Let_def calm_refl split: option.splits)

lemma step_tick: "election_step m n (snd (tick now n))"
proof (cases "node_role n = LEADER")
  case True
  define n1 where "n1 = (if truthy (transfer_target n) \<and> now \<ge> transfer_deadline n
      then send_all_appends (n\<lparr>transfer_target := None, transfer_deadline := 0\<rparr>) else n)"
  define n2 where "n2 = (if now \<ge> next_heartbeat n1
      then (send_all_appends n1)\<lparr>next_heartbeat := now + heartbeat_interval n1\<rparr> else n1)"
  have "calm n n1"
    unfolding n1_def by (auto intro: calm_refl calm_trans [OF calm_set_timers(1) calm_send_all])
  moreover have "calm n1 n2"
    unfolding n2_def by (auto intro: calm_refl calm_trans [OF calm_send_all calm_set_timers(2)])
  ultimately have c2: "calm n n2" by (rule calm_trans)
  have res: "snd (tick now n) = (if now \<ge> next_quorum_check n2
      then (check_quorum now n2)\<lparr>next_quorum_check := now + quorum_check_interval n2\<rparr> else n2)"
    using True unfolding tick_def Let_def n1_def [symmetric] n2_def [symmetric] by simp
  have "election_step m n2 (snd (tick now n))"
    using step_check_quorum [of n2 now] calm_set_timers(3) unfolding res
    by (auto intro: step_refl step_calm [OF step_of_calm] step_calm [OF down_step])
  with c2 show ?thesis by (rule calm_step)
next
  case False
  then show ?thesis
    by (simp add: tick_def step_refl step_prevote_or_election)
qed

lemma step_transfer: "election_step m n (snd (transfer_leadership now target n))"
proof -
  have "calm n (snd (transfer_leadership now target n))"
    by (auto simp: transfer_leadership_def
        intro: calm_refl calm_trans [OF calm_set_timers(1) calm_send])
  then show ?thesis by (rule step_of_calm)
qed

end
