(* ===== verification/Raft_Election.thy ===== *)
theory Raft_Election
  imports Raft_Node_Props
begin

text \<open>
  A cluster of Raft nodes over a network that may lose, duplicate, delay and reorder messages:
  every message ever sent stays in \<open>net\<close> and may be delivered at any time, or never. A step runs
  one operation of one node, whatever exception it ends with, or restarts a node from its
  persisted term, vote and log. \<open>ballots\<close> is a history variable that records every vote a node
  has ever held. The membership is fixed and PreVote is off.
\<close>

section \<open>The cluster\<close>

record cluster =
  nodes :: "ustr \<Rightarrow> raft_node"
  net :: "(ustr \<times> message) set"
  ballots :: "(ustr \<times> int \<times> ustr) set"

definition ballots_of :: "ustr \<Rightarrow> raft_node \<Rightarrow> (ustr \<times> int \<times> ustr) set" where
  "ballots_of i n = {(v, t, c). v = i \<and> t = cur_term n \<and> voted_for (persister n) = Some c}"

text \<open>Node \<open>i\<close> has reached the state \<open>n\<close>: its messages go to the network.\<close>

definition commit_node :: "ustr \<Rightarrow> raft_node \<Rightarrow> cluster \<Rightarrow> cluster" where
  "commit_node i n c = c\<lparr>nodes := (nodes c)(i := n\<lparr>outbox := []\<rparr>), net := net c \<union> set (outbox n),
     ballots := ballots c \<union> ballots_of i n\<rparr>"

text \<open>A node object as the constructor makes it, without snapshot files and with PreVote off.\<close>

definition fresh_node :: "ustr list \<Rightarrow> ustr \<Rightarrow> int \<Rightarrow> ustr option \<Rightarrow> raft_log \<Rightarrow> raft_node \<Rightarrow> bool" where
  "fresh_node names i t v l n \<longleftrightarrow> (\<exists>now rng ds sm ps.
     n = snd (raft_node_init i names now rng ds sm l [] ps) \<and> current_term ds = t \<and> voted_for ds = v
     \<and> \<not> p_use_prevote ps)"

inductive raft_reach :: "ustr list \<Rightarrow> cluster \<Rightarrow> bool" for names where
  init: "distinct names \<Longrightarrow> net c = {} \<Longrightarrow> ballots c = {}
    \<Longrightarrow> (\<And>i. i \<in> set names \<Longrightarrow> fresh_node names i 0 None raft_log_init (nodes c i))
    \<Longrightarrow> raft_reach names c"
| timer: "raft_reach names c \<Longrightarrow> i \<in> set names
    \<Longrightarrow> raft_reach names (commit_node i (snd (tick now (nodes c i))) c)"
| deliver: "raft_reach names c \<Longrightarrow> i \<in> set names \<Longrightarrow> (i, m) \<in> net c
    \<Longrightarrow> raft_reach names (commit_node i (snd (handle now m (nodes c i))) c)"
| client: "raft_reach names c \<Longrightarrow> i \<in> set names \<Longrightarrow> \<not> is_cfg payload
    \<Longrightarrow> raft_reach names (commit_node i (snd (propose now payload (nodes c i))) c)"
| transfer: "raft_reach names c \<Longrightarrow> i \<in> set names
    \<Longrightarrow> raft_reach names (commit_node i (snd (transfer_leadership now target (nodes c i))) c)"
| restart: "raft_reach names c \<Longrightarrow> i \<in> set names
    \<Longrightarrow> entries l = take k (entries (rlog (nodes c i)))
    \<Longrightarrow> fresh_node names i (cur_term (nodes c i)) (voted_for (persister (nodes c i))) l n
    \<Longrightarrow> raft_reach names (commit_node i n c)"

section \<open>The invariant\<close>

definition node_inv :: "ustr list \<Rightarrow> (ustr \<times> int \<times> ustr) set \<Rightarrow> ustr \<Rightarrow> raft_node \<Rightarrow> bool" where
  "node_inv names B i n \<longleftrightarrow> steady n \<and> node_id n = i \<and> config n = set names \<and> outbox n = []
     \<and> (node_role n \<noteq> FOLLOWER \<longrightarrow> votes n \<subseteq> set names \<and> (\<forall>v \<in> votes n. (v, cur_term n, i) \<in> B))
     \<and> (node_role n = LEADER \<longrightarrow> majority (votes n) n)
     \<and> (\<forall>t c. (i, t, c) \<in> B \<longrightarrow> t \<le> cur_term n \<and> (t = cur_term n \<longrightarrow> voted_for (persister n) = Some c))
     \<and> (\<forall>c. voted_for (persister n) = Some c \<longrightarrow> (i, cur_term n, c) \<in> B)"

definition cluster_inv :: "ustr list \<Rightarrow> cluster \<Rightarrow> bool" where
  "cluster_inv names c \<longleftrightarrow> distinct names
     \<and> (\<forall>i \<in> set names. node_inv names (ballots c) i (nodes c i))
     \<and> (\<forall>(d, m) \<in> net c. clean_msg m)
     \<and> (\<forall>d t v. (d, M_vote_resp t v True) \<in> net c \<longrightarrow> v \<in> set names \<and> (v, t, d) \<in> ballots c)
     \<and> (\<forall>v t a b. (v, t, a) \<in> ballots c \<and> (v, t, b) \<in> ballots c \<longrightarrow> a = b)"

lemma fresh_node_facts:
  assumes "fresh_node names i t v l n" "distinct names" "i \<in> set names" "no_cfg (entries l)"
  shows "steady n" "node_id n = i" "config n = set names" "outbox n = []" "node_role n = FOLLOWER"
    "cur_term n = t" "voted_for (persister n) = v" "peers n = filter (\<lambda>p. p \<noteq> i) names"
proof -
  obtain now rng ds sm ps where n: "n = snd (raft_node_init i names now rng ds sm l [] ps)"
    and ds: "current_term ds = t" "voted_for ds = v" "\<not> p_use_prevote ps"
    using assms(1) by (auto simp: fresh_node_def)
  have "card (set names) = length (filter (\<lambda>p. p \<noteq> i) names) + 1"
  proof -
    have "set (filter (\<lambda>p. p \<noteq> i) names) = set names - {i}" by auto
    then have "length (filter (\<lambda>p. p \<noteq> i) names) = card (set names - {i})"
      using assms(2) distinct_card [of "filter (\<lambda>p. p \<noteq> i) names"] by simp
    then show ?thesis
      using assms(3) card_Suc_Diff1 [of "set names" i] by simp
  qed
  moreover have "insert i (set (filter (\<lambda>p. p \<noteq> i) names)) = set names"
    using assms(3) by auto
  ultimately show "steady n" "node_id n = i" "config n = set names" "outbox n = []" "node_role n = FOLLOWER"
    "cur_term n = t" "voted_for (persister n) = v" "peers n = filter (\<lambda>p. p \<noteq> i) names"
    using ds assms(4)
    by (auto simp: n raft_node_init_def Let_def load_snapshot_file_def steady_def clean_def cur_term_def
        reset_election_deadline_def split: option.splits prod.splits)
qed

text \<open>One operation of one node, as far as the invariant is concerned.\<close>

lemma node_inv_step:
  assumes inv: "cluster_inv names c" and i: "i \<in> set names"
    and step: "election_step m (nodes c i) n"
    and msg: "\<And>t v. m = Some (M_vote_resp t v True) \<Longrightarrow> v \<in> set names \<and> (v, t, i) \<in> ballots c"
  shows "node_inv names (ballots c \<union> ballots_of i n) i (n\<lparr>outbox := []\<rparr>)"
    and "vote_grants n \<subseteq> {(d, t, v). v = i \<and> (v, t, d) \<in> ballots_of i n}"
    and "steady n" and "vote_mono (nodes c i) n"
proof -
  let ?n0 = "nodes c i"
  have n0: "node_inv names (ballots c) i ?n0"
    using inv i by (simp add: cluster_inv_def)
  then have st0: "steady ?n0" "node_id ?n0 = i" "config ?n0 = set names" "outbox ?n0 = []"
    by (simp_all add: node_inv_def)
  note es = step [unfolded election_step_def, rule_format, OF st0(1)]
  show st: "steady n" and mono: "vote_mono ?n0 n"
    using es by simp_all
  have id: "node_id n = i" "config n = set names"
    using es st0 by (simp_all add: identity_def)
  have steady': "steady (n\<lparr>outbox := []\<rparr>)"
    using st by (simp add: steady_def clean_def)
  have "vote_grants ?n0 = {}"
    using st0(4) by (simp add: vote_grants_def)
  then show "vote_grants n \<subseteq> {(d, t, v). v = i \<and> (v, t, d) \<in> ballots_of i n}"
    using es st0(2) by (auto simp: ballots_of_def)
  have old: "t \<le> cur_term ?n0 \<and> (t = cur_term ?n0 \<longrightarrow> voted_for (persister ?n0) = Some d)"
    if "(i, t, d) \<in> ballots c" for t d
    using n0 that by (simp add: node_inv_def)
  have ballot: "t \<le> cur_term n \<and> (t = cur_term n \<longrightarrow> voted_for (persister n) = Some d)"
    if "(i, t, d) \<in> ballots c \<union> ballots_of i n" for t d
    using that mono old [of t d] by (auto simp: ballots_of_def vote_mono_def)
  have votes: "votes n \<subseteq> set names \<and> (\<forall>v \<in> votes n. (v, cur_term n, i) \<in> ballots c \<union> ballots_of i n)"
    if role: "node_role n \<noteq> FOLLOWER"
  proof -
    consider "node_role ?n0 \<noteq> FOLLOWER" "cur_term n = cur_term ?n0"
        "votes n \<subseteq> votes ?n0 \<union> {v. m = Some (M_vote_resp (cur_term ?n0) v True)}"
      | "votes n = {i}" "voted_for (persister n) = Some i"
      using es role st0(2) by auto
    then show ?thesis
    proof cases
      case 1
      then have "votes ?n0 \<subseteq> set names" "\<forall>v \<in> votes ?n0. (v, cur_term n, i) \<in> ballots c"
        using n0 by (auto simp: node_inv_def)
      moreover have "v \<in> set names \<and> (v, cur_term n, i) \<in> ballots c"
        if "m = Some (M_vote_resp (cur_term ?n0) v True)" for v
        using msg [OF that] 1(2) by simp
      ultimately show ?thesis using 1(3) by blast
    next
      case 2
      with i show ?thesis by (auto simp: ballots_of_def)
    qed
  qed
  have lead: "majority (votes n) n" if "node_role n = LEADER"
    using es that n0 id st0(3) by (auto simp: node_inv_def majority_def)
  show "node_inv names (ballots c \<union> ballots_of i n) i (n\<lparr>outbox := []\<rparr>)"
  proof -
    let ?n = "n\<lparr>outbox := []\<rparr>"
    have same: "node_id ?n = i" "config ?n = set names" "outbox ?n = []" "votes ?n = votes n"
      "node_role ?n = node_role n" "cur_term ?n = cur_term n" "persister ?n = persister n"
      "majority (votes n) ?n = majority (votes n) n"
      using id by (simp_all add: cur_term_def majority_def)
    have "\<forall>d. voted_for (persister n) = Some d \<longrightarrow> (i, cur_term n, d) \<in> ballots c \<union> ballots_of i n"
      by (simp add: ballots_of_def)
    then show ?thesis
      unfolding node_inv_def same using steady' ballot votes lead by blast
  qed
qed

lemma cluster_inv_commit:
  assumes inv: "cluster_inv names c" and i: "i \<in> set names"
    and node: "node_inv names (ballots c \<union> ballots_of i n) i (n\<lparr>outbox := []\<rparr>)"
    and grants: "vote_grants n \<subseteq> {(d, t, v). v = i \<and> (v, t, d) \<in> ballots_of i n}"
    and clean: "clean n"
  shows "cluster_inv names (commit_node i n c)"
proof -
  let ?B = "ballots c \<union> ballots_of i n"
  have "node_inv names ?B j (nodes (commit_node i n c) j)" if j: "j \<in> set names" for j
  proof (cases "j = i")
    case True
    with node show ?thesis by (simp add: commit_node_def)
  next
    case False
    then have "(j, t, d) \<notin> ballots_of i n" for t d
      by (simp add: ballots_of_def)
    then show ?thesis
      using inv j False by (auto simp: cluster_inv_def node_inv_def commit_node_def)
  qed
  moreover have "a = b" if "(v, t, a) \<in> ?B" "(v, t, b) \<in> ?B" for v t a b
  proof (cases "v = i")
    case True
    have old: "t \<le> cur_term n \<and> (t = cur_term n \<longrightarrow> voted_for (persister n) = Some d)"
      if "(i, t, d) \<in> ?B" for t d
      using node that by (auto simp: node_inv_def cur_term_def)
    show ?thesis
    proof (cases "t = cur_term n")
      case True
      then show ?thesis using that old \<open>v = i\<close> by (metis option.inject)
    next
      case False
      then have "(v, t, a) \<in> ballots c" "(v, t, b) \<in> ballots c"
        using that by (auto simp: ballots_of_def)
      then show ?thesis using inv by (auto simp: cluster_inv_def)
    qed
  next
    case False
    then have "(v, t, a) \<in> ballots c" "(v, t, b) \<in> ballots c"
      using that by (auto simp: ballots_of_def)
    then show ?thesis using inv by (auto simp: cluster_inv_def)
  qed
  moreover have "\<forall>(d, m) \<in> net c \<union> set (outbox n). clean_msg m"
    using inv clean by (auto simp: cluster_inv_def clean_def)
  moreover have "v \<in> set names \<and> (v, t, d) \<in> ?B"
    if "(d, M_vote_resp t v True) \<in> net c \<union> set (outbox n)" for d t v
    using that inv grants i by (auto simp: cluster_inv_def vote_grants_def)
  moreover have "distinct names"
    using inv by (simp add: cluster_inv_def)
  moreover have "ballots (commit_node i n c) = ?B" "net (commit_node i n c) = net c \<union> set (outbox n)"
    by (simp_all add: commit_node_def)
  ultimately show ?thesis
    unfolding cluster_inv_def by metis
qed

lemma cluster_inv_op:
  assumes "cluster_inv names c" "i \<in> set names" "election_step m (nodes c i) n"
    and "\<And>t v. m = Some (M_vote_resp t v True) \<Longrightarrow> v \<in> set names \<and> (v, t, i) \<in> ballots c"
  shows "cluster_inv names (commit_node i n c)"
  using assms node_inv_step [OF assms] by (intro cluster_inv_commit) (auto simp: steady_clean)

lemma cluster_inv_restart:
  assumes inv: "cluster_inv names c" and i: "i \<in> set names"
    and l: "entries l = take k (entries (rlog (nodes c i)))"
    and n: "fresh_node names i (cur_term (nodes c i)) (voted_for (persister (nodes c i))) l n"
  shows "cluster_inv names (commit_node i n c)"
proof -
  have n0: "node_inv names (ballots c) i (nodes c i)" and d: "distinct names"
    using inv i by (auto simp: cluster_inv_def)
  then have "no_cfg (entries l)"
    using l by (auto simp: node_inv_def steady_def clean_def no_cfg_def dest: in_set_takeD)
  note facts = fresh_node_facts [OF n d i this]
  have "ballots_of i n = ballots_of i (nodes c i)"
    using facts by (simp add: ballots_of_def)
  then have "node_inv names (ballots c \<union> ballots_of i n) i (n\<lparr>outbox := []\<rparr>)"
    using facts n0 by (auto simp: node_inv_def steady_def clean_def cur_term_def ballots_of_def)
  moreover have "vote_grants n = {}"
    using facts(4) by (simp add: vote_grants_def)
  ultimately show ?thesis
    using inv i facts(1) by (intro cluster_inv_commit) (auto simp: steady_clean)
qed

lemma cluster_inv_init:
  assumes "distinct names" "net c = {}" "ballots c = {}"
    and "\<And>i. i \<in> set names \<Longrightarrow> fresh_node names i 0 None raft_log_init (nodes c i)"
  shows "cluster_inv names c"
proof -
  have "no_cfg (entries raft_log_init)"
    by (simp add: raft_log_init_def)
  note facts = fresh_node_facts [OF assms(4) assms(1) _ this]
  then have "node_inv names (ballots c) i (nodes c i)" if "i \<in> set names" for i
    using that assms(3) by (simp add: node_inv_def)
  with assms show ?thesis by (simp add: cluster_inv_def)
qed

lemma raft_reach_inv: "raft_reach names c \<Longrightarrow> cluster_inv names c"
proof (induction rule: raft_reach.induct)
  case (init c)
  then show ?case by (intro cluster_inv_init)
next
  case (timer c i now)
  then show ?case using step_tick [of None] by (intro cluster_inv_op) auto
next
  case (deliver c i m now)
  then have "clean_msg m" by (auto simp: cluster_inv_def)
  with deliver show ?case
    using step_handle by (intro cluster_inv_op [of _ _ _ "Some m"]) (auto simp: cluster_inv_def)
next
  case (client c i payload now)
  then show ?case
    using step_of_calm [OF calm_propose, of _ None] by (intro cluster_inv_op) auto
next
  case (transfer c i now target)
  then show ?case using step_transfer [of None] by (intro cluster_inv_op) auto
next
  case (restart c i l k n)
  then show ?case by (intro cluster_inv_restart)
qed

section \<open>Election safety\<close>

lemma majorities_meet:
  assumes "finite S" "A \<subseteq> S" "B \<subseteq> S" "card A > card S div 2" "card B > card S div 2"
  shows "A \<inter> B \<noteq> {}"
proof
  assume "A \<inter> B = {}"
  then have "card (A \<union> B) = card A + card B"
    using assms(1-3) by (intro card_Un_disjoint) (auto intro: finite_subset)
  moreover have "card (A \<union> B) \<le> card S"
    using assms(1-3) by (intro card_mono) auto
  ultimately show False using assms(4,5) by linarith
qed

lemma one_leader:
  assumes inv: "cluster_inv names c" and i: "i \<in> set names" and j: "j \<in> set names"
    and lead: "node_role (nodes c i) = LEADER" "node_role (nodes c j) = LEADER"
    and same: "cur_term (nodes c i) = cur_term (nodes c j)"
  shows "i = j"
proof -
  have "node_inv names (ballots c) i (nodes c i)" "node_inv names (ballots c) j (nodes c j)"
    using inv i j by (auto simp: cluster_inv_def)
  then have v: "votes (nodes c i) \<subseteq> set names" "votes (nodes c j) \<subseteq> set names"
    "\<forall>v \<in> votes (nodes c i). (v, cur_term (nodes c i), i) \<in> ballots c"
    "\<forall>v \<in> votes (nodes c j). (v, cur_term (nodes c i), j) \<in> ballots c"
    "card (votes (nodes c i)) > card (set names) div 2" "card (votes (nodes c j)) > card (set names) div 2"
    using lead same by (auto simp: node_inv_def majority_def)
  then obtain w where "w \<in> votes (nodes c i)" "w \<in> votes (nodes c j)"
    using majorities_meet [of "set names" "votes (nodes c i)" "votes (nodes c j)"] by auto
  then have "(w, cur_term (nodes c i), i) \<in> ballots c" "(w, cur_term (nodes c i), j) \<in> ballots c"
    using v by auto
  with inv show ?thesis by (auto simp: cluster_inv_def)
qed

end
