(* ===== verification/Raft_Apply.thy ===== *)
theory Raft_Apply
  imports Raft_Node_Props
begin

text \<open>
  Committing and applying: which index the leader commits, that entries reach the state machine
  in log order and once each, and that neither changes the commit index otherwise.
\<close>

section \<open>Fields that applying leaves alone\<close>

lemma fold_init_peer_rest:
  "rlog (fold (init_peer now) ps n) = rlog n" "apply_calls (fold (init_peer now) ps n) = apply_calls n"
  "state_machine (fold (init_peer now) ps n) = state_machine n" "on_apply (fold (init_peer now) ps n) = on_apply n"
  by (induction ps arbitrary: n) (simp_all add: init_peer_def)

lemma fold_drop_peer_rest:
  "rlog (fold drop_peer ps n) = rlog n" "apply_calls (fold drop_peer ps n) = apply_calls n"
  "state_machine (fold drop_peer ps n) = state_machine n" "on_apply (fold drop_peer ps n) = on_apply n"
  by (induction ps arbitrary: n) (simp_all add: drop_peer_def)

lemmas apply_frame = apply_config_def fold_init_peer_rest fold_drop_peer_rest fold_init_peer_fields
  fold_drop_peer_fields

lemma apply_entry_frame:
  "rlog (snd (apply_entry now e n)) = rlog n" "on_apply (snd (apply_entry now e n)) = on_apply n"
  "(state_machine (snd (apply_entry now e n)) = None) = (state_machine n = None)"
  by (auto simp: apply_entry_def apply_frame Let_def split: option.splits sum.splits prod.splits)

section \<open>Applying in order\<close>

text \<open>
  What a list of entries does to a store, entry by entry: configurations are passed over, empty payloads and the
  entry a leader starts its term with only reach the callback, commands are applied and reach the callback with their
  result. There is no result when a command raises an exception.
\<close>

type_synonym calls = "(int \<times> bytes \<times> kv_result option) list"

definition is_command :: "bytes \<Rightarrow> bool" where
  "is_command p \<longleftrightarrow> \<not> is_cfg p \<and> p \<noteq> [] \<and> \<not> starts_with NOOP p"

fun replay :: "entry list \<Rightarrow> kv_store \<Rightarrow> (kv_store \<times> calls) option" where
  "replay [] sm = Some (sm, [])"
| "replay (e # es) sm =
     (if is_cfg (e_payload e) then replay es sm
      else if \<not> is_command (e_payload e)
        then map_option (\<lambda>(s, cs). (s, (e_index e, e_payload e, None) # cs)) (replay es sm)
      else (case kv_apply (e_payload e) sm of
              (Inl err, s) \<Rightarrow> None
            | (Inr r, s) \<Rightarrow> map_option (\<lambda>(s', cs). (s', (e_index e, e_payload e, Some r) # cs)) (replay es s)))"

text \<open>One entry: it is replayed, or it is a command that raises.\<close>

lemma apply_entry_replays:
  assumes "state_machine n = Some sm" "apply_entry now e n = (res, n1)"
  shows "(case res of
      Inr _ \<Rightarrow> \<exists>sm1 cs. replay [e] sm = Some (sm1, cs) \<and> state_machine n1 = Some sm1
        \<and> apply_calls n1 = apply_calls n @ (if on_apply n then cs else [])
    | Inl err \<Rightarrow> \<exists>sm1. is_command (e_payload e) \<and> kv_apply (e_payload e) sm = (Inl err, sm1)
        \<and> state_machine n1 = Some sm1 \<and> apply_calls n1 = apply_calls n \<and> applied_index n1 = applied_index n)"
proof (cases "is_cfg (e_payload e)")
  case True
  then have "res = Inr ()" "state_machine n1 = Some sm" "apply_calls n1 = apply_calls n"
    using assms by (auto simp: apply_entry_def is_cfg_def apply_frame Let_def split: option.splits if_splits)
  with True show ?thesis by simp
next
  case False
  note cfg = False [unfolded is_cfg_def]
  show ?thesis
  proof (cases "is_command (e_payload e)")
    case True
    then show ?thesis
      using assms cfg
      by (cases "on_apply n"; cases "kv_apply (e_payload e) sm"; cases "fst (kv_apply (e_payload e) sm)")
         (auto simp: apply_entry_def is_command_def Let_def)
  next
    case plain: False
    then show ?thesis
      using assms cfg False by (cases "on_apply n") (auto simp: apply_entry_def is_command_def Let_def)
  qed
qed

lemma replay_Cons:
  assumes "replay [e] sm = Some (sm1, cs)" "replay es sm1 = Some (sm2, ds)"
  shows "replay (e # es) sm = Some (sm2, cs @ ds)"
  using assms by (auto split: if_splits prod.splits sum.splits)

text \<open>The entries \<open>es\<close> are those of the log from an index on, none left out.\<close>

definition entries_at :: "raft_log \<Rightarrow> int \<Rightarrow> entry list \<Rightarrow> bool" where
  "entries_at l i es \<longleftrightarrow> (\<forall>j < length es. get_entry l (i + int j) = Some (es ! j))"

lemma entries_at_Cons: "entries_at l i (e # es) \<longleftrightarrow> get_entry l i = Some e \<and> entries_at l (i + 1) es"
  by (auto simp: entries_at_def All_less_Suc2 add.assoc)

lemma apply_loop_unfold:
  "apply_loop now n = (res, n') \<Longrightarrow> applied_index n < commit_index n \<Longrightarrow>
     get_entry (rlog n) (applied_index n + 1) = Some e \<Longrightarrow> apply_entry now e n = (x, n1) \<Longrightarrow>
     (case x of Inl err \<Rightarrow> (Inl err, n1) | Inr _ \<Rightarrow> apply_loop now n1) = (res, n')"
  by (subst (asm) apply_loop.simps) simp

lemma apply_loop_stops:
  "\<not> applied_index n < commit_index n \<or> get_entry (rlog n) (applied_index n + 1) = None \<Longrightarrow>
     state_machine n \<noteq> None \<Longrightarrow> apply_loop now n = (Inr False, n)"
  by (subst apply_loop.simps) auto

lemma apply_loop_replays:
  assumes "state_machine n = Some sm" "apply_loop now n = (res, n')"
  shows "\<exists>es sm1 cs. entries_at (rlog n) (applied_index n + 1) es
    \<and> applied_index n' = applied_index n + int (length es) \<and> replay es sm = Some (sm1, cs)
    \<and> apply_calls n' = apply_calls n @ (if on_apply n then cs else [])
    \<and> (case res of
         Inr _ \<Rightarrow> state_machine n' = Some sm1
           \<and> (applied_index n' = max (applied_index n) (commit_index n) \<or> get_entry (rlog n) (applied_index n' + 1) = None)
       | Inl err \<Rightarrow> \<exists>e sm2. get_entry (rlog n) (applied_index n' + 1) = Some e \<and> is_command (e_payload e)
           \<and> kv_apply (e_payload e) sm1 = (Inl err, sm2) \<and> state_machine n' = Some sm2)"
  using assms
proof (induction now n arbitrary: sm res n' rule: apply_loop.induct)
  case (1 now n)
  show ?case
  proof (cases "\<not> applied_index n < commit_index n \<or> get_entry (rlog n) (applied_index n + 1) = None")
    case True
    then have "res = Inr False" "n' = n"
      using apply_loop_stops [OF True, of now] "1.prems" by simp_all
    then show ?thesis
      using True "1.prems"(1) by (intro exI [of _ "[]"]) (auto simp: entries_at_def max_def)
  next
    case False
    then obtain e where e: "applied_index n < commit_index n" "get_entry (rlog n) (applied_index n + 1) = Some e" by auto
    obtain x n1 where n1: "apply_entry now e n = (x, n1)" by fastforce
    note loop = apply_loop_unfold [OF "1.prems"(2) e n1] and one = apply_entry_replays [OF "1.prems"(1) n1]
    show ?thesis
    proof (cases x)
      case (Inl err)
      then show ?thesis
        using loop one e(2) by (intro exI [of _ "[]"]) (auto simp: entries_at_def)
    next
      case (Inr u)
      then obtain sm1 cs where one': "replay [e] sm = Some (sm1, cs)" "state_machine n1 = Some sm1"
          "apply_calls n1 = apply_calls n @ (if on_apply n then cs else [])"
        using one by auto
      have frame: "rlog n1 = rlog n" "on_apply n1 = on_apply n" "commit_index n1 = commit_index n"
          "applied_index n1 = applied_index n + 1"
        using apply_entry_frame [of now e n] apply_entry_indexes [of now e n] n1 Inr by simp_all
      from "1.IH" [OF e n1 [symmetric] Inr one'(2)] loop Inr obtain es sm2 ds where
        ih: "entries_at (rlog n) (applied_index n + 1 + 1) es" "applied_index n' = applied_index n + 1 + int (length es)"
          "replay es sm1 = Some (sm2, ds)" "apply_calls n' = apply_calls n1 @ (if on_apply n then ds else [])"
        and last: "case res of
           Inr _ \<Rightarrow> state_machine n' = Some sm2
             \<and> (applied_index n' = max (applied_index n + 1) (commit_index n) \<or> get_entry (rlog n) (applied_index n' + 1) = None)
         | Inl err \<Rightarrow> \<exists>e sm3. get_entry (rlog n) (applied_index n' + 1) = Some e \<and> is_command (e_payload e)
             \<and> kv_apply (e_payload e) sm2 = (Inl err, sm3) \<and> state_machine n' = Some sm3"
        unfolding frame by auto
      have "max (applied_index n + 1) (commit_index n) = max (applied_index n) (commit_index n)"
        using e(1) by simp
      then show ?thesis
        using ih last e(2) one'(3) replay_Cons [OF one'(1) ih(3)]
        by (intro exI [of _ "e # es"] exI [of _ sm2] exI [of _ "cs @ ds"]) (auto simp: entries_at_Cons simp del: replay.simps split: sum.splits)
    qed
  qed
qed

text \<open>A node without a state machine only counts.\<close>

lemma apply_entry_counts:
  "state_machine n = None \<Longrightarrow> apply_entry now e n = (x, n1) \<Longrightarrow>
     x = Inr () \<and> state_machine n1 = None \<and> apply_calls n1 = apply_calls n"
  by (auto simp: apply_entry_def apply_frame Let_def split: option.splits if_splits)

lemma apply_loop_counts:
  "state_machine n = None \<Longrightarrow> apply_loop now n = (res, n') \<Longrightarrow>
     (\<exists>b. res = Inr b) \<and> state_machine n' = None \<and> apply_calls n' = apply_calls n
     \<and> applied_index n' = max (applied_index n) (commit_index n)"
proof (induction now n arbitrary: res n' rule: apply_loop.induct)
  case (1 now n)
  show ?case
  proof (cases "applied_index n < commit_index n \<and> get_entry (rlog n) (applied_index n + 1) \<noteq> None")
    case False
    then show ?thesis
      using "1.prems" by (subst (asm) apply_loop.simps) (auto simp: max_def split: if_splits)
  next
    case True
    then obtain e where e: "applied_index n < commit_index n" "get_entry (rlog n) (applied_index n + 1) = Some e" by auto
    obtain x n1 where n1: "apply_entry now e n = (x, n1)" by fastforce
    have one: "x = Inr ()" "state_machine n1 = None" "apply_calls n1 = apply_calls n"
      using apply_entry_counts [OF "1.prems"(1) n1] by simp_all
    moreover have "commit_index n1 = commit_index n" "applied_index n1 = applied_index n + 1"
      using apply_entry_indexes [of now e n] n1 one(1) by simp_all
    ultimately show ?thesis
      using "1.IH" [OF e n1 [symmetric] one(1,2)] apply_loop_unfold [OF "1.prems"(2) e n1] e(1) by (auto simp: max_def)
  qed
qed

lemma apply_loop_commit: "commit_index (snd (apply_loop now n)) = commit_index n"
proof (induction now n rule: apply_loop.induct)
  case (1 now n)
  show ?case
  proof (cases "applied_index n < commit_index n \<and> get_entry (rlog n) (applied_index n + 1) \<noteq> None")
    case True
    then obtain e where e: "get_entry (rlog n) (applied_index n + 1) = Some e" by auto
    obtain x n1 where n1: "apply_entry now e n = (x, n1)" by fastforce
    have c: "commit_index n1 = commit_index n"
      using apply_entry_indexes(1) [of now e n] n1 by simp
    show ?thesis
    proof (cases x)
      case (Inr u)
      then show ?thesis
        using "1.IH" [OF conjunct1 [OF True] e n1 [symmetric] Inr] True e n1 c
        by (subst apply_loop.simps) simp
    next
      case (Inl err)
      then show ?thesis
        using True e n1 c by (subst apply_loop.simps) simp
    qed
  next
    case False
    then show ?thesis by (subst apply_loop.simps) auto
  qed
qed

lemma take_snapshot_indexes:
  "commit_index (snd (take_snapshot n)) = commit_index n" "applied_index (snd (take_snapshot n)) = applied_index n"
  "apply_calls (snd (take_snapshot n)) = apply_calls n"
  by (simp_all add: take_snapshot_def write_snapshot_file_def Let_def split: option.splits)

lemma apply_committed_commit: "commit_index (snd (apply_committed now n)) = commit_index n"
  using apply_loop_commit [of now n]
  by (auto simp: apply_committed_def take_snapshot_indexes split: prod.splits sum.splits)

section \<open>Which index the leader commits\<close>

lemma advance_loop_spec:
  "(advance_loop now low c n = (Inr (), n)
      \<and> (\<forall>k. low < k \<and> k \<le> c \<longrightarrow> \<not> (term_at (rlog n) k = cur_term n \<and> commit_quorum k n)))
   \<or> (\<exists>k. low < k \<and> k \<le> c \<and> term_at (rlog n) k = cur_term n \<and> commit_quorum k n
      \<and> (\<forall>j. k < j \<and> j \<le> c \<longrightarrow> \<not> (term_at (rlog n) j = cur_term n \<and> commit_quorum j n))
      \<and> advance_loop now low c n = apply_committed now (n\<lparr>commit_index := k\<rparr>))"
proof (induction now low c n rule: advance_loop.induct)
  case (1 now low c n)
  let ?ok = "\<lambda>k. term_at (rlog n) k = cur_term n \<and> commit_quorum k n"
  consider "c \<le> low" | "low < c" "?ok c" | "low < c" "\<not> ?ok c" by linarith
  then show ?case
  proof cases
    case 1
    then show ?thesis by (subst advance_loop.simps) auto
  next
    case 2
    then have "advance_loop now low c n = apply_committed now (n\<lparr>commit_index := c\<rparr>)"
      by (subst advance_loop.simps) simp
    with 2 show ?thesis by (intro disjI2 exI [of _ c]) auto
  next
    case 3
    then have eq: "advance_loop now low c n = advance_loop now low (c - 1) n"
      by (subst advance_loop.simps) auto
    have up: "(\<forall>k. a < k \<and> k \<le> c \<longrightarrow> \<not> ?ok k) \<longleftrightarrow> (\<forall>k. a < k \<and> k \<le> c - 1 \<longrightarrow> \<not> ?ok k)" for a
      using 3(2) by (metis zle_diff1_eq order_le_less)
    have "(advance_loop now low (c - 1) n = (Inr (), n) \<and> (\<forall>k. low < k \<and> k \<le> c - 1 \<longrightarrow> \<not> ?ok k))
        \<or> (\<exists>k. low < k \<and> k \<le> c - 1 \<and> term_at (rlog n) k = cur_term n \<and> commit_quorum k n
            \<and> (\<forall>j. k < j \<and> j \<le> c - 1 \<longrightarrow> \<not> ?ok j)
            \<and> advance_loop now low (c - 1) n = apply_committed now (n\<lparr>commit_index := k\<rparr>))"
      using "1.IH" 3 by (cases "term_at (rlog n) c \<noteq> cur_term n") auto
    then show ?thesis
      unfolding eq up by (auto intro: order_trans [of _ "c - 1"])
  qed
qed

end
