(* ===== verification/Raft_Theorems.thy ===== *)
theory Raft_Theorems
  imports Raft_Election Raft_Apply
begin

text \<open>
  The properties of the Raft node and of a cluster of nodes, each with a concrete instance:
  elections, votes, commitment and application of entries, and the places where the code
  departs from the protocol.
\<close>

section \<open>Sample nodes\<close>

definition names5 :: "ustr list" where
  "names5 = [[97], [98], [99], [100], [101]]"

definition no_prevote :: node_params where
  "no_prevote = default_params\<lparr>p_use_prevote := False, p_on_apply := True\<rparr>"

definition sample_state :: durable_state where
  "sample_state = \<lparr>current_term = 0, voted_for = None, state_path = False, state_file = None\<rparr>"

definition sample_node :: "node_params \<Rightarrow> ustr \<Rightarrow> raft_node" where
  "sample_node ps i = snd (raft_node_init i names5 0 (\<lambda>_. 0) sample_state (Some kv_init) raft_log_init [] ps)"

definition sample_cluster :: cluster where
  "sample_cluster = \<lparr>nodes = sample_node no_prevote, net = {}, ballots = {}\<rparr>"

lemma sample_cluster_reachable: "raft_reach names5 sample_cluster"
proof (rule raft_reach.init)
  show "fresh_node names5 i 0 None raft_log_init (nodes sample_cluster i)" for i
    unfolding fresh_node_def
    by (intro exI [of _ 0] exI [of _ "\<lambda>_. 0"] exI [of _ sample_state] exI [of _ "Some kv_init"]
        exI [of _ no_prevote])
       (simp add: sample_cluster_def sample_node_def sample_state_def no_prevote_def)
qed (simp_all add: names5_def sample_cluster_def)

lemmas sample_simps = sample_node_def raft_node_init_def no_prevote_def default_params_def
  reset_election_deadline_def names5_def sample_state_def raft_log_init_def Let_def

definition lone_node :: raft_node where
  "lone_node = (snd (raft_node_init [97] [[97]] 0 (\<lambda>_. 0) sample_state (Some kv_init) raft_log_init [] no_prevote))
     \<lparr>rlog := raft_log_init\<lparr>entries := [\<lparr>e_index = 1, e_term = 0, e_payload = NOOP\<rparr>]\<rparr>\<rparr>"

section \<open>Elections\<close>

text \<open>
  C1. Election safety: in every state that a cluster can reach, with messages lost, duplicated, delayed and
  reordered, nodes crashing and restarting from their persisted state, leadership transfers and
  client requests at any time, two leaders of the same term are the same node. The membership
  is fixed and PreVote is off.
\<close>

theorem election_safety:
  assumes "raft_reach names c" "i \<in> set names" "j \<in> set names"
    and "node_role (nodes c i) = LEADER" "node_role (nodes c j) = LEADER"
    and "cur_term (nodes c i) = cur_term (nodes c j)"
  shows "i = j"
  using one_leader [OF raft_reach_inv [OF assms(1)]] assms(2-) by blast

theorem election_safety_witness:
  "\<exists>c. raft_reach [[97]] c \<and> node_role (nodes c [97]) = LEADER
    \<and> (\<forall>j \<in> set [[97]]. node_role (nodes c j) = LEADER \<longrightarrow> cur_term (nodes c j) = cur_term (nodes c [97]) \<longrightarrow> [97] = j)"
proof -
  let ?n = "snd (raft_node_init [97] [[97]] 0 (\<lambda>_. 0) sample_state None raft_log_init [] no_prevote)"
  define c0 where "c0 = \<lparr>nodes = (\<lambda>_. ?n), net = {}, ballots = {}\<rparr>"
  have "fresh_node [[97]] [97] 0 None raft_log_init ?n"
    unfolding fresh_node_def
    by (intro exI [of _ 0] exI [of _ "\<lambda>_. 0"] exI [of _ sample_state] exI [of _ None]
        exI [of _ no_prevote]) (simp add: sample_state_def no_prevote_def)
  then have "raft_reach [[97]] c0"
    by (intro raft_reach.init) (auto simp: c0_def)
  then have r: "raft_reach [[97]] (commit_node [97] (snd (tick 1000 (nodes c0 [97]))) c0)"
    by (intro raft_reach.timer) simp_all
  have lead: "node_role (nodes (commit_node [97] (snd (tick 1000 (nodes c0 [97]))) c0) [97]) = LEADER"
    by (simp add: c0_def commit_node_def tick_def start_prevote_or_election_def start_election_def
        progress_def become_leader_def broadcast_def send_all_appends_def last_index_def last_term_def
        sample_simps)
  show ?thesis
    using r lead election_safety [OF r, of "[97]"] by (intro exI conjI) auto
qed

text \<open>
  A node never votes twice in a term: handling any message leaves the term at least as high, and in
  the same term a recorded vote is never changed; a granted vote is only sent for the candidate
  that has been recorded, in the term that has been recorded.
\<close>

theorem vote_recorded_and_kept:
  assumes "steady n" "clean_msg m" "outbox n = []" "handle now m n = (r, n')"
  shows "cur_term n \<le> cur_term n'
    \<and> (cur_term n' = cur_term n \<and> voted_for (persister n) \<noteq> None
       \<longrightarrow> voted_for (persister n') = voted_for (persister n))
    \<and> (\<forall>d t v. (d, M_vote_resp t v True) \<in> set (outbox n')
       \<longrightarrow> v = node_id n \<and> t = cur_term n' \<and> voted_for (persister n') = Some d)"
proof -
  have "election_step (Some m) n n'"
    using step_handle [OF assms(2), of n now] assms(4) by simp
  moreover have "vote_grants n = {}"
    using assms(3) by (simp add: vote_grants_def)
  ultimately have mono: "vote_mono n n'" and grants: "vote_grants n' \<subseteq>
      {(d, t, v). v = node_id n \<and> t = cur_term n' \<and> voted_for (persister n') = Some d}"
    using assms(1) by (simp_all add: election_step_def)
  have "v = node_id n \<and> t = cur_term n' \<and> voted_for (persister n') = Some d"
    if "(d, M_vote_resp t v True) \<in> set (outbox n')" for d t v
    using subsetD [OF grants, of "(d, t, v)"] that by (simp add: vote_grants_def)
  with mono show ?thesis by (simp add: vote_mono_def)
qed

lemma sample_node_facts:
  assumes "i \<in> set names5"
  shows "steady (sample_node no_prevote i)" "node_id (sample_node no_prevote i) = i"
    "outbox (sample_node no_prevote i) = []"
proof -
  have f: "fresh_node names5 i 0 None raft_log_init (sample_node no_prevote i)"
    unfolding fresh_node_def sample_node_def
    by (intro exI [of _ 0] exI [of _ "\<lambda>_. 0"] exI [of _ sample_state] exI [of _ "Some kv_init"]
        exI [of _ no_prevote]) (simp add: sample_state_def no_prevote_def)
  have "distinct names5" "no_cfg (entries raft_log_init)"
    by (simp_all add: names5_def raft_log_init_def)
  with fresh_node_facts [OF f _ assms] show "steady (sample_node no_prevote i)"
    "node_id (sample_node no_prevote i) = i" "outbox (sample_node no_prevote i) = []" by simp_all
qed

lemma sample_vote_granted:
  "([98], M_vote_resp 1 [97] True) \<in>
     set (outbox (snd (handle 5 (M_vote 1 [98] 0 0) (sample_node no_prevote [97]))))"
  by code_simp

theorem vote_recorded_and_kept_witness:
  "voted_for (persister (snd (handle 5 (M_vote 1 [98] 0 0) (sample_node no_prevote [97])))) = Some [98]"
proof -
  have "[97] \<in> set names5" by (simp add: names5_def)
  note facts = sample_node_facts [OF this]
  from vote_recorded_and_kept [OF facts(1) _ facts(3), of "M_vote 1 [98] 0 0" 5] facts(2)
    sample_vote_granted
  show ?thesis by (auto simp: prod_eq_iff)
qed

section \<open>Commitment\<close>

text \<open>
  C15. The leader commits only an entry of its own term that a majority holds, and the highest such
  entry: advancing the commit index either finds no entry above it to commit and changes
  nothing, or sets it to the largest index whose entry has the current term and a quorum, and
  applies the entries up to it.
\<close>

theorem leader_commits_own_term:
  "(advance_commit now n = (Inr (), n)
      \<and> (\<forall>k. commit_index n < k \<and> k \<le> last_index (rlog n)
           \<longrightarrow> \<not> (term_at (rlog n) k = cur_term n \<and> commit_quorum k n)))
   \<or> (\<exists>k. commit_index n < k \<and> k \<le> last_index (rlog n)
      \<and> term_at (rlog n) k = cur_term n \<and> commit_quorum k n
      \<and> (\<forall>j. k < j \<and> j \<le> last_index (rlog n) \<longrightarrow> \<not> (term_at (rlog n) j = cur_term n \<and> commit_quorum j n))
      \<and> advance_commit now n = apply_committed now (n\<lparr>commit_index := k\<rparr>)
      \<and> commit_index (snd (advance_commit now n)) = k)"
  using advance_loop_spec [of now "commit_index n" "last_index (rlog n)" n]
  by (auto simp: advance_commit_def apply_committed_commit)

theorem leader_commits_own_term_witness:
  "commit_index (snd (advance_commit 0 lone_node)) = 1"
proof -
  have f: "commit_index lone_node = 0" "last_index (rlog lone_node) = 1" "term_at (rlog lone_node) 1 = cur_term lone_node"
    "commit_quorum 1 lone_node"
    by (simp_all add: lone_node_def sample_simps last_index_def term_at_def cur_term_def commit_quorum_def)
  note t = leader_commits_own_term [of 0 lone_node, unfolded f(1,2)]
  have "\<not> (\<forall>k. 0 < k \<and> k \<le> 1 \<longrightarrow> \<not> (term_at (rlog lone_node) k = cur_term lone_node \<and> commit_quorum k lone_node))"
    using f(3,4) by (intro notI) (drule spec [of _ 1], simp)
  then obtain k where "0 < k" "k \<le> 1" "commit_index (snd (advance_commit 0 lone_node)) = k"
    using t by blast
  then show ?thesis by simp
qed

text \<open>
  C21. Committed entries are applied in log order and once each. On a node with a state machine the loop of \<^verbatim>\<open>_apply_committed\<close>
  applies exactly the entries between the old and the new applied index: the store is the one that replaying them yields, each
  command applied once, and the callback, when there is one, has been called once for each of them except configuration
  entries, with the index, the payload and the result. The loop reaches the commit index or stops at an entry that the
  log does not hold, or a command raises, which has then been given to the store and is the next entry. A node without a
  state machine raises the applied index to the commit index and calls nothing.
\<close>

theorem entries_applied_in_order:
  assumes "apply_loop now n = (res, n')"
  shows "(\<forall>sm. state_machine n = Some sm \<longrightarrow>
      (\<exists>es sm1 cs. entries_at (rlog n) (applied_index n + 1) es
        \<and> applied_index n' = applied_index n + int (length es) \<and> replay es sm = Some (sm1, cs)
        \<and> apply_calls n' = apply_calls n @ (if on_apply n then cs else [])
        \<and> (case res of
             Inr _ \<Rightarrow> state_machine n' = Some sm1
               \<and> (applied_index n' = max (applied_index n) (commit_index n)
                  \<or> get_entry (rlog n) (applied_index n' + 1) = None)
           | Inl err \<Rightarrow> \<exists>e sm2. get_entry (rlog n) (applied_index n' + 1) = Some e \<and> is_command (e_payload e)
               \<and> kv_apply (e_payload e) sm1 = (Inl err, sm2) \<and> state_machine n' = Some sm2)))
    \<and> (state_machine n = None \<longrightarrow> (\<exists>b. res = Inr b) \<and> state_machine n' = None \<and> apply_calls n' = apply_calls n
        \<and> applied_index n' = max (applied_index n) (commit_index n))"
  using apply_loop_replays [OF _ assms] apply_loop_counts [OF _ assms] by blast

text \<open>A node that has committed a command behind the first entry of a term.\<close>

definition written :: "entry list" where
  "written = [\<lparr>e_index = 1, e_term = 0, e_payload = NOOP\<rparr>, \<lparr>e_index = 2, e_term = 0, e_payload = [97, 61, 98]\<rparr>]"

definition writing_node :: raft_node where
  "writing_node = lone_node\<lparr>commit_index := 2, rlog := raft_log_init\<lparr>entries := written\<rparr>\<rparr>"

lemma written_replays:
  "replay written kv_init = Some (\<lparr>kv_data = [([97], JStr [98])], kv_ops = 1\<rparr>, [(1, NOOP, None), (2, [97, 61, 98], Some (SetOp [97]))])"
  by code_simp

lemma written_ends: "(case apply_loop 0 writing_node of (res, n) \<Rightarrow> (res, applied_index n)) = (Inr False, 2)"
  by code_simp

theorem entries_applied_in_order_witness:
  "\<exists>n'. apply_loop 0 writing_node = (Inr False, n')
    \<and> state_machine n' = Some \<lparr>kv_data = [([97], JStr [98])], kv_ops = 1\<rparr>
    \<and> apply_calls n' = [(1, NOOP, None), (2, [97, 61, 98], Some (SetOp [97]))]"
proof -
  obtain n' where n': "apply_loop 0 writing_node = (Inr False, n')" "applied_index n' = 2"
    using written_ends by (auto split: prod.splits)
  have n: "state_machine writing_node = Some kv_init" "applied_index writing_node = 0" "rlog writing_node = raft_log_init\<lparr>entries := written\<rparr>"
    "on_apply writing_node" "apply_calls writing_node = []"
    by (simp_all add: writing_node_def lone_node_def sample_simps)
  obtain es sm1 cs where es: "entries_at (rlog writing_node) 1 es" "length es = 2" "replay es kv_init = Some (sm1, cs)"
      "apply_calls n' = cs" "state_machine n' = Some sm1"
    using conjunct1 [OF entries_applied_in_order [OF n'(1)], rule_format, OF n(1)] n n'(2) by auto
  have "es = written"
    using es(1,2) unfolding n(3) by (intro nth_equalityI)
      (auto simp: entries_at_def get_entry_def raft_log_init_def written_def less_Suc_eq numeral_2_eq_2)
  then show ?thesis using es n'(1) written_replays by simp
qed

text \<open>
  A command that is not valid UTF-8 stops a node for good: applying it raises, the applied index
  stays before it, and the next attempt starts with the same entry.
\<close>

theorem undecodable_command_blocks:
  assumes "applied_index n < commit_index n" "get_entry (rlog n) (applied_index n + 1) = Some e"
    and "state_machine n \<noteq> None" "e_payload e \<noteq> []" "\<not> starts_with CFG (e_payload e)"
    and "\<not> starts_with NOOP (e_payload e)" "utf8_decode (e_payload e) = Inl err"
  shows "\<exists>n'. apply_committed now n = (Inl err, n') \<and> applied_index n' = applied_index n
    \<and> commit_index n' = commit_index n \<and> rlog n' = rlog n"
proof -
  obtain sm where sm: "state_machine n = Some sm" using assms(3) by blast
  then have "apply_entry now e n = (Inl err, n\<lparr>state_machine := Some (snd (kv_apply (e_payload e) sm))\<rparr>)"
    using assms(4-7) by (simp add: apply_entry_def Let_def kv_apply_def)
  then have "apply_loop now n = (Inl err, n\<lparr>state_machine := Some (snd (kv_apply (e_payload e) sm))\<rparr>)"
    using assms(1,2) by (subst apply_loop.simps) simp
  then show ?thesis by (simp add: apply_committed_def)
qed

definition poisoned_node :: raft_node where
  "poisoned_node = (sample_node no_prevote [97])\<lparr>commit_index := 1,
     rlog := raft_log_init\<lparr>entries := [\<lparr>e_index = 1, e_term = 1, e_payload = [255]\<rparr>]\<rparr>\<rparr>"

theorem undecodable_command_blocks_witness:
  "\<exists>n'. apply_committed 0 poisoned_node = (Inl UnicodeDecodeError, n') \<and> applied_index n' = 0"
proof -
  have "applied_index poisoned_node = 0" "commit_index poisoned_node = 1"
    "get_entry (rlog poisoned_node) 1 = Some \<lparr>e_index = 1, e_term = 1, e_payload = [255]\<rparr>"
    "state_machine poisoned_node \<noteq> None"
    by (simp_all add: poisoned_node_def sample_simps get_entry_def)
  moreover have "utf8_decode [255] = Inl UnicodeDecodeError"
    by (simp add: utf8_decode_def utf8_step.simps)
  moreover have "\<not> starts_with CFG [255]" "\<not> starts_with NOOP [255]"
    by (simp_all add: starts_with_def CFG_def NOOP_def encode_ascii_def ascii_def)
  ultimately show ?thesis
    using undecodable_command_blocks [of poisoned_node "\<lparr>e_index = 1, e_term = 1, e_payload = [255]\<rparr>"
        UnicodeDecodeError 0] by auto
qed

section \<open>Where the code departs from the protocol\<close>

lemma broadcast_outbox: "broadcast m n = n\<lparr>outbox := outbox n @ map (\<lambda>p. (p, m)) (peers n)\<rparr>"
proof -
  have "fold (\<lambda>p. send p m) ps n = n\<lparr>outbox := outbox n @ map (\<lambda>p. (p, m)) ps\<rparr>" for ps and n :: raft_node
    by (induction ps arbitrary: n) (simp_all add: send_def)
  then show ?thesis by (simp add: broadcast_def)
qed

text \<open>
  C38. PreVote answers are counted as votes: a candidate of a five-node cluster whose election times out
  starts a PreVote round in the same role and term; one PreVote grant and one late vote of the
  election that timed out then make it leader of that term, with two votes of five.
\<close>

theorem prevote_grant_counts_as_vote:
  assumes "clean n" "node_role n = CANDIDATE" "\<not> pre_candidate n" "use_prevote n" "old_config n = None"
    and "card (config n) = 5" "b \<noteq> node_id n" "c \<noteq> node_id n" "b \<noteq> c" "election_deadline n \<le> now"
  shows "let n1 = snd (tick now n);
      n2 = snd (handle now1 (M_prevote_resp (cur_term n + 1) b True) n1);
      n3 = snd (handle now2 (M_vote_resp (cur_term n) c True) n2)
    in node_role n3 = LEADER \<and> cur_term n3 = cur_term n"
proof -
  obtain lt li where prog: "progress (n\<lparr>pre_candidate := True, prevote_term := cur_term n + 1, votes := {node_id n}\<rparr>) = (lt, li)"
    by fastforce
  define n1 where "n1 = snd (tick now n)"
  have n1: "pre_candidate n1" "prevote_term n1 = cur_term n + 1" "votes n1 = {node_id n}" "node_role n1 = CANDIDATE"
    "old_config n1 = None" "config n1 = config n" "persister n1 = persister n"
    using assms(2-5,10) prog
    by (simp_all add: n1_def tick_def start_prevote_or_election_def Let_def broadcast_outbox reset_election_deadline_def)
  have "clean n1"
    using assms(1-5,10) prog
    by (simp add: n1_def tick_def start_prevote_or_election_def Let_def broadcast_outbox
        reset_election_deadline_def clean_def image_iff)
       fastforce
  define n2 where "n2 = snd (handle now1 (M_prevote_resp (cur_term n + 1) b True) n1)"
  have n2: "n2 = n1\<lparr>votes := {b, node_id n}\<rparr>"
    using n1 assms(6,7) by (simp add: n2_def handle_def on_prevote_resp_def has_majority_def Let_def)
  define n2' where "n2' = n2\<lparr>votes := {c, b, node_id n}\<rparr>"
  have won: "handle now2 (M_vote_resp (cur_term n) c True) n2 = become_leader now2 n2'"
    using n1 assms(6-9)
    by (simp add: handle_def on_vote_resp_def maybe_win_def has_majority_def n2 n2'_def cur_term_def)
  have "clean (n2'\<lparr>node_role := LEADER, pre_candidate := False\<rparr>)"
    using \<open>clean n1\<close> by (simp add: clean_def n2'_def n2)
  from calm_facts [OF calm_become_leader this] n1 show ?thesis
    unfolding Let_def n1_def [symmetric] n2_def [symmetric] won
    by (simp add: cur_term_def n2'_def n2)
qed

definition stuck_candidate :: raft_node where
  "stuck_candidate = (sample_node default_params [97])\<lparr>node_role := CANDIDATE\<rparr>"

theorem prevote_grant_counts_as_vote_witness:
  "node_role (snd (handle 403 (M_vote_resp 0 [99] True)
     (snd (handle 402 (M_prevote_resp 1 [98] True) (snd (tick 401 stuck_candidate)))))) = LEADER"
proof -
  have "clean stuck_candidate" "node_role stuck_candidate = CANDIDATE" "\<not> pre_candidate stuck_candidate"
    "use_prevote stuck_candidate" "old_config stuck_candidate = None" "card (config stuck_candidate) = 5"
    "node_id stuck_candidate = [97]" "election_deadline stuck_candidate \<le> 401" "cur_term stuck_candidate = 0"
    by (simp_all add: stuck_candidate_def sample_simps clean_def cur_term_def)
  with prevote_grant_counts_as_vote [of stuck_candidate "[98]" "[99]" 401 402 403]
  show ?thesis by (simp add: Let_def)
qed

text \<open>
  A follower commits beyond what it has verified: on an accepted message that brings nothing new the
  commit index becomes the minimum of the leader's commit index and the follower's own last
  index, which lies above the index up to which the message matched when the follower has a
  longer, possibly conflicting tail.
\<close>

theorem follower_commits_past_match:
  assumes "m_term m = cur_term n" "node_role n = FOLLOWER" "m = M_append t ldr prev pt es c"
    and "merge prev pt es (rlog n) = ((True, mat, 0), rlog n)"
    and "commit_index n < c" "mat < c" "mat < last_index (rlog n)"
  shows "commit_index (snd (on_append now m n)) = min c (last_index (rlog n))
    \<and> mat < commit_index (snd (on_append now m n))"
proof -
  define n2 where "n2 = reset_election_deadline now False
      (n\<lparr>node_role := FOLLOWER, leader_id := Some ldr, last_leader_contact := now\<rparr>)"
  have n2: "rlog n2 = rlog n" "commit_index n2 = commit_index n"
    by (simp_all add: n2_def reset_election_deadline_def Let_def)
  obtain r n4 where n4: "apply_committed now (n2\<lparr>rlog := rlog n, commit_index := min c (last_index (rlog n))\<rparr>) = (r, n4)"
    by fastforce
  then have "commit_index n4 = min c (last_index (rlog n))"
    using apply_committed_commit [of now "n2\<lparr>rlog := rlog n, commit_index := min c (last_index (rlog n))\<rparr>"] by simp
  moreover have "commit_index (snd (on_append now m n)) = commit_index n4"
    using assms n2 n4 unfolding on_append_def
    by (auto simp: Let_def n2_def [symmetric] send_def split: sum.splits)
  ultimately show ?thesis using assms(6,7) by simp
qed

definition tail_node :: raft_node where
  "tail_node = (sample_node no_prevote [97])\<lparr>rlog := raft_log_init\<lparr>entries :=
     [\<lparr>e_index = 1, e_term = 0, e_payload = [7]\<rparr>, \<lparr>e_index = 2, e_term = 0, e_payload = [8]\<rparr>]\<rparr>\<rparr>"

theorem follower_commits_past_match_witness:
  "commit_index (snd (on_append 9 (M_append 0 [98] 0 0 [\<lparr>e_index = 1, e_term = 0, e_payload = [7]\<rparr>] 2) tail_node)) = 2"
proof -
  have "cur_term tail_node = 0" "node_role tail_node = FOLLOWER" "commit_index tail_node = 0"
    "last_index (rlog tail_node) = 2"
    "merge 0 0 [\<lparr>e_index = 1, e_term = 0, e_payload = [7]\<rparr>] (rlog tail_node) = ((True, 1, 0), rlog tail_node)"
    by (simp_all add: tail_node_def sample_simps cur_term_def last_index_def merge_def term_at_def)
  then show ?thesis
    using follower_commits_past_match [of "M_append 0 [98] 0 0 [\<lparr>e_index = 1, e_term = 0, e_payload = [7]\<rparr>] 2"
        tail_node 0 "[98]" 0 0 "[\<lparr>e_index = 1, e_term = 0, e_payload = [7]\<rparr>]" 2 1 9] by simp
qed

text \<open>
  C39. A node that installs a snapshot beyond its log can no longer be replicated to: its log is empty and
  its last index is 0, so every AppendEntries message with a previous index above 0, the
  snapshot index included, is rejected with the hint 1.
\<close>

theorem installed_snapshot_blocks_appends:
  assumes "install_state m n = (Inr u, n')" "\<forall>e \<in> set (entries (rlog n)). e_index e \<le> m_included_index m"
    and "0 < prev"
  shows "last_index (rlog n') = 0 \<and> merge prev pt inc (rlog n') = ((False, 0, 1), rlog n')"
proof -
  have "rlog (write_snapshot_file i t d x) = rlog x" for i t d x
    by (simp add: write_snapshot_file_def)
  then have "entries (rlog n') = filter (\<lambda>e. e_index e > m_included_index m) (entries (rlog n))"
    using assms(1) by (auto simp: install_state_def Let_def split: option.splits prod.splits sum.splits)
  then have "entries (rlog n') = []"
    using assms(2) by (auto simp: filter_empty_conv)
  then show ?thesis using assms(3) by (simp add: last_index_def merge_def)
qed

theorem installed_snapshot_blocks_appends_witness:
  "merge 5 1 [] (rlog (snd (install_state (M_install_snapshot 1 [98] 5 1 (JObj [])) (sample_node no_prevote [97]))))
     = ((False, 0, 1), rlog (snd (install_state (M_install_snapshot 1 [98] 5 1 (JObj [])) (sample_node no_prevote [97]))))"
proof -
  let ?m = "M_install_snapshot 1 [98] 5 1 (JObj [])" and ?n = "sample_node no_prevote [97]"
  have "fst (install_state ?m ?n) = Inr ()"
    by (simp add: install_state_def Let_def sample_simps kv_restore_def as_dict_def kv_init_def)
  moreover have "\<forall>e \<in> set (entries (rlog ?n)). e_index e \<le> m_included_index ?m"
    by (simp add: sample_simps)
  ultimately show ?thesis
    using installed_snapshot_blocks_appends [of ?m ?n "()" "snd (install_state ?m ?n)" 5 1 "[]"]
    by (simp add: prod_eq_iff)
qed

end
