(* ===== verification/Raft_History.thy ===== *)
theory Raft_History
  imports "HOL-Library.Sublist" Raft_Election
begin

text \<open>
  The history of a cluster, as far as its logs are concerned: which logs leaders have had, who has
  won which election with whose votes, with which log a node has stood for election and has voted, and
  which logs nodes have acknowledged. The history is no part of the program; it records what a proof about
  several nodes has to know of the past. This theory says when a history is consistent and shows, without
  any reference to nodes or messages, that in a consistent history an acknowledged log is
  part of the log of every later winner.
\<close>

section \<open>Quorums\<close>

text \<open>What voting and replication ask of the sets of nodes that count as enough: any two of them meet.\<close>

locale quorums =
  fixes quorum :: "'a set \<Rightarrow> bool"
  assumes meet: "quorum A \<Longrightarrow> quorum B \<Longrightarrow> A \<inter> B \<noteq> {}"
begin

text \<open>Where every member of a quorum has at most one choice, two quorums cannot make different ones.\<close>

lemma agree_on_choice:
  assumes "quorum A" "quorum B" "\<forall>v \<in> A. choice v x" "\<forall>v \<in> B. choice v y"
    and "\<And>v a b. choice v a \<Longrightarrow> choice v b \<Longrightarrow> a = b"
  shows "x = y"
proof -
  obtain v where "v \<in> A" "v \<in> B" using meet [OF assms(1,2)] by blast
  then show ?thesis using assms(3-5) by blast
qed

end

definition most_of :: "ustr list \<Rightarrow> ustr set \<Rightarrow> bool" where
  "most_of names Q \<longleftrightarrow> Q \<subseteq> set names \<and> card Q > card (set names) div 2"

interpretation most: quorums "most_of names" for names
  by unfold_locales (use majorities_meet in \<open>auto simp: most_of_def\<close>)

section \<open>Histories\<close>

record history =
  leads :: "(int \<times> entry list) set"
  wins :: "(int \<times> ustr \<times> ustr set \<times> entry list) set"
  bids :: "(int \<times> ustr \<times> entry list) set"
  seen :: "(ustr \<times> int \<times> entry list) set"
  acks :: "(ustr \<times> int \<times> entry list) set"

definition no_history :: history where
  "no_history = \<lparr>leads = {}, wins = {}, bids = {}, seen = {}, acks = {}\<rparr>"

definition past :: "history \<Rightarrow> history \<Rightarrow> bool" where
  "past H H' \<longleftrightarrow> leads H \<subseteq> leads H' \<and> wins H \<subseteq> wins H' \<and> bids H \<subseteq> bids H' \<and> seen H \<subseteq> seen H' \<and> acks H \<subseteq> acks H'"

lemma past_refl: "past H H"
  by (simp add: past_def)

lemma past_trans: "past A B \<Longrightarrow> past B C \<Longrightarrow> past A C"
  by (auto simp: past_def)

text \<open>The term and the index of the last entry, as \<^verbatim>\<open>_progress\<close> gives them.\<close>

definition tip :: "entry list \<Rightarrow> int \<times> int" where
  "tip g = (if g = [] then (0, 0) else (e_term (last g), int (length g)))"

text \<open>A log grows out of the logs of leaders: up to each entry it is what the leader of the term of that entry had.\<close>

definition rooted :: "history \<Rightarrow> entry list \<Rightarrow> bool" where
  "rooted H g \<longleftrightarrow> wf_entries 1 g \<and> sorted (map e_term g)
     \<and> (\<forall>g' x. prefix (g' @ [x]) g \<longrightarrow> (\<exists>h. (e_term x, h) \<in> leads H \<and> prefix (g' @ [x]) h))"

text \<open>
  The log \<open>h\<close> still holds what was acknowledged in term \<open>t\<close>, unless a later leader, up to the term \<open>b\<close>, did not have it.
\<close>

definition keeps :: "history \<Rightarrow> int \<Rightarrow> entry list \<Rightarrow> entry list \<Rightarrow> int \<Rightarrow> bool" where
  "keeps H t g h b \<longleftrightarrow> prefix g h
     \<or> (\<exists>t' j Q L. (t', j, Q, L) \<in> wins H \<and> t < t' \<and> t' \<le> b \<and> \<not> prefix g L)"

definition leads_ok :: "history \<Rightarrow> bool" where
  "leads_ok H \<longleftrightarrow>
     (\<forall>t h. (t, h) \<in> leads H \<longrightarrow> rooted H h \<and> (\<forall>e \<in> set h. e_term e \<le> t)
        \<and> (\<exists>j Q L. (t, j, Q, L) \<in> wins H \<and> prefix L h))
     \<and> (\<forall>t h h'. (t, h) \<in> leads H \<and> (t, h') \<in> leads H \<longrightarrow> prefix h h' \<or> prefix h' h)"

definition bids_ok :: "history \<Rightarrow> bool" where
  "bids_ok H \<longleftrightarrow> (\<forall>t j L. (t, j, L) \<in> bids H \<longrightarrow> rooted H L \<and> (\<forall>e \<in> set L. e_term e < t))
     \<and> (\<forall>t j L L'. (t, j, L) \<in> bids H \<and> (t, j, L') \<in> bids H \<longrightarrow> L = L')"

definition wins_ok :: "ustr list \<Rightarrow> (ustr \<times> int \<times> ustr) set \<Rightarrow> history \<Rightarrow> bool" where
  "wins_ok names B H \<longleftrightarrow> (\<forall>t j Q L. (t, j, Q, L) \<in> wins H \<longrightarrow>
     j \<in> set names \<and> most_of names Q \<and> (t, j, L) \<in> bids H
     \<and> (\<forall>v \<in> Q. (v, t, j) \<in> B \<and> (\<exists>h. (v, t, h) \<in> seen H \<and> at_least (tip L) (tip h))))"

definition acks_ok :: "history \<Rightarrow> bool" where
  "acks_ok H \<longleftrightarrow>
     (\<forall>v t g. (v, t, g) \<in> acks H \<longrightarrow> (\<exists>h. (t, h) \<in> leads H \<and> prefix g h) \<and> (\<forall>g'. prefix g' g \<longrightarrow> (v, t, g') \<in> acks H))
     \<and> (\<forall>v t g t' h. (v, t, g) \<in> acks H \<and> (v, t', h) \<in> seen H \<and> t < t' \<longrightarrow> keeps H t g h (t' - 1))"

definition seen_ok :: "history \<Rightarrow> bool" where
  "seen_ok H \<longleftrightarrow> (\<forall>v t h. (v, t, h) \<in> seen H \<longrightarrow> rooted H h)"

text \<open>Every vote went to a log that is not behind the voter's, but for votes that came after the election was won.\<close>

definition ballots_ok :: "(ustr \<times> int \<times> ustr) set \<Rightarrow> history \<Rightarrow> bool" where
  "ballots_ok B H \<longleftrightarrow> (\<forall>v t j. (v, t, j) \<in> B \<longrightarrow>
     (\<exists>h L. (v, t, h) \<in> seen H \<and> (t, j, L) \<in> bids H \<and> at_least (tip L) (tip h))
     \<or> (\<exists>j' Q L. (t, j', Q, L) \<in> wins H \<and> v \<notin> Q))"

definition consistent :: "ustr list \<Rightarrow> (ustr \<times> int \<times> ustr) set \<Rightarrow> history \<Rightarrow> bool" where
  "consistent names B H \<longleftrightarrow> leads_ok H \<and> bids_ok H \<and> wins_ok names B H \<and> acks_ok H \<and> seen_ok H \<and> ballots_ok B H"

section \<open>Logs with a common root\<close>

lemma rooted_mono: "past H H' \<Longrightarrow> rooted H g \<Longrightarrow> rooted H' g"
  unfolding rooted_def past_def by blast

lemma keeps_mono: "past H H' \<Longrightarrow> b \<le> b' \<Longrightarrow> keeps H t g h b \<Longrightarrow> keeps H' t g h b'"
  unfolding keeps_def past_def by (meson order_trans subsetD)

lemma keeps_longer: "prefix h h' \<Longrightarrow> keeps H t g h b \<Longrightarrow> keeps H t g h' b"
  unfolding keeps_def by (meson prefix_order.order_trans)

lemma rooted_Nil [simp]: "rooted H []"
  by (simp add: rooted_def)

lemma wf_prefix: "wf_entries i h \<Longrightarrow> prefix g h \<Longrightarrow> wf_entries i g"
  by (auto simp: prefix_def wf_entries_append)

lemma rooted_prefix:
  assumes "rooted H h" "prefix g h"
  shows "rooted H g"
  unfolding rooted_def
proof (intro conjI allI impI)
  show "wf_entries 1 g" using assms wf_prefix by (auto simp: rooted_def)
  show "sorted (map e_term g)" using assms by (auto simp: rooted_def prefix_def sorted_append)
  show "\<exists>h. (e_term x, h) \<in> leads H \<and> prefix (g' @ [x]) h" if "prefix (g' @ [x]) g" for g' x
    using assms(1) prefix_order.order_trans [OF that assms(2)] by (auto simp: rooted_def)
qed

text \<open>A log that extends a rooted one by an entry of a leader is rooted.\<close>

lemma rooted_snoc:
  assumes "rooted H g" "(e_term x, h) \<in> leads H" "prefix (g @ [x]) h" "wf_entries 1 (g @ [x])"
    and "\<forall>e \<in> set g. e_term e \<le> e_term x"
  shows "rooted H (g @ [x])"
  using assms unfolding rooted_def
  by (auto simp: sorted_append prefix_snoc)

lemma comparable_lengths:
  "prefix a c \<Longrightarrow> prefix b c \<Longrightarrow> length a \<le> length b \<Longrightarrow> prefix a b"
  using prefix_length_prefix by blast

lemma rooted_same:
  assumes "leads_ok H" "rooted H g" "rooted H h" "prefix (a @ [x]) g" "prefix (b @ [y]) h"
    and "e_term x = e_term y" "length a \<le> length b"
  shows "prefix (a @ [x]) (b @ [y])"
proof -
  obtain p q where pq: "(e_term x, p) \<in> leads H" "prefix (a @ [x]) p" "(e_term x, q) \<in> leads H" "prefix (b @ [y]) q"
    using assms(2-6) unfolding rooted_def by metis
  then consider "prefix p q" | "prefix q p"
    using assms(1) unfolding leads_ok_def by blast
  then show ?thesis
  proof cases
    case 1
    then have "prefix (a @ [x]) q" using pq(2) prefix_order.order_trans by blast
    then show ?thesis using assms(7) by (intro comparable_lengths [OF _ pq(4)]) simp_all
  next
    case 2
    then have "prefix (b @ [y]) p" using pq(4) prefix_order.order_trans by blast
    then show ?thesis using assms(7) by (intro comparable_lengths [OF pq(2)]) simp_all
  qed
qed

lemma take_Suc_prefix: "k < length g \<Longrightarrow> prefix (take k g @ [g ! k]) g"
  by (metis take_Suc_conv_app_nth take_is_prefix)

lemma rooted_matching:
  assumes "leads_ok H" "rooted H g" "rooted H h"
  shows "matching g h"
  unfolding matching_def
proof (intro allI impI)
  fix k
  assume k: "k < min (length g) (length h)" "e_term (g ! k) = e_term (h ! k)"
  have "prefix (take k g @ [g ! k]) (take k h @ [h ! k])"
    using assms k by (intro rooted_same [OF assms, of _ _ "take k h" "h ! k"] take_Suc_prefix) auto
  moreover have "length (take k g @ [g ! k]) = length (take k h @ [h ! k])"
    using k by simp
  ultimately have "take k g @ [g ! k] = take k h @ [h ! k]"
    unfolding prefix_def by auto
  with k show "take (Suc k) g = take (Suc k) h"
    by (simp add: take_Suc_conv_app_nth)
qed

text \<open>The log with which a leader of term \<open>t\<close> won lies strictly below every entry of term \<open>t\<close>.\<close>

lemma won_below:
  assumes "consistent names B H" "(t, j, Q, L) \<in> wins H" "prefix L h" "prefix (g @ [x]) h" "e_term x = t"
  shows "prefix L g"
proof -
  have "(t, j, L) \<in> bids H" using assms(1,2) unfolding consistent_def wins_ok_def by blast
  then have "\<forall>e \<in> set L. e_term e < t" using assms(1) unfolding consistent_def bids_ok_def by blast
  then have "x \<notin> set L" using assms(5) by auto
  then have "\<not> prefix (g @ [x]) L" by (auto simp: prefix_def)
  then have "\<not> length (g @ [x]) \<le> length L" using comparable_lengths [OF assms(4,3)] by blast
  then have "length L \<le> length g" by simp
  then show ?thesis
    using comparable_lengths [OF assms(3), of g] assms(4) by (meson append_prefixD)
qed

section \<open>What a quorum has acknowledged is kept\<close>

text \<open>Enough nodes have acknowledged a log whose last entry is of the term of the acknowledgement.\<close>

definition chosen :: "ustr list \<Rightarrow> history \<Rightarrow> int \<Rightarrow> entry list \<Rightarrow> bool" where
  "chosen names H t g \<longleftrightarrow> g \<noteq> [] \<and> e_term (last g) = t
     \<and> (\<exists>S. most_of names S \<and> (\<forall>v \<in> S. (v, t, g) \<in> acks H))"

lemma chosen_mono: "past H H' \<Longrightarrow> chosen names H t g \<Longrightarrow> chosen names H' t g"
  unfolding chosen_def past_def by blast

lemma rooted_last_most:
  assumes "rooted H h" "prefix g h" "g \<noteq> []"
  shows "h \<noteq> []" "e_term (last g) \<le> e_term (last h)" "0 \<le> e_term (last h)"
proof -
  show ne: "h \<noteq> []" using assms(2,3) by auto
  then have "last h \<in> set h" by simp
  then show "0 \<le> e_term (last h)" using assms(1) by (auto simp: rooted_def wf_entries_def)
  obtain k where k: "h = g @ k" using assms(2) by (auto simp: prefix_def)
  have "last g \<in> set g" using assms(3) by simp
  then show "e_term (last g) \<le> e_term (last h)"
    using assms(1,3) by (cases "k = []") (auto simp: rooted_def k sorted_append)
qed

text \<open>A log that is not behind one that holds \<open>g\<close> holds \<open>g\<close> itself, if the winners before do.\<close>

lemma ahead_has:
  assumes C: "consistent names B H" and L: "rooted H L" and h: "rooted H h"
    and gh: "prefix g h" "g \<noteq> []" "e_term (last g) = t" and ahead: "at_least (tip L) (tip h)"
    and older: "\<And>t' j Q L'. (t', j, Q, L') \<in> wins H \<Longrightarrow> t < t' \<Longrightarrow> t' \<le> e_term (last L) \<Longrightarrow> prefix g L'"
  shows "prefix g L"
proof -
  note last = rooted_last_most [OF h gh(1,2)]
  have lo: "leads_ok H" using C by (simp add: consistent_def)
  have "L \<noteq> []" using ahead last by (auto simp: at_least_def tip_def)
  then obtain a x where Lx: "L = a @ [x]" by (cases L rule: rev_cases) auto
  obtain b y where hy: "h = b @ [y]" using last(1) by (cases h rule: rev_cases) auto
  show ?thesis
  proof (cases "e_term x = e_term y")
    case True
    then have "length b \<le> length a" using ahead by (auto simp: at_least_def tip_def Lx hy)
    then have "prefix (b @ [y]) (a @ [x])"
      using rooted_same [OF lo h L, of b y a x] True by (simp add: Lx hy)
    then show ?thesis using gh(1) unfolding Lx hy using prefix_order.order_trans by blast
  next
    case False
    then have gt: "e_term x > t" using ahead last(2) gh(3) by (auto simp: at_least_def tip_def Lx hy)
    obtain p where p: "(e_term x, p) \<in> leads H" "prefix (a @ [x]) p"
      using L unfolding Lx rooted_def by blast
    then obtain j Q L' where w: "(e_term x, j, Q, L') \<in> wins H" "prefix L' p"
      using lo unfolding leads_ok_def by blast
    have "prefix g L'" using older [OF w(1) gt] by (simp add: Lx)
    moreover have "prefix L' a" using won_below [OF C w p(2)] by simp
    ultimately show ?thesis unfolding Lx using prefix_order.order_trans prefix_prefix by blast
  qed
qed

lemma chosen_kept:
  assumes C: "consistent names B H" and g: "chosen names H t g"
  shows "(t', j, Q, L) \<in> wins H \<Longrightarrow> t < t' \<Longrightarrow> prefix g L"
proof (induction "nat (t' - t)" arbitrary: t' j Q L rule: less_induct)
  case less
  have older: "prefix g L'" if "(s, i, P, L') \<in> wins H" "t < s" "s < t'" for s i P L'
    using less.hyps [OF _ that(1,2)] that by simp
  obtain S where S: "most_of names S" "\<forall>v \<in> S. (v, t, g) \<in> acks H" and gl: "g \<noteq> []" "e_term (last g) = t"
    using g unfolding chosen_def by blast
  have W: "most_of names Q" "(t', j, L) \<in> bids H"
    "\<forall>v \<in> Q. \<exists>h. (v, t', h) \<in> seen H \<and> at_least (tip L) (tip h)"
    using C less.prems(1) unfolding consistent_def wins_ok_def by blast+
  then have L: "rooted H L" "\<forall>e \<in> set L. e_term e < t'"
    using C unfolding consistent_def bids_ok_def by blast+
  obtain v where "v \<in> S" "v \<in> Q" using most.meet [OF S(1) W(1)] by blast
  then obtain h where v: "(v, t, g) \<in> acks H" "(v, t', h) \<in> seen H" "at_least (tip L) (tip h)"
    using S(2) W(3) by blast
  have "keeps H t g h (t' - 1)"
    using C v(1,2) less.prems(2) unfolding consistent_def acks_ok_def by blast
  then have gh: "prefix g h" using older unfolding keeps_def by force
  have h: "rooted H h" using C v(2) unfolding consistent_def seen_ok_def by blast
  have "e_term (last L) < t'" if "L \<noteq> []" using L(2) that by simp
  then show ?case
  proof (cases "L = []")
    case True
    then show ?thesis
      using v(3) rooted_last_most [OF h gh gl(1)] by (auto simp: at_least_def tip_def)
  next
    case False
    then have "e_term (last L) < t'" using L(2) by simp
    then show ?thesis
      using older by (intro ahead_has [OF C L(1) h gh gl v(3)]) auto
  qed
qed

text \<open>So every log that a leader of a later term has ever had starts with it.\<close>

lemma chosen_in_leads:
  assumes "consistent names B H" "chosen names H t g" "(t', h) \<in> leads H" "t < t'"
  shows "prefix g h"
proof -
  obtain j Q L where "(t', j, Q, L) \<in> wins H" "prefix L h"
    using assms(1,3) unfolding consistent_def leads_ok_def by blast
  then show ?thesis
    using chosen_kept [OF assms(1,2) _ assms(4)] prefix_order.order_trans by blast
qed

end
