(* ===== verification/Raft_Replication.thy ===== *)
theory Raft_Replication
  imports Raft_History
begin

text \<open>
  What every operation of a Raft node does to its log, to what it knows of the logs of its peers and to the
  messages about logs that it sends, for a node without a snapshot directory. \<open>quiet\<close> describes the operations
  that change none of them and send at most parts of the log of a leader; \<open>repl_step\<close> describes all of them.
\<close>

section \<open>Plain nodes\<close>

text \<open>A node that takes no snapshots and whose log starts at index 1.\<close>

definition plain :: "raft_node \<Rightarrow> bool" where
  "plain n \<longleftrightarrow> mem_inv (rlog n) \<and> snapshot_last_term (rlog n) = 0 \<and> last_snapshot n = None
     \<and> \<not> snapshot_dir n \<and> 0 \<le> cur_term n"

abbreviation log_of :: "raft_node \<Rightarrow> entry list" where
  "log_of n \<equiv> entries (rlog n)"

text \<open>The previous index and term and the entries of an AppendEntries message are taken from the log \<open>h\<close>.\<close>

definition piece :: "entry list \<Rightarrow> int \<Rightarrow> int \<Rightarrow> entry list \<Rightarrow> bool" where
  "piece h prev pt es \<longleftrightarrow> 0 \<le> prev \<and> (\<exists>k. es = take k (drop (nat prev) h))
     \<and> pt = (if prev = 0 then 0 else if prev \<le> int (length h) then e_term (h ! nat (prev - 1)) else -1)"

lemma py_take_take: "\<exists>k. py_take i xs = take k xs"
  by (auto simp: py_take_def)

lemma entries_from_piece:
  assumes "mem_inv l" "1 \<le> ni"
  shows "piece (entries l) (ni - 1) (term_at l (ni - 1)) (entries_from l ni k)"
proof -
  have "first_index l = 1" using assms(1) by (simp add: mem_inv_def)
  then have "\<exists>k'. entries_from l ni k = take k' (drop (nat (ni - 1)) (entries l))"
    using py_take_take [of _ "drop (nat (ni - 1)) (entries l)"] assms(2)
    by (cases k) (auto simp: entries_from_def Let_def intro!: exI [of _ "length (entries l)"])
  then show ?thesis
    using assms by (simp add: piece_def mem_term [OF assms(1)])
qed

lemma piece_wf:
  assumes "piece h prev pt es" "wf_entries 1 h"
  shows "0 \<le> prev" "wf_entries (prev + 1) es"
proof -
  obtain k where k: "es = take k (drop (nat prev) h)" and p: "0 \<le> prev" using assms(1) by (auto simp: piece_def)
  show "0 \<le> prev" by (fact p)
  show "wf_entries (prev + 1) es"
  proof (cases "nat prev \<le> length h")
    case True
    then show ?thesis using wf_entries_drop [OF assms(2) True] p k by (simp add: wf_entries_take add.commute)
  qed (simp add: k)
qed

lemma plain_snapshot: "plain n \<Longrightarrow> snapshot_last_index (rlog n) = 0"
  by (simp add: plain_def mem_inv_def log_wf_def)

lemma plain_due: "plain n \<Longrightarrow> \<not> snapshot_due n"
  by (simp add: plain_def snapshot_due_def split: option.splits)

lemma plain_tip:
  assumes "plain n"
  shows "progress n = tip (log_of n)"
proof -
  have "last_index (rlog n) = int (length (log_of n))"
    using assms mem_last by (simp add: plain_def)
  then show ?thesis
    using plain_snapshot [OF assms] by (auto simp: progress_def Let_def tip_def last_term_def)
qed

section \<open>Quiet operations\<close>

definition rep_view where
  "rep_view n = (rlog n, snapshot_dir n, last_snapshot n, match_index n)"

fun fine :: "raft_node \<Rightarrow> message \<Rightarrow> bool" where
  "fine n (M_append t l prev pt es c) \<longleftrightarrow> node_role n = LEADER \<and> t = cur_term n \<and> piece (log_of n) prev pt es"
| "fine n (M_vote t j li lt) \<longleftrightarrow> False"
| "fine n (M_append_resp t v ok k c) \<longleftrightarrow> \<not> ok"
| "fine n (M_install_snapshot t l i it d) \<longleftrightarrow> i = 0 \<and> it = 0"
| "fine n m \<longleftrightarrow> True"

definition quiet :: "raft_node \<Rightarrow> raft_node \<Rightarrow> bool" where
  "quiet n n' \<longleftrightarrow> calm n n' \<and> (clean n \<and> plain n \<longrightarrow> rep_view n' = rep_view n
     \<and> (\<forall>d m. (d, m) \<in> set (outbox n') \<longrightarrow> (d, m) \<in> set (outbox n) \<or> fine n m))"

named_theorems quiet_intros \<open>operations that leave the log and the knowledge of peers alone\<close>

lemma fine_cong: "node_role n' = node_role n \<Longrightarrow> cur_term n' = cur_term n \<Longrightarrow> rlog n' = rlog n \<Longrightarrow> fine n' m = fine n m"
  by (cases m) simp_all

lemma quiet_calm: "quiet n n' \<Longrightarrow> calm n n'"
  by (simp add: quiet_def)

lemma quiet_facts:
  assumes "quiet n n'" "clean n" "plain n"
  shows "clean n'" "plain n'" "node_id n' = node_id n" "peers n' = peers n" "persister n' = persister n"
    "cur_term n' = cur_term n" "node_role n' = node_role n" "votes n' = votes n" "rlog n' = rlog n" "match_index n' = match_index n"
    "fine n' = fine n" "(d, m) \<in> set (outbox n') \<Longrightarrow> (d, m) \<in> set (outbox n) \<or> fine n m"
proof -
  note c = calm_facts [OF quiet_calm [OF assms(1)] assms(2)]
  show "clean n'" "node_id n' = node_id n" "peers n' = peers n" "persister n' = persister n" "cur_term n' = cur_term n"
    "node_role n' = node_role n" "votes n' = votes n"
    using c by (simp_all add: cur_term_def)
  have v: "rep_view n' = rep_view n" using assms by (simp add: quiet_def)
  then show "rlog n' = rlog n" "match_index n' = match_index n" by (simp_all add: rep_view_def)
  show "plain n'" using v c(8) assms(3) by (simp add: rep_view_def plain_def cur_term_def)
  show "fine n' = fine n" using v c by (intro ext fine_cong) (simp_all add: rep_view_def cur_term_def)
  show "(d, m) \<in> set (outbox n') \<Longrightarrow> (d, m) \<in> set (outbox n) \<or> fine n m"
    using assms by (auto simp: quiet_def)
qed

lemma quiet_refl [quiet_intros]: "quiet n n"
  by (simp add: quiet_def calm_refl)

lemma quiet_trans:
  assumes "quiet a b" "quiet b c"
  shows "quiet a c"
proof (cases "clean a \<and> plain a")
  case True
  then have b: "clean b" "plain b" "fine b = fine a" using quiet_facts [OF assms(1)] by simp_all
  have "rep_view c = rep_view a" using assms True b by (simp add: quiet_def)
  moreover have "(d, m) \<in> set (outbox a) \<or> fine a m" if "(d, m) \<in> set (outbox c)" for d m
    using that b True assms unfolding quiet_def by metis
  ultimately show ?thesis
    using calm_trans [OF quiet_calm quiet_calm, OF assms] by (simp add: quiet_def)
qed (use calm_trans [OF quiet_calm quiet_calm, OF assms] in \<open>auto simp: quiet_def\<close>)

lemma quiet_update:
  assumes "same_core n n'" "rep_view n' = rep_view n"
  shows "quiet n n'"
  using assms calm_core [OF assms(1)] by (simp add: quiet_def same_core_def)

lemmas quiet_simps = core_simps rep_view_def

lemma quiet_if [quiet_intros]: "(P \<Longrightarrow> quiet n a) \<Longrightarrow> (\<not> P \<Longrightarrow> quiet n b) \<Longrightarrow> quiet n (if P then a else b)"
  by simp

lemma quiet_reset [quiet_intros]: "quiet n (reset_election_deadline now b n)"
  by (rule quiet_update) (simp_all add: quiet_simps reset_election_deadline_def Let_def)

lemma quiet_send:
  assumes "calm n (send d m n)" "clean n \<Longrightarrow> plain n \<Longrightarrow> fine n m"
  shows "quiet n (send d m n)"
  using assms by (auto simp: quiet_def rep_view_def send_def)

lemma quiet_send_append:
  assumes "node_role n = LEADER"
  shows "quiet n (send_append p n)"
proof -
  define ni where "ni = dict_get (next_index n) p (last_index (rlog n) + 1)"
  show ?thesis
  proof (cases "plain n")
    case True
    then have l: "mem_inv (rlog n)" "first_index (rlog n) = 1" "last_snapshot n = None"
        "snapshot_last_index (rlog n) = 0" "snapshot_last_term (rlog n) = 0"
      using plain_snapshot by (auto simp: plain_def mem_inv_def)
    have "\<exists>m. send_append p n = send p m n \<and> fine n m"
    proof (cases "ni < 1")
      case True
      then show ?thesis using l by (auto simp: send_append_def ni_def Let_def intro!: exI)
    next
      case False
      then show ?thesis
        using l assms entries_from_piece [OF l(1), of ni] by (auto simp: send_append_def ni_def Let_def intro!: exI)
    qed
    then show ?thesis using calm_send_append quiet_send by metis
  qed (simp add: quiet_def calm_send_append)
qed

lemma send_append_role: "node_role (send_append p n) = node_role n"
  by (simp add: send_append_def send_def Let_def split: prod.splits)

lemma quiet_fold_send: "node_role n = LEADER \<Longrightarrow> quiet n (fold send_append ps n)"
proof (induction ps arbitrary: n)
  case (Cons p ps)
  then have "quiet (send_append p n) (fold send_append ps (send_append p n))"
    by (intro Cons.IH) (simp add: send_append_role)
  then show ?case using quiet_trans [OF quiet_send_append [OF Cons.prems]] by simp
qed (simp add: quiet_refl)

lemma quiet_send_all [quiet_intros]: "node_role n = LEADER \<Longrightarrow> quiet n (send_all_appends n)"
  by (simp add: send_all_appends_def quiet_fold_send)

lemma quiet_apply_entry:
  assumes "\<not> is_cfg (e_payload e)"
  shows "quiet n (snd (apply_entry now e n))"
  using assms unfolding apply_entry_def is_cfg_def
  by (intro quiet_update) (auto simp: quiet_simps Let_def split: option.splits sum.splits prod.splits)

lemma quiet_apply_loop: "quiet n (snd (apply_loop now n))"
proof (induction now n rule: apply_loop.induct)
  case (1 now n)
  show ?case
  proof (cases "applied_index n < commit_index n \<and> get_entry (rlog n) (applied_index n + 1) \<noteq> None")
    case False
    then show ?thesis
      by (subst apply_loop.simps) (auto intro!: quiet_refl quiet_update simp: quiet_simps)
  next
    case True
    then obtain e where e: "get_entry (rlog n) (applied_index n + 1) = Some e" by blast
    obtain r n1 where n1: "apply_entry now e n = (r, n1)" by fastforce
    have loop: "snd (apply_loop now n) = (case r of Inl _ \<Rightarrow> n1 | Inr _ \<Rightarrow> snd (apply_loop now n1))"
      using True e n1 by (subst apply_loop.simps) (simp split: sum.splits)
    have later: "quiet n1 (snd (apply_loop now n1))" if "r = Inr u" for u
      using 1 [OF _ e n1 [symmetric] that] True by simp
    have "quiet n n1" if "clean n"
    proof -
      have "\<not> is_cfg (e_payload e)" using that get_entry_member [OF e] by (auto simp: clean_def no_cfg_def)
      then show ?thesis using quiet_apply_entry n1 by (metis snd_conv)
    qed
    then have "clean n \<Longrightarrow> quiet n (snd (apply_loop now n))"
      using loop later by (cases r) (auto intro: quiet_trans)
    then show ?thesis using calm_apply_loop by (auto simp: quiet_def)
  qed
qed

lemma quiet_apply_committed [quiet_intros]: "quiet n (snd (apply_committed now n))"
proof -
  obtain r n1 where n1: "apply_loop now n = (r, n1)" by fastforce
  then have q: "quiet n n1" using quiet_apply_loop [of n now] by simp
  have "snd (apply_committed now n) = n1" if "clean n" "plain n"
    using plain_due [OF quiet_facts(2) [OF q that]] n1 by (simp add: apply_committed_def split: sum.splits)
  with q show ?thesis
    using calm_apply_committed by (auto simp: quiet_def)
qed

lemma quiet_commit: "quiet n (n\<lparr>commit_index := c\<rparr>)"
  by (rule quiet_update) (simp_all add: quiet_simps)

lemma quiet_advance_loop: "quiet n (snd (advance_loop now low c n))"
proof (induction now low c n rule: advance_loop.induct)
  case (1 now low c n)
  have "quiet n (snd (apply_committed now (n\<lparr>commit_index := c\<rparr>)))"
    using quiet_commit quiet_apply_committed quiet_trans by blast
  with 1 show ?case by (subst advance_loop.simps) (simp add: quiet_refl)
qed

lemma quiet_advance_commit [quiet_intros]: "quiet n (snd (advance_commit now n))"
  by (simp add: advance_commit_def quiet_advance_loop)

section \<open>Steps\<close>

text \<open>The log stays, or a leader appends an entry of its term, or a follower merges what a message brings.\<close>

definition log_step :: "message option \<Rightarrow> raft_node \<Rightarrow> raft_node \<Rightarrow> bool" where
  "log_step i n n' \<longleftrightarrow> rlog n' = rlog n
     \<or> (node_role n' = LEADER \<and> (\<exists>x. log_of n' = log_of n @ [x] \<and> e_term x = cur_term n'))
     \<or> (node_role n' = FOLLOWER \<and> (\<exists>ldr prev pt es c. i = Some (M_append (cur_term n') ldr prev pt es c)
          \<and> rlog n' = snd (merge prev pt es (rlog n))))"

definition role_step :: "raft_node \<Rightarrow> raft_node \<Rightarrow> bool" where
  "role_step n n' \<longleftrightarrow>
     (node_role n' = CANDIDATE \<longrightarrow> cur_term n < cur_term n' \<and> rlog n' = rlog n
        \<or> node_role n = CANDIDATE \<and> cur_term n' = cur_term n \<and> rlog n' = rlog n)
     \<and> (node_role n' = LEADER \<longrightarrow> cur_term n < cur_term n'
        \<or> node_role n \<noteq> FOLLOWER \<and> cur_term n' = cur_term n)"

text \<open>A new vote is the node's own, in a new term, or goes to a candidate whose log is not behind.\<close>

definition vote_step :: "message option \<Rightarrow> raft_node \<Rightarrow> raft_node \<Rightarrow> bool" where
  "vote_step i n n' \<longleftrightarrow> (\<forall>j. voted_for (persister n') = Some j
       \<and> (cur_term n < cur_term n' \<or> voted_for (persister n) = None) \<longrightarrow>
     (j = node_id n \<and> node_role n' \<noteq> FOLLOWER \<and> cur_term n < cur_term n')
     \<or> (\<exists>li lt. i = Some (M_vote (cur_term n') j li lt) \<and> at_least (lt, li) (tip (log_of n))))"

definition tracked :: "raft_node \<Rightarrow> bool" where
  "tracked n \<longleftrightarrow> distinct (map fst (match_index n)) \<and> fst ` set (match_index n) \<subseteq> set (peers n)"

text \<open>What a leader believes of a peer it has from before or from an acknowledgement in its term.\<close>

definition match_step :: "message option \<Rightarrow> raft_node \<Rightarrow> raft_node \<Rightarrow> bool" where
  "match_step i n n' \<longleftrightarrow> (node_role n' = LEADER \<longrightarrow>
     ((node_role n = LEADER \<longrightarrow> tracked n) \<longrightarrow> tracked n')
     \<and> (\<forall>p k. (p, k) \<in> set (match_index n') \<longrightarrow> k \<le> 0
          \<or> (node_role n = LEADER \<and> cur_term n' = cur_term n \<and> (p, k) \<in> set (match_index n))
          \<or> (\<exists>c. i = Some (M_append_resp (cur_term n') p True k c))))"

definition accepted :: "message option \<Rightarrow> raft_node \<Rightarrow> raft_node \<Rightarrow> int \<Rightarrow> bool" where
  "accepted i n n' k \<longleftrightarrow> (\<exists>ldr prev pt es c. i = Some (M_append (cur_term n') ldr prev pt es c)
     \<and> prev \<le> last_index (rlog n) \<and> term_at (rlog n) prev = pt \<and> rlog n' = snd (merge prev pt es (rlog n))
     \<and> k = prev + int (length es))"

fun sent_ok :: "message option \<Rightarrow> raft_node \<Rightarrow> raft_node \<Rightarrow> message \<Rightarrow> bool" where
  "sent_ok i n n' (M_append t l prev pt es c) \<longleftrightarrow> t = cur_term n' \<and> piece (log_of n') prev pt es
     \<and> (node_role n' = LEADER \<or> node_role n = LEADER \<and> cur_term n' = cur_term n \<and> rlog n' = rlog n)"
| "sent_ok i n n' (M_vote t j li lt) \<longleftrightarrow> t = cur_term n' \<and> j = node_id n \<and> cur_term n < t
     \<and> (lt, li) = tip (log_of n) \<and> node_role n' \<noteq> FOLLOWER"
| "sent_ok i n n' (M_append_resp t v ok k c) \<longleftrightarrow>
     (ok \<longrightarrow> t = cur_term n' \<and> v = node_id n \<and> (k \<le> 0 \<or> accepted i n n' k))"
| "sent_ok i n n' (M_install_snapshot t l ix it d) \<longleftrightarrow> ix = 0 \<and> it = 0"
| "sent_ok i n n' m \<longleftrightarrow> True"

fun flat_in :: "message option \<Rightarrow> bool" where
  "flat_in (Some (M_append t l prev pt es c)) \<longleftrightarrow> 0 \<le> prev \<and> wf_entries (prev + 1) es \<and> no_cfg es"
| "flat_in (Some (M_install_snapshot t l ix it d)) \<longleftrightarrow> ix = 0 \<and> it = 0"
| "flat_in i \<longleftrightarrow> True"

definition repl_step :: "message option \<Rightarrow> raft_node \<Rightarrow> raft_node \<Rightarrow> bool" where
  "repl_step i n n' \<longleftrightarrow> (steady n \<and> plain n \<and> distinct (peers n) \<and> flat_in i \<longrightarrow>
     clean n' \<and> plain n' \<and> log_step i n n' \<and> role_step n n' \<and> vote_step i n n' \<and> match_step i n n'
     \<and> (\<forall>d m. (d, m) \<in> set (outbox n') \<longrightarrow> (d, m) \<in> set (outbox n) \<or> sent_ok i n n' m))"

lemmas step_parts = log_step_def role_step_def vote_step_def match_step_def tracked_def

lemma sent_cong:
  "node_role n2 = node_role n1 \<Longrightarrow> cur_term n2 = cur_term n1 \<Longrightarrow> rlog n2 = rlog n1 \<Longrightarrow> sent_ok i n n2 m = sent_ok i n n1 m"
  by (cases m) (simp_all add: accepted_def)

lemma fine_sent: "fine n' m \<Longrightarrow> sent_ok i n n' m"
  by (cases m) simp_all

lemma parts_cong:
  assumes "persister n2 = persister n1" "node_role n2 = node_role n1" "rlog n2 = rlog n1"
    "match_index n2 = match_index n1" "peers n2 = peers n1"
  shows "log_step i n n2 = log_step i n n1" "role_step n n2 = role_step n n1" "vote_step i n n2 = vote_step i n n1"
    "match_step i n n2 = match_step i n n1" "sent_ok i n n2 m = sent_ok i n n1 m"
  using assms sent_cong [of n2 n1 i n m] by (simp_all add: step_parts cur_term_def)

lemma repl_then:
  assumes "repl_step i n n1" "quiet n1 n2"
  shows "repl_step i n n2"
proof (cases "steady n \<and> plain n \<and> distinct (peers n) \<and> flat_in i")
  case True
  then have n1: "clean n1" "plain n1" "log_step i n n1" "role_step n n1" "vote_step i n n1" "match_step i n n1"
    "\<And>d m. (d, m) \<in> set (outbox n1) \<Longrightarrow> (d, m) \<in> set (outbox n) \<or> sent_ok i n n1 m"
    using assms(1) unfolding repl_step_def by simp_all
  note q = quiet_facts [OF assms(2) n1(1,2)]
  note same = parts_cong [OF q(5,7,9,10,4)]
  have "(d, m) \<in> set (outbox n) \<or> sent_ok i n n2 m" if "(d, m) \<in> set (outbox n2)" for d m
    using q(12) [OF that] n1(7) [of d m] fine_sent [of n1 m i n] by (auto simp: same(5))
  then show ?thesis
    using n1(3-6) q(1,2) unfolding repl_step_def same by blast
qed (auto simp: repl_step_def)

text \<open>One more message.\<close>

lemma repl_send:
  assumes "repl_step i n n1" "sent_ok i n n1 x" "clean_msg x"
  shows "repl_step i n (send d x n1)"
proof -
  let ?n = "send d x n1"
  have "persister ?n = persister n1" "node_role ?n = node_role n1" "rlog ?n = rlog n1" "match_index ?n = match_index n1"
    "peers ?n = peers n1" by (simp_all add: send_def)
  note same = parts_cong [OF this]
  show ?thesis
    unfolding repl_step_def
  proof (intro impI)
    assume ok: "steady n \<and> plain n \<and> distinct (peers n) \<and> flat_in i"
    note n1 = assms(1) [unfolded repl_step_def, rule_format, OF ok]
    have "clean ?n" "plain ?n"
      using n1 assms(3) by (simp_all add: clean_def plain_def send_def cur_term_def)
    moreover have "(e, y) \<in> set (outbox n) \<or> sent_ok i n ?n y" if "(e, y) \<in> set (outbox ?n)" for e y
      using that n1 assms(2) unfolding same by (auto simp: send_def)
    ultimately show "clean ?n \<and> plain ?n \<and> log_step i n ?n \<and> role_step n ?n \<and> vote_step i n ?n \<and> match_step i n ?n
      \<and> (\<forall>d m. (d, m) \<in> set (outbox ?n) \<longrightarrow> (d, m) \<in> set (outbox n) \<or> sent_ok i n ?n m)"
      using n1 by (simp add: same)
  qed
qed

lemma repl_refl: "repl_step i n n"
  by (auto simp: repl_step_def step_parts steady_clean)

lemma repl_quiet: "quiet n n' \<Longrightarrow> repl_step i n n'"
  using repl_refl repl_then by blast

section \<open>Operations of a leader\<close>

lemma repl_append_entry:
  assumes "node_role n = LEADER" "append_entry (cur_term n) payload (rlog n) = (e, l)" "\<not> is_cfg payload"
  shows "repl_step i n (n\<lparr>rlog := l\<rparr>)"
proof (cases "steady n \<and> plain n")
  case True
  let ?n = "n\<lparr>rlog := l\<rparr>"
  have e: "e = \<lparr>e_index = last_index (rlog n) + 1, e_term = cur_term n, e_payload = payload\<rparr>" "entries l = log_of n @ [e]"
      "snapshot_last_term l = snapshot_last_term (rlog n)"
    using assms(2) by (auto simp: append_entry_def Let_def)
  have "mem_inv l"
    using mem.app_view [of "rlog n" e "cur_term n" payload] True e assms(2) by (auto simp: plain_def)
  then have "plain ?n" using True e(3) by (simp add: plain_def cur_term_def)
  moreover have "clean ?n"
    using steady_clean [of n] True e assms(3) by (auto simp: clean_def no_cfg_def)
  moreover have "log_step i n ?n"
    using assms(1) e by (auto simp: log_step_def cur_term_def)
  ultimately show ?thesis
    using assms(1) by (auto simp: repl_step_def role_step_def vote_step_def match_step_def tracked_def cur_term_def)
qed (auto simp: repl_step_def)

lemma repl_propose:
  assumes "\<not> is_cfg payload"
  shows "repl_step i n (snd (propose now payload n))"
proof (cases "node_role n \<noteq> LEADER \<or> transfer_target n \<noteq> None")
  case True
  then show ?thesis by (auto simp: propose_def repl_refl)
next
  case False
  obtain e l where el: "append_entry (cur_term n) payload (rlog n) = (e, l)" by fastforce
  obtain r n1 where n1: "advance_commit now (n\<lparr>rlog := l\<rparr>) = (r, n1)" by fastforce
  have "quiet (n\<lparr>rlog := l\<rparr>) n1"
    using quiet_advance_commit [of "n\<lparr>rlog := l\<rparr>" now] n1 by simp
  then have s1: "repl_step i n n1"
    using repl_then [OF repl_append_entry [OF _ el assms]] False by blast
  have res: "snd (propose now payload n) = (case r of Inl _ \<Rightarrow> n1 | Inr _ \<Rightarrow> send_all_appends n1)"
    using False el n1 by (simp add: propose_def split: sum.splits)
  show ?thesis
  proof (cases "steady n")
    case True
    have "calm n n1"
    proof -
      have "calm n (n\<lparr>rlog := l\<rparr>)"
        using append_entry_log [OF el] assms
        by (auto simp: calm_def clean_def no_cfg_def election_view_def vote_grants_def)
      then show ?thesis using quiet_calm [OF \<open>quiet (n\<lparr>rlog := l\<rparr>) n1\<close>] calm_trans by blast
    qed
    then have "node_role n1 = LEADER"
      using calm_facts(9) steady_clean [OF True] False by metis
    then have "quiet n1 (send_all_appends n1)" by (rule quiet_send_all)
    with s1 show ?thesis unfolding res by (cases r) (auto intro: repl_then)
  qed (simp add: repl_step_def)
qed

text \<open>Becoming leader, from the state in which the election was won.\<close>

lemma tracked_peers:
  assumes "distinct ps" "match_index n = []"
  shows "map fst (match_index (fold (track_peer now) ps n)) = ps \<and> snd ` set (match_index (fold (track_peer now) ps n)) \<subseteq> {0}"
proof -
  have "match_index (fold (track_peer now) ps n) = match_index n @ map (\<lambda>p. (p, 0)) ps"
    if "distinct ps" "fst ` set (match_index n) \<inter> set ps = {}" for ps and n :: raft_node
    using that
  proof (induction ps arbitrary: n)
    case (Cons p ps)
    have "match_index (track_peer now p n) = match_index n @ [(p, 0)]"
      using Cons.prems by (auto simp: track_peer_def intro!: dict_put_new)
    then show ?case using Cons.IH [of "track_peer now p n"] Cons.prems by auto
  qed simp
  then show ?thesis using assms by (auto simp: comp_def)
qed

lemma track_frame:
  "rlog (fold (track_peer now) ps n) = rlog n" "outbox (fold (track_peer now) ps n) = outbox n"
  "snapshot_dir (fold (track_peer now) ps n) = snapshot_dir n" "last_snapshot (fold (track_peer now) ps n) = last_snapshot n"
  "election_view (fold (track_peer now) ps n) = election_view n"
  by (induction ps arbitrary: n) (simp_all add: track_peer_def election_view_def)

lemma become_leader_step:
  fixes n now
  defines "n1 \<equiv> n\<lparr>node_role := LEADER, leader_id := Some (node_id n), pre_candidate := False,
      transfer_target := None, transfer_deadline := 0, match_index := [], next_index := []\<rparr>"
  defines "n2 \<equiv> fold (track_peer now) (peers n) n1"
  assumes "clean n"
  shows "repl_step None n2 (snd (become_leader now n))"
proof -
  define p where "p = (if state_machine n \<noteq> None then propose now NOOP n2 else (Inr None, n2))"
  obtain r n3 where n3: "p = (r, n3)" by fastforce
  have "repl_step None n2 (snd p)"
    by (simp add: p_def repl_refl repl_propose [OF NOOP_not_cfg])
  then have s3: "repl_step None n2 n3" using n3 by simp
  have role2: "node_role n2 = LEADER" "clean n2"
    using assms(3) track_frame [of now "peers n" n1] by (simp_all add: n2_def election_view_def n1_def clean_def)
  have "calm n2 (snd p)" by (simp add: p_def calm_refl calm_propose [OF NOOP_not_cfg])
  then have role: "node_role n3 = LEADER"
    using calm_facts(9) [of n2 n3] role2 n3 by simp
  have "quiet (send_all_appends n3) ((send_all_appends n3)\<lparr>next_heartbeat := now + heartbeat_interval n3,
        next_quorum_check := now + quorum_check_interval n3\<rparr>)"
    by (rule quiet_update) (simp_all add: quiet_simps)
  then have "quiet n3 ((send_all_appends n3)\<lparr>next_heartbeat := now + heartbeat_interval n3,
        next_quorum_check := now + quorum_check_interval n3\<rparr>)"
    using quiet_send_all [OF role] quiet_trans by blast
  moreover have "snd (become_leader now n) = (case r of Inl _ \<Rightarrow> n3
      | Inr _ \<Rightarrow> (send_all_appends n3)\<lparr>next_heartbeat := now + heartbeat_interval n3,
        next_quorum_check := now + quorum_check_interval n3\<rparr>)"
    unfolding become_leader_def Let_def n1_def [symmetric] n2_def [symmetric] p_def [symmetric] n3
    by (simp split: sum.splits)
  ultimately show ?thesis
    using s3 repl_then by (cases r) auto
qed

lemma sent_lift:
  assumes "sent_ok None n2 n' m" "cur_term n2 = cur_term n'" "node_role n' = LEADER" "node_id n2 = node_id n"
  shows "sent_ok i n n' m"
  using assms by (cases m) (auto simp: accepted_def)

lemma become_leader_facts:
  fixes n now
  assumes n: "steady n" "plain n" "distinct (peers n)"
  defines "n' \<equiv> snd (become_leader now n)"
  shows "clean n'" "plain n'" "node_role n' = LEADER" "persister n' = persister n" "tracked n'"
    "rlog n' = rlog n \<or> (\<exists>x. log_of n' = log_of n @ [x] \<and> e_term x = cur_term n)"
    "(p, k) \<in> set (match_index n') \<Longrightarrow> k \<le> 0" "peers n' = peers n"
    "(d, m) \<in> set (outbox n') \<Longrightarrow> node_id n = node_id n0 \<Longrightarrow> (d, m) \<in> set (outbox n) \<or> sent_ok i n0 n' m"
proof -
  define n1 where "n1 = n\<lparr>node_role := LEADER, leader_id := Some (node_id n), pre_candidate := False,
      transfer_target := None, transfer_deadline := 0, match_index := [], next_index := []\<rparr>"
  define n2 where "n2 = fold (track_peer now) (peers n) n1"
  have f: "rlog n2 = rlog n" "outbox n2 = outbox n" "plain n2" "steady n2" "peers n2 = peers n"
      "node_id n2 = node_id n" "cur_term n2 = cur_term n" "node_role n2 = LEADER" "persister n2 = persister n"
    using track_frame [of now "peers n" n1] n(1,2)
    by (simp_all add: n2_def n1_def plain_def steady_def clean_def election_view_def cur_term_def)
  have tr: "map fst (match_index n2) = peers n" "snd ` set (match_index n2) \<subseteq> {0}"
    using tracked_peers [OF n(3), of n1 now] by (simp_all add: n2_def n1_def)
  then have t2: "tracked n2" using n(3) f(5) by (simp add: tracked_def flip: set_map)
  have "repl_step None n2 n'"
    using become_leader_step [OF steady_clean [OF n(1)], of now] by (simp only: n'_def n2_def n1_def)
  then have s: "clean n'" "plain n'" "log_step None n2 n'" "match_step None n2 n'"
    "\<And>d m. (d, m) \<in> set (outbox n') \<Longrightarrow> (d, m) \<in> set (outbox n2) \<or> sent_ok None n2 n' m"
    using f n(3) unfolding repl_step_def by simp_all
  show "clean n'" "plain n'" by (fact s)+
  have "election_view n' = election_view (n\<lparr>node_role := LEADER, pre_candidate := False\<rparr>)"
    using calm_become_leader [of n now] steady_clean [OF n(1)] by (simp add: calm_def clean_def n'_def)
  then show v: "node_role n' = LEADER" "persister n' = persister n" "peers n' = peers n"
    by (simp_all add: election_view_def)
  show "rlog n' = rlog n \<or> (\<exists>x. log_of n' = log_of n @ [x] \<and> e_term x = cur_term n)"
    using s(3) v(1,2) f by (auto simp: log_step_def cur_term_def)
  show "tracked n'" using s(4) t2 v(1) by (simp add: match_step_def)
  show "k \<le> 0" if "(p, k) \<in> set (match_index n')"
    using s(4) v(1) that tr(2) by (fastforce simp: match_step_def)
  show "(d, m) \<in> set (outbox n) \<or> sent_ok i n0 n' m" if "(d, m) \<in> set (outbox n')" "node_id n = node_id n0"
    using s(5) [OF that(1)] sent_lift [of n2 n' m n0 i] f v that(2) by (auto simp: cur_term_def)
qed

section \<open>Elections\<close>

lemma broadcast_eq: "broadcast m n = n\<lparr>outbox := outbox n @ map (\<lambda>p. (p, m)) (peers n)\<rparr>"
proof -
  have "fold (\<lambda>p. send p m) ps n = n\<lparr>outbox := outbox n @ map (\<lambda>p. (p, m)) ps\<rparr>" for ps
    by (induction ps arbitrary: n) (simp_all add: send_def)
  then show ?thesis by (simp add: broadcast_def)
qed

text \<open>The state of a node that stands for election, before it may turn out to have won.\<close>

definition bid_state :: "rat \<Rightarrow> raft_node \<Rightarrow> raft_node" where
  "bid_state now n =
     (let n1 = n\<lparr>persister := save (cur_term n + 1) (Some (node_id n)) (persister n),
                 node_role := CANDIDATE, leader_id := None, votes := {node_id n}\<rparr>;
          n2 = reset_election_deadline now False n1
      in broadcast (M_vote (cur_term n2) (node_id n2) (snd (progress n2)) (fst (progress n2))) n2)"

lemma start_election_bid:
  "start_election now n =
     (let b = bid_state now n in
      if peers b = [] \<or> card (votes b) > (length (peers b) + 1) div 2 then become_leader now b else (Inr (), b))"
  by (simp add: start_election_def bid_state_def Let_def split_beta)

lemma bid_fields:
  "rlog (bid_state now n) = rlog n" "cur_term (bid_state now n) = cur_term n + 1"
  "voted_for (persister (bid_state now n)) = Some (node_id n)" "node_role (bid_state now n) = CANDIDATE"
  "peers (bid_state now n) = peers n" "node_id (bid_state now n) = node_id n" "snapshot_dir (bid_state now n) = snapshot_dir n"
  "last_snapshot (bid_state now n) = last_snapshot n" "config (bid_state now n) = config n"
  "old_config (bid_state now n) = old_config n" "use_prevote (bid_state now n) = use_prevote n"
  "pre_candidate (bid_state now n) = pre_candidate n"
  "outbox (bid_state now n) = outbox n @ map (\<lambda>p. (p, M_vote (cur_term n + 1) (node_id n) (snd (progress n)) (fst (progress n)))) (peers n)"
  by (simp_all add: bid_state_def broadcast_eq Let_def reset_election_deadline_def cur_term_def progress_def)

lemma bid_facts:
  assumes "steady n" "plain n"
  shows "plain (bid_state now n)" "steady (bid_state now n)"
    "(d, m) \<in> set (outbox (bid_state now n)) \<Longrightarrow>
       (d, m) \<in> set (outbox n) \<or> m = M_vote (cur_term n + 1) (node_id n) (snd (tip (log_of n))) (fst (tip (log_of n)))"
  using assms plain_tip [OF assms(2)] by (auto simp: plain_def steady_def clean_def bid_fields)

lemma repl_start_election: "repl_step i n (snd (start_election now n))"
proof (cases "steady n \<and> plain n \<and> distinct (peers n)")
  case True
  let ?b = "bid_state now n"
  have b: "plain ?b" "steady ?b" "distinct (peers ?b)" using True bid_facts by (simp_all add: bid_fields)
  have out: "(d, m) \<in> set (outbox n) \<or> sent_ok i n n' m"
    if "(d, m) \<in> set (outbox ?b)" "cur_term n' = cur_term n + 1" "node_role n' \<noteq> FOLLOWER" for d m n'
    using bid_facts(3) [of n d m now] that True by auto
  show ?thesis
  proof (cases "peers ?b = [] \<or> card (votes ?b) > (length (peers ?b) + 1) div 2")
    case False
    then have "snd (start_election now n) = ?b"
      by (simp add: start_election_bid Let_def)
    moreover have "repl_step i n ?b"
      using b(1,2) out [of _ _ ?b] by (auto simp: repl_step_def step_parts steady_clean bid_fields)
    ultimately show ?thesis by simp
  next
    case won: True
    let ?n = "snd (become_leader now ?b)"
    have res: "snd (start_election now n) = ?n"
      using won by (simp add: start_election_bid Let_def)
    note bl = become_leader_facts [where now = now, OF b(2,1,3)]
    have t: "cur_term ?n = cur_term n + 1" "voted_for (persister ?n) = Some (node_id n)"
      using bl(4) bid_fields(2,3) [of now n] by (simp_all add: cur_term_def)
    have "log_step i n ?n" using bl(3,6) t(1) by (auto simp: log_step_def bid_fields)
    moreover have "match_step i n ?n" using bl(5,7) by (auto simp: match_step_def)
    moreover have "role_step n ?n" "vote_step i n ?n"
      using t bl(3) by (auto simp: role_step_def vote_step_def)
    moreover have "(d, m) \<in> set (outbox n) \<or> sent_ok i n ?n m" if "(d, m) \<in> set (outbox ?n)" for d m
      using bl(9) [OF that, of n i] out [of d m ?n] t(1) bl(3) by (auto simp: bid_fields)
    ultimately show ?thesis
      using bl(1,2) unfolding res by (auto simp: repl_step_def)
  qed
qed (auto simp: repl_step_def)

lemma repl_prevote_or_election: "repl_step i n (snd (start_prevote_or_election now n))"
proof (cases "steady n")
  case True
  then have "n\<lparr>pre_candidate := False\<rparr> = n" "\<not> use_prevote n"
    by (simp_all add: steady_def)
  then have "start_prevote_or_election now n = start_election now n"
    by (simp add: start_prevote_or_election_def)
  then show ?thesis by (simp add: repl_start_election)
qed (simp add: repl_step_def)

lemma repl_vote_resp:
  assumes m: "m = M_vote_resp t v g"
  shows "repl_step i n (snd (on_vote_resp now m n))"
proof (cases "node_role n = CANDIDATE \<and> t = cur_term n \<and> g \<and> steady n \<and> plain n \<and> distinct (peers n)")
  case False
  then show ?thesis
    by (auto simp: on_vote_resp_def m repl_refl repl_step_def [of i n "snd (maybe_win _ _)"])
next
  case True
  define n1 where "n1 = n\<lparr>votes := insert v (votes n)\<rparr>"
  have n1: "steady n1" "plain n1" "distinct (peers n1)" "node_id n1 = node_id n" "rlog n1 = rlog n" "outbox n1 = outbox n"
      "persister n1 = persister n" "node_role n1 = CANDIDATE" "match_index n1 = match_index n" "peers n1 = peers n"
    using True by (simp_all add: n1_def steady_def plain_def clean_def cur_term_def)
  have res: "on_vote_resp now m n = maybe_win now n1"
    using True by (simp add: on_vote_resp_def m n1_def)
  show ?thesis
  proof (cases "has_majority (votes n1) n1")
    case False
    then have "snd (on_vote_resp now m n) = n1" using res by (simp add: maybe_win_def)
    then show ?thesis
      using n1 True by (auto simp: repl_step_def step_parts steady_clean cur_term_def)
  next
    case maj: True
    let ?n = "snd (become_leader now n1)"
    note bl = become_leader_facts [where now = now, OF n1(1-3)]
    have t: "cur_term ?n = cur_term n" "voted_for (persister ?n) = voted_for (persister n)" "cur_term n1 = cur_term n"
      using bl(4) n1(7) by (simp_all add: cur_term_def)
    have "log_step i n ?n" using bl(3,6) t n1(5) by (auto simp: log_step_def)
    moreover have "match_step i n ?n" using bl(5,7) by (auto simp: match_step_def)
    moreover have "role_step n ?n" "vote_step i n ?n"
      using t bl(3) True by (auto simp: role_step_def vote_step_def)
    moreover have "(d, x) \<in> set (outbox n) \<or> sent_ok i n ?n x" if "(d, x) \<in> set (outbox ?n)" for d x
      using bl(9) [OF that n1(4), of i] n1(6) by simp
    moreover have "snd (on_vote_resp now m n) = ?n" using res maj n1(8) by (simp add: maybe_win_def)
    ultimately show ?thesis
      using bl(1,2) by (auto simp: repl_step_def)
  qed
qed

section \<open>Messages\<close>

lemma step_down_fields:
  "rlog (step_down now t n) = rlog n" "rep_view (step_down now t n) = rep_view n" "outbox (step_down now t n) = outbox n"
  "node_id (step_down now t n) = node_id n" "node_role (step_down now t n) = FOLLOWER"
  "cur_term (step_down now t n) = max t (cur_term n)"
  "voted_for (persister (step_down now t n)) = (if t > cur_term n then None else voted_for (persister n))"
  "clean (step_down now t n) = clean n"
  by (auto simp: step_down_def reset_election_deadline_def Let_def rep_view_def cur_term_def clean_def)

lemma step_down_plain: "plain n \<Longrightarrow> plain (step_down now t n)"
  using step_down_fields [of now t n] by (auto simp: plain_def rep_view_def)

text \<open>A node that has become or stayed a follower without touching its log or casting a vote.\<close>

lemma repl_follower:
  assumes "rep_view n' = rep_view n" "node_role n' = FOLLOWER" "cur_term n \<le> cur_term n'" "clean n \<Longrightarrow> clean n'"
    and "voted_for (persister n') = None \<or> (cur_term n' = cur_term n \<and> voted_for (persister n') = voted_for (persister n))"
    and "\<And>d m. plain n \<Longrightarrow> clean n \<Longrightarrow> (d, m) \<in> set (outbox n') \<Longrightarrow> (d, m) \<in> set (outbox n) \<or> sent_ok i n n' m"
  shows "repl_step i n n'"
  using assms by (auto simp: repl_step_def step_parts rep_view_def plain_def steady_clean)

lemma repl_step_down: "repl_step i n (step_down now t n)"
  using step_down_fields [of now t n] by (intro repl_follower) auto

lemma repl_check_quorum:
  assumes "quiet n n2" "node_role n = LEADER"
  shows "repl_step i n ((check_quorum now n2)\<lparr>next_quorum_check := x\<rparr>)"
proof -
  let ?n = "check_quorum now n2"
  have "quiet ?n (?n\<lparr>next_quorum_check := x\<rparr>)"
    by (rule quiet_update) (simp_all add: quiet_simps)
  moreover have "repl_step i n ?n"
  proof (cases "?n = n2 \<or> \<not> (steady n \<and> plain n)")
    case True
    then show ?thesis
      using repl_quiet [OF assms(1), of i] by (elim disjE) (simp, auto simp: repl_step_def)
  next
    case False
    then have down: "?n = step_down now (cur_term n2) n2"
      by (auto simp: check_quorum_def Let_def split: option.splits if_splits)
    note q = quiet_facts [OF assms(1)]
    have n2: "clean n2" "plain n2" "cur_term n2 = cur_term n" "rlog n2 = rlog n" "persister n2 = persister n"
      using False q steady_clean by auto
    note sd = step_down_fields [of now "cur_term n2" n2]
    have out: "(d, m) \<in> set (outbox n) \<or> sent_ok i n ?n m" if "(d, m) \<in> set (outbox ?n)" for d m
    proof -
      have "(d, m) \<in> set (outbox n) \<or> fine n m"
        using that q(12) False steady_clean unfolding down sd by blast
      then show ?thesis
        using n2 sd assms(2) unfolding down by (cases m) auto
    qed
    have "clean ?n" "plain ?n" "log_step i n ?n" "role_step n ?n" "vote_step i n ?n" "match_step i n ?n"
      using n2 sd step_down_plain unfolding down by (auto simp: step_parts)
    then show ?thesis using out by (auto simp: repl_step_def)
  qed
  ultimately show ?thesis using repl_then by blast
qed

lemma repl_tick: "repl_step i n (snd (tick now n))"
proof (cases "node_role n = LEADER")
  case True
  define n1 where "n1 = (if truthy (transfer_target n) \<and> now \<ge> transfer_deadline n
      then send_all_appends (n\<lparr>transfer_target := None, transfer_deadline := 0\<rparr>) else n)"
  define n2 where "n2 = (if now \<ge> next_heartbeat n1
      then (send_all_appends n1)\<lparr>next_heartbeat := now + heartbeat_interval n1\<rparr> else n1)"
  have upd: "quiet n (n\<lparr>transfer_target := a, transfer_deadline := b\<rparr>)" "quiet n (n\<lparr>next_heartbeat := b\<rparr>)"
    for a b and n :: raft_node
    by (rule quiet_update, simp_all add: quiet_simps)+
  have role: "node_role (send_all_appends n) = node_role n" for n
    unfolding send_all_appends_def
  proof -
    show "node_role (fold send_append ps n) = node_role n" for ps
      by (induction ps arbitrary: n) (simp_all add: send_append_role)
  qed
  have "quiet n n1"
    unfolding n1_def using True by (auto intro!: quiet_refl quiet_trans [OF upd(1) quiet_send_all])
  moreover have "node_role n1 = LEADER" using True by (simp add: n1_def role)
  then have "quiet n1 n2"
    unfolding n2_def by (auto intro: quiet_refl quiet_trans [OF quiet_send_all upd(2)])
  ultimately have q: "quiet n n2" by (rule quiet_trans)
  have "snd (tick now n) = (if now \<ge> next_quorum_check n2
      then (check_quorum now n2)\<lparr>next_quorum_check := now + quorum_check_interval n2\<rparr> else n2)"
    using True unfolding tick_def Let_def n1_def [symmetric] n2_def [symmetric] by simp
  then show ?thesis
    using repl_check_quorum [OF q True] repl_quiet [OF q] by simp
qed (simp add: tick_def repl_refl repl_prevote_or_election)

lemma repl_transfer: "repl_step i n (snd (transfer_leadership now target n))"
proof -
  let ?n = "n\<lparr>transfer_target := Some target, transfer_deadline := now + election_max n * 2\<rparr>"
  have "quiet n ?n" by (rule quiet_update) (simp_all add: quiet_simps)
  moreover have "quiet ?n (send target (M_timeout_now (cur_term n)) ?n)"
    by (intro quiet_send calm_send) simp_all
  ultimately have "quiet n (snd (transfer_leadership now target n))"
    by (auto simp: transfer_leadership_def quiet_refl intro: quiet_trans)
  then show ?thesis by (rule repl_quiet)
qed

lemma repl_vote:
  assumes m: "m = M_vote t j li lt"
  shows "repl_step (Some m) n (snd (on_vote now m n))"
proof (cases "t < cur_term n")
  case True
  then have "snd (on_vote now m n) = send j (M_vote_resp (cur_term n) (node_id n) False) n"
    by (simp add: on_vote_def m)
  moreover have "quiet n (send j (M_vote_resp (cur_term n) (node_id n) False) n)"
    by (intro quiet_send calm_send) simp_all
  ultimately show ?thesis by (simp add: repl_quiet)
next
  case False
  define n1 where "n1 = (if t > cur_term n then step_down now t n else n)"
  define grant where "grant \<longleftrightarrow> (voted_for (persister n1) = None \<or> voted_for (persister n1) = Some j)
      \<and> at_least (lt, li) (progress n1)"
  have n1: "rep_view n1 = rep_view n" "outbox n1 = outbox n" "node_id n1 = node_id n" "clean n1 = clean n" "cur_term n1 = t"
      "plain n \<Longrightarrow> plain n1" "node_role n1 = FOLLOWER \<or> n1 = n"
      "voted_for (persister n1) = None \<or> (cur_term n = t \<and> voted_for (persister n1) = voted_for (persister n))"
    using False step_down_fields [of now t n] step_down_plain [of n now t] by (auto simp: n1_def)
  show ?thesis
  proof (cases grant)
    case no: False
    have "snd (on_vote now m n) = send j (M_vote_resp (cur_term n1) (node_id n1) False) n1"
      using False no unfolding on_vote_def m Let_def message.sel n1_def [symmetric] grant_def [symmetric] by simp
    moreover have "repl_step (Some m) n n1"
      using repl_step_down [of "Some m" n now t] by (simp add: n1_def repl_refl)
    moreover have "quiet n1 (send j (M_vote_resp (cur_term n1) (node_id n1) False) n1)"
      by (intro quiet_send calm_send) simp_all
    ultimately show ?thesis using repl_then by simp
  next
    case yes: True
    let ?n = "snd (on_vote now m n)"
    have res: "?n = send j (M_vote_resp t (node_id n) True)
        (reset_election_deadline now False (n1\<lparr>persister := save (cur_term n1) (Some j) (persister n1)\<rparr>))"
      using False yes n1(3,5) unfolding on_vote_def m Let_def message.sel n1_def [symmetric] grant_def [symmetric]
      by (simp add: reset_election_deadline_def cur_term_def)
    then have f: "rep_view ?n = rep_view n" "outbox ?n = outbox n @ [(j, M_vote_resp t (node_id n) True)]" "clean ?n = clean n"
        "cur_term ?n = t" "voted_for (persister ?n) = Some j" "node_role ?n = node_role n1" "peers ?n = peers n1"
      using n1 by (auto simp: send_def reset_election_deadline_def Let_def rep_view_def clean_def cur_term_def)
    have "vote_step (Some m) n ?n" if "plain n"
    proof -
      have "at_least (lt, li) (tip (log_of n))"
        using yes plain_tip [OF n1(6) [OF that]] n1(1) by (simp add: grant_def rep_view_def)
      then show ?thesis using f(4,5) by (auto simp: vote_step_def m)
    qed
    moreover have "plain ?n" if "plain n" using that f(1,4) False by (auto simp: plain_def rep_view_def)
    moreover have "log_step (Some m) n ?n" "role_step n ?n" "match_step (Some m) n ?n"
      using f n1(7,5) by (auto simp: step_parts rep_view_def)
    ultimately show ?thesis
      using f(2,3) steady_clean by (auto simp: repl_step_def)
  qed
qed

lemma merge_result:
  assumes "merge prev pt es l = ((ok, mat, conf), l')"
  shows "ok \<longleftrightarrow> prev \<le> last_index l \<and> term_at l prev = pt" "ok \<Longrightarrow> mat = prev + int (length es)" "\<not> ok \<Longrightarrow> l' = l"
    "snapshot_last_term l' = snapshot_last_term l"
proof -
  have "snapshot_last_term (snd (merge_scan k es l)) = snapshot_last_term l" for k
    by (induction k es l rule: merge_scan.induct) (simp_all add: Let_def)
  then show "ok \<longleftrightarrow> prev \<le> last_index l \<and> term_at l prev = pt" "ok \<Longrightarrow> mat = prev + int (length es)" "\<not> ok \<Longrightarrow> l' = l"
    "snapshot_last_term l' = snapshot_last_term l"
    using assms by (auto simp: merge_def Let_def split_beta split: if_splits option.splits)
qed

lemma repl_append:
  assumes m: "m = M_append t ldr prev pt es c"
  shows "repl_step (Some m) n (snd (on_append now m n))"
proof (cases "t < cur_term n")
  case True
  then have "snd (on_append now m n) = send ldr (M_append_resp (cur_term n) (node_id n) False 0 None) n"
    by (simp add: on_append_def m)
  moreover have "quiet n (send ldr (M_append_resp (cur_term n) (node_id n) False 0 None) n)"
    by (intro quiet_send calm_send) simp_all
  ultimately show ?thesis by (simp add: repl_quiet)
next
  case False
  define n1 where "n1 = (if t > cur_term n \<or> node_role n \<noteq> FOLLOWER then step_down now t n else n)"
  define n2 where "n2 = reset_election_deadline now False
      (n1\<lparr>node_role := FOLLOWER, leader_id := Some ldr, last_leader_contact := now\<rparr>)"
  obtain ok mat conf l where mg: "merge prev pt es (rlog n2) = ((ok, mat, conf), l)" by (metis prod.collapse)
  define n3 where "n3 = n2\<lparr>rlog := l\<rparr>"
  define p where "p = (if ok \<and> c > commit_index n3
      then apply_committed now (n3\<lparr>commit_index := min c (last_index l)\<rparr>) else (Inr (), n3))"
  obtain r n4 where n4: "p = (r, n4)" by fastforce
  have f2: "rep_view n2 = rep_view n" "outbox n2 = outbox n" "node_id n2 = node_id n" "clean n2 = clean n" "cur_term n2 = t"
      "node_role n2 = FOLLOWER" "voted_for (persister n2) = None \<or> (t = cur_term n \<and> voted_for (persister n2) = voted_for (persister n))"
    using False step_down_fields [of now t n]
    by (auto simp: n2_def n1_def reset_election_deadline_def Let_def rep_view_def clean_def cur_term_def)
  have q: "quiet n3 n4"
  proof -
    have "quiet n3 (snd p)"
      using quiet_trans [OF quiet_commit quiet_apply_committed] by (simp add: p_def quiet_refl)
    then show ?thesis by (simp add: n4)
  qed
  have res: "snd (on_append now m n) = (case r of Inl e \<Rightarrow> n4 | Inr _ \<Rightarrow> send ldr
      (M_append_resp (cur_term n4) (node_id n4) ok (if ok then mat else 0) (Some conf)) n4)"
    using False unfolding on_append_def m Let_def message.sel n1_def [symmetric] n2_def [symmetric] mg
      prod.case n3_def [symmetric] p_def [symmetric] n4 by (simp split: sum.splits)
  show ?thesis
  proof (cases "steady n \<and> plain n \<and> flat_in (Some m)")
    case True
    have r2: "rlog n2 = rlog n" using f2(1) by (simp add: rep_view_def)
    note mr = merge_result [OF mg [unfolded r2]]
    have l: "l = snd (merge prev pt es (rlog n))" using mg r2 by simp
    have "mem_inv l"
    proof (cases ok)
      case True
      then show ?thesis
        using mem.mrg_view [of "rlog n" prev pt es] mr(1) \<open>steady n \<and> plain n \<and> flat_in (Some m)\<close> l
        by (auto simp: plain_def m)
    next
      case False
      then show ?thesis using mr(3) True by (simp add: plain_def)
    qed
    then have "plain n3" using True mr(4) f2(1,5) False by (auto simp: plain_def n3_def rep_view_def cur_term_def)
    moreover have "clean n3"
      using no_cfg_merge [of "rlog n" es prev pt] l True f2(2) by (auto simp: clean_def n3_def m steady_def)
    moreover have "log_step (Some m) n n3" using f2(5,6) l by (auto simp: log_step_def n3_def m cur_term_def)
    moreover have "role_step n n3" "vote_step (Some m) n n3" "match_step (Some m) n n3"
      using f2(5,6,7) by (auto simp: step_parts n3_def cur_term_def)
    ultimately have s3: "repl_step (Some m) n n3" using f2(2) by (simp add: repl_step_def n3_def)
    then have s4: "repl_step (Some m) n n4" using q by (rule repl_then)
    note q4 = quiet_facts [OF q \<open>clean n3\<close> \<open>plain n3\<close>]
    show ?thesis
    proof (cases r)
      case (Inl e)
      with s4 show ?thesis by (simp add: res)
    next
      case (Inr u)
      let ?x = "M_append_resp (cur_term n4) (node_id n4) ok (if ok then mat else 0) (Some conf)"
      have t4: "cur_term n4 = t" "node_id n4 = node_id n" "rlog n4 = l"
        using q4 f2(3,5) by (simp_all add: n3_def cur_term_def)
      have "sent_ok (Some m) n n4 ?x"
        using t4 mr(1,2) l by (auto simp: accepted_def m)
      then have "repl_step (Some m) n (send ldr ?x n4)" by (intro repl_send [OF s4]) simp_all
      then show ?thesis by (simp add: res Inr)
    qed
  qed (auto simp: repl_step_def)
qed

lemma repl_matched:
  assumes "node_role n = LEADER" "map_of (match_index n) p = Some mi"
    and "k = mi \<or> (\<exists>c. i = Some (M_append_resp (cur_term n) p True k c))"
  shows "repl_step i n (n\<lparr>match_index := dict_put p k (match_index n), next_index := x\<rparr>)"
proof -
  let ?n = "n\<lparr>match_index := dict_put p k (match_index n), next_index := x\<rparr>"
  have in_n: "(p, mi) \<in> set (match_index n)" using assms(2) by (rule map_of_SomeD)
  then have "p \<in> fst ` set (match_index n)" by force
  then have "tracked ?n" if "tracked n"
    using that dict_put_distinct [of "match_index n" p k] dict_put_keys [of p k "match_index n"]
    by (auto simp: tracked_def)
  moreover have "(q, l) \<in> set (match_index n) \<or> (\<exists>c. i = Some (M_append_resp (cur_term n) q True l c))"
    if "(q, l) \<in> set (match_index ?n)" for q l
    using that dict_put_set [of p k "match_index n"] in_n assms(3) by auto
  ultimately have "match_step i n ?n"
    using assms(1) by (auto simp: match_step_def cur_term_def)
  then show ?thesis
    using assms(1) steady_clean
    by (auto simp: repl_step_def log_step_def role_step_def vote_step_def plain_def clean_def cur_term_def)
qed

lemma repl_append_resp:
  assumes m: "m = M_append_resp t v ok k cf"
  shows "repl_step (Some m) n (snd (on_append_resp now m n))"
proof (cases "node_role n \<noteq> LEADER \<or> t \<noteq> cur_term n")
  case True
  then have "snd (on_append_resp now m n) = (if t > cur_term n then step_down now t n else n)"
    unfolding on_append_resp_def m message.sel by (simp only: if_True snd_conv)
  then show ?thesis by (simp add: repl_refl repl_step_down)
next
  case False
  define n1 where "n1 = n\<lparr>last_peer_ack := dict_put v now (last_peer_ack n)\<rparr>"
  have q1: "quiet n n1" by (rule quiet_update) (simp_all add: quiet_simps n1_def)
  have n1: "node_role n1 = LEADER" "cur_term n1 = t" "match_index n1 = match_index n" using False by (simp_all add: n1_def cur_term_def)
  show ?thesis
  proof (cases ok)
    case True
    show ?thesis
    proof (cases "map_of (match_index n1) v")
      case None
      then have "snd (on_append_resp now m n) = n1"
        using False True unfolding on_append_resp_def m Let_def message.sel n1_def [symmetric] by simp
      then show ?thesis using q1 by (simp add: repl_quiet)
    next
      case (Some mi)
      define n2 where "n2 = n\<lparr>match_index := dict_put v (max mi k) (match_index n), next_index := dict_put v (max mi k + 1) (next_index n)\<rparr>"
      let ?n2 = "n1\<lparr>match_index := dict_put v (max mi k) (match_index n1), next_index := dict_put v (max mi k + 1) (next_index n1)\<rparr>"
      have "snd (on_append_resp now m n) = snd (advance_commit now ?n2)"
        using False True Some unfolding on_append_resp_def m Let_def message.sel n1_def [symmetric] by simp
      moreover have "quiet n2 ?n2" by (rule quiet_update) (simp_all add: quiet_simps n1_def n2_def)
      then have "quiet n2 (snd (advance_commit now ?n2))" using quiet_advance_commit quiet_trans by blast
      moreover have "repl_step (Some m) n n2"
        unfolding n2_def using False True Some n1(3) by (intro repl_matched) (auto simp: m max_def)
      ultimately show ?thesis using repl_then by simp
    qed
  next
    case no: False
    show ?thesis
    proof (cases "map_of (next_index n1) v")
      case None
      then have "snd (on_append_resp now m n) = n1"
        using False no unfolding on_append_resp_def m Let_def message.sel n1_def [symmetric] by simp
      then show ?thesis using q1 by (simp add: repl_quiet)
    next
      case (Some ni)
      define hint where "hint = (case cf of None \<Rightarrow> ni - 1 | Some c \<Rightarrow> if c = 0 then ni - 1 else c)"
      let ?n2 = "n1\<lparr>next_index := dict_put v (max 1 (min (ni - 1) hint)) (next_index n1)\<rparr>"
      have "snd (on_append_resp now m n) = send_append v ?n2"
        using False no Some unfolding on_append_resp_def m Let_def message.sel n1_def [symmetric] by (simp add: hint_def)
      moreover have "quiet n1 ?n2" by (rule quiet_update) (simp_all add: quiet_simps)
      then have "quiet n ?n2" using q1 quiet_trans by blast
      then have "quiet n (send_append v ?n2)"
        by (rule quiet_trans) (rule quiet_send_append, simp add: n1(1))
      ultimately show ?thesis by (simp add: repl_quiet)
    qed
  qed
qed

lemma repl_install:
  assumes m: "m = M_install_snapshot t ldr ix it d"
  shows "repl_step (Some m) n (snd (on_install_snapshot now m n))"
proof (cases "t < cur_term n \<or> \<not> (ix = 0 \<and> it = 0)")
  case True
  then show ?thesis
  proof
    assume "t < cur_term n"
    then have "snd (on_install_snapshot now m n) = send ldr (M_append_resp (cur_term n) (node_id n) False 0 None) n"
      by (simp add: on_install_snapshot_def m)
    moreover have "quiet n (send ldr (M_append_resp (cur_term n) (node_id n) False 0 None) n)"
      by (intro quiet_send calm_send) simp_all
    ultimately show ?thesis by (simp add: repl_quiet)
  qed (auto simp: repl_step_def m)
next
  case False
  define n1 where "n1 = (if t > cur_term n \<or> node_role n \<noteq> FOLLOWER then step_down now t n else n)"
  define n2 where "n2 = reset_election_deadline now False (n1\<lparr>leader_id := Some ldr, last_leader_contact := now\<rparr>)"
  define n4 where "n4 = n2\<lparr>commit_index := max (commit_index n2) 0\<rparr>"
  have res: "snd (on_install_snapshot now m n) = send ldr (M_append_resp (cur_term n4) (node_id n4) True 0 None) n4"
    using False unfolding on_install_snapshot_def m Let_def message.sel n1_def [symmetric] n2_def [symmetric]
    by (simp add: n4_def)
  have "rep_view n4 = rep_view n" "outbox n4 = outbox n" "node_id n4 = node_id n" "clean n4 = clean n" "cur_term n4 = t"
      "node_role n4 = FOLLOWER" "voted_for (persister n4) = None \<or> (t = cur_term n \<and> voted_for (persister n4) = voted_for (persister n))"
    using False step_down_fields [of now t n]
    by (auto simp: n4_def n2_def n1_def reset_election_deadline_def Let_def rep_view_def clean_def cur_term_def)
  then have "repl_step (Some m) n n4" "node_id n4 = node_id n" "cur_term n4 = t"
    using False by (auto intro!: repl_follower)
  then show ?thesis unfolding res by (intro repl_send) simp_all
qed

lemma repl_handle: "repl_step (Some m) n (snd (handle now m n))"
proof (cases m)
  case (M_prevote t c li lt)
  then show ?thesis
    by (auto simp: handle_def on_prevote_def Let_def intro!: repl_quiet quiet_send calm_send)
next
  case (M_prevote_resp t v g)
  then have "steady n \<Longrightarrow> handle now m n = (Inr (), n)"
    by (simp add: handle_def on_prevote_resp_def steady_def)
  then show ?thesis
    by (cases "steady n") (simp_all add: repl_refl repl_step_def)
next
  case (M_timeout_now t)
  then show ?thesis
    by (auto simp: handle_def on_timeout_now_def repl_refl repl_start_election)
qed (auto simp: handle_def repl_vote repl_vote_resp repl_append repl_append_resp repl_install)

end
