(* ===== verification/Raft_Cluster.thy ===== *)
theory Raft_Cluster
  imports Raft_Replication
begin

text \<open>
  A cluster whose nodes keep their whole log: the same steps as in \<open>Raft_Election\<close>, but a node restarts with the log it had
  and takes no snapshots. Each step extends the history of the cluster, and the invariant ties nodes and messages
  to it. Log matching and leader completeness follow.
\<close>

section \<open>Merging a piece of a leader's log\<close>

lemma agree_stop: "agree as bs < length as \<Longrightarrow> agree as bs < length bs \<Longrightarrow> e_term (as ! agree as bs) \<noteq> e_term (bs ! agree as bs)"
  by (induction as bs rule: agree.induct) auto

lemma mem_wf: "mem_inv l \<Longrightarrow> wf_entries 1 (entries l)"
  using log_wf_entries [of l] by (simp add: mem_inv_def)

lemma comparable_nth:
  assumes "prefix g h \<or> prefix h g" "k < length g" "k < length h"
  shows "g ! k = h ! k"
  using assms by (auto simp: prefix_def nth_append)

text \<open>A log with the same roots as \<open>h\<close> that has the previous entry of a piece of \<open>h\<close> agrees with \<open>h\<close> up to it.\<close>

lemma piece_start:
  assumes H: "leads_ok H" "rooted H (entries l)" "rooted H h" and l: "mem_inv l" and p: "piece h prev pt es"
    and ok: "prev \<le> last_index l" "term_at l prev = pt"
  shows "nat prev \<le> length (entries l)" "nat prev \<le> length h" "take (nat prev) (entries l) = take (nat prev) h"
proof -
  define q where "q = nat prev"
  let ?E = "entries l"
  have prev: "0 \<le> prev" using p by (simp add: piece_def)
  have len: "q \<le> length ?E" using ok(1) mem_last [OF l] by (auto simp: q_def)
  have pt: "term_at l prev = (if prev = 0 then 0 else e_term (?E ! (q - 1)))"
    using mem_term [OF l, of prev] len prev by (auto simp: q_def nat_diff_distrib)
  have "?E ! (q - 1) \<in> set ?E" if "prev \<noteq> 0" using that len prev by (intro nth_mem) (auto simp: q_def)
  then have "prev = 0 \<or> 0 \<le> term_at l prev" using pt H(2) by (auto simp: rooted_def wf_entries_def)
  then have hl: "q \<le> length h" and same: "prev \<noteq> 0 \<Longrightarrow> e_term (?E ! (q - 1)) = e_term (h ! (q - 1))"
    using p ok pt prev by (auto simp: piece_def q_def nat_diff_distrib nat_le_iff split: if_splits)
  have "take q ?E = take q h"
  proof (cases "prev = 0")
    case False
    then have "Suc (q - 1) = q" using prev by (simp add: q_def)
    then show ?thesis
      using rooted_matching [OF H] same [OF False] len hl unfolding matching_def
      by (metis Suc_le_lessD min_less_iff_conj)
  qed (simp add: q_def)
  with len hl show "nat prev \<le> length ?E" "nat prev \<le> length h" "take (nat prev) ?E = take (nat prev) h"
    by (simp_all add: q_def)
qed

text \<open>Replacing a conflicting tail loses nothing that \<open>h\<close> has in common with the log.\<close>

lemma graft_keeps:
  assumes len: "q \<le> length E" "q \<le> length h" and es: "es = take k (drop q h)"
    and g: "prefix g E" "prefix g h \<or> prefix h g"
  shows "prefix g (graft q es E)"
proof -
  define j where "j = agree (drop q E) es"
  have jE: "q + j \<le> length E" using agree_le(1) [of "drop q E" es] len by (simp add: j_def)
  show ?thesis
  proof (cases "j = length es")
    case True
    with g(1) show ?thesis by (simp add: graft_def j_def)
  next
    case False
    then have gr: "graft q es E = take (q + j) E @ drop j es" by (simp add: graft_def j_def Let_def)
    have jl: "j < length es" using False agree_le(2) [of "drop q E" es] by (simp add: j_def)
    show ?thesis
    proof (cases "length g \<le> q + j")
      case True
      then have "prefix g (take (q + j) E)"
        using comparable_lengths [OF g(1) take_is_prefix [of "q + j" E]] jE by simp
      then show ?thesis by (simp add: gr prefix_prefix)
    next
      case beyond: False
      then have "q + j < length E" using g(1) prefix_length_le by fastforce
      then have "e_term (drop q E ! j) \<noteq> e_term (es ! j)"
        using agree_stop [of "drop q E" es] jl by (simp add: j_def)
      then have "e_term (E ! (q + j)) \<noteq> e_term (h ! (q + j))" using jl es len by simp
      moreover have "q + j < length h" using jl es by auto
      then have "h ! (q + j) = g ! (q + j)" using comparable_nth [OF g(2)] beyond by simp
      moreover have "E ! (q + j) = g ! (q + j)" using g(1) beyond by (auto simp: prefix_def nth_append)
      ultimately show ?thesis by simp
    qed
  qed
qed

text \<open>What merging a piece of \<open>h\<close> does to a log with the same roots.\<close>

lemma merge_piece:
  fixes l prev pt es
  assumes H: "leads_ok H" "rooted H (entries l)" "rooted H h" and l: "mem_inv l" and p: "piece h prev pt es"
  defines "l' \<equiv> snd (merge prev pt es l)"
  shows "l' = l \<or> prefix (entries l') h"
    and "prefix g (entries l) \<Longrightarrow> prefix g h \<or> prefix h g \<Longrightarrow> prefix g (entries l')"
    and "prev \<le> last_index l \<Longrightarrow> term_at l prev = pt \<Longrightarrow>
      take (nat prev + length es) (entries l') = take (nat prev + length es) h \<and> nat prev + length es \<le> length (entries l')"
proof -
  let ?E = "entries l" and ?q = "nat prev"
  obtain k where k: "es = take k (drop ?q h)" and prev: "0 \<le> prev" using p by (auto simp: piece_def)
  consider (no) "\<not> (prev \<le> last_index l \<and> term_at l prev = pt)" "l' = l"
    | (yes) "prev \<le> last_index l" "term_at l prev = pt" by (auto simp: l'_def merge_def)
  then have "(l' = l \<or> prefix (entries l') h) \<and> (prefix g ?E \<longrightarrow> prefix g h \<or> prefix h g \<longrightarrow> prefix g (entries l'))
    \<and> (prev \<le> last_index l \<longrightarrow> term_at l prev = pt \<longrightarrow> take (?q + length es) (entries l') = take (?q + length es) h
      \<and> ?q + length es \<le> length (entries l'))"
  proof cases
    case yes
    note st = piece_start [OF H l p yes]
    have "wf_entries 1 h" using H(3) by (simp add: rooted_def)
    then have "merge prev pt es l = ((True, prev + int (length es), 0), l\<lparr>entries := graft ?q es ?E\<rparr>)"
      using merge_accepts [of l prev pt es] yes l prev piece_wf [OF p] by (simp add: mem_inv_def)
    then have l': "l' = l\<lparr>entries := graft ?q es ?E\<rparr>" by (simp add: l'_def)
    have ag: "take (?q + length es) (entries l') = take (?q + length es) h"
      using graft_agrees [OF rooted_matching [OF H] st(3,1,2) k] by (simp add: l')
    have gl: "?q + length es \<le> length (entries l')" using graft_length [OF st(1)] by (simp add: l')
    have "l' = l \<or> length (entries l') = ?q + length es"
      using agree_le [of "drop ?q ?E" es] st(1) by (auto simp: l' graft_def Let_def)
    then have "l' = l \<or> prefix (entries l') h" using ag take_is_prefix by (metis order_refl take_all)
    moreover have "prefix g (entries l')" if "prefix g ?E" "prefix g h \<or> prefix h g"
      using graft_keeps [OF st(1,2) k that] by (simp add: l')
    ultimately show ?thesis using ag gl by blast
  qed auto
  then show "l' = l \<or> prefix (entries l') h"
    "prefix g (entries l) \<Longrightarrow> prefix g h \<or> prefix h g \<Longrightarrow> prefix g (entries l')"
    "prev \<le> last_index l \<Longrightarrow> term_at l prev = pt \<Longrightarrow>
      take (nat prev + length es) (entries l') = take (nat prev + length es) h \<and> nat prev + length es \<le> length (entries l')"
    by blast+
qed

section \<open>The invariant\<close>

definition leader_inv :: "history \<Rightarrow> ustr \<Rightarrow> raft_node \<Rightarrow> bool" where
  "leader_inv H i n \<longleftrightarrow> (cur_term n, log_of n) \<in> leads H
     \<and> (\<forall>h. (cur_term n, h) \<in> leads H \<longrightarrow> prefix h (log_of n))
     \<and> (i, cur_term n, log_of n) \<in> acks H \<and> tracked n
     \<and> (\<forall>p k. (p, k) \<in> set (match_index n) \<and> 0 < k \<longrightarrow> k \<le> int (length (log_of n))
          \<and> (p, cur_term n, take (nat k) (log_of n)) \<in> acks H)"

text \<open>What the history says of node \<open>i\<close> never lies in its future.\<close>

definition past_inv :: "history \<Rightarrow> ustr \<Rightarrow> raft_node \<Rightarrow> bool" where
  "past_inv H i n \<longleftrightarrow> (\<forall>t L. (t, i, L) \<in> bids H \<longrightarrow> t \<le> cur_term n)
     \<and> (\<forall>t Q L. (t, i, Q, L) \<in> wins H \<longrightarrow> t \<le> cur_term n \<and> (t = cur_term n \<longrightarrow> node_role n \<noteq> CANDIDATE))
     \<and> (\<forall>t g. (i, t, g) \<in> acks H \<longrightarrow> t \<le> cur_term n \<and> keeps H t g (log_of n) (cur_term n))
     \<and> (\<forall>t h. (i, t, h) \<in> seen H \<longrightarrow> t \<le> cur_term n)"

definition node_log_inv :: "ustr list \<Rightarrow> history \<Rightarrow> ustr \<Rightarrow> raft_node \<Rightarrow> bool" where
  "node_log_inv names H i n \<longleftrightarrow> plain n \<and> peers n = filter (\<lambda>p. p \<noteq> i) names
     \<and> rooted H (log_of n) \<and> (\<forall>e \<in> set (log_of n). e_term e \<le> cur_term n)
     \<and> (node_role n = LEADER \<longrightarrow> leader_inv H i n)
     \<and> (node_role n = CANDIDATE \<longrightarrow> (cur_term n, i, log_of n) \<in> bids H)
     \<and> past_inv H i n"

fun msg_inv :: "history \<Rightarrow> message \<Rightarrow> bool" where
  "msg_inv H (M_append t l prev pt es c) \<longleftrightarrow> (\<exists>h. (t, h) \<in> leads H \<and> piece h prev pt es)"
| "msg_inv H (M_vote t j li lt) \<longleftrightarrow> (\<exists>L. (t, j, L) \<in> bids H \<and> (lt, li) = tip L)"
| "msg_inv H (M_append_resp t v ok k c) \<longleftrightarrow> (ok \<and> 0 < k \<longrightarrow> (\<exists>g. (v, t, g) \<in> acks H \<and> int (length g) = k))"
| "msg_inv H (M_install_snapshot t l ix it d) \<longleftrightarrow> ix = 0 \<and> it = 0"
| "msg_inv H m \<longleftrightarrow> True"

definition log_inv :: "ustr list \<Rightarrow> cluster \<Rightarrow> history \<Rightarrow> bool" where
  "log_inv names c H \<longleftrightarrow> cluster_inv names c \<and> consistent names (ballots c) H
     \<and> (\<forall>i \<in> set names. node_log_inv names H i (nodes c i)) \<and> (\<forall>d m. (d, m) \<in> net c \<longrightarrow> msg_inv H m)"

lemma msg_inv_mono: "past H H' \<Longrightarrow> msg_inv H m \<Longrightarrow> msg_inv H' m"
  by (cases m) (auto simp: past_def)

text \<open>What a step of node \<open>i\<close> from the state \<open>n\<close> to \<open>n'\<close> adds to the history.\<close>

definition won :: "raft_node \<Rightarrow> raft_node \<Rightarrow> bool" where
  "won n n' \<longleftrightarrow> node_role n' = LEADER \<and> \<not> (node_role n = LEADER \<and> cur_term n' = cur_term n)"

definition stood :: "raft_node \<Rightarrow> raft_node \<Rightarrow> bool" where
  "stood n n' \<longleftrightarrow> node_role n' \<noteq> FOLLOWER \<and> cur_term n < cur_term n'"

definition voted :: "raft_node \<Rightarrow> raft_node \<Rightarrow> bool" where
  "voted n n' \<longleftrightarrow> voted_for (persister n') \<noteq> None \<and> (cur_term n < cur_term n' \<or> voted_for (persister n) = None)"

definition confirms :: "ustr \<Rightarrow> raft_node \<Rightarrow> entry list \<Rightarrow> bool" where
  "confirms i n' g \<longleftrightarrow> prefix g (log_of n') \<and> (node_role n' = LEADER
     \<or> (\<exists>d k c. (d, M_append_resp (cur_term n') i True k c) \<in> set (outbox n') \<and> 0 < k \<and> int (length g) \<le> k))"

definition chronicle :: "ustr \<Rightarrow> raft_node \<Rightarrow> raft_node \<Rightarrow> history \<Rightarrow> history" where
  "chronicle i n n' H =
     \<lparr>leads = leads H \<union> {(t, h). node_role n' = LEADER \<and> t = cur_term n' \<and> h = log_of n'},
      wins = wins H \<union> {(t, j, Q, L). won n n' \<and> t = cur_term n' \<and> j = i \<and> Q = votes n' \<and> L = log_of n},
      bids = bids H \<union> {(t, j, L). stood n n' \<and> t = cur_term n' \<and> j = i \<and> L = log_of n},
      seen = seen H \<union> {(v, t, h). voted n n' \<and> v = i \<and> t = cur_term n' \<and> h = log_of n
                        \<and> (\<forall>j Q L. (t, j, Q, L) \<notin> wins H)},
      acks = acks H \<union> {(v, t, g). v = i \<and> t = cur_term n' \<and> confirms i n' g}\<rparr>"

lemma past_chronicle: "past H (chronicle i n n' H)"
  by (auto simp: past_def chronicle_def)

text \<open>The facts about one step that the preservation lemmas share.\<close>

definition sound_step :: "ustr list \<Rightarrow> cluster \<Rightarrow> history \<Rightarrow> message option \<Rightarrow> ustr \<Rightarrow> raft_node \<Rightarrow> bool" where
  "sound_step names c H m i n' \<longleftrightarrow> log_inv names c H \<and> i \<in> set names \<and> repl_step m (nodes c i) n'
     \<and> vote_mono (nodes c i) n' \<and> identity n' = identity (nodes c i) \<and> cluster_inv names (commit_node i n' c)
     \<and> (\<forall>x. m = Some x \<longrightarrow> msg_inv H x \<and> clean_msg x)"

lemma sound_facts:
  assumes "sound_step names c H m i n'"
  shows "consistent names (ballots c) H" "leads_ok H" "node_log_inv names H i (nodes c i)"
    "node_inv names (ballots c) i (nodes c i)" "node_inv names (ballots c \<union> ballots_of i n') i (n'\<lparr>outbox := []\<rparr>)"
    "vote_mono (nodes c i) n'" "cur_term (nodes c i) \<le> cur_term n'" "peers n' = peers (nodes c i)" "node_id n' = i"
    "\<And>v t a b. (v, t, a) \<in> ballots c \<union> ballots_of i n' \<Longrightarrow> (v, t, b) \<in> ballots c \<union> ballots_of i n' \<Longrightarrow> a = b"
proof -
  have inv: "log_inv names c H" "i \<in> set names" "cluster_inv names (commit_node i n' c)"
    using assms by (simp_all add: sound_step_def)
  then show "consistent names (ballots c) H" "leads_ok H" "node_log_inv names H i (nodes c i)"
    by (auto simp: log_inv_def consistent_def)
  show n: "node_inv names (ballots c) i (nodes c i)" using inv by (auto simp: log_inv_def cluster_inv_def)
  show "node_inv names (ballots c \<union> ballots_of i n') i (n'\<lparr>outbox := []\<rparr>)"
    using inv(2,3) by (auto simp: cluster_inv_def commit_node_def)
  show "vote_mono (nodes c i) n'" using assms by (simp add: sound_step_def)
  then show "cur_term (nodes c i) \<le> cur_term n'" by (simp add: vote_mono_def)
  show "peers n' = peers (nodes c i)" "node_id n' = i"
    using assms n by (auto simp: sound_step_def identity_def node_inv_def)
  show "a = b" if "(v, t, a) \<in> ballots c \<union> ballots_of i n'" "(v, t, b) \<in> ballots c \<union> ballots_of i n'" for v t a b
    using inv(3) that by (auto simp: cluster_inv_def commit_node_def)
qed

lemma sound_repl:
  assumes S: "sound_step names c H m i n'"
  shows "clean n'" "plain n'" "log_step m (nodes c i) n'" "role_step (nodes c i) n'" "vote_step m (nodes c i) n'"
    "match_step m (nodes c i) n'" "\<And>d x. (d, x) \<in> set (outbox n') \<Longrightarrow> sent_ok m (nodes c i) n' x"
proof -
  note f = sound_facts [OF S]
  have "steady (nodes c i)" "outbox (nodes c i) = []" using f(4) by (simp_all add: node_inv_def)
  moreover have "plain (nodes c i)" using f(3) by (simp add: node_log_inv_def)
  moreover have "distinct names" using S by (simp add: sound_step_def log_inv_def cluster_inv_def)
  then have "distinct (peers (nodes c i))" using f(3) by (simp add: node_log_inv_def)
  moreover have "flat_in m"
  proof (cases m)
    case (Some x)
    then have "msg_inv H x" "clean_msg x" using S by (simp_all add: sound_step_def)
    moreover have "wf_entries 1 h" if "(t, h) \<in> leads H" for t h
      using f(2) that by (auto simp: leads_ok_def rooted_def)
    ultimately show ?thesis
      using piece_wf by (cases x) (auto simp: Some)
  qed simp
  moreover have "repl_step m (nodes c i) n'" using S by (simp add: sound_step_def)
  ultimately show "clean n'" "plain n'" "log_step m (nodes c i) n'" "role_step (nodes c i) n'" "vote_step m (nodes c i) n'"
    "match_step m (nodes c i) n'" "\<And>d x. (d, x) \<in> set (outbox n') \<Longrightarrow> sent_ok m (nodes c i) n' x"
    by (simp_all add: repl_step_def)
qed

section \<open>Elections that are won\<close>

lemma lead_votes:
  assumes S: "sound_step names c H m i n'" and "node_role n' = LEADER"
  shows "most_of names (votes n')" "v \<in> votes n' \<Longrightarrow> (v, cur_term n', i) \<in> ballots c \<union> ballots_of i n'"
proof -
  have "node_inv names (ballots c \<union> ballots_of i n') i (n'\<lparr>outbox := []\<rparr>)" by (rule sound_facts(5) [OF S])
  with assms(2) show "most_of names (votes n')" "v \<in> votes n' \<Longrightarrow> (v, cur_term n', i) \<in> ballots c \<union> ballots_of i n'"
    by (auto simp: node_inv_def most_of_def majority_def cur_term_def)
qed

text \<open>An election is won once.\<close>

lemma first_winner:
  assumes S: "sound_step names c H m i n'" and w: "won (nodes c i) n'"
  shows "(cur_term n', j, Q, L) \<notin> wins H"
proof
  assume in_H: "(cur_term n', j, Q, L) \<in> wins H"
  note f = sound_facts [OF S]
  have lead: "node_role n' = LEADER" using w by (simp add: won_def)
  have Q: "most_of names Q" "\<forall>v \<in> Q. (v, cur_term n', j) \<in> ballots c \<union> ballots_of i n'"
    using f(1) in_H unfolding consistent_def wins_ok_def by blast+
  have "\<forall>v \<in> votes n'. (v, cur_term n', i) \<in> ballots c \<union> ballots_of i n'"
    using lead_votes(2) [OF S lead] by blast
  from most.agree_on_choice [OF Q(1) lead_votes(1) [OF S lead] Q(2) this f(10)]
  have "j = i" by simp
  then have "cur_term n' \<le> cur_term (nodes c i)" "cur_term n' = cur_term (nodes c i) \<longrightarrow> node_role (nodes c i) \<noteq> CANDIDATE"
    using f(3) in_H unfolding node_log_inv_def past_inv_def by blast+
  with sound_repl(4) [OF S] w show False
    by (auto simp: role_step_def won_def intro: role.exhaust)
qed

lemma first_lead:
  assumes S: "sound_step names c H m i n'" and w: "won (nodes c i) n'"
  shows "(cur_term n', h) \<notin> leads H"
  using first_winner [OF S w] sound_facts(2) [OF S] unfolding leads_ok_def by blast

lemma win_bid:
  assumes S: "sound_step names c H m i n'" and w: "won (nodes c i) n'"
  shows "(cur_term n', i, log_of (nodes c i)) \<in> bids (chronicle i (nodes c i) n' H)"
proof (cases "cur_term (nodes c i) < cur_term n'")
  case True
  with w show ?thesis by (simp add: chronicle_def stood_def won_def)
next
  case False
  then have "node_role (nodes c i) \<noteq> FOLLOWER" "cur_term n' = cur_term (nodes c i)"
    using sound_repl(4) [OF S] w by (auto simp: role_step_def won_def)
  moreover from this have "node_role (nodes c i) = CANDIDATE"
    using w by (cases "node_role (nodes c i)") (auto simp: won_def)
  ultimately show ?thesis
    using sound_facts(3) [OF S] by (simp add: chronicle_def node_log_inv_def)
qed

section \<open>The log after a step\<close>

lemma log_cases:
  assumes S: "sound_step names c H m i n'"
  obtains (same) "rlog n' = rlog (nodes c i)"
  | (grown) x where "node_role n' = LEADER" "log_of n' = log_of (nodes c i) @ [x]" "e_term x = cur_term n'"
  | (merged) h prev pt es where "node_role n' = FOLLOWER" "(cur_term n', h) \<in> leads H" "piece h prev pt es"
      "rlog n' = snd (merge prev pt es (rlog (nodes c i)))"
proof -
  have "msg_inv H x" if "m = Some x" for x using S that by (simp add: sound_step_def)
  then show ?thesis
    using sound_repl(3) [OF S] that unfolding log_step_def by fastforce
qed

lemma lead_extends:
  assumes S: "sound_step names c H m i n'" and "node_role n' = LEADER"
  shows "prefix (log_of (nodes c i)) (log_of n')"
  using S by (cases rule: log_cases) (use assms(2) in auto)

lemma merge_of_lead:
  assumes S: "sound_step names c H m i n'" and "(cur_term n', h) \<in> leads H" "piece h prev pt es"
    and "rlog n' = snd (merge prev pt es (rlog (nodes c i)))"
  shows "log_of n' = log_of (nodes c i) \<or> prefix (log_of n') h"
    and "prefix g (log_of (nodes c i)) \<Longrightarrow> prefix g h \<or> prefix h g \<Longrightarrow> prefix g (log_of n')"
    and "prev \<le> last_index (rlog (nodes c i)) \<Longrightarrow> term_at (rlog (nodes c i)) prev = pt \<Longrightarrow>
      take (nat prev + length es) (log_of n') = take (nat prev + length es) h \<and> nat prev + length es \<le> length (log_of n')"
proof -
  note f = sound_facts [OF S]
  have n: "rooted H (log_of (nodes c i))" "mem_inv (rlog (nodes c i))"
    using f(3) by (simp_all add: node_log_inv_def plain_def)
  have "rooted H h" using f(2) assms(2) by (auto simp: leads_ok_def)
  note mp = merge_piece [OF f(2) n(1) this n(2) assms(3)]
  show "log_of n' = log_of (nodes c i) \<or> prefix (log_of n') h" using mp(1) by (auto simp: assms(4))
  show "prefix g (log_of (nodes c i)) \<Longrightarrow> prefix g h \<or> prefix h g \<Longrightarrow> prefix g (log_of n')"
    using mp(2) by (simp add: assms(4))
  show "prev \<le> last_index (rlog (nodes c i)) \<Longrightarrow> term_at (rlog (nodes c i)) prev = pt \<Longrightarrow>
      take (nat prev + length es) (log_of n') = take (nat prev + length es) h \<and> nat prev + length es \<le> length (log_of n')"
    using mp(3) by (simp add: assms(4))
qed

lemma new_log:
  assumes S: "sound_step names c H m i n'"
  shows "rooted (chronicle i (nodes c i) n' H) (log_of n')" "\<forall>e \<in> set (log_of n'). e_term e \<le> cur_term n'"
proof -
  let ?n = "nodes c i" and ?H = "chronicle i (nodes c i) n' H"
  note f = sound_facts [OF S]
  have n: "rooted H (log_of ?n)" "\<forall>e \<in> set (log_of ?n). e_term e \<le> cur_term n'"
    using f(3,7) by (auto simp: node_log_inv_def)
  note up = rooted_mono [OF past_chronicle]
  from S have "rooted ?H (log_of n') \<and> (\<forall>e \<in> set (log_of n'). e_term e \<le> cur_term n')"
  proof (cases rule: log_cases)
    case same
    with n up show ?thesis by simp
  next
    case (grown x)
    have "(e_term x, log_of n') \<in> leads ?H" using grown by (simp add: chronicle_def)
    moreover have "wf_entries 1 (log_of n')" using sound_repl(2) [OF S] mem_wf by (simp add: plain_def)
    ultimately have "rooted ?H (log_of ?n @ [x])"
      using n up grown by (intro rooted_snoc) auto
    with n grown show ?thesis by auto
  next
    case (merged h prev pt es)
    have h: "rooted H h" "\<forall>e \<in> set h. e_term e \<le> cur_term n'" using f(2) merged(2) by (auto simp: leads_ok_def)
    show ?thesis
      using merge_of_lead(1) [OF S merged(2-4)] n h(2) up rooted_prefix [OF h(1), of "log_of n'"] set_mono_prefix [of "log_of n'" h]
      by auto
  qed
  then show "rooted ?H (log_of n')" "\<forall>e \<in> set (log_of n'). e_term e \<le> cur_term n'" by simp_all
qed

text \<open>What a node has acknowledged it still has, or a later leader did not have it.\<close>

lemma acks_survive:
  assumes S: "sound_step names c H m i n'" and ack: "(i, t, g) \<in> acks H"
  shows "t \<le> cur_term n'" "keeps (chronicle i (nodes c i) n' H) t g (log_of n') (cur_term n')"
proof -
  let ?n = "nodes c i" and ?H = "chronicle i (nodes c i) n' H"
  note f = sound_facts [OF S]
  have k: "t \<le> cur_term ?n" "keeps H t g (log_of ?n) (cur_term ?n)"
    using f(3) ack by (auto simp: node_log_inv_def past_inv_def)
  then show t: "t \<le> cur_term n'" using f(7) by simp
  note up = keeps_mono [OF past_chronicle f(7)]
  from S show "keeps ?H t g (log_of n') (cur_term n')"
  proof (cases rule: log_cases)
    case same
    with up k show ?thesis by simp
  next
    case (grown x)
    then show ?thesis using keeps_longer [OF _ up [OF k(2)], of "log_of n'"] by simp
  next
    case (merged h prev pt es)
    note kept = merge_of_lead(2) [OF S merged(2-4), of g]
    show ?thesis
    proof (cases "prefix g (log_of ?n)")
      case False
      with up k(2) show ?thesis unfolding keeps_def by blast
    next
      case True
      show ?thesis
      proof (cases "t < cur_term n'")
        case later: True
        obtain j Q L where w: "(cur_term n', j, Q, L) \<in> wins H" "prefix L h"
          using f(2) merged(2) unfolding leads_ok_def by blast
        then have "(cur_term n', j, Q, L) \<in> wins ?H" by (simp add: chronicle_def)
        moreover have "prefix g (log_of n')" if "prefix g L"
          using kept [OF True] that w(2) prefix_order.order_trans by blast
        ultimately show ?thesis using later unfolding keeps_def by blast
      next
        case False
        then have "(i, cur_term n', g) \<in> acks H" using t ack by simp
        then obtain q where q: "(cur_term n', q) \<in> leads H" "prefix g q"
          using f(1) unfolding consistent_def acks_ok_def by blast
        then have "prefix q h \<or> prefix h q" using f(2) merged(2) unfolding leads_ok_def by blast
        then have "prefix g h \<or> prefix h g"
          using q(2) prefix_order.order_trans prefix_same_cases by blast
        then show ?thesis using kept [OF True] by (simp add: keeps_def)
      qed
    qed
  qed
qed

section \<open>The history stays consistent\<close>

lemma lead_covers:
  assumes S: "sound_step names c H m i n'" and "node_role n' = LEADER" "(cur_term n', h) \<in> leads H"
  shows "prefix h (log_of n')"
proof -
  have "\<not> won (nodes c i) n'" using first_lead [OF S] assms(3) by blast
  then have "node_role (nodes c i) = LEADER" "cur_term n' = cur_term (nodes c i)"
    using assms(2) by (auto simp: won_def)
  then have "prefix h (log_of (nodes c i))"
    using sound_facts(3) [OF S] assms(3) by (auto simp: node_log_inv_def leader_inv_def)
  then show ?thesis using lead_extends [OF S assms(2)] prefix_order.order_trans by blast
qed

lemma leads_preserved:
  assumes S: "sound_step names c H m i n'"
  shows "leads_ok (chronicle i (nodes c i) n' H)"
proof -
  let ?n = "nodes c i" and ?H = "chronicle i (nodes c i) n' H"
  have ok: "leads_ok H" by (rule sound_facts(2) [OF S])
  have root: "\<exists>j Q L. (cur_term n', j, Q, L) \<in> wins ?H \<and> prefix L (log_of n')" if lead: "node_role n' = LEADER"
  proof (cases "won ?n n'")
    case True
    then have "(cur_term n', i, votes n', log_of ?n) \<in> wins ?H" by (simp add: chronicle_def)
    then show ?thesis using lead_extends [OF S lead] by blast
  next
    case False
    then have "(cur_term n', log_of ?n) \<in> leads H"
      using sound_facts(3) [OF S] lead by (auto simp: won_def node_log_inv_def leader_inv_def)
    then obtain j Q L where "(cur_term n', j, Q, L) \<in> wins H" "prefix L (log_of ?n)"
      using ok unfolding leads_ok_def by blast
    then have "(cur_term n', j, Q, L) \<in> wins ?H" "prefix L (log_of n')"
      using lead_extends [OF S lead] prefix_order.order_trans by (auto simp: chronicle_def)
    then show ?thesis by blast
  qed
  have old: "rooted ?H h \<and> (\<forall>e \<in> set h. e_term e \<le> t) \<and> (\<exists>j Q L. (t, j, Q, L) \<in> wins ?H \<and> prefix L h)"
    if "(t, h) \<in> leads H" for t h
  proof -
    have "rooted H h" "\<forall>e \<in> set h. e_term e \<le> t" "\<exists>j Q L. (t, j, Q, L) \<in> wins H \<and> prefix L h"
      using ok that unfolding leads_ok_def by blast+
    then show ?thesis using rooted_mono [OF past_chronicle] by (auto simp: chronicle_def)
  qed
  have mem: "(t, h) \<in> leads ?H \<longleftrightarrow> (t, h) \<in> leads H \<or> (node_role n' = LEADER \<and> t = cur_term n' \<and> h = log_of n')" for t h
    by (simp add: chronicle_def)
  show ?thesis
    unfolding leads_ok_def
  proof (intro conjI [of "\<forall>t h. _ t h"] allI impI)
    fix t h
    assume "(t, h) \<in> leads ?H"
    then show "rooted ?H h \<and> (\<forall>e \<in> set h. e_term e \<le> t) \<and> (\<exists>j Q L. (t, j, Q, L) \<in> wins ?H \<and> prefix L h)"
      using old root new_log [OF S] unfolding mem by (elim disjE conjE) simp_all
  next
    fix t h h'
    assume "(t, h) \<in> leads ?H \<and> (t, h') \<in> leads ?H"
    then show "prefix h h' \<or> prefix h' h"
      using ok lead_covers [OF S] unfolding mem leads_ok_def by (elim conjE disjE) blast+
  qed
qed

lemma bids_preserved:
  assumes S: "sound_step names c H m i n'"
  shows "bids_ok (chronicle i (nodes c i) n' H)"
proof -
  let ?n = "nodes c i" and ?H = "chronicle i (nodes c i) n' H"
  note f = sound_facts [OF S]
  have ok: "bids_ok H" using f(1) by (simp add: consistent_def)
  have n: "rooted H (log_of ?n)" "\<forall>e \<in> set (log_of ?n). e_term e \<le> cur_term ?n" "\<And>t L. (t, i, L) \<in> bids H \<Longrightarrow> t \<le> cur_term ?n"
    using f(3) unfolding node_log_inv_def past_inv_def by blast+
  note up = rooted_mono [OF past_chronicle]
  have mem: "(t, j, L) \<in> bids ?H \<longleftrightarrow> (t, j, L) \<in> bids H \<or> (stood ?n n' \<and> t = cur_term n' \<and> j = i \<and> L = log_of ?n)" for t j L
    by (simp add: chronicle_def)
  have "rooted ?H L \<and> (\<forall>e \<in> set L. e_term e < t)" if "(t, j, L) \<in> bids ?H" for t j L
    using that ok n up unfolding mem bids_ok_def by (fastforce simp: stood_def)
  moreover have "L = L'" if "(t, j, L) \<in> bids ?H" "(t, j, L') \<in> bids ?H" for t j L L'
    using that ok n(3) unfolding mem bids_ok_def by (fastforce simp: stood_def)
  ultimately show ?thesis unfolding bids_ok_def by blast
qed

lemma seen_preserved:
  assumes S: "sound_step names c H m i n'"
  shows "seen_ok (chronicle i (nodes c i) n' H)"
proof -
  have "rooted H h" if "(v, t, h) \<in> seen (chronicle i (nodes c i) n' H)" for v t h
    using that sound_facts(1,3) [OF S] unfolding chronicle_def consistent_def seen_ok_def node_log_inv_def by auto
  then show ?thesis unfolding seen_ok_def using rooted_mono [OF past_chronicle] by blast
qed

text \<open>A vote that is cast goes to a log that is not behind, unless the election has been won already.\<close>

lemma new_ballot:
  assumes S: "sound_step names c H m i n'" and v: "voted (nodes c i) n'" "voted_for (persister n') = Some j"
  shows "(\<exists>h L. (i, cur_term n', h) \<in> seen (chronicle i (nodes c i) n' H)
      \<and> (cur_term n', j, L) \<in> bids (chronicle i (nodes c i) n' H) \<and> at_least (tip L) (tip h))
    \<or> (\<exists>j' Q L. (cur_term n', j', Q, L) \<in> wins H \<and> i \<notin> Q)"
proof (cases "\<exists>j' Q L. (cur_term n', j', Q, L) \<in> wins H")
  case True
  then obtain j' Q L where w: "(cur_term n', j', Q, L) \<in> wins H" by blast
  note f = sound_facts [OF S]
  have "i \<notin> Q"
  proof
    assume "i \<in> Q"
    then have "(i, cur_term n', j') \<in> ballots c" using f(1) w unfolding consistent_def wins_ok_def by blast
    then have "cur_term n' \<le> cur_term (nodes c i)"
      "cur_term n' = cur_term (nodes c i) \<longrightarrow> voted_for (persister (nodes c i)) = Some j'"
      using f(4) unfolding node_inv_def by blast+
    with v f(7) show False by (auto simp: voted_def)
  qed
  with w show ?thesis by blast
next
  case False
  let ?n = "nodes c i" and ?H = "chronicle i (nodes c i) n' H"
  have seen: "(i, cur_term n', log_of ?n) \<in> seen ?H" using False v by (auto simp: chronicle_def)
  have id: "node_id ?n = i" using sound_facts(4) [OF S] by (simp add: node_inv_def)
  have "(j = i \<and> stood ?n n') \<or> (\<exists>li lt. m = Some (M_vote (cur_term n') j li lt) \<and> at_least (lt, li) (tip (log_of ?n)))"
    using sound_repl(5) [OF S] v id by (auto simp: vote_step_def voted_def stood_def)
  then show ?thesis
  proof
    assume "j = i \<and> stood ?n n'"
    then have "(cur_term n', j, log_of ?n) \<in> bids ?H" by (simp add: chronicle_def)
    moreover have "at_least x x" for x by (simp add: at_least_def)
    ultimately show ?thesis using seen by blast
  next
    assume "\<exists>li lt. m = Some (M_vote (cur_term n') j li lt) \<and> at_least (lt, li) (tip (log_of ?n))"
    then obtain L where "(cur_term n', j, L) \<in> bids H" "at_least (tip L) (tip (log_of ?n))"
      using S by (auto simp: sound_step_def)
    then show ?thesis using seen by (auto simp: chronicle_def)
  qed
qed

lemma ballots_preserved:
  assumes S: "sound_step names c H m i n'"
  shows "ballots_ok (ballots c \<union> ballots_of i n') (chronicle i (nodes c i) n' H)"
proof -
  let ?n = "nodes c i" and ?H = "chronicle i (nodes c i) n' H"
  note f = sound_facts [OF S]
  have more: "bids H \<subseteq> bids ?H" "wins H \<subseteq> wins ?H" "seen H \<subseteq> seen ?H"
    using past_chronicle [of H i ?n n'] by (simp_all add: past_def)
  have old: "(\<exists>h L. (v, t, h) \<in> seen ?H \<and> (t, j, L) \<in> bids ?H \<and> at_least (tip L) (tip h))
      \<or> (\<exists>j' Q L. (t, j', Q, L) \<in> wins ?H \<and> v \<notin> Q)" if "(v, t, j) \<in> ballots c" for v t j
    using f(1) that more unfolding consistent_def ballots_ok_def by (meson subsetD)
  have new: "(\<exists>h L. (i, cur_term n', h) \<in> seen ?H \<and> (cur_term n', j, L) \<in> bids ?H \<and> at_least (tip L) (tip h))
      \<or> (\<exists>j' Q L. (cur_term n', j', Q, L) \<in> wins ?H \<and> i \<notin> Q)" if j: "voted_for (persister n') = Some j" for j
  proof (cases "voted ?n n'")
    case True
    from new_ballot [OF S True j] more(2) show ?thesis by blast
  next
    case False
    then have "cur_term n' = cur_term ?n" "voted_for (persister ?n) = Some j"
      using j f(6,7) by (auto simp: voted_def vote_mono_def)
    then have "(i, cur_term n', j) \<in> ballots c" using f(4) by (auto simp: node_inv_def)
    then show ?thesis by (rule old)
  qed
  show ?thesis
    unfolding ballots_ok_def using old new by (auto simp: ballots_of_def)
qed

lemma wins_preserved:
  assumes S: "sound_step names c H m i n'"
  shows "wins_ok names (ballots c \<union> ballots_of i n') (chronicle i (nodes c i) n' H)"
proof -
  let ?n = "nodes c i" and ?H = "chronicle i (nodes c i) n' H" and ?B = "ballots c \<union> ballots_of i n'"
  have more: "bids H \<subseteq> bids ?H" "seen H \<subseteq> seen ?H"
    using past_chronicle [of H i ?n n'] by (simp_all add: past_def)
  have old: "j \<in> set names \<and> most_of names Q \<and> (t, j, L) \<in> bids ?H
      \<and> (\<forall>v \<in> Q. (v, t, j) \<in> ?B \<and> (\<exists>h. (v, t, h) \<in> seen ?H \<and> at_least (tip L) (tip h)))"
    if "(t, j, Q, L) \<in> wins H" for t j Q L
    using sound_facts(1) [OF S] that more unfolding consistent_def wins_ok_def by (meson UnI1 subsetD)
  have new: "i \<in> set names \<and> most_of names (votes n') \<and> (cur_term n', i, log_of ?n) \<in> bids ?H
      \<and> (\<forall>v \<in> votes n'. (v, cur_term n', i) \<in> ?B \<and> (\<exists>h. (v, cur_term n', h) \<in> seen ?H \<and> at_least (tip (log_of ?n)) (tip h)))"
    if w: "won ?n n'"
  proof -
    have lead: "node_role n' = LEADER" using w by (simp add: won_def)
    have only: "Q = votes n'" if "(cur_term n', j, Q, L) \<in> wins ?H" for j Q L
      using that first_winner [OF S w] by (auto simp: chronicle_def)
    have "\<exists>h. (v, cur_term n', h) \<in> seen ?H \<and> at_least (tip (log_of ?n)) (tip h)" if v: "v \<in> votes n'" for v
    proof -
      obtain h L where h: "(v, cur_term n', h) \<in> seen ?H" "(cur_term n', i, L) \<in> bids ?H" "at_least (tip L) (tip h)"
        using ballots_preserved [OF S] lead_votes(2) [OF S lead v] only v unfolding ballots_ok_def by blast
      moreover have "L = log_of ?n"
        using bids_preserved [OF S] h(2) win_bid [OF S w] unfolding bids_ok_def by blast
      ultimately show ?thesis by blast
    qed
    then show ?thesis
      using S lead_votes [OF S lead] win_bid [OF S w] by (simp add: sound_step_def)
  qed
  show ?thesis
    unfolding wins_ok_def
  proof (intro allI impI)
    fix t j Q L
    assume "(t, j, Q, L) \<in> wins ?H"
    then consider "(t, j, Q, L) \<in> wins H" | "won ?n n'" "t = cur_term n'" "j = i" "Q = votes n'" "L = log_of ?n"
      by (auto simp: chronicle_def)
    then show "j \<in> set names \<and> most_of names Q \<and> (t, j, L) \<in> bids ?H
      \<and> (\<forall>v \<in> Q. (v, t, j) \<in> ?B \<and> (\<exists>h. (v, t, h) \<in> seen ?H \<and> at_least (tip L) (tip h)))"
      using old new by cases blast+
  qed
qed

text \<open>An acknowledgement is for the start of a log that the leader of the term has had.\<close>

lemma accepted_lead:
  assumes S: "sound_step names c H m i n'" and "accepted m (nodes c i) n' k"
  shows "\<exists>h. (cur_term n', h) \<in> leads H \<and> take (nat k) (log_of n') = take (nat k) h \<and> nat k \<le> length (log_of n')"
proof -
  obtain ldr prev pt es cm where a: "m = Some (M_append (cur_term n') ldr prev pt es cm)"
      "prev \<le> last_index (rlog (nodes c i))" "term_at (rlog (nodes c i)) prev = pt"
      "rlog n' = snd (merge prev pt es (rlog (nodes c i)))" "k = prev + int (length es)"
    using assms(2) unfolding accepted_def by blast
  then obtain h where h: "(cur_term n', h) \<in> leads H" "piece h prev pt es"
    using S by (auto simp: sound_step_def)
  have "nat k = nat prev + length es" using h(2) a(5) by (simp add: piece_def nat_add_distrib)
  then show ?thesis using merge_of_lead(3) [OF S h a(4,2,3)] h(1) by auto
qed

lemma resp_accepted:
  assumes S: "sound_step names c H m i n'" and "(d, M_append_resp t v True k cf) \<in> set (outbox n')" "0 < k"
  shows "t = cur_term n'" "v = i" "accepted m (nodes c i) n' k"
proof -
  have "node_id (nodes c i) = i" using sound_facts(4) [OF S] by (simp add: node_inv_def)
  then show "t = cur_term n'" "v = i" "accepted m (nodes c i) n' k"
    using sound_repl(7) [OF S assms(2)] assms(3) by auto
qed

lemma confirmed_lead:
  assumes S: "sound_step names c H m i n'" and g: "confirms i n' g"
  shows "\<exists>h. (cur_term n', h) \<in> leads (chronicle i (nodes c i) n' H) \<and> prefix g h"
proof (cases "node_role n' = LEADER")
  case True
  with g show ?thesis by (auto simp: confirms_def chronicle_def)
next
  case False
  then obtain d k cf where k: "(d, M_append_resp (cur_term n') i True k cf) \<in> set (outbox n')" "0 < k" "int (length g) \<le> k"
    and gp: "prefix g (log_of n')"
    using g by (auto simp: confirms_def)
  from accepted_lead [OF S resp_accepted(3) [OF S k(1,2)]]
  obtain h where h: "(cur_term n', h) \<in> leads H" "take (nat k) (log_of n') = take (nat k) h" "nat k \<le> length (log_of n')"
    by blast
  have "prefix g (take (nat k) (log_of n'))"
    using k(3) h(3) by (intro comparable_lengths [OF gp take_is_prefix]) simp
  then have "prefix g h" using h(2) take_is_prefix prefix_order.order_trans by metis
  with h(1) show ?thesis by (auto simp: chronicle_def)
qed

lemma acks_preserved:
  assumes S: "sound_step names c H m i n'"
  shows "acks_ok (chronicle i (nodes c i) n' H)"
proof -
  let ?n = "nodes c i" and ?H = "chronicle i (nodes c i) n' H"
  note f = sound_facts [OF S]
  have ok: "acks_ok H" using f(1) by (simp add: consistent_def)
  have mem: "(v, t, g) \<in> acks ?H \<longleftrightarrow> (v, t, g) \<in> acks H \<or> (v = i \<and> t = cur_term n' \<and> confirms i n' g)" for v t g
    by (simp add: chronicle_def)
  have seen: "(v, t, h) \<in> seen ?H \<longleftrightarrow> (v, t, h) \<in> seen H
      \<or> (voted ?n n' \<and> v = i \<and> t = cur_term n' \<and> h = log_of ?n \<and> (\<forall>j Q L. (t, j, Q, L) \<notin> wins H))" for v t h
    by (simp add: chronicle_def)
  have own: "t \<le> cur_term ?n" if "(i, t, h) \<in> seen H" for t h
    using f(3) that unfolding node_log_inv_def past_inv_def by blast
  have "\<exists>h. (t, h) \<in> leads ?H \<and> prefix g h" if "(v, t, g) \<in> acks ?H" for v t g
  proof (cases "(v, t, g) \<in> acks H")
    case True
    then obtain h where "(t, h) \<in> leads H" "prefix g h" using ok unfolding acks_ok_def by blast
    then show ?thesis by (auto simp: chronicle_def)
  next
    case False
    then show ?thesis using that confirmed_lead [OF S] unfolding mem by blast
  qed
  moreover have "(v, t, g') \<in> acks ?H" if "(v, t, g) \<in> acks ?H" "prefix g' g" for v t g g'
  proof (cases "(v, t, g) \<in> acks H")
    case True
    then show ?thesis using ok that(2) unfolding acks_ok_def mem by blast
  next
    case False
    then have "confirms i n' g" "v = i" "t = cur_term n'" using that(1) unfolding mem by blast+
    moreover have "confirms i n' g'"
      using \<open>confirms i n' g\<close> that(2) prefix_length_le [OF that(2)] prefix_order.order_trans [OF that(2)]
      unfolding confirms_def by fastforce
    ultimately show ?thesis unfolding mem by blast
  qed
  moreover have "keeps ?H t g h (t' - 1)" if "(v, t, g) \<in> acks ?H" "(v, t', h) \<in> seen ?H" "t < t'" for v t g t' h
  proof (cases "(v, t, g) \<in> acks H")
    case old: True
    show ?thesis
    proof (cases "(v, t', h) \<in> seen H")
      case True
      then have "keeps H t g h (t' - 1)" using ok old that(3) unfolding acks_ok_def by blast
      then show ?thesis using keeps_mono [OF past_chronicle order_refl] by blast
    next
      case False
      then have v: "v = i" "t' = cur_term n'" "h = log_of ?n" "\<forall>j Q L. (t', j, Q, L) \<notin> wins H"
        using that(2) unfolding seen by blast+
      have "keeps H t g h (cur_term ?n)"
        using f(3) old v(1,3) unfolding node_log_inv_def past_inv_def by blast
      moreover have "s \<le> t' - 1" if "(s, j, Q, L) \<in> wins H" "s \<le> cur_term ?n" for s j Q L
        using that v(2,4) f(7) by (cases "s = t'") auto
      ultimately have "keeps H t g h (t' - 1)" unfolding keeps_def by blast
      then show ?thesis using keeps_mono [OF past_chronicle order_refl] by blast
    qed
  next
    case False
    then have "v = i" "t = cur_term n'" using that(1) unfolding mem by blast+
    then have "t' \<le> t" using that(2) own f(7) unfolding seen by fastforce
    with that(3) show ?thesis by simp
  qed
  ultimately show ?thesis unfolding acks_ok_def by blast
qed

lemma consistent_preserved:
  assumes S: "sound_step names c H m i n'"
  shows "consistent names (ballots c \<union> ballots_of i n') (chronicle i (nodes c i) n' H)"
  using leads_preserved [OF S] bids_preserved [OF S] wins_preserved [OF S] acks_preserved [OF S]
    seen_preserved [OF S] ballots_preserved [OF S] by (simp add: consistent_def)

section \<open>Nodes and messages stay in step with the history\<close>

lemma leader_preserved:
  assumes S: "sound_step names c H m i n'" and lead: "node_role n' = LEADER"
  shows "leader_inv (chronicle i (nodes c i) n' H) i n'"
proof -
  let ?n = "nodes c i" and ?H = "chronicle i (nodes c i) n' H"
  note f = sound_facts [OF S]
  have more: "leads H \<subseteq> leads ?H" "acks H \<subseteq> acks ?H"
    using past_chronicle [of H i ?n n'] by (simp_all add: past_def)
  have was: "leader_inv H i ?n" if "node_role ?n = LEADER" using f(3) that by (simp add: node_log_inv_def)
  note step = sound_repl(6) [OF S, unfolded match_step_def, rule_format, OF lead]
  have tr: "tracked n'" using step was by (auto simp: leader_inv_def)
  have "k \<le> int (length (log_of n')) \<and> (p, cur_term n', take (nat k) (log_of n')) \<in> acks ?H"
    if pk: "(p, k) \<in> set (match_index n')" "0 < k" for p k
  proof -
    have "(node_role ?n = LEADER \<and> cur_term n' = cur_term ?n \<and> (p, k) \<in> set (match_index ?n))
      \<or> (\<exists>cf. m = Some (M_append_resp (cur_term n') p True k cf))"
      using step pk by force
    then show ?thesis
    proof
      assume a: "node_role ?n = LEADER \<and> cur_term n' = cur_term ?n \<and> (p, k) \<in> set (match_index ?n)"
      then have "k \<le> int (length (log_of ?n))" "(p, cur_term n', take (nat k) (log_of ?n)) \<in> acks H"
        using was pk(2) by (auto simp: leader_inv_def)
      moreover obtain s where "log_of n' = log_of ?n @ s" using lead_extends [OF S lead] by (auto simp: prefix_def)
      ultimately show ?thesis using more(2) by (auto simp: nat_le_iff)
    next
      assume "\<exists>cf. m = Some (M_append_resp (cur_term n') p True k cf)"
      then obtain g where g: "(p, cur_term n', g) \<in> acks H" "int (length g) = k"
        using S pk(2) by (auto simp: sound_step_def)
      then obtain h where "(cur_term n', h) \<in> leads H" "prefix g h"
        using f(1) unfolding consistent_def acks_ok_def by blast
      then have "prefix g (log_of n')" using lead_covers [OF S lead] prefix_order.order_trans by blast
      then have "g = take (nat k) (log_of n')" "k \<le> int (length (log_of n'))" using g(2) by (auto simp: prefix_def)
      with g(1) more(2) show ?thesis by auto
    qed
  qed
  moreover have "prefix h (log_of n')" if "(cur_term n', h) \<in> leads ?H" for h
    using that lead_covers [OF S lead] by (auto simp: chronicle_def)
  moreover have "(cur_term n', log_of n') \<in> leads ?H" "(i, cur_term n', log_of n') \<in> acks ?H"
    using lead by (simp_all add: chronicle_def confirms_def)
  ultimately show ?thesis using tr unfolding leader_inv_def by blast
qed

lemma past_preserved:
  assumes S: "sound_step names c H m i n'"
  shows "past_inv (chronicle i (nodes c i) n' H) i n'"
proof -
  let ?n = "nodes c i" and ?H = "chronicle i (nodes c i) n' H"
  note f = sound_facts [OF S]
  have pi: "past_inv H i ?n" using f(3) by (simp add: node_log_inv_def)
  have "t \<le> cur_term n'" if "(t, i, L) \<in> bids ?H" for t L
    using that pi f(7) unfolding past_inv_def chronicle_def by force
  moreover have "t \<le> cur_term n' \<and> (t = cur_term n' \<longrightarrow> node_role n' \<noteq> CANDIDATE)" if w: "(t, i, Q, L) \<in> wins ?H" for t Q L
  proof (cases "(t, i, Q, L) \<in> wins H")
    case True
    then have "t \<le> cur_term ?n" "t = cur_term ?n \<longrightarrow> node_role ?n \<noteq> CANDIDATE"
      using pi unfolding past_inv_def by blast+
    then show ?thesis using f(7) sound_repl(4) [OF S] by (auto simp: role_step_def)
  next
    case False
    with w show ?thesis by (auto simp: chronicle_def won_def)
  qed
  moreover have "t \<le> cur_term n' \<and> keeps ?H t g (log_of n') (cur_term n')" if "(i, t, g) \<in> acks ?H" for t g
  proof (cases "(i, t, g) \<in> acks H")
    case True
    then show ?thesis using acks_survive [OF S] by blast
  next
    case False
    with that show ?thesis by (auto simp: chronicle_def confirms_def keeps_def)
  qed
  moreover have "t \<le> cur_term n'" if "(i, t, h) \<in> seen ?H" for t h
    using that pi f(7) unfolding past_inv_def chronicle_def by force
  ultimately show ?thesis unfolding past_inv_def by blast
qed

lemma node_preserved:
  assumes S: "sound_step names c H m i n'"
  shows "node_log_inv names (chronicle i (nodes c i) n' H) i (n'\<lparr>outbox := []\<rparr>)"
proof -
  let ?n = "nodes c i" and ?H = "chronicle i (nodes c i) n' H"
  note f = sound_facts [OF S]
  have "(cur_term n', i, log_of n') \<in> bids ?H" if "node_role n' = CANDIDATE"
    using that sound_repl(4) [OF S] f(3) by (auto simp: role_step_def node_log_inv_def chronicle_def stood_def)
  moreover have "peers n' = filter (\<lambda>p. p \<noteq> i) names" using f(3,8) by (simp add: node_log_inv_def)
  moreover have "leader_inv ?H i (n'\<lparr>outbox := []\<rparr>) = leader_inv ?H i n'" "past_inv ?H i (n'\<lparr>outbox := []\<rparr>) = past_inv ?H i n'"
      "plain (n'\<lparr>outbox := []\<rparr>) = plain n'" "cur_term (n'\<lparr>outbox := []\<rparr>) = cur_term n'"
    by (simp_all add: leader_inv_def past_inv_def plain_def tracked_def cur_term_def)
  ultimately show ?thesis
    using new_log [OF S] leader_preserved [OF S] past_preserved [OF S] sound_repl(2) [OF S] by (simp add: node_log_inv_def)
qed

lemma other_preserved:
  assumes S: "sound_step names c H m i n'" and j: "j \<in> set names" "j \<noteq> i"
  shows "node_log_inv names (chronicle i (nodes c i) n' H) j (nodes c j)"
proof -
  let ?n = "nodes c j" and ?H = "chronicle i (nodes c i) n' H"
  have inv: "node_log_inv names H j ?n" "cluster_inv names (commit_node i n' c)" "i \<in> set names"
    using S j(1) by (auto simp: sound_step_def log_inv_def)
  have new: "(t, j, L) \<in> bids ?H \<longleftrightarrow> (t, j, L) \<in> bids H" "(t, j, Q, L) \<in> wins ?H \<longleftrightarrow> (t, j, Q, L) \<in> wins H"
      "(j, t, L) \<in> acks ?H \<longleftrightarrow> (j, t, L) \<in> acks H" "(j, t, L) \<in> seen ?H \<longleftrightarrow> (j, t, L) \<in> seen H" for t L Q
    using j(2) by (auto simp: chronicle_def)
  have "past_inv ?H j ?n"
    using inv(1) keeps_mono [OF past_chronicle order_refl] unfolding node_log_inv_def past_inv_def new by blast
  moreover have "leader_inv ?H j ?n" if lead: "node_role ?n = LEADER"
  proof -
    have old: "leader_inv H j ?n" using inv(1) lead by (simp add: node_log_inv_def)
    have "node_role n' \<noteq> LEADER \<or> cur_term n' \<noteq> cur_term ?n"
      using one_leader [OF inv(2,3) j(1)] lead j(2) by (auto simp: commit_node_def cur_term_def)
    then have "(cur_term ?n, h) \<in> leads ?H \<longleftrightarrow> (cur_term ?n, h) \<in> leads H" for h by (auto simp: chronicle_def)
    moreover have "acks H \<subseteq> acks ?H" using past_chronicle by (simp add: past_def)
    ultimately show ?thesis using old unfolding leader_inv_def by blast
  qed
  moreover have "rooted ?H (log_of ?n)"
    using inv(1) rooted_mono [OF past_chronicle] by (simp add: node_log_inv_def)
  ultimately show ?thesis using inv(1) new(1) by (simp add: node_log_inv_def)
qed

lemma messages_preserved:
  assumes S: "sound_step names c H m i n'" and x: "(d, x) \<in> set (outbox n')"
  shows "msg_inv (chronicle i (nodes c i) n' H) x"
proof -
  let ?n = "nodes c i" and ?H = "chronicle i (nodes c i) n' H"
  note f = sound_facts [OF S]
  have id: "node_id ?n = i" using f(4) by (simp add: node_inv_def)
  note sent = sound_repl(7) [OF S x]
  show ?thesis
  proof (cases x)
    case (M_append t l prev pt es cm)
    then have "(t, log_of n') \<in> leads ?H"
      using sent f(3) by (auto simp: chronicle_def node_log_inv_def leader_inv_def)
    then show ?thesis using M_append sent by auto
  next
    case (M_vote t j li lt)
    then have "(t, j, log_of ?n) \<in> bids ?H" using sent id by (auto simp: chronicle_def stood_def)
    then show ?thesis using M_vote sent by auto
  next
    case (M_append_resp t v ok k cf)
    have "\<exists>g. (v, t, g) \<in> acks ?H \<and> int (length g) = k" if "ok" "0 < k"
    proof -
      have o: "(d, M_append_resp t v True k cf) \<in> set (outbox n')" using x M_append_resp that(1) by simp
      note r = resp_accepted [OF S o that(2)]
      have "nat k \<le> length (log_of n')" using accepted_lead [OF S r(3)] by blast
      then have "int (length (take (nat k) (log_of n'))) = k" using that(2) by simp
      moreover have "confirms i n' (take (nat k) (log_of n'))"
        using o that(2) r(1,2) calculation unfolding confirms_def by (metis order_refl take_is_prefix)
      ultimately show ?thesis using r(1,2) by (auto simp: chronicle_def)
    qed
    then show ?thesis by (simp add: M_append_resp)
  qed (use sent in auto)
qed

lemma log_inv_step:
  assumes S: "sound_step names c H m i n'"
  shows "log_inv names (commit_node i n' c) (chronicle i (nodes c i) n' H)"
proof -
  let ?H = "chronicle i (nodes c i) n' H"
  have inv: "log_inv names c H" "cluster_inv names (commit_node i n' c)" using S by (simp_all add: sound_step_def)
  have "node_log_inv names ?H j (nodes (commit_node i n' c) j)" if "j \<in> set names" for j
    using node_preserved [OF S] other_preserved [OF S that] by (cases "j = i") (simp_all add: commit_node_def)
  moreover have "msg_inv ?H x" if "(d, x) \<in> net (commit_node i n' c)" for d x
    using that messages_preserved [OF S] inv(1) msg_inv_mono [OF past_chronicle, of H x]
    by (auto simp: commit_node_def log_inv_def)
  moreover have "consistent names (ballots (commit_node i n' c)) ?H"
    using consistent_preserved [OF S] by (simp add: commit_node_def)
  ultimately show ?thesis using inv(2) by (simp add: log_inv_def)
qed

section \<open>Runs\<close>

definition raft_start :: "ustr list \<Rightarrow> cluster \<Rightarrow> bool" where
  "raft_start names c \<longleftrightarrow> distinct names \<and> net c = {} \<and> ballots c = {}
     \<and> (\<forall>i \<in> set names. fresh_node names i 0 None raft_log_init (nodes c i) \<and> \<not> snapshot_dir (nodes c i))"

inductive raft_step :: "ustr list \<Rightarrow> cluster \<Rightarrow> cluster \<Rightarrow> bool" for names where
  timer: "i \<in> set names \<Longrightarrow> raft_step names c (commit_node i (snd (tick now (nodes c i))) c)"
| deliver: "i \<in> set names \<Longrightarrow> (i, m) \<in> net c \<Longrightarrow> raft_step names c (commit_node i (snd (handle now m (nodes c i))) c)"
| client: "i \<in> set names \<Longrightarrow> \<not> is_cfg payload
    \<Longrightarrow> raft_step names c (commit_node i (snd (propose now payload (nodes c i))) c)"
| transfer: "i \<in> set names \<Longrightarrow> raft_step names c (commit_node i (snd (transfer_leadership now target (nodes c i))) c)"
| restart: "i \<in> set names \<Longrightarrow> \<not> snapshot_dir n
    \<Longrightarrow> fresh_node names i (cur_term (nodes c i)) (voted_for (persister (nodes c i))) (rlog (nodes c i)) n
    \<Longrightarrow> raft_step names c (commit_node i n c)"

text \<open>Every run of this kind is one of the runs that elections are safe in.\<close>

lemma start_reach: "raft_start names c \<Longrightarrow> raft_reach names c"
  by (auto simp: raft_start_def intro: raft_reach.init)

lemma step_reach:
  assumes "raft_step names c c'" "raft_reach names c"
  shows "raft_reach names c'"
  using assms(1)
proof cases
  case (restart i n)
  then show ?thesis
    using raft_reach.restart [OF assms(2), of i "rlog (nodes c i)" "length (log_of (nodes c i))" n] by simp
qed (use assms(2) in \<open>auto intro: raft_reach.intros\<close>)

lemma fresh_fields:
  assumes "fresh_node names i t v l n" "\<not> snapshot_dir n"
  shows "rlog n = l" "last_snapshot n = None" "cur_term n = t" "voted_for (persister n) = v" "node_role n = FOLLOWER"
    "outbox n = []" "node_id n = i" "peers n = filter (\<lambda>p. p \<noteq> i) names"
proof -
  obtain now rng ds sm ps where n: "n = snd (raft_node_init i names now rng ds sm l [] ps)"
    and ds: "current_term ds = t" "voted_for ds = v"
    using assms(1) unfolding fresh_node_def by blast
  then have "\<not> p_snapshot_dir ps"
    using assms(2) by (auto simp: raft_node_init_def Let_def reset_election_deadline_def load_snapshot_file_def
        split: prod.splits option.splits if_splits)
  then show "rlog n = l" "last_snapshot n = None" "cur_term n = t" "voted_for (persister n) = v" "node_role n = FOLLOWER"
    "outbox n = []" "node_id n = i" "peers n = filter (\<lambda>p. p \<noteq> i) names"
    using ds by (auto simp: n raft_node_init_def Let_def reset_election_deadline_def cur_term_def split: prod.splits)
qed

lemma log_inv_start:
  assumes "raft_start names c"
  shows "log_inv names c no_history"
proof -
  have "node_log_inv names no_history i (nodes c i)" if "i \<in> set names" for i
  proof -
    have "fresh_node names i 0 None raft_log_init (nodes c i)" "\<not> snapshot_dir (nodes c i)"
      using assms that by (auto simp: raft_start_def)
    note ff = fresh_fields [OF this]
    have "entries raft_log_init = []" "mem_inv raft_log_init" "snapshot_last_term raft_log_init = 0"
      using log_wf_init by (simp_all add: raft_log_init_def mem_inv_def)
    then show ?thesis
      using ff \<open>\<not> snapshot_dir (nodes c i)\<close>
      by (simp add: node_log_inv_def plain_def past_inv_def no_history_def)
  qed
  moreover have "consistent names (ballots c) no_history"
    using assms by (simp add: consistent_def leads_ok_def bids_ok_def wins_ok_def acks_ok_def seen_ok_def ballots_ok_def
        no_history_def raft_start_def)
  ultimately show ?thesis
    using raft_reach_inv [OF start_reach [OF assms]] assms by (simp add: log_inv_def raft_start_def)
qed

lemma sound_operation:
  assumes inv: "log_inv names c H" and i: "i \<in> set names" and r: "repl_step m (nodes c i) n'"
    and e: "election_step m (nodes c i) n'" and m: "\<And>x. m = Some x \<Longrightarrow> (i, x) \<in> net c"
  shows "sound_step names c H m i n'"
proof -
  have ci: "cluster_inv names c" using inv by (simp add: log_inv_def)
  then have "steady (nodes c i)" using i by (auto simp: cluster_inv_def node_inv_def)
  then have "vote_mono (nodes c i) n'" "identity n' = identity (nodes c i)" using e by (simp_all add: election_step_def)
  moreover have "cluster_inv names (commit_node i n' c)"
    using ci m by (intro cluster_inv_op [OF ci i e]) (auto simp: cluster_inv_def)
  moreover have "msg_inv H x" "clean_msg x" if "m = Some x" for x
    using m [OF that] inv ci by (auto simp: log_inv_def cluster_inv_def)
  ultimately show ?thesis using inv i r by (simp add: sound_step_def)
qed

lemma sound_restart:
  assumes inv: "log_inv names c H" and i: "i \<in> set names" and "\<not> snapshot_dir n"
    and n: "fresh_node names i (cur_term (nodes c i)) (voted_for (persister (nodes c i))) (rlog (nodes c i)) n"
  shows "sound_step names c H None i n"
proof -
  let ?n = "nodes c i"
  note ff = fresh_fields [OF n assms(3)]
  have ci: "cluster_inv names c" and nl: "node_log_inv names H i ?n" using inv i by (auto simp: log_inv_def)
  have ni: "node_inv names (ballots c) i ?n" using ci i by (auto simp: cluster_inv_def)
  have d: "distinct names" using ci by (simp add: cluster_inv_def)
  have nc: "no_cfg (log_of ?n)" using ni by (simp add: node_inv_def steady_def clean_def)
  have "clean n" using nc ff by (simp add: clean_def)
  moreover have "plain n" if "plain ?n" using that ff assms(3) by (simp add: plain_def)
  ultimately have "repl_step None ?n n"
    using ff by (auto simp: repl_step_def step_parts)
  moreover have "identity n = identity ?n"
    using ff fresh_node_facts(3) [OF n d i nc] ni nl by (simp add: identity_def node_inv_def node_log_inv_def)
  moreover have "cluster_inv names (commit_node i n c)"
    using cluster_inv_restart [OF ci i _ n, of "length (log_of ?n)"] by simp
  ultimately show ?thesis using inv i ff by (simp add: sound_step_def vote_mono_def)
qed

lemma log_inv_next:
  assumes "raft_step names c c'" and inv: "log_inv names c H"
  shows "\<exists>H'. past H H' \<and> log_inv names c' H'"
proof -
  from assms(1) have "\<exists>m i n'. sound_step names c H m i n' \<and> c' = commit_node i n' c"
  proof cases
    case (timer i now)
    then show ?thesis using sound_operation [OF inv _ repl_tick step_tick [of None]] by blast
  next
    case (deliver i m now)
    have "clean_msg m" using deliver(3) inv by (auto simp: log_inv_def cluster_inv_def)
    then show ?thesis using sound_operation [OF inv _ repl_handle step_handle] deliver by blast
  next
    case (client i payload now)
    then show ?thesis
      using sound_operation [OF inv _ repl_propose step_of_calm [OF calm_propose, of _ None]] by blast
  next
    case (transfer i now target)
    then show ?thesis using sound_operation [OF inv _ repl_transfer step_transfer [of None]] by blast
  next
    case (restart i n)
    then show ?thesis using sound_restart [OF inv] by blast
  qed
  then show ?thesis using log_inv_step past_chronicle by blast
qed

lemma log_inv_run:
  assumes "(raft_step names)\<^sup>*\<^sup>* c c'" "log_inv names c H"
  shows "\<exists>H'. past H H' \<and> log_inv names c' H'"
  using assms
proof (induction rule: rtranclp_induct)
  case base
  then show ?case using past_refl by blast
next
  case (step y z)
  then show ?case using log_inv_next past_trans by meson
qed

end
