(* ===== verification/Raft_Timers.thy ===== *)
theory Raft_Timers
  imports Raft_Node
begin

text \<open>
  The timers of a Raft node. \<open>pace\<close> are the settings that no operation changes, \<open>timers\<close> the deadlines that
  \<^verbatim>\<open>next_event_due\<close> looks at. A tick that is due leaves the node with fewer deadlines inside any
  window that is shorter than the intervals of the node, which is why a simulation makes progress.
\<close>

section \<open>Settings\<close>

definition pace where
  "pace n = (heartbeat_interval n, quorum_check_interval n, election_min n, election_max n, draws n)"

definition timers where
  "timers n = (node_role n, election_deadline n, next_heartbeat n, next_quorum_check n, transfer_target n,
     transfer_deadline n)"

definition clocks where
  "clocks n = (pace n, timers n)"

named_theorems clock_simps \<open>operations that leave settings and timers alone\<close>

lemmas clock_defs = clocks_def pace_def timers_def

lemma clocks_pace: "clocks n' = clocks n \<Longrightarrow> pace n' = pace n"
  by (simp add: clocks_def)

lemma clocks_fold: "(\<And>x n. clocks (f x n) = clocks n) \<Longrightarrow> clocks (fold f xs n) = clocks n"
  by (induction xs arbitrary: n) simp_all

lemma clocks_send [clock_simps]: "clocks (send d m n) = clocks n"
  by (simp add: clock_defs send_def)

lemma clocks_send_append [clock_simps]: "clocks (send_append p n) = clocks n"
  by (simp add: send_append_def Let_def clock_simps split: prod.splits)

lemma clocks_send_all [clock_simps]: "clocks (send_all_appends n) = clocks n"
  unfolding send_all_appends_def by (rule clocks_fold) (rule clocks_send_append)

lemma clocks_broadcast [clock_simps]: "clocks (broadcast m n) = clocks n"
  unfolding broadcast_def by (rule clocks_fold) (rule clocks_send)

lemma clocks_track [clock_simps]: "clocks (fold (track_peer now) ps n) = clocks n"
  by (rule clocks_fold) (simp add: clock_defs track_peer_def)

lemma clocks_init_peers [clock_simps]: "clocks (fold (init_peer now) ps n) = clocks n"
  by (rule clocks_fold) (simp add: clock_defs init_peer_def)

lemma clocks_drop_peers [clock_simps]: "clocks (fold drop_peer ps n) = clocks n"
  by (rule clocks_fold) (simp add: clock_defs drop_peer_def)

text \<open>Fields that neither settings nor timers depend on.\<close>

lemma clocks_update [clock_simps]:
  "clocks (n\<lparr>rlog := l\<rparr>) = clocks n" "clocks (n\<lparr>commit_index := i\<rparr>) = clocks n"
  "clocks (n\<lparr>applied_index := i\<rparr>) = clocks n" "clocks (n\<lparr>state_machine := sm\<rparr>) = clocks n"
  "clocks (n\<lparr>apply_calls := x\<rparr>) = clocks n" "clocks (n\<lparr>outbox := ob\<rparr>) = clocks n" "clocks (n\<lparr>votes := v\<rparr>) = clocks n"
  "clocks (n\<lparr>pre_candidate := b\<rparr>) = clocks n" "clocks (n\<lparr>persister := d\<rparr>) = clocks n"
  "clocks (n\<lparr>last_snapshot := q\<rparr>) = clocks n" "clocks (n\<lparr>match_index := mi\<rparr>) = clocks n"
  "clocks (n\<lparr>next_index := mi\<rparr>) = clocks n" "clocks (n\<lparr>last_peer_ack := a\<rparr>) = clocks n"
  "clocks (n\<lparr>config := c\<rparr>) = clocks n" "clocks (n\<lparr>peers := p\<rparr>) = clocks n"
  "clocks (n\<lparr>old_config := oc\<rparr>) = clocks n" "clocks (n\<lparr>joint_index := j\<rparr>) = clocks n"
  "clocks (n\<lparr>leader_id := ld\<rparr>) = clocks n" "clocks (n\<lparr>prevote_term := pt\<rparr>) = clocks n"
  "clocks (n\<lparr>last_leader_contact := t\<rparr>) = clocks n" "clocks (n\<lparr>snapshot_files := fs\<rparr>) = clocks n"
  by (simp_all add: clock_defs)

lemma clocks_apply_config [clock_simps]: "clocks (apply_config now S n) = clocks n"
  by (simp add: apply_config_def Let_def clock_simps)

lemma clocks_write_snapshot [clock_simps]: "clocks (write_snapshot_file i t st n) = clocks n"
  by (simp add: write_snapshot_file_def clock_simps)

lemma clocks_take_snapshot [clock_simps]: "clocks (snd (take_snapshot n)) = clocks n"
  by (simp add: take_snapshot_def Let_def clock_simps split: option.splits)

lemma clocks_apply_entry [clock_simps]: "clocks (snd (apply_entry now e n)) = clocks n"
  by (auto simp: apply_entry_def Let_def clock_simps split: option.splits sum.splits prod.splits)

lemma clocks_apply_loop [clock_simps]: "clocks (snd (apply_loop now n)) = clocks n"
proof (induction now n rule: apply_loop.induct)
  case (1 now n)
  show ?case
  proof (cases "applied_index n < commit_index n \<and> get_entry (rlog n) (applied_index n + 1) \<noteq> None")
    case False
    then show ?thesis by (subst apply_loop.simps) (auto simp: clock_simps)
  next
    case True
    then obtain e where e: "get_entry (rlog n) (applied_index n + 1) = Some e" by blast
    obtain r n1 where n1: "apply_entry now e n = (r, n1)" by fastforce
    then have "clocks n1 = clocks n" using clocks_apply_entry [of now e n] by simp
    moreover have "clocks (snd (apply_loop now n1)) = clocks n1" if "r = Inr u" for u
      using 1 [OF _ e n1 [symmetric] that] True by simp
    ultimately show ?thesis
      using True e n1 by (subst apply_loop.simps) (auto split: sum.splits)
  qed
qed

lemma clocks_apply_committed [clock_simps]: "clocks (snd (apply_committed now n)) = clocks n"
proof -
  obtain r n1 where n1: "apply_loop now n = (r, n1)" by fastforce
  then have "clocks n1 = clocks n" using clocks_apply_loop [of now n] by simp
  with n1 show ?thesis by (auto simp: apply_committed_def clock_simps split: sum.splits)
qed

lemma clocks_advance_loop [clock_simps]: "clocks (snd (advance_loop now low c n)) = clocks n"
proof (induction now low c n rule: advance_loop.induct)
  case (1 now low c n)
  then show ?case by (subst advance_loop.simps) (auto simp: clock_simps)
qed

lemma clocks_advance [clock_simps]: "clocks (snd (advance_commit now n)) = clocks n"
  by (simp add: advance_commit_def clock_simps)

lemma clocks_propose [clock_simps]: "clocks (snd (propose now payload n)) = clocks n"
proof -
  obtain e l where l: "append_entry (cur_term n) payload (rlog n) = (e, l)" by fastforce
  obtain r n1 where n1: "advance_commit now (n\<lparr>rlog := l\<rparr>) = (r, n1)" by fastforce
  then have "clocks n1 = clocks n" using clocks_advance [of now "n\<lparr>rlog := l\<rparr>"] by (simp add: clock_simps)
  with l n1 show ?thesis by (auto simp: propose_def clock_simps split: sum.splits)
qed

lemma clocks_install [clock_simps]: "clocks (snd (install_state m n)) = clocks n"
  by (auto simp: install_state_def Let_def clock_simps split: option.splits sum.splits prod.splits)

section \<open>Operations that set timers\<close>

lemmas pace_frames [THEN clocks_pace] = clocks_send clocks_send_append clocks_send_all clocks_broadcast clocks_track
  clocks_update clocks_apply_committed clocks_advance clocks_propose clocks_install

lemma pace_updates:
  "pace (n\<lparr>node_role := r\<rparr>) = pace n" "pace (n\<lparr>next_heartbeat := h\<rparr>) = pace n" "pace (n\<lparr>next_quorum_check := h\<rparr>) = pace n"
  "pace (n\<lparr>transfer_target := tt\<rparr>) = pace n" "pace (n\<lparr>transfer_deadline := td\<rparr>) = pace n"
  "pace (n\<lparr>election_deadline := td\<rparr>) = pace n" "pace (n\<lparr>drawn := k\<rparr>) = pace n"
  by (simp_all add: pace_def)

lemmas pace_simps = pace_frames pace_updates

lemma pace_reset: "pace (reset_election_deadline now ini n) = pace n"
  by (simp add: reset_election_deadline_def Let_def pace_simps)

lemma pace_step_down: "pace (step_down now t n) = pace n"
  by (simp add: step_down_def Let_def pace_simps pace_reset)

lemma pace_become_leader: "pace (snd (become_leader now n)) = pace n"
proof -
  let ?n1 = "n\<lparr>node_role := LEADER, leader_id := Some (node_id n), pre_candidate := False,
      transfer_target := None, transfer_deadline := 0, match_index := [], next_index := []\<rparr>"
  define n2 where "n2 = fold (track_peer now) (peers n) ?n1"
  have "pace n2 = pace n" by (simp add: n2_def pace_simps)
  moreover obtain res n3 where n3: "(if state_machine n \<noteq> None then propose now NOOP n2 else (Inr None, n2)) = (res, n3)"
    by fastforce
  ultimately have "pace n3 = pace n"
    using clocks_pace [OF clocks_propose, of now NOOP n2] by (auto split: if_splits)
  then show ?thesis
    unfolding become_leader_def Let_def n2_def [symmetric] n3 by (simp add: pace_simps split: sum.splits)
qed

lemma pace_start_election: "pace (snd (start_election now n)) = pace n"
  by (simp add: start_election_def Let_def pace_simps pace_reset pace_become_leader split: prod.splits)

lemma pace_prevote_or_election: "pace (snd (start_prevote_or_election now n)) = pace n"
  by (simp add: start_prevote_or_election_def Let_def pace_simps pace_reset pace_start_election split: prod.splits)

lemma pace_check_quorum: "pace (check_quorum now n) = pace n"
  by (simp add: check_quorum_def Let_def pace_step_down split: option.splits)

lemma pace_tick: "pace (snd (tick now n)) = pace n"
  by (simp add: tick_def Let_def pace_simps pace_check_quorum pace_prevote_or_election)

lemmas pace_ops = pace_simps pace_reset pace_step_down pace_become_leader pace_start_election

lemma pace_on_append: "pace (snd (on_append now m n)) = pace n"
proof (cases "m_term m < cur_term n")
  case False
  define n1 where "n1 = (if m_term m > cur_term n \<or> node_role n \<noteq> FOLLOWER then step_down now (m_term m) n else n)"
  define n2 where "n2 = reset_election_deadline now False
      (n1\<lparr>node_role := FOLLOWER, leader_id := Some (m_leader m), last_leader_contact := now\<rparr>)"
  obtain ok mat conflict l where l: "merge (m_prev_index m) (m_prev_term m) (m_entries m) (rlog n2) = ((ok, mat, conflict), l)"
    by (metis surj_pair)
  define n3 where "n3 = n2\<lparr>rlog := l\<rparr>"
  have p3: "pace n3 = pace n" by (simp add: n3_def n2_def n1_def pace_ops)
  have p4: "pace r = pace n"
    if "apply_committed now (n3\<lparr>commit_index := min (m_commit m) (last_index l)\<rparr>) = (q, r)" for q r
    using clocks_pace [OF clocks_apply_committed, of now "n3\<lparr>commit_index := min (m_commit m) (last_index l)\<rparr>"] that p3
    by (simp add: pace_def)
  show ?thesis
    using False l p3 p4 unfolding on_append_def Let_def n1_def [symmetric] n2_def [symmetric]
    by (auto simp: n3_def [symmetric] pace_simps split: sum.splits prod.splits)
qed (simp add: on_append_def pace_simps)

lemma pace_on_install: "pace (snd (on_install_snapshot now m n)) = pace n"
proof (cases "m_term m < cur_term n")
  case False
  define n1 where "n1 = (if m_term m > cur_term n \<or> node_role n \<noteq> FOLLOWER then step_down now (m_term m) n else n)"
  define n2 where "n2 = reset_election_deadline now False
      (n1\<lparr>leader_id := Some (m_leader m), last_leader_contact := now\<rparr>)"
  have "pace n2 = pace n" by (simp add: n2_def n1_def pace_ops)
  moreover have "pace r = pace n2" if "install_state m n2 = (q, r)" for q r
    using clocks_pace [OF clocks_install, of m n2] that by simp
  ultimately show ?thesis
    using False unfolding on_install_snapshot_def Let_def n1_def [symmetric] n2_def [symmetric]
    by (auto simp: pace_simps split: sum.splits prod.splits if_splits)
qed (simp add: on_install_snapshot_def pace_simps)

lemma pace_handle: "pace (snd (handle now m n)) = pace n"
proof (cases m)
  case (M_append t l pi pt es c)
  then show ?thesis by (simp add: handle_def pace_on_append)
next
  case (M_install_snapshot t l i it d)
  then show ?thesis by (simp add: handle_def pace_on_install)
qed (auto simp: handle_def on_prevote_def on_prevote_resp_def on_vote_def on_vote_resp_def on_append_resp_def
    on_timeout_now_def maybe_win_def Let_def pace_ops split: option.splits)

section \<open>Deadlines inside a window\<close>

text \<open>How many deadlines of a node are not after \<open>w\<close>.\<close>

definition deadlines :: "rat \<Rightarrow> raft_node \<Rightarrow> nat" where
  "deadlines w n =
     (if node_role n = LEADER then
        of_bool (next_heartbeat n \<le> w) + of_bool (next_quorum_check n \<le> w)
        + of_bool (truthy (transfer_target n) \<and> transfer_deadline n \<le> w)
      else of_bool (election_deadline n \<le> w))"

lemma deadlines_bound: "deadlines w n \<le> 3"
  by (simp add: deadlines_def of_bool_def)

lemma deadlines_clocks: "timers n' = timers n \<Longrightarrow> deadlines w n' = deadlines w n"
  by (simp add: deadlines_def timers_def)

text \<open>Every interval of the node is at least \<open>d\<close>.\<close>

definition paced :: "rat \<Rightarrow> raft_node \<Rightarrow> bool" where
  "paced d n \<longleftrightarrow> d \<le> heartbeat_interval n \<and> d \<le> quorum_check_interval n \<and> d \<le> election_min n
     \<and> election_min n \<le> election_max n \<and> (\<forall>k. 0 \<le> draws n k)"

lemma paced_cong: "pace n' = pace n \<Longrightarrow> paced d n' = paced d n"
  by (simp add: paced_def pace_def)

lemma reset_later:
  assumes "paced d n"
  shows "now + d \<le> election_deadline (reset_election_deadline now False n)"
proof -
  have "0 \<le> (election_max n - election_min n) * draws n (drawn n)"
    using assms by (intro mult_nonneg_nonneg) (simp_all add: paced_def)
  moreover have "d \<le> election_min n" using assms by (simp add: paced_def)
  ultimately show ?thesis by (simp add: reset_election_deadline_def Let_def)
qed

lemma step_down_later:
  assumes "paced d n" "w < now + d"
  shows "deadlines w (step_down now t n) = 0"
proof -
  let ?n1 = "if t > cur_term n then n\<lparr>persister := save t None (persister n)\<rparr> else n"
  let ?n2 = "?n1\<lparr>node_role := FOLLOWER, pre_candidate := False, transfer_target := None, transfer_deadline := 0\<rparr>"
  have "paced d ?n2" using assms(1) by (simp add: paced_def)
  from reset_later [OF this, of now] assms(2) show ?thesis
    by (simp add: step_down_def Let_def deadlines_def) (simp add: reset_election_deadline_def Let_def)
qed

lemma become_leader_later:
  assumes "paced d n" "w < now + d" "become_leader now n = (Inr (), n')"
  shows "deadlines w n' = 0"
proof -
  let ?n1 = "n\<lparr>node_role := LEADER, leader_id := Some (node_id n), pre_candidate := False,
      transfer_target := None, transfer_deadline := 0, match_index := [], next_index := []\<rparr>"
  define n2 where "n2 = fold (track_peer now) (peers n) ?n1"
  have n2: "clocks n2 = clocks ?n1" by (simp only: n2_def clocks_track)
  obtain res n3 where n3: "(if state_machine n \<noteq> None then propose now NOOP n2 else (Inr None, n2)) = (res, n3)"
    by fastforce
  then have "clocks n3 = clocks n2"
    using clocks_propose [of now NOOP n2] by (auto split: if_splits)
  with n2 have c: "clocks (send_all_appends n3) = clocks ?n1" by (simp only: clocks_send_all)
  have n': "n' = (send_all_appends n3)\<lparr>next_heartbeat := now + heartbeat_interval n3,
      next_quorum_check := now + quorum_check_interval n3\<rparr>"
    using assms(3) n3 unfolding become_leader_def Let_def n2_def [symmetric] by (auto split: sum.splits)
  have "clocks n3 = clocks ?n1" using c by (simp only: clocks_send_all)
  with c have f: "node_role (send_all_appends n3) = LEADER" "transfer_target (send_all_appends n3) = None"
      "heartbeat_interval n3 = heartbeat_interval n" "quorum_check_interval n3 = quorum_check_interval n"
    by (simp_all add: clock_defs)
  then show ?thesis
    using assms(1,2) by (auto simp: n' deadlines_def truthy_def paced_def)
qed

lemma reset_role: "node_role (reset_election_deadline now ini n) = node_role n"
  by (simp add: reset_election_deadline_def Let_def)

lemma start_election_later:
  assumes "paced d n" "w < now + d" "start_election now n = (Inr (), n')"
  shows "deadlines w n' = 0"
proof -
  define n1 where "n1 = n\<lparr>persister := save (cur_term n + 1) (Some (node_id n)) (persister n),
      node_role := CANDIDATE, leader_id := None, votes := {node_id n}\<rparr>"
  define n2 where "n2 = reset_election_deadline now False n1"
  obtain lt li where lt: "progress n2 = (lt, li)" by fastforce
  define n3 where "n3 = broadcast (M_vote (cur_term n2) (node_id n2) li lt) n2"
  have p1: "paced d n1" using assms(1) by (simp add: n1_def paced_def)
  then have p3: "paced d n3"
    using paced_cong [of n3 n1] by (simp add: n3_def n2_def pace_simps pace_reset)
  have "timers n3 = timers n2"
    using clocks_broadcast [of "M_vote (cur_term n2) (node_id n2) li lt" n2] by (simp add: n3_def clocks_def)
  moreover have "deadlines w n2 = 0"
    using reset_later [OF p1, of now] assms(2) by (simp add: deadlines_def n2_def reset_role n1_def)
  ultimately have "deadlines w n3 = 0" using deadlines_clocks by metis
  moreover have "become_leader now n3 = (Inr (), n') \<or> n' = n3"
    using assms(3) lt unfolding start_election_def Let_def n1_def [symmetric] n2_def [symmetric]
    by (simp only: prod.case n3_def [symmetric] split: if_splits) auto
  ultimately show ?thesis using become_leader_later [OF p3 assms(2)] by blast
qed

lemma prevote_or_election_later:
  assumes "paced d n" "w < now + d" "node_role n \<noteq> LEADER" "start_prevote_or_election now n = (Inr (), n')"
  shows "deadlines w n' = 0"
proof (cases "use_prevote n \<and> \<not> pre_candidate n")
  case True
  define n1 where "n1 = n\<lparr>pre_candidate := True, prevote_term := cur_term n + 1, votes := {node_id n}\<rparr>"
  obtain lt li where lt: "progress n1 = (lt, li)" by fastforce
  define n2 where "n2 = broadcast (M_prevote (prevote_term n1) (node_id n1) li lt) n1"
  have c: "clocks n2 = clocks n" by (simp add: n2_def n1_def clock_simps)
  then have "paced d n2" "node_role n2 \<noteq> LEADER"
    using assms(1,3) paced_cong [OF clocks_pace [OF c]] by (simp_all add: clock_defs)
  moreover have "n' = reset_election_deadline now False n2"
    using True assms(4) lt unfolding start_prevote_or_election_def Let_def n1_def [symmetric] by (simp add: n2_def)
  ultimately show ?thesis
    using reset_later [of d n2 now] assms(2) by (simp add: deadlines_def reset_role)
next
  case False
  have "paced d (n\<lparr>pre_candidate := False\<rparr>)" using assms(1) by (simp add: paced_def)
  with False assms show ?thesis
    by (intro start_election_later [of d "n\<lparr>pre_candidate := False\<rparr>" w now]) (auto simp: start_prevote_or_election_def)
qed

lemma send_all_fields:
  "node_role (send_all_appends n) = node_role n" "next_heartbeat (send_all_appends n) = next_heartbeat n"
  "next_quorum_check (send_all_appends n) = next_quorum_check n" "transfer_target (send_all_appends n) = transfer_target n"
  "transfer_deadline (send_all_appends n) = transfer_deadline n" "heartbeat_interval (send_all_appends n) = heartbeat_interval n"
  "quorum_check_interval (send_all_appends n) = quorum_check_interval n"
  using clocks_send_all [of n] by (simp_all add: clock_defs)

lemma check_quorum_cases: "check_quorum now n = n \<or> check_quorum now n = step_down now (cur_term n) n"
  by (simp add: check_quorum_def Let_def split: option.splits)

text \<open>A tick that is due leaves fewer deadlines in the window.\<close>

lemma tick_fewer:
  assumes p: "paced d n" and w: "w < now + d" "now \<le> w" and due: "next_event_due n \<le> now"
    and tick: "tick now n = (Inr (), n')"
  shows "deadlines w n' < deadlines w n"
proof (cases "node_role n = LEADER")
  case False
  then have "election_deadline n \<le> now" using due by (simp add: next_event_due_def)
  then have "start_prevote_or_election now n = (Inr (), n')" "deadlines w n = 1"
    using False tick w(2) by (auto simp: tick_def deadlines_def)
  with prevote_or_election_later [OF p w(1) False] show ?thesis by simp
next
  case True
  define n1 where "n1 = (if truthy (transfer_target n) \<and> now \<ge> transfer_deadline n
      then send_all_appends (n\<lparr>transfer_target := None, transfer_deadline := 0\<rparr>) else n)"
  define n2 where "n2 = (if now \<ge> next_heartbeat n1
      then (send_all_appends n1)\<lparr>next_heartbeat := now + heartbeat_interval n1\<rparr> else n1)"
  have n': "n' = (if now \<ge> next_quorum_check n2
      then (check_quorum now n2)\<lparr>next_quorum_check := now + quorum_check_interval n2\<rparr> else n2)"
    using tick True unfolding tick_def Let_def n1_def [symmetric] n2_def [symmetric] by simp
  have iv: "now + heartbeat_interval n > w" "now + quorum_check_interval n > w"
    using p w(1) by (auto simp: paced_def)
  have f: "node_role n2 = LEADER" "next_quorum_check n2 = next_quorum_check n"
      "next_heartbeat n2 = (if now \<ge> next_heartbeat n then now + heartbeat_interval n else next_heartbeat n)"
      "truthy (transfer_target n2) \<longleftrightarrow> truthy (transfer_target n) \<and> \<not> now \<ge> transfer_deadline n"
      "truthy (transfer_target n2) \<longrightarrow> transfer_deadline n2 = transfer_deadline n"
      "quorum_check_interval n2 = quorum_check_interval n"
    using True by (simp_all add: n2_def n1_def send_all_fields truthy_def)
  have "pace n2 = pace n" by (simp add: n2_def n1_def pace_simps)
  then have p2: "paced d n2" using p paced_cong by blast
  have pos: "1 \<le> deadlines w n"
    using due True w(2) by (auto simp: next_event_due_def deadlines_def min_def split: if_splits)
  consider (down) "now \<ge> next_quorum_check n2" "check_quorum now n2 = step_down now (cur_term n2) n2"
    | (checked) "now \<ge> next_quorum_check n2" "check_quorum now n2 = n2" | (other) "\<not> now \<ge> next_quorum_check n2"
    using check_quorum_cases [of now n2] by blast
  then show ?thesis
  proof cases
    case down
    have "deadlines w n' = deadlines w (step_down now (cur_term n2) n2)"
      using down by (simp add: n' deadlines_def step_down_def reset_role Let_def)
    then show ?thesis using step_down_later [OF p2 w(1)] pos by simp
  next
    case checked
    then show ?thesis
      using f iv True w(2) by (auto simp: n' deadlines_def)
  next
    case other
    then have "next_heartbeat n \<le> now \<or> (truthy (transfer_target n) \<and> transfer_deadline n \<le> now)"
      using due True f(2) by (auto simp: next_event_due_def min_def split: if_splits)
    with other show ?thesis
      using f iv True w(2) by (auto simp: n' deadlines_def)
  qed
qed

end
