(* ===== verification/Raft_Completeness.thy ===== *)
theory Raft_Completeness
  imports Raft_Cluster Raft_Apply Raft_Timers
begin

text \<open>
  When a leader raises its commit index, a quorum has acknowledged its log up to there, and so every leader of
  the same or a later term has the same entries.
\<close>

section \<open>Committing is a decision of a quorum\<close>

definition decided :: "raft_node \<Rightarrow> bool" where
  "decided n \<longleftrightarrow> term_at (rlog n) (commit_index n) = cur_term n \<and> commit_quorum (commit_index n) n"

lemma commit_quorum_cong:
  assumes "match_index n' = match_index n" "old_config n' = old_config n" "node_id n' = node_id n" "config n' = config n"
  shows "commit_quorum k n' = commit_quorum k n"
  by (simp only: commit_quorum_def assms)

lemma decided_quiet:
  assumes "quiet n n'" "clean n" "plain n" "commit_index n' = commit_index n" "decided n"
  shows "decided n'"
proof -
  note q = quiet_facts [OF assms(1-3)] and c = calm_facts [OF quiet_calm [OF assms(1)] assms(2)]
  show ?thesis
    using assms(4,5) q(6,9) commit_quorum_cong [OF q(10) c(5,2,4)] by (simp add: decided_def)
qed

lemma advance_decides:
  assumes "clean n" "plain n"
  shows "commit_index (snd (advance_commit now n)) = commit_index n \<or> decided (snd (advance_commit now n))"
proof -
  consider "advance_commit now n = (Inr (), n)"
    | k where "term_at (rlog n) k = cur_term n" "commit_quorum k n" "advance_commit now n = apply_committed now (n\<lparr>commit_index := k\<rparr>)"
    using advance_loop_spec [of now "commit_index n" "last_index (rlog n)" n] by (auto simp: advance_commit_def)
  then show ?thesis
  proof cases
    case (2 k)
    let ?n = "n\<lparr>commit_index := k\<rparr>"
    have "commit_quorum k ?n = commit_quorum k n" by (rule commit_quorum_cong) simp_all
    then have "decided ?n" using 2 by (simp add: decided_def cur_term_def)
    moreover have "clean ?n" "plain ?n" using assms by (simp_all add: clean_def plain_def cur_term_def)
    ultimately have "decided (snd (apply_committed now ?n))"
      using apply_committed_commit [of now ?n] by (intro decided_quiet [OF quiet_apply_committed]) auto
    then show ?thesis by (simp add: 2(3))
  qed simp
qed

lemma send_keeps_commit:
  "commit_index (send d m n) = commit_index n" "commit_index (send_append p n) = commit_index n"
  "commit_index (send_all_appends n) = commit_index n"
proof -
  show "commit_index (send d m n) = commit_index n" for d m n by (simp add: send_def)
  then show a: "commit_index (send_append p n) = commit_index n" for p n
    by (simp add: send_append_def Let_def split: prod.splits)
  have "commit_index (fold send_append ps n) = commit_index n" for ps
    by (induction ps arbitrary: n) (simp_all add: a)
  then show "commit_index (send_all_appends n) = commit_index n" by (simp add: send_all_appends_def)
qed

lemma propose_decides:
  assumes "steady n" "plain n" "\<not> is_cfg payload"
  shows "commit_index (snd (propose now payload n)) = commit_index n \<or> decided (snd (propose now payload n))"
proof (cases "node_role n \<noteq> LEADER \<or> transfer_target n \<noteq> None")
  case True
  then show ?thesis by (auto simp: propose_def)
next
  case False
  obtain e l where el: "append_entry (cur_term n) payload (rlog n) = (e, l)" by fastforce
  define a where "a = n\<lparr>rlog := l\<rparr>"
  obtain r n1 where n1: "advance_commit now a = (r, n1)" by fastforce
  have a: "clean a" "plain a" "node_role a = LEADER" "commit_index a = commit_index n"
  proof -
    have e: "e = \<lparr>e_index = last_index (rlog n) + 1, e_term = cur_term n, e_payload = payload\<rparr>" "entries l = log_of n @ [e]"
        "snapshot_last_term l = snapshot_last_term (rlog n)"
      using el by (auto simp: append_entry_def Let_def)
    have "mem_inv l"
      using mem.app_view [of "rlog n" e "cur_term n" payload] assms(2) e el by (auto simp: plain_def)
    then show "plain a" using assms(2) e(3) by (simp add: plain_def cur_term_def a_def)
    show "clean a" using steady_clean [OF assms(1)] e assms(3) by (auto simp: clean_def no_cfg_def a_def)
  qed (use False in \<open>simp_all add: a_def\<close>)
  have q: "quiet a n1" using quiet_advance_commit [of a now] n1 by simp
  note f = quiet_facts [OF q a(1,2)]
  have d: "commit_index n1 = commit_index n \<or> decided n1" using advance_decides [OF a(1,2), of now] n1 a(4) by simp
  have "snd (propose now payload n) = n1 \<or> snd (propose now payload n) = send_all_appends n1"
    using False el n1 by (cases r) (simp_all add: propose_def a_def)
  moreover have "decided (send_all_appends n1)" if "decided n1"
    using f a(3) that by (intro decided_quiet [OF quiet_send_all]) (simp_all add: send_keeps_commit)
  ultimately show ?thesis using d by (auto simp: send_keeps_commit)
qed

lemma on_append_role: "\<not> m_term m < cur_term n \<Longrightarrow> node_role (snd (on_append now m n)) = FOLLOWER"
proof -
  assume nl: "\<not> m_term m < cur_term n"
  define n1 where "n1 = (if m_term m > cur_term n \<or> node_role n \<noteq> FOLLOWER then step_down now (m_term m) n else n)"
  define n2 where "n2 = reset_election_deadline now False
      (n1\<lparr>node_role := FOLLOWER, leader_id := Some (m_leader m), last_leader_contact := now\<rparr>)"
  obtain ok mat conflict l where l: "merge (m_prev_index m) (m_prev_term m) (m_entries m) (rlog n2) = ((ok, mat, conflict), l)"
    by (metis surj_pair)
  define n3 where "n3 = n2\<lparr>rlog := l\<rparr>"
  have r3: "node_role n3 = FOLLOWER" by (simp add: n3_def n2_def reset_role)
  define p where "p = (if ok \<and> m_commit m > commit_index n3
      then apply_committed now (n3\<lparr>commit_index := min (m_commit m) (last_index l)\<rparr>) else (Inr (), n3))"
  obtain r n4 where n4: "p = (r, n4)" by fastforce
  have "node_role (snd p) = FOLLOWER"
    using clocks_apply_committed [of now "n3\<lparr>commit_index := min (m_commit m) (last_index l)\<rparr>"] r3
    by (simp add: p_def clock_defs)
  then have "node_role n4 = FOLLOWER" using n4 by simp
  then show ?thesis
    using nl unfolding on_append_def Let_def n1_def [symmetric] n2_def [symmetric] l prod.case n3_def [symmetric]
      p_def [symmetric] n4 by (simp add: send_def split: sum.splits)
qed

lemma on_install_role: "\<not> m_term m < cur_term n \<Longrightarrow> node_role (snd (on_install_snapshot now m n)) = FOLLOWER"
proof -
  assume nl: "\<not> m_term m < cur_term n"
  define n1 where "n1 = (if m_term m > cur_term n \<or> node_role n \<noteq> FOLLOWER then step_down now (m_term m) n else n)"
  define n2 where "n2 = reset_election_deadline now False (n1\<lparr>leader_id := Some (m_leader m), last_leader_contact := now\<rparr>)"
  have r2: "node_role n2 = FOLLOWER" by (simp add: n2_def n1_def reset_role step_down_fields)
  have r3: "node_role r = FOLLOWER" if "install_state m n2 = (q, r)" for q r
    using clocks_install [of m n2] that r2 by (simp add: clock_defs)
  define have_it where "have_it \<longleftrightarrow> term_at (rlog n2) (m_included_index m) = m_included_term m
      \<or> snapshot_last_index (rlog n2) \<ge> m_included_index m"
  obtain q n3 where n3: "(if have_it then (Inr (), n2) else install_state m n2) = (q, n3)" by fastforce
  have "node_role n3 = FOLLOWER" using n3 r2 r3 by (auto split: if_splits)
  then show ?thesis
    using nl n3 unfolding on_install_snapshot_def Let_def n1_def [symmetric] n2_def [symmetric] have_it_def [symmetric]
    by (simp add: send_def split: sum.splits)
qed

lemma reset_keeps_commit: "commit_index (reset_election_deadline now ini n) = commit_index n"
  by (simp add: reset_election_deadline_def Let_def)

lemma down_keeps_commit: "commit_index (step_down now t n) = commit_index n"
  by (simp add: step_down_def Let_def reset_keeps_commit)

lemma append_resp_decides:
  assumes "steady n" "plain n"
  shows "commit_index (snd (on_append_resp now m n)) = commit_index n \<or> decided (snd (on_append_resp now m n))"
proof (cases "node_role n \<noteq> LEADER \<or> m_term m \<noteq> cur_term n \<or> \<not> m_success m \<or> map_of (match_index n) (m_from m) = None")
  case True
  then show ?thesis
    by (auto simp: on_append_resp_def Let_def down_keeps_commit send_keeps_commit split: option.splits)
next
  case False
  then obtain mi where mi: "map_of (match_index n) (m_from m) = Some mi" by blast
  define n2 where "n2 = n\<lparr>last_peer_ack := dict_put (m_from m) now (last_peer_ack n),
      match_index := dict_put (m_from m) (max mi (m_match m)) (match_index n),
      next_index := dict_put (m_from m) (max mi (m_match m) + 1) (next_index n)\<rparr>"
  have n2: "clean n2" "plain n2" "commit_index n2 = commit_index n"
    using steady_clean [OF assms(1)] assms(2) by (simp_all add: n2_def clean_def plain_def cur_term_def)
  have "on_append_resp now m n = advance_commit now n2"
    using False mi by (simp add: on_append_resp_def Let_def n2_def)
  then show ?thesis using advance_decides [OF n2(1,2), of now] n2(3) by simp
qed

lemma handle_decides:
  assumes "steady n" "plain n" "node_role n = LEADER" "node_role (snd (handle now m n)) = LEADER"
  shows "commit_index (snd (handle now m n)) = commit_index n \<or> decided (snd (handle now m n))"
proof (cases m)
  case (M_append t l prev pt es c)
  then have "m_term m < cur_term n" using assms(4) on_append_role [of m n now] by (auto simp: handle_def)
  then show ?thesis by (simp add: M_append handle_def on_append_def send_keeps_commit)
next
  case (M_install_snapshot t l ix it d)
  then have "m_term m < cur_term n" using assms(4) on_install_role [of m n now] by (auto simp: handle_def)
  then show ?thesis by (simp add: M_install_snapshot handle_def on_install_snapshot_def send_keeps_commit)
next
  case (M_append_resp t v ok k cf)
  then show ?thesis using append_resp_decides [OF assms(1,2)] by (simp add: handle_def)
qed (use assms in \<open>auto simp: handle_def on_prevote_def on_prevote_resp_def on_vote_def on_vote_resp_def on_timeout_now_def
    steady_def Let_def send_keeps_commit reset_keeps_commit down_keeps_commit\<close>)

lemma tick_keeps_commit: "node_role n = LEADER \<Longrightarrow> commit_index (snd (tick now n)) = commit_index n"
  by (simp add: tick_def check_quorum_def Let_def send_keeps_commit down_keeps_commit split: option.splits)

text \<open>A step in which a leader raises its commit index ends in a state in which a quorum has acknowledged the new one.\<close>

lemma step_decides:
  assumes step: "raft_step names c c'" and inv: "log_inv names c H" and i: "i \<in> set names"
    and lead: "node_role (nodes c i) = LEADER" "node_role (nodes c' i) = LEADER"
    and raised: "commit_index (nodes c i) < commit_index (nodes c' i)"
  shows "decided (nodes c' i)"
proof -
  have n: "steady (nodes c i)" "plain (nodes c i)"
    using inv i by (auto simp: log_inv_def cluster_inv_def node_inv_def node_log_inv_def)
  have keep: "decided (n\<lparr>outbox := []\<rparr>) = decided n" for n
    using commit_quorum_cong [of "n\<lparr>outbox := []\<rparr>" n] by (simp add: decided_def cur_term_def)
  obtain j n' where c': "c' = commit_node j n' c" using step by (cases rule: raft_step.cases) blast+
  have "j = i" using raised by (rule contrapos_pp) (simp add: c' commit_node_def)
  then have n': "nodes c' i = n'\<lparr>outbox := []\<rparr>" by (simp add: c' commit_node_def)
  from step show ?thesis
  proof cases
    case (timer k now)
    then have "nodes c' i = (snd (tick now (nodes c i)))\<lparr>outbox := []\<rparr>"
      using raised by (cases "k = i") (auto simp: commit_node_def)
    then show ?thesis using raised tick_keeps_commit [OF lead(1), of now] by simp
  next
    case (deliver k m now)
    then have "nodes c' i = (snd (handle now m (nodes c i)))\<lparr>outbox := []\<rparr>"
      using raised by (cases "k = i") (auto simp: commit_node_def)
    then show ?thesis using raised lead handle_decides [OF n lead(1), of now m] keep by simp
  next
    case (client k payload now)
    then have "nodes c' i = (snd (propose now payload (nodes c i)))\<lparr>outbox := []\<rparr>"
      using raised by (cases "k = i") (auto simp: commit_node_def)
    then show ?thesis using raised propose_decides [OF n client(3), of now] keep by simp
  next
    case (transfer k now target)
    then have "nodes c' i = (snd (transfer_leadership now target (nodes c i)))\<lparr>outbox := []\<rparr>"
      using raised by (cases "k = i") (auto simp: commit_node_def)
    then show ?thesis using raised by (auto simp: transfer_leadership_def send_keeps_commit split: if_splits)
  next
    case (restart k n)
    then have "nodes c' i = n\<lparr>outbox := []\<rparr>" using raised by (cases "k = i") (auto simp: commit_node_def)
    moreover have "k = i" using restart(1) raised by (cases "k = i") (auto simp: commit_node_def)
    ultimately show ?thesis using fresh_fields(5) [OF restart(4,3)] lead(2) by simp
  qed
qed

section \<open>What is committed stays\<close>

lemma decided_chosen:
  assumes inv: "log_inv names c H" and i: "i \<in> set names" and lead: "node_role (nodes c i) = LEADER"
    and d: "decided (nodes c i)" "0 < commit_index (nodes c i)"
  shows "chosen names H (cur_term (nodes c i)) (take (nat (commit_index (nodes c i))) (log_of (nodes c i)))"
    and "commit_index (nodes c i) \<le> int (length (log_of (nodes c i)))"
proof -
  let ?n = "nodes c i"
  define k where "k = commit_index ?n"
  have nl: "node_log_inv names H i ?n" and ni: "node_inv names (ballots c) i ?n" and C: "consistent names (ballots c) H"
    using inv i by (auto simp: log_inv_def cluster_inv_def)
  have li: "leader_inv H i ?n" and p: "plain ?n" using nl lead by (simp_all add: node_log_inv_def)
  have t: "term_at (rlog ?n) k = cur_term ?n" "commit_quorum k ?n" "0 < k" using d by (simp_all add: decided_def k_def)
  then have kl: "k \<le> int (length (log_of ?n))" "e_term (log_of ?n ! nat (k - 1)) = cur_term ?n"
    using p mem_term [of "rlog ?n" k] by (auto simp: plain_def split: if_splits)
  define hs where "hs = filter (\<lambda>p. p \<in> config ?n) (map fst (filter (\<lambda>(p, mi). mi \<ge> k) (match_index ?n)))"
  have tr: "distinct (map fst (match_index ?n))" "fst ` set (match_index ?n) \<subseteq> set (peers ?n)"
    using li by (simp_all add: leader_inv_def tracked_def)
  have "distinct hs" unfolding hs_def using distinct_map_filter [OF tr(1)] by (intro distinct_filter)
  moreover have hsub: "set hs \<subseteq> set names - {i}"
    using tr(2) nl by (force simp: hs_def node_log_inv_def)
  then have "i \<notin> set hs" by blast
  ultimately have "card (insert i (set hs)) = 1 + length hs" by (simp add: distinct_card)
  moreover have "1 + length hs \<ge> card (config ?n) div 2 + 1"
    using t(2) ni by (simp add: commit_quorum_def Let_def hs_def node_inv_def steady_def)
  ultimately have most: "most_of names (insert i (set hs))"
    using i hsub ni by (auto simp: most_of_def node_inv_def)
  have acks: "(v, cur_term ?n, take (nat k) (log_of ?n)) \<in> acks H" if v: "v \<in> insert i (set hs)" for v
  proof -
    have "\<exists>g. (v, cur_term ?n, g) \<in> acks H \<and> prefix (take (nat k) (log_of ?n)) g"
    proof (cases "v = i")
      case True
      then show ?thesis using li take_is_prefix unfolding leader_inv_def by blast
    next
      case False
      then obtain mi where mi: "(v, mi) \<in> set (match_index ?n)" "k \<le> mi" using v by (auto simp: hs_def)
      then have "(v, cur_term ?n, take (nat mi) (log_of ?n)) \<in> acks H" using li t(3) by (auto simp: leader_inv_def)
      moreover have "prefix (take (nat k) (log_of ?n)) (take (nat mi) (log_of ?n))"
        using mi(2) by (intro comparable_lengths [OF take_is_prefix take_is_prefix]) auto
      ultimately show ?thesis by blast
    qed
    then show ?thesis using C unfolding consistent_def acks_ok_def by blast
  qed
  have k: "nat k \<le> length (log_of ?n)" "0 < nat k" using kl(1) t(3) by auto
  then have ne: "take (nat k) (log_of ?n) \<noteq> []" by auto
  then have "last (take (nat k) (log_of ?n)) = log_of ?n ! nat (k - 1)"
    using k by (simp add: last_conv_nth nat_diff_distrib)
  with ne show "chosen names H (cur_term ?n) (take (nat (commit_index ?n)) (log_of ?n))"
    unfolding chosen_def k_def [symmetric] using kl(2) most acks by auto
  show "commit_index ?n \<le> int (length (log_of ?n))" using kl(1) by (simp add: k_def)
qed

lemma later_leader_has:
  assumes inv: "log_inv names c H" and j: "j \<in> set names" "node_role (nodes c j) = LEADER"
    and g: "chosen names H t g" "t \<le> cur_term (nodes c j)" "(t, h) \<in> leads H" "prefix g h"
  shows "prefix g (log_of (nodes c j))"
proof -
  have li: "leader_inv H j (nodes c j)" using inv j by (auto simp: log_inv_def node_log_inv_def)
  show ?thesis
  proof (cases "t = cur_term (nodes c j)")
    case True
    then show ?thesis using li g(3,4) prefix_order.order_trans unfolding leader_inv_def by blast
  next
    case False
    moreover have "consistent names (ballots c) H" using inv by (simp add: log_inv_def)
    ultimately show ?thesis
      using chosen_in_leads [OF _ g(1)] li g(2) unfolding leader_inv_def by force
  qed
qed

lemma get_entry_mem:
  "mem_inv l \<Longrightarrow> get_entry l k = (if 1 \<le> k \<and> k \<le> int (length (entries l)) then Some (entries l ! nat (k - 1)) else None)"
  by (auto simp: get_entry_def mem_inv_def)

lemma get_entry_prefix:
  assumes "mem_inv l" "mem_inv l'" "take (nat b) (entries l) = take (nat b) (entries l')"
    "b \<le> int (length (entries l))" "b \<le> int (length (entries l'))" "k \<le> b"
  shows "get_entry l k = get_entry l' k"
proof (cases "1 \<le> k")
  case True
  then have "take (nat b) (entries l) ! nat (k - 1) = entries l ! nat (k - 1)"
    "take (nat b) (entries l') ! nat (k - 1) = entries l' ! nat (k - 1)" using assms(6) by auto
  then show ?thesis using assms True by (simp add: get_entry_mem)
qed (simp add: get_entry_mem assms)

text \<open>The same for runs: a commit is a decision, and later leaders, and earlier ones of later terms, have what was decided.\<close>

lemma run_decides:
  assumes "raft_start names c0" "(raft_step names)\<^sup>*\<^sup>* c0 a" "raft_step names a a'" "i \<in> set names"
    and "node_role (nodes a i) = LEADER" "node_role (nodes a' i) = LEADER"
    and "commit_index (nodes a i) < commit_index (nodes a' i)"
  shows "\<exists>H. log_inv names a' H \<and> decided (nodes a' i)"
proof -
  obtain H where H: "log_inv names a H" using log_inv_run [OF assms(2) log_inv_start [OF assms(1)]] by blast
  then show ?thesis using log_inv_next [OF assms(3) H] step_decides [OF assms(3) H assms(4-7)] by blast
qed

lemma plain_log: "log_inv names c H \<Longrightarrow> i \<in> set names \<Longrightarrow> mem_inv (rlog (nodes c i))"
  by (simp add: log_inv_def node_log_inv_def plain_def)

lemma leader_leads:
  "log_inv names c H \<Longrightarrow> i \<in> set names \<Longrightarrow> node_role (nodes c i) = LEADER
     \<Longrightarrow> (cur_term (nodes c i), log_of (nodes c i)) \<in> leads H"
  by (simp add: log_inv_def node_log_inv_def leader_inv_def)

lemma decided_in_leader:
  assumes H: "log_inv names c H" and i: "i \<in> set names" "node_role (nodes c i) = LEADER" and d: "decided (nodes c i)"
    and H': "past H H'" "log_inv names c' H'" and j: "j \<in> set names" "node_role (nodes c' j) = LEADER"
    and t: "cur_term (nodes c i) \<le> cur_term (nodes c' j)" and pos: "0 < commit_index (nodes c i)"
  shows "prefix (take (nat (commit_index (nodes c i))) (log_of (nodes c i))) (log_of (nodes c' j))"
proof (rule later_leader_has [OF H'(2) j _ t])
  show "chosen names H' (cur_term (nodes c i)) (take (nat (commit_index (nodes c i))) (log_of (nodes c i)))"
    by (rule chosen_mono [OF H'(1) decided_chosen(1) [OF H i d pos]])
  show "(cur_term (nodes c i), log_of (nodes c i)) \<in> leads H'"
    using leader_leads [OF H i] H'(1) by (auto simp: past_def)
qed (rule take_is_prefix)

lemma decided_in_older:
  assumes H: "log_inv names c H" and i: "i \<in> set names" "node_role (nodes c i) = LEADER" and d: "decided (nodes c i)"
    and H0: "past H0 H" "log_inv names c0 H0" and j: "j \<in> set names" "node_role (nodes c0 j) = LEADER"
    and t: "cur_term (nodes c i) < cur_term (nodes c0 j)" and pos: "0 < commit_index (nodes c i)"
  shows "prefix (take (nat (commit_index (nodes c i))) (log_of (nodes c i))) (log_of (nodes c0 j))"
proof (rule chosen_in_leads [OF _ decided_chosen(1) [OF H i d pos] _ t])
  show "consistent names (ballots c) H" using H by (simp add: log_inv_def)
  show "(cur_term (nodes c0 j), log_of (nodes c0 j)) \<in> leads H"
    using leader_leads [OF H0(2) j] H0(1) by (auto simp: past_def)
qed

lemma committed_entry:
  assumes H: "log_inv names c H" and i: "i \<in> set names" "node_role (nodes c i) = LEADER" and d: "decided (nodes c i)"
    and has: "0 < commit_index (nodes c i) \<Longrightarrow> prefix (take (nat (commit_index (nodes c i))) (log_of (nodes c i))) (entries l)"
    and l: "mem_inv l" and k: "k \<le> commit_index (nodes c i)"
  shows "get_entry l k = get_entry (rlog (nodes c i)) k"
proof (cases "0 < commit_index (nodes c i)")
  case True
  let ?b = "commit_index (nodes c i)" and ?E = "log_of (nodes c i)"
  have b: "?b \<le> int (length ?E)" by (rule decided_chosen(2) [OF H i d True])
  obtain s where s: "entries l = take (nat ?b) ?E @ s" using has [OF True] by (auto simp: prefix_def)
  have "length (take (nat ?b) ?E) = nat ?b" using b by simp
  then have "take (nat ?b) (entries l) = take (nat ?b) ?E" "?b \<le> int (length (entries l))"
    using s by simp_all
  then show ?thesis using b k by (intro get_entry_prefix [OF l plain_log [OF H i(1)]])
next
  case False
  with k show ?thesis by (simp add: get_entry_mem [OF l] get_entry_mem [OF plain_log [OF H i(1)]])
qed

end
