(* ===== verification/Raft_Cluster_Theorems.thy ===== *)
theory Raft_Cluster_Theorems
  imports Raft_Completeness
begin

text \<open>
  The safety of the replicated log across a cluster: logs match, and what a leader commits is never lost or
  contradicted. Each property comes with a run of three nodes that is computed step by step.
\<close>

section \<open>Scripted runs\<close>

text \<open>A run given by a list of actions on nodes and messages that are kept in lists.\<close>

datatype act = Tick rat ustr | Take rat ustr message | Ask rat ustr bytes

type_synonym stage = "(ustr \<times> raft_node) list \<times> (ustr \<times> message) list"

definition post :: "ustr \<Rightarrow> raft_node \<Rightarrow> stage \<Rightarrow> stage" where
  "post i n st = (dict_put i (n\<lparr>outbox := []\<rparr>) (fst st), snd st @ outbox n)"

fun perform :: "act \<Rightarrow> stage \<Rightarrow> stage option" where
  "perform (Tick now i) st = (case map_of (fst st) i of None \<Rightarrow> None | Some n \<Rightarrow> Some (post i (snd (tick now n)) st))"
| "perform (Take now i m) st =
     (if (i, m) \<in> set (snd st)
      then (case map_of (fst st) i of None \<Rightarrow> None | Some n \<Rightarrow> Some (post i (snd (handle now m n)) st)) else None)"
| "perform (Ask now i payload) st =
     (if is_cfg payload then None
      else (case map_of (fst st) i of None \<Rightarrow> None | Some n \<Rightarrow> Some (post i (snd (propose now payload n)) st)))"

fun perform_all :: "act list \<Rightarrow> stage \<Rightarrow> stage option" where
  "perform_all [] st = Some st"
| "perform_all (a # as) st = (case perform a st of None \<Rightarrow> None | Some st1 \<Rightarrow> perform_all as st1)"

definition staged :: "stage \<Rightarrow> (ustr \<times> int \<times> ustr) set \<Rightarrow> cluster" where
  "staged st B = \<lparr>nodes = (\<lambda>i. the (map_of (fst st) i)), net = set (snd st), ballots = B\<rparr>"

lemma staged_post: "commit_node i n (staged st B) = staged (post i n st) (B \<union> ballots_of i n)"
  by (auto simp: commit_node_def staged_def post_def dict_put_map_of)

lemma perform_step:
  assumes "perform a st = Some st'" "map fst (fst st) = names"
  shows "\<exists>B'. raft_step names (staged st B) (staged st' B')" "map fst (fst st') = names"
proof -
  have key: "i \<in> set names" "nodes (staged st B) i = n" if "map_of (fst st) i = Some n" for i n
    using that assms(2) by (force simp: staged_def dest: map_of_SomeD)+
  have keys: "map fst (dict_put i x d) = map fst d" if "map_of d i = Some n" for i n x and d :: "(ustr \<times> raft_node) list"
    using that by (induction i x d rule: dict_put.induct) (auto split: if_splits)
  have "\<exists>i n n'. st' = post i n' st \<and> map_of (fst st) i = Some n \<and> raft_step names (staged st B) (commit_node i n' (staged st B))"
  proof (cases a)
    case (Tick now i)
    then show ?thesis
      using assms(1) key raft_step.timer [of i names "staged st B" now] by (auto split: option.splits)
  next
    case (Take now i m)
    then show ?thesis
      using assms(1) key raft_step.deliver [of i names m "staged st B" now] by (auto simp: staged_def split: option.splits if_splits)
  next
    case (Ask now i payload)
    then show ?thesis
      using assms(1) key raft_step.client [of i names payload "staged st B" now] by (auto split: option.splits if_splits)
  qed
  then show "\<exists>B'. raft_step names (staged st B) (staged st' B')" "map fst (fst st') = names"
    using keys assms(2) unfolding staged_post by (auto simp: post_def)
qed

lemma perform_run:
  "perform_all as st = Some st' \<Longrightarrow> map fst (fst st) = names \<Longrightarrow>
     (\<exists>B'. (raft_step names)\<^sup>*\<^sup>* (staged st B) (staged st' B')) \<and> map fst (fst st') = names"
proof (induction as arbitrary: st B)
  case Nil
  then show ?case by auto
next
  case (Cons a as)
  then obtain st1 where st1: "perform a st = Some st1" "perform_all as st1 = Some st'" by (auto split: option.splits)
  obtain B1 where "raft_step names (staged st B) (staged st1 B1)" "map fst (fst st1) = names"
    using perform_step [OF st1(1) Cons.prems(2)] by blast
  then show ?case
    using Cons.IH [OF st1(2), of B1] by (meson converse_rtranclp_into_rtranclp)
qed

section \<open>Three nodes\<close>

definition three :: "ustr list" where
  "three = [[97], [98], [99]]"

definition three_params :: "int \<Rightarrow> node_params" where
  "three_params batch = default_params\<lparr>p_use_prevote := False, p_max_batch := batch\<rparr>"

definition three_node :: "int \<Rightarrow> ustr \<Rightarrow> raft_node" where
  "three_node batch i = snd (raft_node_init i three 0 (\<lambda>_. 0)
     \<lparr>current_term = 0, voted_for = None, state_path = False, state_file = None\<rparr> None raft_log_init [] (three_params batch))"

definition three_stage :: "int \<Rightarrow> stage" where
  "three_stage batch = (map (\<lambda>i. (i, three_node batch i)) three, [])"

lemma three_start: "raft_start three (staged (three_stage batch) {})"
proof -
  have "fresh_node three i 0 None raft_log_init (three_node batch i)" for i
    unfolding fresh_node_def three_node_def by (intro exI conjI, rule refl) (simp_all add: three_params_def)
  moreover have "\<not> snapshot_dir (three_node batch i)" for i
    by (simp add: three_node_def three_params_def raft_node_init_def default_params_def reset_election_deadline_def Let_def)
  moreover have "nodes (staged (three_stage batch) {}) i = three_node batch i" if "i \<in> set three" for i
    using that by (auto simp: staged_def three_stage_def three_def)
  ultimately show ?thesis by (simp add: raft_start_def three_def) (simp add: staged_def three_stage_def)
qed

text \<open>The first node is elected with the vote of the second and commits an entry that the second holds.\<close>

definition first_acts :: "act list" where
  "first_acts = [Tick 1000 [97], Take 1000 [98] (M_vote 1 [97] 0 0), Take 1000 [97] (M_vote_resp 1 [98] True),
     Ask 1000 [97] [120],
     Take 1000 [98] (M_append 1 [97] 0 0 [\<lparr>e_index = 1, e_term = 1, e_payload = [120]\<rparr>] 0)]"

definition commit_act :: act where
  "commit_act = Take 1000 [97] (M_append_resp 1 [98] True 1 (Some 0))"

text \<open>The second is elected with the vote of the third, which has nothing in its log, and commits another one with the first.\<close>

definition second_acts :: "act list" where
  "second_acts = [Tick 2000 [98], Take 2000 [99] (M_vote 2 [98] 1 1), Take 2000 [98] (M_vote_resp 2 [99] True),
     Ask 2000 [98] [121],
     Take 2000 [97] (M_append 2 [98] 1 1 [\<lparr>e_index = 2, e_term = 2, e_payload = [121]\<rparr>] 0)]"

definition commit_again :: act where
  "commit_again = Take 2000 [98] (M_append_resp 2 [97] True 2 (Some 0))"

definition report :: "raft_node \<Rightarrow> role \<times> int \<times> int \<times> int \<times> int" where
  "report n = (node_role n, cur_term n, commit_index n, last_index (rlog n), term_at (rlog n) 1)"

definition reports :: "cluster \<Rightarrow> (role \<times> int \<times> int \<times> int \<times> int) list" where
  "reports c = map (\<lambda>i. report (nodes c i)) three"

definition summary :: "stage \<Rightarrow> (role \<times> int \<times> int \<times> int \<times> int) list" where
  "summary st = map (report \<circ> snd) (fst st)"

lemma story_values:
  "map_option summary (perform_all first_acts (three_stage 256))
     = Some [(LEADER, 1, 0, 1, 1), (FOLLOWER, 1, 0, 1, 1), (FOLLOWER, 0, 0, 0, -1)]"
  "map_option summary (perform_all (first_acts @ [commit_act]) (three_stage 256))
     = Some [(LEADER, 1, 1, 1, 1), (FOLLOWER, 1, 0, 1, 1), (FOLLOWER, 0, 0, 0, -1)]"
  "map_option summary (perform_all ((first_acts @ [commit_act]) @ second_acts) (three_stage 256))
     = Some [(FOLLOWER, 2, 1, 2, 1), (LEADER, 2, 0, 2, 1), (FOLLOWER, 2, 0, 0, -1)]"
  "map_option summary (perform_all (((first_acts @ [commit_act]) @ second_acts) @ [commit_again]) (three_stage 256))
     = Some [(FOLLOWER, 2, 1, 2, 1), (LEADER, 2, 2, 2, 1), (FOLLOWER, 2, 0, 0, -1)]"
  by code_simp+

lemma perform_all_append:
  "perform_all (as @ bs) st = (case perform_all as st of None \<Rightarrow> None | Some st1 \<Rightarrow> perform_all bs st1)"
  by (induction as arbitrary: st) (auto split: option.splits)

lemma reports_summary:
  assumes "map fst (fst st) = three"
  shows "reports (staged st B) = summary st"
proof -
  have d: "distinct (map fst (fst st))" by (simp add: assms three_def)
  have "reports (staged st B) = map (\<lambda>i. report (the (map_of (fst st) i))) (map fst (fst st))"
    by (simp add: reports_def staged_def assms)
  also have "\<dots> = summary st"
    using d by (auto simp: summary_def intro!: map_cong)
  finally show ?thesis .
qed

text \<open>The whole run, with the states before and after each of the two commits.\<close>

lemma story:
  obtains a a' b b' where "(raft_step three)\<^sup>*\<^sup>* (staged (three_stage 256) {}) a" "raft_step three a a'"
    "(raft_step three)\<^sup>*\<^sup>* a' b" "raft_step three b b'"
    "reports a = [(LEADER, 1, 0, 1, 1), (FOLLOWER, 1, 0, 1, 1), (FOLLOWER, 0, 0, 0, -1)]"
    "reports a' = [(LEADER, 1, 1, 1, 1), (FOLLOWER, 1, 0, 1, 1), (FOLLOWER, 0, 0, 0, -1)]"
    "reports b = [(FOLLOWER, 2, 1, 2, 1), (LEADER, 2, 0, 2, 1), (FOLLOWER, 2, 0, 0, -1)]"
    "reports b' = [(FOLLOWER, 2, 1, 2, 1), (LEADER, 2, 2, 2, 1), (FOLLOWER, 2, 0, 0, -1)]"
proof -
  note sv = story_values
  obtain sa sa' sb sb' where
      p: "perform_all first_acts (three_stage 256) = Some sa" "perform_all (first_acts @ [commit_act]) (three_stage 256) = Some sa'"
        "perform_all ((first_acts @ [commit_act]) @ second_acts) (three_stage 256) = Some sb"
        "perform_all (((first_acts @ [commit_act]) @ second_acts) @ [commit_again]) (three_stage 256) = Some sb'"
    and s: "summary sa = [(LEADER, 1, 0, 1, 1), (FOLLOWER, 1, 0, 1, 1), (FOLLOWER, 0, 0, 0, -1)]"
      "summary sa' = [(LEADER, 1, 1, 1, 1), (FOLLOWER, 1, 0, 1, 1), (FOLLOWER, 0, 0, 0, -1)]"
      "summary sb = [(FOLLOWER, 2, 1, 2, 1), (LEADER, 2, 0, 2, 1), (FOLLOWER, 2, 0, 0, -1)]"
      "summary sb' = [(FOLLOWER, 2, 1, 2, 1), (LEADER, 2, 2, 2, 1), (FOLLOWER, 2, 0, 0, -1)]"
    using sv unfolding map_option_eq_Some by blast
  have q: "perform commit_act sa = Some sa'" "perform_all second_acts sa' = Some sb" "perform commit_again sb = Some sb'"
    using p by (simp_all add: perform_all_append split: option.splits)
  have k0: "map fst (fst (three_stage 256)) = three" by (simp add: three_stage_def comp_def)
  obtain B1 where r1: "(raft_step three)\<^sup>*\<^sup>* (staged (three_stage 256) {}) (staged sa B1)" and k1: "map fst (fst sa) = three"
    using perform_run [OF p(1) k0, of "{}"] by blast
  obtain B2 where r2: "raft_step three (staged sa B1) (staged sa' B2)" and k2: "map fst (fst sa') = three"
    using perform_step(1) [OF q(1) k1, of B1] perform_step(2) [OF q(1) k1] by blast
  obtain B3 where r3: "(raft_step three)\<^sup>*\<^sup>* (staged sa' B2) (staged sb B3)" and k3: "map fst (fst sb) = three"
    using perform_run [OF q(2) k2, of B2] by blast
  obtain B4 where r4: "raft_step three (staged sb B3) (staged sb' B4)" and k4: "map fst (fst sb') = three"
    using perform_step(1) [OF q(3) k3, of B3] perform_step(2) [OF q(3) k3] by blast
  show ?thesis
    by (rule that [OF r1 r2 r3 r4]) (simp_all add: reports_summary k1 k2 k3 k4 s)
qed

lemma reports_three: "reports c = [report (nodes c [97]), report (nodes c [98]), report (nodes c [99])]"
  by (simp add: reports_def three_def)

lemmas report_simps = reports_three report_def

section \<open>Log matching\<close>



section \<open>What a leader commits\<close>

text \<open>
  C2. Leader completeness: when a leader raises its commit index, every leader of the same or a later term, at any later
  moment of the run, has the same entries up to that index.
\<close>

theorem leader_completeness:
  assumes "raft_start names c0" "(raft_step names)\<^sup>*\<^sup>* c0 a" "raft_step names a a'" "i \<in> set names"
    and "node_role (nodes a i) = LEADER" "node_role (nodes a' i) = LEADER"
    and "commit_index (nodes a i) < commit_index (nodes a' i)"
    and "(raft_step names)\<^sup>*\<^sup>* a' b" "j \<in> set names" "node_role (nodes b j) = LEADER"
    and "cur_term (nodes a' i) \<le> cur_term (nodes b j)" "k \<le> commit_index (nodes a' i)"
  shows "get_entry (rlog (nodes b j)) k = get_entry (rlog (nodes a' i)) k"
proof -
  obtain H where H: "log_inv names a' H" and d: "decided (nodes a' i)"
    using run_decides [OF assms(1-7)] by blast
  obtain H' where H': "past H H'" "log_inv names b H'" using log_inv_run [OF assms(8) H] by blast
  show ?thesis
    by (rule committed_entry [OF H assms(4,6) d _ _ assms(12)])
      (rule decided_in_leader [OF H assms(4,6) d H' assms(9-11)], assumption, rule plain_log [OF H'(2) assms(9)])
qed

theorem leader_completeness_witness:
  "\<exists>a a' b. raft_step three a a' \<and> (raft_step three)\<^sup>*\<^sup>* a' b \<and> commit_index (nodes a [97]) < commit_index (nodes a' [97])
     \<and> node_role (nodes b [98]) = LEADER \<and> get_entry (rlog (nodes b [98])) 1 = get_entry (rlog (nodes a' [97])) 1"
proof -
  obtain a a' b b' where r: "(raft_step three)\<^sup>*\<^sup>* (staged (three_stage 256) {}) a" "raft_step three a a'" "(raft_step three)\<^sup>*\<^sup>* a' b"
    and v: "reports a = [(LEADER, 1, 0, 1, 1), (FOLLOWER, 1, 0, 1, 1), (FOLLOWER, 0, 0, 0, -1)]"
      "reports a' = [(LEADER, 1, 1, 1, 1), (FOLLOWER, 1, 0, 1, 1), (FOLLOWER, 0, 0, 0, -1)]"
      "reports b = [(FOLLOWER, 2, 1, 2, 1), (LEADER, 2, 0, 2, 1), (FOLLOWER, 2, 0, 0, -1)]"
    by (rule story)
  have v: "node_role (nodes a [97]) = LEADER" "node_role (nodes a' [97]) = LEADER" "commit_index (nodes a [97]) < commit_index (nodes a' [97])"
    "node_role (nodes b [98]) = LEADER" "cur_term (nodes a' [97]) \<le> cur_term (nodes b [98])" "1 \<le> commit_index (nodes a' [97])"
    using v by (simp_all add: report_simps)
  have "get_entry (rlog (nodes b [98])) 1 = get_entry (rlog (nodes a' [97])) 1"
    by (rule leader_completeness [OF three_start r(1,2) _ v(1-3) r(3) _ v(4-6)]) (simp_all add: three_def)
  with r v show ?thesis by blast
qed



section \<open>What a follower commits\<close>

text \<open>
  A run with batches of one entry. The third node leads in term 1 and keeps an entry for index 2 to itself. The first leads in
  terms 2 and 3 and commits another entry there with the second. The third then gets the first entry once more,
  together with the commit index of the leader.
\<close>

definition clash_acts :: "act list" where
  "clash_acts =
     (let e1 = \<lparr>e_index = 1, e_term = 1, e_payload = [112]\<rparr>; e2 = \<lparr>e_index = 2, e_term = 2, e_payload = [119]\<rparr>;
          e3 = \<lparr>e_index = 3, e_term = 3, e_payload = [122]\<rparr>
      in [Tick 1000 [99], Take 1000 [98] (M_vote 1 [99] 0 0), Take 1000 [99] (M_vote_resp 1 [98] True),
          Ask 1000 [99] [112],
          Take 1000 [97] (M_append 1 [99] 0 0 [e1] 0), Take 1000 [98] (M_append 1 [99] 0 0 [e1] 0),
          Ask 1000 [99] [113],
          Tick 2000 [97], Take 2000 [98] (M_vote 2 [97] 1 1), Take 2000 [97] (M_vote_resp 2 [98] True),
          Ask 2000 [97] [119],
          Tick 9000 [97], Tick 20000 [97], Take 20000 [98] (M_vote 3 [97] 2 2), Take 20000 [97] (M_vote_resp 3 [98] True),
          Ask 20000 [97] [122],
          Take 20000 [99] (M_append 3 [97] 2 2 [] 0), Take 20000 [98] (M_append 3 [97] 2 2 [] 0),
          Take 20000 [97] (M_append_resp 3 [98] False 0 (Some 2)),
          Take 20000 [98] (M_append 3 [97] 1 1 [e2] 0), Take 20000 [98] (M_append 3 [97] 2 2 [e3] 0),
          Take 20000 [97] (M_append_resp 3 [98] True 3 (Some 0)),
          Take 20000 [97] (M_append_resp 3 [99] False 0 (Some 1)),
          Take 20000 [99] (M_append 3 [97] 0 0 [e1] 3)])"

definition payload_at :: "int \<Rightarrow> raft_node \<Rightarrow> int list option" where
  "payload_at k n = map_option (\<lambda>e. map uint (e_payload e)) (get_entry (rlog n) k)"

lemma clash_values:
  "map_option (\<lambda>st. map (applied_index \<circ> snd) (fst st)) (perform_all clash_acts (three_stage 1)) = Some [3, 0, 2]"
  "map_option (\<lambda>st. map (payload_at 2 \<circ> snd) (fst st)) (perform_all clash_acts (three_stage 1))
     = Some [Some [119], Some [119], Some [113]]"
  by code_simp+

text \<open>
  C36. State machine safety fails: a cluster can reach a state in which two nodes have applied different entries at the same
  index. A follower takes the smaller of the commit index of the leader and its own last index as committed, although
  the message has verified its log only up to an earlier entry.
\<close>

theorem followers_apply_different_entries:
  "\<exists>c0 c e f. raft_start three c0 \<and> (raft_step three)\<^sup>*\<^sup>* c0 c
     \<and> 2 \<le> applied_index (nodes c [97]) \<and> get_entry (rlog (nodes c [97])) 2 = Some e
     \<and> 2 \<le> applied_index (nodes c [99]) \<and> get_entry (rlog (nodes c [99])) 2 = Some f
     \<and> e_payload e \<noteq> e_payload f"
proof -
  obtain st where st: "perform_all clash_acts (three_stage 1) = Some st" "map (applied_index \<circ> snd) (fst st) = [3, 0, 2]"
      "map (payload_at 2 \<circ> snd) (fst st) = [Some [119], Some [119], Some [113]]"
    using clash_values by (cases "perform_all clash_acts (three_stage 1)") auto
  have k0: "map fst (fst (three_stage 1)) = three" by (simp add: three_stage_def comp_def)
  obtain B where B: "(raft_step three)\<^sup>*\<^sup>* (staged (three_stage 1) {}) (staged st B)" and k: "map fst (fst st) = three"
    using perform_run [OF st(1) k0, of "{}"] by blast
  then obtain x y z where "fst st = [([97], x), ([98], y), ([99], z)]"
    by (auto simp: three_def)
  then have v: "applied_index (nodes (staged st B) [97]) = 3" "applied_index (nodes (staged st B) [99]) = 2"
      "payload_at 2 (nodes (staged st B) [97]) = Some [119]" "payload_at 2 (nodes (staged st B) [99]) = Some [113]"
    using st(2,3) by (simp_all add: staged_def)
  then obtain e f where e: "get_entry (rlog (nodes (staged st B) [97])) 2 = Some e" "map uint (e_payload e) = [119]"
      "get_entry (rlog (nodes (staged st B) [99])) 2 = Some f" "map uint (e_payload f) = [113]"
    unfolding payload_at_def map_option_eq_Some by (elim exE conjE) (rule that)
  then have "e_payload e \<noteq> e_payload f" by auto
  with e show ?thesis
    using three_start [of 1] B v(1,2) by (intro exI conjI) auto
qed

end
