(* ===== verification/State_Theorems.thy ===== *)
theory State_Theorems
  imports Raft_Node
begin

text \<open>
  The properties of what a node keeps on disk and in its state machine: the persisted term and
  vote, the key-value store, and snapshots.
\<close>

section \<open>Persisted term and vote\<close>

text \<open>The object agrees with its file: opening the file again gives the same term and vote.\<close>

definition state_coherent :: "durable_state \<Rightarrow> bool" where
  "state_coherent ds \<longleftrightarrow> durable_state_init True (state_file ds) = Inr (ds\<lparr>state_path := True\<rparr>)"

lemma state_coherent_reload:
  "state_coherent ds \<longleftrightarrow> vote_file.reload (state_file ds) = Inr (current_term ds, voted_for ds)"
  by (cases ds) (auto simp: state_coherent_def durable_state_reload split: sum.splits)

text \<open>
  C28. The persisted state survives a crash at any moment of a save: whatever is on disk at that moment,
  opening it yields either the term and vote before the save or the new ones, never a mixture
  or an unreadable file; and after the save it yields the new ones.
\<close>

theorem save_is_crash_safe:
  assumes "state_coherent ds" "state_path ds" "\<And>p. v = Some p \<Longrightarrow> list_all scalar p"
  shows "state_coherent (save t v ds) \<and> (\<forall>(f, tmp) \<in> set (save_trace t v ds).
    \<exists>ds'. durable_state_init True f = Inr ds'
      \<and> ((current_term ds' = current_term ds \<and> voted_for ds' = voted_for ds)
         \<or> (current_term ds' = t \<and> voted_for ds' = v)))"
proof -
  let ?ok = "\<forall>p. v = Some p \<longrightarrow> list_all scalar p"
  have ok: "?ok" using assms(3) by blast
  have "state_coherent (save t v ds)"
    using vote_file.reload_written [of "(t, v)"] ok assms(2)
    by (simp add: state_coherent_reload save_def Let_def)
  moreover have "vote_file.reload f = Inr (current_term ds, voted_for ds) \<or> vote_file.reload f = Inr (t, v)"
    if "(f, tmp) \<in> set (save_trace t v ds)" for f tmp
    using vote_file.crash_old_or_new [of "state_file ds" _ "(t, v)" f tmp] that assms(1) ok
    by (simp add: state_coherent_reload save_trace_def)
  ultimately show ?thesis
    by (fastforce simp: durable_state_reload)
qed

definition blank_state :: durable_state where
  "blank_state = \<lparr>current_term = 0, voted_for = None, state_path = True, state_file = None\<rparr>"

theorem save_is_crash_safe_witness: "state_coherent (save 4 (Some [110, 49]) blank_state)"
proof -
  have "state_coherent blank_state" "state_path blank_state"
    by (simp_all add: state_coherent_def blank_state_def durable_state_init_def)
  then show ?thesis
    using save_is_crash_safe [of blank_state "Some [110, 49]" 4] by (simp add: scalar_def)
qed

section \<open>The key-value store\<close>

text \<open>
  Applying the command \<^verbatim>\<open>key=value\<close> sets exactly that key and counts one operation: a command with
  the key alone then reads the value, every other key reads as before, and the value may itself
  contain the separator.
\<close>

theorem kv_set_then_get:
  assumes "61 \<notin> set k" "utf8_encode (k @ 61 # v) = Inr put_cmd" "utf8_encode k = Inr get_cmd"
  shows "\<exists>kv'. kv_apply put_cmd kv = (Inr (SetOp k), kv') \<and> kv_ops kv' = kv_ops kv + 1
    \<and> fst (kv_apply get_cmd kv') = Inr (GetOp k (Some (JStr v)))
    \<and> (\<forall>q. q \<noteq> k \<longrightarrow> kv_get q kv' = kv_get q kv)"
  using kv_apply_set [OF assms(1,2), of kv] kv_apply_get [OF assms(1,3)]
  by (auto simp: kv_get_def dict_put_map_of)

theorem kv_set_then_get_witness:
  "\<exists>kv'. kv_apply [107, 61, 118, 61] kv_init = (Inr (SetOp [107]), kv')
    \<and> fst (kv_apply [107] kv') = Inr (GetOp [107] (Some (JStr [118, 61])))"
proof -
  have "utf8_encode ([107] @ 61 # [118, 61]) = Inr [107, 61, 118, 61]" "utf8_encode [107] = Inr [107]"
    by (simp_all add: utf8_encode_def utf8_code_def scalar_def)
  then show ?thesis
    using kv_set_then_get [of "[107]" "[118, 61]" "[107, 61, 118, 61]" "[107]" kv_init] by auto
qed

section \<open>Snapshots\<close>

lemma snapshot_keys_differ:
  "ascii ''last_included_index'' \<noteq> ascii ''last_included_term''"
  "ascii ''last_included_index'' \<noteq> ascii ''state_machine''"
  "ascii ''last_included_term'' \<noteq> ascii ''state_machine''"
  by (simp_all add: ascii_def)

lemma snapshot_json_wf: "wf_json st \<Longrightarrow> wf_json (snapshot_json idx t st)"
  using snapshot_keys_differ by (auto simp: snapshot_json_def ascii_scalar)

lemma parse_written:
  assumes "wf_json st"
  shows "parse_snapshot (encode_ascii (dumps (snapshot_json idx t st))) = Inr (idx, t, st)"
proof -
  note wf = snapshot_json_wf [OF assms, of idx t]
  show ?thesis
    unfolding parse_snapshot_def encode_ascii_decode [OF blank_gaps(1) wf] sum.case loads_dumps [OF wf]
    using snapshot_keys_differ by (simp add: snapshot_json_def json_int_def)
qed

text \<open>
  C29. A snapshot taken to disk restores the state machine: the file that \<^verbatim>\<open>take_snapshot\<close> writes parses
  back to the applied index, its term and the state, and restoring it gives the store that was
  snapshotted, whatever the store held before.
\<close>

theorem snapshot_restores_store:
  assumes "state_machine n = Some kv" "kv_inv kv" "applied_index n \<noteq> 0" "snapshot_dir n"
    and "take_snapshot n = (res, n')"
  shows "\<exists>f t. map_of (snapshot_files n') (snapshot_name (applied_index n)) = Some f
    \<and> parse_snapshot f = Inr (applied_index n, t, kv_snapshot kv)
    \<and> res = Some (applied_index n, t, kv_snapshot kv)
    \<and> kv_restore (kv_snapshot kv) kv' = (Inr (), kv)"
  using assms parse_written [OF kv_snapshot_wf [OF assms(2)]] kv_restore_snapshot [of kv kv']
  by (auto simp: take_snapshot_def write_snapshot_file_def Let_def dict_put_map_of)

definition snapshot_node :: raft_node where
  "snapshot_node = (snd (raft_node_init [97] [[97]] 0 (\<lambda>_. 0) blank_state (Some kv_init) raft_log_init []
     default_params))\<lparr>applied_index := 3, snapshot_dir := True\<rparr>"

theorem snapshot_restores_store_witness:
  "\<exists>f t. map_of (snapshot_files (snd (take_snapshot snapshot_node))) (snapshot_name 3) = Some f
    \<and> parse_snapshot f = Inr (3, t, kv_snapshot kv_init)"
proof -
  have "state_machine snapshot_node = Some kv_init" "kv_inv kv_init" "applied_index snapshot_node = 3"
    "snapshot_dir snapshot_node"
    by (simp_all add: snapshot_node_def raft_node_init_def default_params_def reset_election_deadline_def
        kv_inv_def kv_init_def Let_def)
  then show ?thesis
    using snapshot_restores_store [of snapshot_node kv_init "fst (take_snapshot snapshot_node)"
        "snd (take_snapshot snapshot_node)" kv_init] by auto
qed

end
