(* ===== verification/Partition.thy ===== *)
theory Partition
  imports Commit_Log_Props
begin

text \<open>
  The class \<^verbatim>\<open>Partition\<close> of \<^verbatim>\<open>pylog/broker.py\<close>: one commit log with the reading and retention
  policy of the broker. The loop of the byte budget calls the log until it is small enough, so
  it is a partial function; it is shown to return on every well-formed log. A partition
  offers the interface of a growing log to the broker.
\<close>

section \<open>Operations\<close>

record partition =
  part_log :: commit_log

definition open_partition :: "directory \<Rightarrow> int \<Rightarrow> int \<Rightarrow> partition result" where
  "open_partition dir max_bytes interval =
     (case open_log dir max_bytes interval of Inl e \<Rightarrow> Inl e | Inr l \<Rightarrow> Inr \<lparr>part_log = l\<rparr>)"

definition high_watermark :: "partition \<Rightarrow> int" where
  "high_watermark p = next_offset (part_log p)"

definition size_bytes :: "partition \<Rightarrow> int" where
  "size_bytes p = stat_size_bytes (stats (part_log p))"

definition part_append :: "bytes \<Rightarrow> int \<Rightarrow> partition \<Rightarrow> (partition, int) outcome" where
  "part_append pl ts p =
     (case append_log pl (Some ts) ts (part_log p) of (res, l) \<Rightarrow> (res, p\<lparr>part_log := l\<rparr>))"

definition part_read :: "int \<Rightarrow> partition \<Rightarrow> log_record option" where
  "part_read off p = read_log off (part_log p)"

definition read_after :: "int \<Rightarrow> int \<Rightarrow> partition \<Rightarrow> log_record list" where
  "read_after off limit p =
     read_loop (\<lambda>pos. read_log pos (part_log p)) (nat limit) (if 0 \<le> off then off + 1 else 0)"

text \<open>The index of the last segment of the expired prefix; -1 when there is none.\<close>

fun expired_loop :: "int \<Rightarrow> int option \<Rightarrow> int \<Rightarrow> int \<Rightarrow> segment list \<Rightarrow> int" where
  "expired_loop now max_age i expired [] = expired"
| "expired_loop now max_age i expired (seg # segs) =
     (case max_age of
        Some age \<Rightarrow>
          if now - max_timestamp seg > age then expired_loop now max_age (i + 1) i segs else expired
      | None \<Rightarrow> expired)"

definition age_sweep :: "int \<Rightarrow> int option \<Rightarrow> commit_log \<Rightarrow> nat \<times> commit_log" where
  "age_sweep now max_age l =
     (if length (segments l) > 1 then
        let expired_through = expired_loop now max_age 0 (-1) (butlast (segments l)) in
        if 0 \<le> expired_through
        then truncate_segments_before (base_offset (segments l ! nat expired_through) + 1) l
        else (0, l)
      else (0, l))"

partial_function (option) budget_loop :: "int \<Rightarrow> nat \<Rightarrow> commit_log \<Rightarrow> (nat \<times> commit_log) option" where
  "budget_loop limit removed l =
     (if length (segments l) \<le> 1 then Some (removed, l)
      else if sum_list (map seg_size (segments l)) \<le> limit then Some (removed, l)
      else budget_loop limit (removed + 1)
             (snd (truncate_segments_before (base_offset (segments l ! 1) + 1) l)))"

definition part_retention_sweep ::
  "int \<Rightarrow> int option \<Rightarrow> int option \<Rightarrow> partition \<Rightarrow> (nat \<times> partition) option" where
  "part_retention_sweep now max_age max_total p =
     (let (removed, l) = age_sweep now max_age (part_log p) in
      case max_total of
        None \<Rightarrow> Some (removed, p\<lparr>part_log := l\<rparr>)
      | Some limit \<Rightarrow>
          (case budget_loop limit removed l of
             None \<Rightarrow> None
           | Some (removed', l') \<Rightarrow> Some (removed', p\<lparr>part_log := l'\<rparr>)))"

section \<open>The partition as a growing log\<close>

definition part_inv :: "partition \<Rightarrow> bool" where
  "part_inv p \<longleftrightarrow> log_inv (part_log p)"

definition part_first :: "partition \<Rightarrow> int" where
  "part_first p = first_offset (part_log p)"

definition part_records :: "partition \<Rightarrow> log_record list" where
  "part_records p = log_records (part_log p)"

definition part_accepts :: "bytes \<Rightarrow> int \<Rightarrow> partition \<Rightarrow> bool" where
  "part_accepts pl ts p \<longleftrightarrow> accepts_record pl ts (part_log p)"

lemmas part_defs = part_inv_def part_first_def part_records_def part_accepts_def
  high_watermark_def part_read_def part_append_def

interpretation pt: growing_log part_inv part_first part_records high_watermark part_read
  part_append part_accepts
proof
  fix p pl ts
  assume "part_inv p" "part_accepts pl ts p"
  then obtain l' where l': "append_log pl (Some ts) ts (part_log p) = (Inr (next_offset (part_log p)), l')"
      "log_inv l'" "first_offset l' = first_offset (part_log p)"
      "log_records l' = log_records (part_log p) @ [mk_record (next_offset (part_log p)) ts pl]"
    using cl.app_recs [of "part_log p" pl ts ts] by (auto simp: part_defs)
  then show "\<exists>p'. part_append pl ts p = (Inr (high_watermark p), p') \<and> part_inv p'
      \<and> part_first p' = part_first p
      \<and> part_records p' = part_records p @ [mk_record (high_watermark p) ts pl]"
    by (auto simp: part_defs)
qed (simp_all add: part_defs log_inv_records read_log_inv)

lemma read_after_eq:
  "read_after off limit p =
     read_loop (\<lambda>pos. part_read pos p) (nat limit) (if 0 \<le> off then off + 1 else 0)"
  by (simp add: read_after_def part_read_def)

lemma read_after_slice:
  assumes "part_inv p" "part_first p \<le> off + 1" "-1 \<le> off"
  shows "read_after off limit p = take (nat limit) (drop (nat (off + 1 - part_first p)) (part_records p))"
proof -
  have "(if 0 \<le> off then off + 1 else 0) = off + 1"
    using assms(3) by simp
  then show ?thesis
    using assms pt.read_loop_recs [of p "off + 1" "nat limit"] by (simp only: read_after_eq)
qed

lemma read_after_before:
  assumes "part_inv p" "(if 0 \<le> off then off + 1 else 0) < part_first p"
  shows "read_after off limit p = []"
  unfolding read_after_eq using assms by (rule pt.read_loop_before)

section \<open>Retention\<close>

text \<open>What any sequence of segment removals does to a log.\<close>

definition suffix_of_log :: "commit_log \<Rightarrow> commit_log \<Rightarrow> bool" where
  "suffix_of_log l l' \<longleftrightarrow> log_inv l' \<and> next_offset l' = next_offset l \<and> first_offset l \<le> first_offset l'
     \<and> log_records l' = drop (nat (first_offset l' - first_offset l)) (log_records l)
     \<and> (\<exists>k < length (segments l). segments l' = drop k (segments l))
     \<and> max_segment_bytes l' = max_segment_bytes l \<and> log_interval l' = log_interval l"

lemma suffix_of_log_refl: "log_inv l \<Longrightarrow> suffix_of_log l l"
  by (auto simp: suffix_of_log_def log_inv_def intro!: exI [of _ 0])

lemma suffix_of_log_trans:
  assumes "suffix_of_log l l1" "suffix_of_log l1 l2"
  shows "suffix_of_log l l2"
proof -
  obtain k1 k2 where k: "k1 < length (segments l)" "segments l1 = drop k1 (segments l)"
      "k2 < length (segments l1)" "segments l2 = drop k2 (segments l1)"
    using assms by (auto simp: suffix_of_log_def)
  have "log_records l2 = drop (nat (first_offset l2 - first_offset l1) + nat (first_offset l1 - first_offset l))
      (log_records l)"
    using assms by (simp add: suffix_of_log_def)
  also have "nat (first_offset l2 - first_offset l1) + nat (first_offset l1 - first_offset l)
      = nat (first_offset l2 - first_offset l)"
    using assms by (auto simp: suffix_of_log_def)
  finally show ?thesis
    using assms k by (auto simp: suffix_of_log_def intro!: exI [of _ "k2 + k1"])
qed

lemma truncate_segments_suffix:
  assumes "log_inv l" "truncate_segments_before m l = (k, l')"
  shows "suffix_of_log l l'" and "segments l' = drop k (segments l)" and "k < length (segments l)"
  using truncate_segments_before_inv [OF assms(1), of m] assms(2)
  by (auto simp: suffix_of_log_def truncate_segments_before_def Let_def)

text \<open>Two segments go at each turn of the budget loop when there are more than two.\<close>

lemma budget_turn:
  assumes inv: "log_inv l" and len: "1 < length (segments l)"
  defines "r \<equiv> truncate_segments_before (base_offset (segments l ! 1) + 1) l"
  shows "fst r = (if length (segments l) = 2 then 1 else 2)"
    and "segments (snd r) = drop (fst r) (segments l)"
proof -
  let ?ss = "segments l" and ?m = "base_offset (segments l ! 1) + 1"
  obtain k l' where r: "r = (k, l')" by (cases r)
  then have tr: "truncate_segments_before ?m l = (k, l')" by (simp add: r_def)
  have sorted: "sorted_wrt (<) (map base_offset ?ss)"
    using inv seg_chain_bases_sorted by (auto simp: log_inv_def)
  have k: "k < length ?ss" "segments l' = drop k ?ss" "\<forall>s \<in> set (take k ?ss). base_offset s < ?m"
      "?m \<le> first_offset l' \<or> length (segments l') = 1"
    using truncate_segments_before_inv [OF inv, of ?m] tr by auto
  have lt: "base_offset (?ss ! i) < base_offset (?ss ! j)" if "i < j" "j < length ?ss" for i j
    using sorted_wrt_nth_less [OF sorted, of i j] that by simp
  have "k \<le> 2"
  proof (rule ccontr)
    assume "\<not> k \<le> 2"
    then have "?ss ! 2 \<in> set (take k ?ss)"
      using k(1) by (auto simp: in_set_conv_nth intro!: exI [of _ 2])
    with k(3) lt [of 1 2] k(1) \<open>\<not> k \<le> 2\<close> show False by fastforce
  qed
  moreover have "1 \<le> k" if "k \<noteq> length ?ss - 1"
  proof (rule ccontr)
    assume "\<not> 1 \<le> k"
    then have "k = 0" by simp
    then have "first_offset l' = base_offset (?ss ! 0)"
      using k(1,2) by (simp add: first_offset_def hd_conv_nth)
    moreover have "length (segments l') \<noteq> 1"
      using k(2) that \<open>\<not> 1 \<le> k\<close> by simp
    ultimately show False using k(4) lt [of 0 1] len by simp
  qed
  moreover have "k \<noteq> 1" if "length ?ss \<noteq> 2"
  proof
    assume "k = 1"
    then have "first_offset l' = base_offset (?ss ! 1)" "length (segments l') \<noteq> 1"
      using k(1,2) that by (simp_all add: first_offset_def hd_drop_conv_nth)
    with k(4) show False by simp
  qed
  ultimately have "k \<le> 2" "1 \<le> k \<or> k = length ?ss - 1" "k \<noteq> 1 \<or> length ?ss = 2"
    by blast+
  then have "k = (if length ?ss = 2 then 1 else 2)"
    using k(1) len by (auto; linarith)
  then show "fst r = (if length ?ss = 2 then 1 else 2)"
    using r by simp
  show "segments (snd r) = drop (fst r) ?ss"
    using k(2) r by simp
qed

lemma budget_loop_returns:
  assumes "log_inv l"
  shows "\<exists>n l'. budget_loop limit removed l = Some (removed + n, l') \<and> suffix_of_log l l'
    \<and> length (segments l) - length (segments l') \<le> 2 * n
    \<and> (length (segments l') = 1 \<or> sum_list (map seg_size (segments l')) \<le> limit)"
  using assms
proof (induction "length (segments l)" arbitrary: l removed rule: less_induct)
  case less
  show ?case
  proof (cases "length (segments l) \<le> 1 \<or> sum_list (map seg_size (segments l)) \<le> limit")
    case True
    moreover have "length (segments l) \<noteq> 0"
      using less.prems by (simp add: log_inv_def)
    then have "length (segments l) \<le> 1 \<Longrightarrow> length (segments l) = 1"
      by linarith
    ultimately show ?thesis
      using suffix_of_log_refl [OF less.prems]
      by (subst budget_loop.simps) (auto intro!: exI [of _ 0])
  next
    case False
    let ?r = "truncate_segments_before (base_offset (segments l ! 1) + 1) l"
    obtain k l1 where r: "?r = (k, l1)" by (cases ?r)
    have len: "1 < length (segments l)" using False by simp
    have k: "k = (if length (segments l) = 2 then 1 else 2)" "segments l1 = drop k (segments l)"
      using budget_turn [OF less.prems len] r by simp_all
    have suf: "suffix_of_log l l1"
      using truncate_segments_suffix(1) [OF less.prems r] .
    then have inv1: "log_inv l1" by (simp add: suffix_of_log_def)
    have "length (segments l1) < length (segments l)"
      using k len by (simp, linarith)
    from less.hyps [OF this inv1, of "removed + 1"] obtain n l' where
      n: "budget_loop limit (removed + 1) l1 = Some (removed + 1 + n, l')" "suffix_of_log l1 l'"
        "length (segments l1) - length (segments l') \<le> 2 * n"
        "length (segments l') = 1 \<or> sum_list (map seg_size (segments l')) \<le> limit"
      by blast
    have "budget_loop limit removed l = Some (removed + Suc n, l')"
      using False n(1) r by (subst budget_loop.simps) simp
    moreover have "length (segments l) - length (segments l') \<le> 2 * Suc n"
      using n(3) k by (auto split: if_splits)
    ultimately show ?thesis
      using n(4) suffix_of_log_trans [OF suf n(2)] by blast
  qed
qed

lemma age_sweep_suffix:
  assumes "log_inv l" "age_sweep now age l = (k, l')"
  shows "suffix_of_log l l'"
  using assms truncate_segments_suffix(1) suffix_of_log_refl
  by (auto simp: age_sweep_def Let_def split: if_splits)

lemma part_retention_returns:
  assumes "part_inv p"
  shows "\<exists>n p'. part_retention_sweep now age budget p = Some (n, p')
    \<and> suffix_of_log (part_log p) (part_log p')
    \<and> (\<forall>limit. budget = Some limit \<longrightarrow> length (segments (part_log p')) = 1 \<or> size_bytes p' \<le> limit)"
proof -
  obtain k l1 where sweep: "age_sweep now age (part_log p) = (k, l1)"
    by (cases "age_sweep now age (part_log p)")
  then have suf: "suffix_of_log (part_log p) l1" and inv1: "log_inv l1"
    using assms age_sweep_suffix by (auto simp: part_inv_def suffix_of_log_def)
  show ?thesis
  proof (cases budget)
    case None
    with suf sweep show ?thesis by (simp add: part_retention_sweep_def)
  next
    case (Some limit)
    obtain n l' where "budget_loop limit k l1 = Some (k + n, l')" "suffix_of_log l1 l'"
        "length (segments l') = 1 \<or> sum_list (map seg_size (segments l')) \<le> limit"
      using budget_loop_returns [OF inv1, of limit k] by blast
    with Some sweep suffix_of_log_trans [OF suf] show ?thesis
      by (auto simp: part_retention_sweep_def size_bytes_def stats_def)
  qed
qed

end
