(* ===== verification/Py_Int.thy ===== *)
theory Py_Int
  imports Json_Props
begin

text \<open>
  The conversion \<^verbatim>\<open>int(x)\<close> of Python for the values that come out of JSON documents and URLs. A number
  with a fraction is cut towards zero at its decimal value. Of the characters outside ASCII that
  Python takes for digits or spaces none is accepted.
\<close>

section \<open>Strings\<close>

definition ascii_space :: "nat \<Rightarrow> bool" where
  "ascii_space c \<longleftrightarrow> c = 32 \<or> (9 \<le> c \<and> c \<le> 13)"

definition strip_space :: "ustr \<Rightarrow> ustr" where
  "strip_space s = rev (dropWhile ascii_space (rev (dropWhile ascii_space s)))"

text \<open>Digits with single underscores between them; \<open>prev\<close> says that the last character was a digit.\<close>

fun int_digits :: "nat \<Rightarrow> bool \<Rightarrow> ustr \<Rightarrow> nat option" where
  "int_digits acc prev [] = (if prev then Some acc else None)"
| "int_digits acc prev (c # cs) =
     (if is_digit c then int_digits (10 * acc + (c - 48)) True cs
      else if c = 95 \<and> prev then int_digits acc False cs
      else None)"

definition int_of_str :: "ustr \<Rightarrow> int result" where
  "int_of_str s =
     (let s1 = strip_space s;
          (neg, s2) = (case s1 of
                         [] \<Rightarrow> (False, s1)
                       | c # r \<Rightarrow> if c = 45 then (True, r) else if c = 43 then (False, r) else (False, s1))
      in case int_digits 0 False s2 of
           None \<Rightarrow> Inl (ValueError ''invalid literal for int()'')
         | Some n \<Rightarrow> Inr (if neg then - int n else int n))"

section \<open>Numbers with a fraction\<close>

definition int_of_float :: "ustr \<Rightarrow> int result" where
  "int_of_float t =
     (let (neg, s1) = (case t of [] \<Rightarrow> (False, t) | c # r \<Rightarrow> if c = 45 then (True, r) else (False, t));
          ds = takeWhile is_digit s1;
          (fr, s2) = frac_part (drop (length ds) s1);
          (ex, _) = exp_part s2;
          e = (case ex of [] \<Rightarrow> 0 | _ # r \<Rightarrow> (case int_of_str r of Inr k \<Rightarrow> k | Inl _ \<Rightarrow> 0));
          m = dec_val (ds @ drop 1 fr);
          k = e - int (length (drop 1 fr));
          v = (if 0 \<le> k then int m * 10 ^ nat k else int m div 10 ^ nat (- k))
      in if ds = [] then Inl (if t = ascii ''NaN'' then ValueError ''cannot convert float NaN to integer'' else OverflowError)
         else Inr (if neg then - v else v))"

definition int_of_json :: "json \<Rightarrow> int result" where
  "int_of_json v =
     (case v of
        JInt i \<Rightarrow> Inr i
      | JBool b \<Rightarrow> Inr (if b then 1 else 0)
      | JFloat t \<Rightarrow> int_of_float t
      | JStr s \<Rightarrow> int_of_str s
      | _ \<Rightarrow> Inl TypeError)"

section \<open>Reading back what was printed\<close>

lemma int_digits_digits:
  "list_all is_digit ds \<Longrightarrow> ds \<noteq> [] \<or> prev \<Longrightarrow>
     int_digits acc prev ds = Some (foldl (\<lambda>a c. 10 * a + (c - 48)) acc ds)"
  by (induction ds arbitrary: acc prev) auto

lemma strip_space_none:
  assumes "list_all (\<lambda>c. \<not> ascii_space c) s"
  shows "strip_space s = s"
proof -
  have keep: "dropWhile ascii_space xs = xs" if "list_all (\<lambda>c. \<not> ascii_space c) xs" for xs
    using that by (cases xs) simp_all
  have "list_all (\<lambda>c. \<not> ascii_space c) (rev s)"
    using assms by (simp add: list_all_iff)
  with assms show ?thesis by (simp add: strip_space_def keep)
qed

lemma int_of_str_dec: "int_of_str (int_dec i) = Inr i"
proof -
  have digits: "int_digits 0 False (nat_dec n) = Some n" for n
    using int_digits_digits [OF nat_dec_digits, of n False 0] nat_dec_val [of n] by (simp add: dec_val_def)
  have free: "list_all (\<lambda>c. \<not> ascii_space c) (nat_dec n)" "hd (nat_dec n) \<noteq> 45" "hd (nat_dec n) \<noteq> 43" for n
    using nat_dec_digits [of n] nat_dec_nonempty [of n]
    by (cases "nat_dec n"; force simp: list_all_iff is_digit_def ascii_space_def)+
  have "list_all (\<lambda>c. \<not> ascii_space c) (int_dec i)"
    using free(1) by (simp add: int_dec_def ascii_space_def)
  then have "strip_space (int_dec i) = int_dec i" by (rule strip_space_none)
  moreover obtain c r where "nat_dec (nat i) = c # r" "c \<noteq> 45" "c \<noteq> 43"
    using free(2,3) [of "nat i"] by (cases "nat_dec (nat i)") simp_all
  ultimately show ?thesis
    using digits [of "nat i"] digits [of "nat (- i)"] by (simp add: int_of_str_def int_dec_def)
qed

end
