(* ===== verification/Consumer_Group.thy ===== *)
theory Consumer_Group
  imports Atomic_File Py_Int
begin

text \<open>
  The class \<^verbatim>\<open>ConsumerGroup\<close> of \<^verbatim>\<open>pylog/broker.py\<close>: the committed offsets of a group, a dictionary
  from \<^verbatim>\<open>topic/partition\<close> to an offset that is kept in a JSON file. \<open>group_file\<close> is the content of
  that file.
\<close>

section \<open>Operations\<close>

record consumer_group =
  offsets :: "(ustr \<times> int) list"
  group_file :: "bytes option"

definition group_key :: "ustr \<Rightarrow> int \<Rightarrow> ustr" where
  "group_key topic part = topic @ [47] @ int_dec part"

fun load_items :: "(ustr \<times> json) list \<Rightarrow> (ustr \<times> int) list result" where
  "load_items [] = Inr []"
| "load_items ((k, v) # kvs) =
     (case int_of_json v of
        Inl e \<Rightarrow> Inl e
      | Inr i \<Rightarrow> (case load_items kvs of Inl e \<Rightarrow> Inl e | Inr os \<Rightarrow> Inr ((k, i) # os)))"

definition load_offsets :: "bytes \<Rightarrow> (ustr \<times> int) list result" where
  "load_offsets f =
     (case utf8_decode f of
        Inl e \<Rightarrow> Inl e
      | Inr s \<Rightarrow>
          (case loads s of
             Inl e \<Rightarrow> Inl e
           | Inr (JObj kvs) \<Rightarrow> load_items kvs
           | Inr _ \<Rightarrow> Inl AttributeError))"

definition group_init :: "bytes option \<Rightarrow> consumer_group result" where
  "group_init f =
     (case f of
        None \<Rightarrow> Inr \<lparr>offsets = [], group_file = None\<rparr>
      | Some b \<Rightarrow>
          (case load_offsets b of
             Inl e \<Rightarrow> Inl e
           | Inr os \<Rightarrow> Inr \<lparr>offsets = os, group_file = Some b\<rparr>))"

definition committed :: "ustr \<Rightarrow> int \<Rightarrow> consumer_group \<Rightarrow> int" where
  "committed topic part g =
     (case map_of (offsets g) (group_key topic part) of None \<Rightarrow> -1 | Some i \<Rightarrow> i)"

definition offsets_json :: "(ustr \<times> int) list \<Rightarrow> json" where
  "offsets_json os = JObj (map (\<lambda>(k, i). (k, JInt i)) os)"

definition offsets_bytes :: "(ustr \<times> int) list \<Rightarrow> bytes" where
  "offsets_bytes os = encode_ascii (dumps (offsets_json os))"

definition group_commit :: "ustr \<Rightarrow> int \<Rightarrow> int \<Rightarrow> consumer_group \<Rightarrow> consumer_group" where
  "group_commit topic part offset g =
     (let key = group_key topic part in
      if offset < (case map_of (offsets g) key of None \<Rightarrow> -1 | Some i \<Rightarrow> i) then g
      else
        let os = dict_put key offset (offsets g)
        in g\<lparr>offsets := os, group_file := Some (offsets_bytes os)\<rparr>)"

text \<open>What a crash during \<^verbatim>\<open>commit\<close> can leave of the file and of the temporary file.\<close>

definition group_commit_trace ::
  "ustr \<Rightarrow> int \<Rightarrow> int \<Rightarrow> consumer_group \<Rightarrow> (bytes option \<times> bytes option) list" where
  "group_commit_trace topic part offset g =
     (let key = group_key topic part in
      if offset < (case map_of (offsets g) key of None \<Rightarrow> -1 | Some i \<Rightarrow> i) then [(group_file g, None)]
      else replace_trace (group_file g) (offsets_bytes (dict_put key offset (offsets g))))"

section \<open>Keys\<close>

lemma int_dec_no_slash: "47 \<notin> set (int_dec i)"
proof -
  have "47 \<notin> set (nat_dec n)" for n
    using nat_dec_digits [of n] by (auto simp: list_all_iff is_digit_def)
  then show ?thesis by (simp add: int_dec_def)
qed

lemma int_dec_inj:
  assumes "int_dec i = int_dec j"
  shows "i = j"
proof -
  have "scan_number (int_dec i @ []) = Some (JInt i, [])" "scan_number (int_dec j @ []) = Some (JInt j, [])"
    by (rule scan_int, simp add: delimited_def)+
  with assms show ?thesis by simp
qed

lemma split_at_slash:
  assumes "xs @ 47 # ys = zs @ 47 # ws" "47 \<notin> set ys" "47 \<notin> set ws"
  shows "xs = zs \<and> ys = ws"
proof -
  have "takeWhile (\<lambda>c. c \<noteq> 47) (rev (xs @ 47 # ys)) = rev ys"
       "takeWhile (\<lambda>c. c \<noteq> 47) (rev (zs @ 47 # ws)) = rev ws"
    using assms(2,3) by (auto simp: takeWhile_append takeWhile_tail)
  then have "ys = ws" using assms(1) by simp
  then show ?thesis using assms(1) by simp
qed

text \<open>Two pairs of topic and partition never share a key, whatever the topic names contain.\<close>

lemma group_key_inj: "group_key t p = group_key t' p' \<longleftrightarrow> t = t' \<and> p = p'"
  using split_at_slash [of t "int_dec p" t' "int_dec p'"] int_dec_no_slash int_dec_inj
  by (auto simp: group_key_def)

section \<open>The file\<close>

definition offsets_ok :: "(ustr \<times> int) list \<Rightarrow> bool" where
  "offsets_ok os \<longleftrightarrow> distinct (map fst os) \<and> (\<forall>(k, i) \<in> set os. list_all scalar k)"

lemma offsets_json_wf: "offsets_ok os \<Longrightarrow> wf_json (offsets_json os)"
  by (auto simp: offsets_ok_def offsets_json_def case_prod_beta comp_def)

lemma load_items_written: "load_items (map (\<lambda>(k, i). (k, JInt i)) os) = Inr os"
  by (induction os) (auto simp: int_of_json_def)

lemma load_offsets_written:
  assumes "offsets_ok os"
  shows "load_offsets (offsets_bytes os) = Inr os"
  using encode_ascii_decode [OF blank_gaps(1) offsets_json_wf [OF assms]]
    loads_dumps [OF offsets_json_wf [OF assms]] load_items_written [of os]
  unfolding load_offsets_def offsets_bytes_def by (simp add: offsets_json_def)

interpretation group_disk: atomic_file offsets_bytes load_offsets "[]" offsets_ok
  by unfold_locales (rule load_offsets_written)

lemma group_init_reload:
  "group_init f = (case group_disk.reload f of
     Inl e \<Rightarrow> Inl e | Inr os \<Rightarrow> Inr \<lparr>offsets = os, group_file = f\<rparr>)"
  by (auto simp: group_init_def group_disk.reload_def split: option.splits sum.splits)

text \<open>The group agrees with its file.\<close>

definition group_inv :: "consumer_group \<Rightarrow> bool" where
  "group_inv g \<longleftrightarrow> offsets_ok (offsets g) \<and> group_disk.reload (group_file g) = Inr (offsets g)"

lemma group_inv_init: "group_inv g \<Longrightarrow> group_init (group_file g) = Inr g"
  by (simp add: group_inv_def group_init_reload)

lemma int_dec_scalar: "list_all scalar (int_dec i)"
proof -
  have "list_all scalar (nat_dec n)" for n
    using nat_dec_digits [of n] by (auto simp: list_all_iff is_digit_def scalar_def)
  then show ?thesis by (simp add: int_dec_def scalar_def)
qed

lemma group_key_scalar: "list_all scalar t \<Longrightarrow> list_all scalar (group_key t p)"
  using int_dec_scalar [of p] by (simp add: group_key_def scalar_def)

lemma offsets_ok_put:
  assumes "offsets_ok os" "list_all scalar k"
  shows "offsets_ok (dict_put k i os)"
proof -
  have "list_all scalar k'" if "(k', i') \<in> set (dict_put k i os)" for k' i'
  proof -
    have "k' \<in> insert k (fst ` set os)"
      using that dict_put_keys [of k i os] by force
    then show ?thesis using assms by (auto simp: offsets_ok_def)
  qed
  then show ?thesis
    using assms dict_put_distinct by (auto simp: offsets_ok_def)
qed

lemma group_commit_inv:
  assumes "group_inv g" "list_all scalar t"
  shows "group_inv (group_commit t p i g)"
  using assms offsets_ok_put [OF _ group_key_scalar] group_disk.reload_written
  by (auto simp: group_inv_def group_commit_def Let_def)

lemma group_commit_committed:
  "committed t' p' (group_commit t p i g) =
     (if t' = t \<and> p' = p then max i (committed t p g) else committed t' p' g)"
  by (auto simp: committed_def group_commit_def Let_def dict_put_map_of group_key_inj max_def)

lemma group_commit_crash:
  assumes "group_inv g" "list_all scalar t" "(f, tmp) \<in> set (group_commit_trace t p i g)"
  shows "\<exists>g'. group_init f = Inr g'
    \<and> (offsets g' = offsets g \<or> offsets g' = offsets (group_commit t p i g))"
proof (cases "i < committed t p g")
  case True
  then have "f = group_file g"
    using assms(3) by (simp add: group_commit_trace_def committed_def)
  then show ?thesis using group_inv_init [OF assms(1)] by auto
next
  case False
  let ?os = "dict_put (group_key t p) i (offsets g)"
  have "(f, tmp) \<in> set (replace_trace (group_file g) (offsets_bytes ?os))"
    using assms(3) False by (simp add: group_commit_trace_def committed_def)
  moreover have "offsets_ok ?os"
    using assms by (intro offsets_ok_put group_key_scalar) (simp_all add: group_inv_def)
  ultimately have "group_disk.reload f = Inr (offsets g) \<or> group_disk.reload f = Inr ?os"
    using assms(1) group_disk.crash_old_or_new [of "group_file g" "offsets g" ?os f tmp]
    by (simp add: group_inv_def)
  moreover have "offsets (group_commit t p i g) = ?os"
    using False by (simp add: group_commit_def committed_def Let_def)
  ultimately show ?thesis by (auto simp: group_init_reload)
qed

end
