(* ===== verification/Broker.thy ===== *)
theory Broker
  imports "HOL-Library.List_Lexorder" Partition Consumer_Group
begin

text \<open>
  The class \<^verbatim>\<open>Broker\<close> of \<^verbatim>\<open>pylog/broker.py\<close>: topics with their partitions, routing of records by
  the hash of the key or in turn, consumer groups and retention. The dictionaries are
  association lists in insertion order. The data directory is represented by what is on it:
  a list of topic directories with their partition directories for the constructor, and
  \<open>groups_dir\<close>, the files of the groups that have not been opened; partitions and open groups
  hold their own files. Names of topics and groups are assumed to be names of files, so
  distinct names have distinct paths. \<^verbatim>\<open>close\<close> only closes file handles.
\<close>

section \<open>State\<close>

record broker =
  default_partitions :: int
  broker_segment_bytes :: int
  broker_index_interval :: int
  retention_max_age_ms :: "int option"
  retention_max_partition_bytes :: "int option"
  topics :: "(ustr \<times> partition list) list"
  groups :: "(ustr \<times> consumer_group) list"
  groups_dir :: "(ustr \<times> bytes) list"
  rr :: int

type_synonym topic_dir = "(ustr \<times> directory) list"

definition part_name :: "nat \<Rightarrow> ustr" where
  "part_name i = 112 # nat_dec i"

section \<open>Topics\<close>

text \<open>A partition whose directory does not exist yet starts with an empty one.\<close>

fun open_parts :: "topic_dir \<Rightarrow> int \<Rightarrow> int \<Rightarrow> nat list \<Rightarrow> partition list result" where
  "open_parts dirs max_bytes interval [] = Inr []"
| "open_parts dirs max_bytes interval (i # is) =
     (case open_partition (case map_of dirs (part_name i) of None \<Rightarrow> [] | Some d \<Rightarrow> d) max_bytes interval of
        Inl e \<Rightarrow> Inl e
      | Inr p \<Rightarrow>
          (case open_parts dirs max_bytes interval is of Inl e \<Rightarrow> Inl e | Inr ps \<Rightarrow> Inr (p # ps)))"

definition open_topic :: "topic_dir \<Rightarrow> ustr \<Rightarrow> nat \<Rightarrow> broker \<Rightarrow> (broker, unit) outcome" where
  "open_topic dirs name num_partitions b =
     (case open_parts dirs (broker_segment_bytes b) (broker_index_interval b) [0..<num_partitions] of
        Inl e \<Rightarrow> (Inl e, b)
      | Inr parts \<Rightarrow> (Inr (), b\<lparr>topics := dict_put name parts (topics b)\<rparr>))"

text \<open>A topic that the broker does not have has no partition directory on disk.\<close>

definition create_topic :: "ustr \<Rightarrow> int option \<Rightarrow> broker \<Rightarrow> (broker, unit) outcome" where
  "create_topic name num_partitions b =
     (if map_of (topics b) name \<noteq> None then (Inl (ValueError ''topic exists''), b)
      else
        let n = (case num_partitions of
                   None \<Rightarrow> default_partitions b
                 | Some k \<Rightarrow> if k = 0 then default_partitions b else k)
        in if n < 1 then (Inl (ValueError ''num_partitions must be >= 1''), b)
           else open_topic [] name (nat n) b)"

text \<open>The constructor: every topic directory with at least one entry that starts with p is opened.\<close>

fun open_topics :: "(ustr \<times> topic_dir) list \<Rightarrow> ustr list \<Rightarrow> broker \<Rightarrow> broker result" where
  "open_topics dirs [] b = Inr b"
| "open_topics dirs (name # names) b =
     (let pdir = (case map_of dirs name of None \<Rightarrow> [] | Some d \<Rightarrow> d);
          count = length (filter (\<lambda>(d, _). d \<noteq> [] \<and> hd d = 112) pdir)
      in if count = 0 then open_topics dirs names b
         else (case open_topic pdir name count b of
                 (Inl e, _) \<Rightarrow> Inl e
               | (Inr _, b1) \<Rightarrow> open_topics dirs names b1))"

definition broker_init ::
  "(ustr \<times> topic_dir) list \<Rightarrow> (ustr \<times> bytes) list \<Rightarrow> int \<Rightarrow> int \<Rightarrow> int \<Rightarrow> int option \<Rightarrow> int option
     \<Rightarrow> broker result" where
  "broker_init topic_dirs group_files parts max_bytes interval max_age max_total =
     open_topics topic_dirs (sort (map fst topic_dirs))
       \<lparr>default_partitions = parts, broker_segment_bytes = max_bytes, broker_index_interval = interval,
        retention_max_age_ms = max_age, retention_max_partition_bytes = max_total,
        topics = [], groups = [], groups_dir = group_files, rr = 0\<rparr>"

section \<open>Producing and fetching\<close>

record produced =
  pr_topic :: ustr
  pr_partition :: nat
  pr_offset :: int

definition route :: "ustr option \<Rightarrow> nat \<Rightarrow> broker \<Rightarrow> (broker, nat) outcome" where
  "route key n b =
     (case key of
        Some k \<Rightarrow>
          (case utf8_encode k of
             Inl e \<Rightarrow> (Inl e, b)
           | Inr kb \<Rightarrow>
               if n = 0 then (Inl ZeroDivisionError, b)
               else (Inr (nat (uint (crc32 kb) mod int n)), b))
      | None \<Rightarrow>
          if n = 0 then (Inl ZeroDivisionError, b)
          else (Inr (nat (rr b mod int n)), b\<lparr>rr := rr b + 1\<rparr>))"

definition produce ::
  "ustr \<Rightarrow> bytes \<Rightarrow> ustr option \<Rightarrow> int option \<Rightarrow> int \<Rightarrow> broker \<Rightarrow> (broker, produced) outcome" where
  "produce topic pl key timestamp now b =
     (let (made, b1) = (case map_of (topics b) topic of
                          None \<Rightarrow> create_topic topic None b
                        | Some _ \<Rightarrow> (Inr (), b))
      in case made of
           Inl e \<Rightarrow> (Inl e, b1)
         | Inr _ \<Rightarrow>
             (case map_of (topics b1) topic of
                None \<Rightarrow> (Inl KeyError, b1)
              | Some parts \<Rightarrow>
                  (case route key (length parts) b1 of
                     (Inl e, b2) \<Rightarrow> (Inl e, b2)
                   | (Inr idx, b2) \<Rightarrow>
                       let ts = (case timestamp of Some t \<Rightarrow> t | None \<Rightarrow> now);
                           (res, p) = part_append pl ts (parts ! idx);
                           b3 = b2\<lparr>topics := dict_put topic (parts[idx := p]) (topics b2)\<rparr>
                       in case res of
                            Inl e \<Rightarrow> (Inl e, b3)
                          | Inr off \<Rightarrow>
                              (Inr \<lparr>pr_topic = topic, pr_partition = idx, pr_offset = off\<rparr>, b3))))"

record fetched =
  f_offset :: int
  f_timestamp :: int
  f_payload :: ustr

definition fetched_of :: "log_record \<Rightarrow> fetched" where
  "fetched_of r = \<lparr>f_offset = rec_offset r, f_timestamp = rec_timestamp r,
     f_payload = utf8_decode_replace (rec_payload r)\<rparr>"

definition fetch :: "ustr \<Rightarrow> int \<Rightarrow> int \<Rightarrow> int \<Rightarrow> broker \<Rightarrow> fetched list result" where
  "fetch topic part after_offset limit b =
     (case map_of (topics b) topic of
        None \<Rightarrow> Inl KeyError
      | Some parts \<Rightarrow>
          if \<not> (0 \<le> part \<and> part < int (length parts)) then Inl KeyError
          else Inr (map fetched_of (read_after after_offset limit (parts ! nat part))))"

section \<open>Consumer groups\<close>

definition group :: "ustr \<Rightarrow> broker \<Rightarrow> (broker, consumer_group) outcome" where
  "group name b =
     (case map_of (groups b) name of
        Some g \<Rightarrow> (Inr g, b)
      | None \<Rightarrow>
          (case group_init (map_of (groups_dir b) name) of
             Inl e \<Rightarrow> (Inl e, b)
           | Inr g \<Rightarrow> (Inr g, b\<lparr>groups := dict_put name g (groups b)\<rparr>)))"

definition commit_offset :: "ustr \<Rightarrow> ustr \<Rightarrow> int \<Rightarrow> int \<Rightarrow> broker \<Rightarrow> (broker, unit) outcome" where
  "commit_offset group_name topic part offset b =
     (case group group_name b of
        (Inl e, b1) \<Rightarrow> (Inl e, b1)
      | (Inr g, b1) \<Rightarrow>
          (Inr (), b1\<lparr>groups := dict_put group_name (group_commit topic part offset g) (groups b1)\<rparr>))"

definition lag :: "ustr \<Rightarrow> ustr \<Rightarrow> int \<Rightarrow> broker \<Rightarrow> (broker, int) outcome" where
  "lag group_name topic part b =
     (case map_of (topics b) topic of
        None \<Rightarrow> (Inr 0, b)
      | Some parts \<Rightarrow>
          (case py_index parts part of
             Inl e \<Rightarrow> (Inl e, b)
           | Inr p \<Rightarrow>
               let hw = high_watermark p in
               (case group group_name b of
                  (Inl e, b1) \<Rightarrow> (Inl e, b1)
                | (Inr g, b1) \<Rightarrow> (Inr (max 0 (hw - 1 - committed topic part g)), b1))))"

section \<open>Retention and statistics\<close>

fun sweep_parts ::
  "int \<Rightarrow> int option \<Rightarrow> int option \<Rightarrow> partition list \<Rightarrow> (nat \<times> partition list) option" where
  "sweep_parts now max_age max_total [] = Some (0, [])"
| "sweep_parts now max_age max_total (p # ps) =
     (case part_retention_sweep now max_age max_total p of
        None \<Rightarrow> None
      | Some (n, p') \<Rightarrow>
          (case sweep_parts now max_age max_total ps of
             None \<Rightarrow> None
           | Some (m, ps') \<Rightarrow> Some (n + m, p' # ps')))"

fun sweep_topics ::
  "int \<Rightarrow> int option \<Rightarrow> int option \<Rightarrow> (ustr \<times> partition list) list
     \<Rightarrow> (nat \<times> (ustr \<times> partition list) list) option" where
  "sweep_topics now max_age max_total [] = Some (0, [])"
| "sweep_topics now max_age max_total ((name, parts) # ts) =
     (case sweep_parts now max_age max_total parts of
        None \<Rightarrow> None
      | Some (n, parts') \<Rightarrow>
          (case sweep_topics now max_age max_total ts of
             None \<Rightarrow> None
           | Some (m, ts') \<Rightarrow> Some (n + m, (name, parts') # ts')))"

definition retention_sweep :: "int option \<Rightarrow> int \<Rightarrow> broker \<Rightarrow> (nat \<times> broker) option" where
  "retention_sweep now_ms clock b =
     (let now = (case now_ms of Some t \<Rightarrow> t | None \<Rightarrow> clock) in
      case sweep_topics now (retention_max_age_ms b) (retention_max_partition_bytes b) (topics b) of
        None \<Rightarrow> None
      | Some (removed, ts) \<Rightarrow> Some (removed, b\<lparr>topics := ts\<rparr>))"

record topic_stats =
  ts_partitions :: nat
  ts_high_watermarks :: "int list"
  ts_size_bytes :: int

record broker_stats =
  bs_topics :: "(ustr \<times> topic_stats) list"
  bs_groups :: "ustr list"
  bs_total_size_bytes :: int

definition broker_stats_of :: "broker \<Rightarrow> broker_stats" where
  "broker_stats_of b =
     (let ts = map (\<lambda>(name, parts). (name, \<lparr>ts_partitions = length parts,
                 ts_high_watermarks = map high_watermark parts,
                 ts_size_bytes = sum_list (map size_bytes parts)\<rparr>)) (topics b)
      in \<lparr>bs_topics = ts, bs_groups = sort (map fst (groups b)),
          bs_total_size_bytes = sum_list (map (\<lambda>(_, t). ts_size_bytes t) ts)\<rparr>)"

section \<open>The data directory\<close>

definition topics_disk :: "broker \<Rightarrow> (ustr \<times> topic_dir) list" where
  "topics_disk b =
     map (\<lambda>(name, parts). (name, map (\<lambda>i. (part_name i, dir_of (part_log (parts ! i)))) [0..<length parts]))
       (topics b)"

definition group_files_of :: "(ustr \<times> consumer_group) list \<Rightarrow> (ustr \<times> bytes) list" where
  "group_files_of gs =
     concat (map (\<lambda>(name, g). case group_file g of None \<Rightarrow> [] | Some f \<Rightarrow> [(name, f)]) gs)"

definition groups_disk :: "broker \<Rightarrow> (ustr \<times> bytes) list" where
  "groups_disk b = group_files_of (groups b) @ filter (\<lambda>(n, _). n \<notin> fst ` set (groups b)) (groups_dir b)"

end
