(* ===== verification/Broker_Props.thy ===== *)
theory Broker_Props
  imports Broker
begin

text \<open>
  The invariant of the broker and what each operation does to it: which partition a record is
  routed to, what producing changes, retention, and reopening the data directory.
\<close>

section \<open>Configuration of the logs\<close>

lemma append_log_config:
  "append_log pl ts now l = (res, l') \<Longrightarrow>
     max_segment_bytes l' = max_segment_bytes l \<and> log_interval l' = log_interval l"
  by (auto simp: append_log_def Let_def new_segment_eq set_active_def
      split: if_splits sum.splits prod.splits)

lemma open_log_config:
  "open_log d max_bytes iv = Inr l \<Longrightarrow> max_segment_bytes l = max 1 max_bytes \<and> log_interval l = iv"
  by (auto simp: open_log_def Let_def new_segment_eq split: if_splits sum.splits prod.splits)

lemma torn_whole:
  assumes "log_inv l"
  shows "dir_of (torn (length (contents (log_file (active l)))) l) = dir_of l"
proof -
  obtain ss where "segments l = ss @ [active l]"
    using assms segments_split by (auto simp: log_inv_def)
  then show ?thesis
    by (simp add: dir_of_seg_files torn_def set_active_def seg_files_def)
qed

lemma log_records_split:
  assumes "log_inv l"
  shows "log_records l = concat (map seg_records (butlast (segments l))) @ seg_records (active l)"
proof -
  have "log_records l = concat (map seg_records (butlast (segments l) @ [active l]))"
    using assms segments_split by (simp add: log_records_def log_inv_def)
  then show ?thesis by simp
qed

lemma reopen_whole:
  assumes inv: "log_inv l"
  shows "\<exists>l'. open_log (dir_of l) (max_segment_bytes l) (log_interval l) = Inr l' \<and> log_inv l'
    \<and> first_offset l' = first_offset l \<and> log_records l' = log_records l \<and> next_offset l' = next_offset l"
proof -
  let ?a = "active l" and ?n = "length (contents (log_file (active l)))"
  have rep: "seg_rep ?a (seg_records ?a)" using active_segment(2) [OF inv] .
  obtain k where k: "k \<le> length (seg_records ?a)" "whole_records ?n (seg_records ?a) = take k (seg_records ?a)"
    "\<forall>j \<le> length (seg_records ?a). length (file_bytes (take j (seg_records ?a))) \<le> ?n \<longrightarrow> j \<le> k"
    using whole_records_prefix [OF seg_rep_props(3) [OF rep]] by metis
  have "whole_records ?n (seg_records ?a) = seg_records ?a"
    using k seg_rep_fields(3) [OF rep] by (auto intro: antisym)
  moreover note log_records_split [OF inv]
  ultimately show ?thesis
    using reopen_torn [OF inv, of ?n] log_inv_records(2) [OF inv] by (auto simp: torn_whole [OF inv])
qed

section \<open>The invariant\<close>

definition part_ok :: "int \<Rightarrow> int \<Rightarrow> partition \<Rightarrow> bool" where
  "part_ok max_bytes iv p \<longleftrightarrow> part_inv p \<and> max_segment_bytes (part_log p) = max 1 max_bytes
     \<and> log_interval (part_log p) = iv"

definition broker_inv :: "broker \<Rightarrow> bool" where
  "broker_inv b \<longleftrightarrow> distinct (map fst (topics b)) \<and> distinct (map fst (groups b)) \<and> 0 \<le> rr b
     \<and> (\<forall>(t, ps) \<in> set (topics b). ps \<noteq> [] \<and>
          (\<forall>p \<in> set ps. part_ok (broker_segment_bytes b) (broker_index_interval b) p))
     \<and> (\<forall>(n, g) \<in> set (groups b). group_inv g)
     \<and> (\<forall>n f. map_of (groups_dir b) n = Some f \<longrightarrow> (\<exists>g. group_init (Some f) = Inr g \<and> group_inv g))"

lemma broker_inv_topic:
  assumes "broker_inv b" "map_of (topics b) t = Some ps"
  shows "ps \<noteq> []" and "\<And>i. i < length ps \<Longrightarrow> part_ok (broker_segment_bytes b) (broker_index_interval b) (ps ! i)"
  using assms map_of_SomeD [OF assms(2)] by (auto simp: broker_inv_def)

lemma part_ok_inv [dest]: "part_ok m iv p \<Longrightarrow> part_inv p"
  by (simp add: part_ok_def)

lemma dict_put_ball: "Ball (set d) P \<Longrightarrow> P (k, v) \<Longrightarrow> Ball (set (dict_put k v d)) P"
  using dict_put_set [of k v d] by blast

lemma broker_inv_topics:
  assumes "broker_inv b" "ps \<noteq> []"
    "\<forall>p \<in> set ps. part_ok (broker_segment_bytes b) (broker_index_interval b) p"
  shows "broker_inv (b\<lparr>topics := dict_put t ps (topics b)\<rparr>)"
proof -
  let ?P = "\<lambda>(t, ps). ps \<noteq> [] \<and> (\<forall>p \<in> set ps. part_ok (broker_segment_bytes b) (broker_index_interval b) p)"
  have "Ball (set (dict_put t ps (topics b))) ?P"
    using assms by (intro dict_put_ball) (simp_all add: broker_inv_def)
  then show ?thesis
    using assms(1) dict_put_distinct [of "topics b" t ps] by (simp add: broker_inv_def)
qed

lemma broker_inv_groups:
  assumes "broker_inv b" "group_inv g"
  shows "broker_inv (b\<lparr>groups := dict_put n g (groups b)\<rparr>)"
proof -
  have "Ball (set (dict_put n g (groups b))) (\<lambda>(n, g). group_inv g)"
    using assms by (intro dict_put_ball) (simp_all add: broker_inv_def)
  then show ?thesis
    using assms(1) dict_put_distinct [of "groups b" n g] by (simp add: broker_inv_def)
qed

section \<open>Creating topics\<close>

abbreviation fresh_part :: "broker \<Rightarrow> partition" where
  "fresh_part b \<equiv> \<lparr>part_log = fresh_log (broker_segment_bytes b) (broker_index_interval b)\<rparr>"

lemma fresh_part_ok: "part_ok m iv \<lparr>part_log = fresh_log m iv\<rparr>"
  by (simp add: part_ok_def part_inv_def fresh_log_inv) (simp add: fresh_log_def)

lemma open_parts_empty:
  "open_parts [] m iv is = Inr (map (\<lambda>_. \<lparr>part_log = fresh_log m iv\<rparr>) is)"
  by (induction "is") (simp_all add: open_partition_def open_empty)

lemma create_topic_new:
  fixes np :: "int option" and b :: broker
  assumes "map_of (topics b) t = None"
  defines "n \<equiv> (case np of None \<Rightarrow> default_partitions b | Some k \<Rightarrow> if k = 0 then default_partitions b else k)"
  shows "create_topic t np b =
    (if n < 1 then (Inl (ValueError ''num_partitions must be >= 1''), b)
     else (Inr (), b\<lparr>topics := dict_put t (replicate (nat n) (fresh_part b)) (topics b)\<rparr>))"
  using assms(1)
  by (simp add: create_topic_def n_def open_topic_def open_parts_empty map_replicate_const Let_def)

lemma create_topic_inv:
  assumes "broker_inv b" "create_topic t np b = (Inr u, b')"
  shows "broker_inv b'" and "\<exists>n ps. b' = b\<lparr>topics := dict_put t ps (topics b)\<rparr> \<and> map_of (topics b) t = None"
proof -
  have new: "map_of (topics b) t = None"
    using assms(2) by (auto simp: create_topic_def split: if_splits)
  then obtain n where n: "\<not> n < 1" "b' = b\<lparr>topics := dict_put t (replicate (nat n) (fresh_part b)) (topics b)\<rparr>"
    using assms(2) by (auto simp: create_topic_new split: if_splits)
  have "broker_inv (b\<lparr>topics := dict_put t (replicate (nat n) (fresh_part b)) (topics b)\<rparr>)"
    using assms(1) n(1) by (intro broker_inv_topics) (auto simp: fresh_part_ok)
  with n new show "broker_inv b'" "\<exists>n ps. b' = b\<lparr>topics := dict_put t ps (topics b)\<rparr> \<and> map_of (topics b) t = None"
    by auto
qed

section \<open>Producing\<close>

text \<open>The partitions of a topic, as \<^verbatim>\<open>produce\<close> finds or creates them, and the slot of a record.\<close>

definition parts_of :: "ustr \<Rightarrow> broker \<Rightarrow> partition list" where
  "parts_of t b = (case map_of (topics b) t of
     Some ps \<Rightarrow> ps | None \<Rightarrow> replicate (nat (default_partitions b)) (fresh_part b))"

definition key_hash :: "ustr \<Rightarrow> int" where
  "key_hash k = (case utf8_encode k of Inl _ \<Rightarrow> 0 | Inr kb \<Rightarrow> uint (crc32 kb))"

definition slot :: "ustr option \<Rightarrow> nat \<Rightarrow> broker \<Rightarrow> nat" where
  "slot key n b = nat ((case key of Some k \<Rightarrow> key_hash k | None \<Rightarrow> rr b) mod int n)"

definition key_ok :: "ustr option \<Rightarrow> bool" where
  "key_ok key \<longleftrightarrow> (\<forall>k. key = Some k \<longrightarrow> list_all scalar k)"

lemma slot_less: "0 < n \<Longrightarrow> slot key n b < n"
  by (simp add: slot_def nat_less_iff)

lemma route_slot:
  assumes "key_ok key" "0 < n"
  shows "route key n b = (Inr (slot key n b), case key of Some _ \<Rightarrow> b | None \<Rightarrow> b\<lparr>rr := rr b + 1\<rparr>)"
  using assms
  by (auto simp: route_def slot_def key_ok_def key_hash_def utf8_encode_def split: option.splits)

definition can_produce :: "ustr \<Rightarrow> bytes \<Rightarrow> ustr option \<Rightarrow> int \<Rightarrow> broker \<Rightarrow> bool" where
  "can_produce t pl key ts b \<longleftrightarrow> key_ok key \<and> (map_of (topics b) t = None \<longrightarrow> 1 \<le> default_partitions b)
     \<and> part_accepts pl ts (parts_of t b ! slot key (length (parts_of t b)) b)"

lemma parts_of_ok:
  assumes "broker_inv b" "map_of (topics b) t = None \<longrightarrow> 1 \<le> default_partitions b"
  shows "parts_of t b \<noteq> []"
    and "\<forall>p \<in> set (parts_of t b). part_ok (broker_segment_bytes b) (broker_index_interval b) p"
  using assms broker_inv_topic [OF assms(1), of t]
  by (auto simp: parts_of_def fresh_part_ok in_set_conv_nth split: option.splits)

lemma part_append_config:
  "part_append pl ts p = (res, p') \<Longrightarrow>
     max_segment_bytes (part_log p') = max_segment_bytes (part_log p) \<and> log_interval (part_log p') = log_interval (part_log p)"
  by (auto simp: part_append_def split: prod.splits dest!: append_log_config)

lemma dict_put_twice: "dict_put k v (dict_put k w d) = dict_put k v d"
  by (induction d) auto

text \<open>What producing does: exactly one partition is replaced, by the one with the record appended.\<close>

lemma produce_effect:
  assumes inv: "broker_inv b" and can: "can_produce t pl key ts b"
  defines "ps \<equiv> parts_of t b" and "i \<equiv> slot key (length (parts_of t b)) b"
  shows "\<exists>p' b'. part_append pl ts (ps ! i) = (Inr (high_watermark (ps ! i)), p')
    \<and> produce t pl key (Some ts) now b =
        (Inr \<lparr>pr_topic = t, pr_partition = i, pr_offset = high_watermark (ps ! i)\<rparr>, b')
    \<and> topics b' = dict_put t (ps[i := p']) (topics b)
    \<and> groups b' = groups b \<and> groups_dir b' = groups_dir b
    \<and> part_ok (broker_segment_bytes b) (broker_index_interval b) p'
    \<and> part_first p' = part_first (ps ! i)
    \<and> part_records p' = part_records (ps ! i) @ [mk_record (high_watermark (ps ! i)) ts pl]
    \<and> broker_inv b'"
proof -
  have ps: "ps \<noteq> []" "\<forall>p \<in> set ps. part_ok (broker_segment_bytes b) (broker_index_interval b) p"
    using parts_of_ok [OF inv, of t] can by (simp_all add: can_produce_def ps_def)
  have i: "i < length ps"
    using slot_less ps(1) by (simp add: i_def ps_def)
  then have pi: "part_ok (broker_segment_bytes b) (broker_index_interval b) (ps ! i)"
    using ps(2) by simp
  then obtain p' where p': "part_append pl ts (ps ! i) = (Inr (high_watermark (ps ! i)), p')" "part_inv p'"
      "part_first p' = part_first (ps ! i)"
      "part_records p' = part_records (ps ! i) @ [mk_record (high_watermark (ps ! i)) ts pl]"
    using pt.app_recs [of "ps ! i" pl ts] can by (auto simp: can_produce_def ps_def i_def)
  have ok': "part_ok (broker_segment_bytes b) (broker_index_interval b) p'"
    using pi p'(2) part_append_config [OF p'(1)] by (simp add: part_ok_def)
  define b1 where "b1 = (case map_of (topics b) t of None \<Rightarrow> b\<lparr>topics := dict_put t ps (topics b)\<rparr> | Some _ \<Rightarrow> b)"
  have made: "(case map_of (topics b) t of None \<Rightarrow> create_topic t None b | Some _ \<Rightarrow> (Inr (), b)) = (Inr (), b1)"
    using can by (auto simp: b1_def create_topic_new can_produce_def ps_def parts_of_def split: option.splits)
  have found: "map_of (topics b1) t = Some ps"
    by (auto simp: b1_def ps_def parts_of_def dict_put_map_of split: option.splits)
  define b2 where "b2 = (case key of Some _ \<Rightarrow> b1 | None \<Rightarrow> b1\<lparr>rr := rr b1 + 1\<rparr>)"
  have "rr b1 = rr b" by (simp add: b1_def split: option.splits)
  then have "slot key (length ps) b1 = i"
    by (simp add: i_def ps_def slot_def cong: option.case_cong)
  then have routed: "route key (length ps) b1 = (Inr i, b2)"
    using route_slot [of key "length ps" b1] ps(1) can
    by (simp add: can_produce_def b2_def)
  define b' where "b' = b2\<lparr>topics := dict_put t (ps[i := p']) (topics b2)\<rparr>"
  have prod: "produce t pl key (Some ts) now b =
      (Inr \<lparr>pr_topic = t, pr_partition = i, pr_offset = high_watermark (ps ! i)\<rparr>, b')"
    unfolding produce_def made by (simp add: found routed p'(1) b'_def)
  have topics': "topics b' = dict_put t (ps[i := p']) (topics b)"
    by (simp add: b'_def b2_def b1_def dict_put_twice split: option.splits)
  have "broker_inv b1"
    using inv ps by (auto simp: b1_def intro!: broker_inv_topics split: option.splits)
  then have "broker_inv b2"
    by (auto simp: b2_def broker_inv_def split: option.splits)
  moreover have "broker_segment_bytes b2 = broker_segment_bytes b" "broker_index_interval b2 = broker_index_interval b"
    by (auto simp: b2_def b1_def split: option.splits)
  ultimately have "broker_inv b'"
    unfolding b'_def using ps ok' by (intro broker_inv_topics) (auto dest!: subsetD [OF set_update_subset_insert])
  moreover have "groups b' = groups b" "groups_dir b' = groups_dir b"
    by (auto simp: b'_def b2_def b1_def split: option.splits)
  ultimately show ?thesis
    using p' prod topics' ok' by blast
qed

section \<open>Fetching\<close>

lemma fetch_part:
  assumes "map_of (topics b) t = Some ps" "i < length ps"
  shows "fetch t (int i) a lim b = Inr (map fetched_of (read_after a lim (ps ! i)))"
  using assms by (simp add: fetch_def)

lemma fetch_cong:
  assumes "map_of (topics b') t = map_of (topics b) t"
  shows "fetch t i a lim b' = fetch t i a lim b"
  using assms by (simp add: fetch_def)

lemma fetch_other_part:
  assumes "map_of (topics b) t = Some ps" "map_of (topics b') t = Some (ps[i := p])" "j \<noteq> int i"
  shows "fetch t j a lim b' = fetch t j a lim b"
  using assms by (auto simp: fetch_def)

section \<open>Groups\<close>

text \<open>The group that a name stands for, opened or on disk.\<close>

definition group_of :: "ustr \<Rightarrow> broker \<Rightarrow> consumer_group" where
  "group_of n b = (case map_of (groups b) n of Some g \<Rightarrow> g
     | None \<Rightarrow> (case group_init (map_of (groups_dir b) n) of Inr g \<Rightarrow> g | Inl _ \<Rightarrow> \<lparr>offsets = [], group_file = None\<rparr>))"

lemma group_effect:
  assumes "broker_inv b"
  shows "\<exists>b'. group n b = (Inr (group_of n b), b') \<and> broker_inv b' \<and> topics b' = topics b
    \<and> groups_dir b' = groups_dir b \<and> map_of (groups b') = (map_of (groups b))(n \<mapsto> group_of n b)
    \<and> group_inv (group_of n b)"
proof (cases "map_of (groups b) n")
  case (Some g)
  then have "group_inv g"
    using assms map_of_SomeD [OF Some] by (auto simp: broker_inv_def)
  with Some assms show ?thesis
    by (auto simp: group_def group_of_def map_upd_triv)
next
  case None
  obtain g where g: "group_init (map_of (groups_dir b) n) = Inr g" "group_inv g"
  proof (cases "map_of (groups_dir b) n")
    case None
    then show ?thesis
      using that by (auto simp: group_init_def group_inv_def offsets_ok_def group_disk.reload_def)
  next
    case (Some f)
    then have "\<exists>g. group_init (Some f) = Inr g \<and> group_inv g"
      using assms by (simp add: broker_inv_def)
    with Some that show ?thesis by auto
  qed
  then show ?thesis
    using None assms broker_inv_groups [OF assms, of g n]
    by (auto simp: group_def group_of_def dict_put_map_of)
qed

lemma group_of_cong:
  "map_of (groups b') n = map_of (groups b) n \<Longrightarrow> groups_dir b' = groups_dir b \<Longrightarrow> group_of n b' = group_of n b"
  by (cases "map_of (groups b) n") (simp_all add: group_of_def)

lemma group_of_opened: "map_of (groups b') n = Some g \<Longrightarrow> group_of n b' = g"
  by (simp add: group_of_def)

lemma commit_offset_effect:
  assumes "broker_inv b" "list_all scalar t"
  shows "\<exists>b'. commit_offset n t i off b = (Inr (), b') \<and> broker_inv b' \<and> topics b' = topics b
    \<and> group_of n b' = group_commit t i off (group_of n b) \<and> (\<forall>m. m \<noteq> n \<longrightarrow> group_of m b' = group_of m b)"
proof -
  obtain b1 where b1: "group n b = (Inr (group_of n b), b1)" "broker_inv b1" "topics b1 = topics b"
      "groups_dir b1 = groups_dir b" "map_of (groups b1) = (map_of (groups b))(n \<mapsto> group_of n b)"
      "group_inv (group_of n b)"
    using group_effect [OF assms(1), of n] by blast
  let ?g = "group_commit t i off (group_of n b)"
  define b' where "b' = b1\<lparr>groups := dict_put n ?g (groups b1)\<rparr>"
  have "commit_offset n t i off b = (Inr (), b')"
    by (simp add: commit_offset_def b1(1) b'_def)
  moreover have "broker_inv b'"
    unfolding b'_def using b1(2) group_commit_inv [OF b1(6) assms(2)] by (rule broker_inv_groups)
  moreover have "group_of n b' = ?g"
    by (rule group_of_opened) (simp add: b'_def dict_put_map_of)
  moreover have "group_of m b' = group_of m b" if "m \<noteq> n" for m
    using that b1(4,5) by (intro group_of_cong) (simp_all add: b'_def dict_put_map_of)
  ultimately show ?thesis using b1(3) by (auto simp: b'_def)
qed

section \<open>Retention\<close>

definition part_suffix :: "partition \<Rightarrow> partition \<Rightarrow> bool" where
  "part_suffix p p' \<longleftrightarrow> suffix_of_log (part_log p) (part_log p')"

lemma part_suffix_ok: "part_ok m iv p \<Longrightarrow> part_suffix p p' \<Longrightarrow> part_ok m iv p'"
  by (auto simp: part_ok_def part_suffix_def suffix_of_log_def part_inv_def)

lemma part_suffix_fields:
  assumes "part_suffix p p'"
  shows "high_watermark p' = high_watermark p" "part_first p \<le> part_first p'"
    "part_records p' = drop (nat (part_first p' - part_first p)) (part_records p)"
  using assms by (simp_all add: part_suffix_def suffix_of_log_def part_defs)

lemma sweep_parts_returns:
  assumes "\<forall>p \<in> set ps. part_inv p"
  shows "\<exists>n ps'. sweep_parts now age budget ps = Some (n, ps') \<and> list_all2 part_suffix ps ps'
    \<and> (\<forall>limit. budget = Some limit \<longrightarrow>
         (\<forall>p' \<in> set ps'. length (segments (part_log p')) = 1 \<or> size_bytes p' \<le> limit))"
  using assms
proof (induction ps)
  case (Cons p ps)
  obtain n p' where p': "part_retention_sweep now age budget p = Some (n, p')" "part_suffix p p'"
      "\<forall>limit. budget = Some limit \<longrightarrow> length (segments (part_log p')) = 1 \<or> size_bytes p' \<le> limit"
    using part_retention_returns [of p now age budget] Cons.prems by (auto simp: part_suffix_def)
  obtain m ps' where "sweep_parts now age budget ps = Some (m, ps')" "list_all2 part_suffix ps ps'"
      "\<forall>limit. budget = Some limit \<longrightarrow>
         (\<forall>p' \<in> set ps'. length (segments (part_log p')) = 1 \<or> size_bytes p' \<le> limit)"
    using Cons by auto
  with p' show ?case by simp
qed simp

definition topic_suffix :: "ustr \<times> partition list \<Rightarrow> ustr \<times> partition list \<Rightarrow> bool" where
  "topic_suffix x y \<longleftrightarrow> fst y = fst x \<and> list_all2 part_suffix (snd x) (snd y)"

definition topic_within :: "int option \<Rightarrow> ustr \<times> partition list \<Rightarrow> bool" where
  "topic_within budget y \<longleftrightarrow> (\<forall>limit. budget = Some limit \<longrightarrow>
     (\<forall>p' \<in> set (snd y). length (segments (part_log p')) = 1 \<or> size_bytes p' \<le> limit))"

lemma sweep_topics_returns:
  assumes "\<forall>(t, ps) \<in> set ts. \<forall>p \<in> set ps. part_inv p"
  shows "\<exists>n ts'. sweep_topics now age budget ts = Some (n, ts') \<and> list_all2 topic_suffix ts ts'
    \<and> Ball (set ts') (topic_within budget)"
  using assms
proof (induction ts)
  case (Cons x ts)
  obtain t ps where x: "x = (t, ps)" by fastforce
  obtain n ps' where "sweep_parts now age budget ps = Some (n, ps')" "list_all2 part_suffix ps ps'"
      "topic_within budget (t, ps')"
    using sweep_parts_returns [of ps now age budget] Cons.prems x by (auto simp: topic_within_def)
  moreover obtain m ts' where "sweep_topics now age budget ts = Some (m, ts')" "list_all2 topic_suffix ts ts'"
      "Ball (set ts') (topic_within budget)"
    using Cons by auto
  moreover have "topic_suffix (t, ps) (t, ps')"
    using \<open>list_all2 part_suffix ps ps'\<close> by (simp add: topic_suffix_def)
  ultimately show ?case by (simp add: x)
qed simp

lemma topic_suffix_names: "list_all2 topic_suffix ts ts' \<Longrightarrow> map fst ts' = map fst ts"
  by (induction ts ts' rule: list_all2_induct) (simp_all add: topic_suffix_def)

lemma topic_suffix_lookup:
  "list_all2 topic_suffix ts ts' \<Longrightarrow>
     rel_option (list_all2 part_suffix) (map_of ts t) (map_of ts' t)"
  by (induction ts ts' rule: list_all2_induct) (auto simp: topic_suffix_def)

lemma part_suffix_list:
  "list_all2 part_suffix ps ps' \<Longrightarrow> \<forall>p \<in> set ps. part_ok m iv p \<Longrightarrow> \<forall>p \<in> set ps'. part_ok m iv p"
  by (induction ps ps' rule: list_all2_induct) (auto intro: part_suffix_ok)

lemma topic_suffix_ok:
  "list_all2 topic_suffix ts ts' \<Longrightarrow> \<forall>(t, ps) \<in> set ts. ps \<noteq> [] \<and> (\<forall>p \<in> set ps. part_ok m iv p)
     \<Longrightarrow> \<forall>(t, ps) \<in> set ts'. ps \<noteq> [] \<and> (\<forall>p \<in> set ps. part_ok m iv p)"
proof (induction ts ts' rule: list_all2_induct)
  case (Cons x ts y ts')
  then have "list_all2 part_suffix (snd x) (snd y)" "snd x \<noteq> []" "\<forall>p \<in> set (snd x). part_ok m iv p"
    by (auto simp: topic_suffix_def)
  then have "snd y \<noteq> [] \<and> (\<forall>p \<in> set (snd y). part_ok m iv p)"
    using part_suffix_list [of "snd x" "snd y" m iv] by auto
  with Cons show ?case by auto
qed simp

lemma retention_effect:
  assumes "broker_inv b"
  shows "\<exists>n b'. retention_sweep now clock b = Some (n, b') \<and> broker_inv b'
    \<and> list_all2 topic_suffix (topics b) (topics b') \<and> groups b' = groups b \<and> groups_dir b' = groups_dir b
    \<and> Ball (set (topics b')) (topic_within (retention_max_partition_bytes b))"
proof -
  let ?now = "case now of Some t \<Rightarrow> t | None \<Rightarrow> clock"
  have parts: "\<forall>(t, ps) \<in> set (topics b). \<forall>p \<in> set ps. part_inv p"
    using assms unfolding broker_inv_def by fast
  obtain n ts' where ts': "sweep_topics ?now (retention_max_age_ms b) (retention_max_partition_bytes b) (topics b)
        = Some (n, ts')" "list_all2 topic_suffix (topics b) ts'"
      "Ball (set ts') (topic_within (retention_max_partition_bytes b))"
    using sweep_topics_returns [OF parts] by blast
  have "broker_inv (b\<lparr>topics := ts'\<rparr>)"
    using assms topic_suffix_names [OF ts'(2)] topic_suffix_ok [OF ts'(2)] by (simp add: broker_inv_def)
  with ts' show ?thesis by (auto simp: retention_sweep_def Let_def)
qed

section \<open>Reopening the data directory\<close>

definition part_same :: "partition \<Rightarrow> partition \<Rightarrow> bool" where
  "part_same p p' \<longleftrightarrow> part_first p' = part_first p \<and> part_records p' = part_records p
     \<and> high_watermark p' = high_watermark p"

lemma open_partition_again:
  assumes "part_ok m iv p"
  shows "\<exists>p'. open_partition (dir_of (part_log p)) m iv = Inr p' \<and> part_ok m iv p' \<and> part_same p p'"
proof -
  have l: "log_inv (part_log p)" "max_segment_bytes (part_log p) = max 1 m" "log_interval (part_log p) = iv"
    using assms by (simp_all add: part_ok_def part_inv_def)
  have "open_log (dir_of (part_log p)) m iv = open_log (dir_of (part_log p)) (max 1 m) iv"
    by (simp add: open_log_def)
  then obtain l' where "open_log (dir_of (part_log p)) m iv = Inr l'" "log_inv l'"
      "first_offset l' = first_offset (part_log p)" "log_records l' = log_records (part_log p)"
      "next_offset l' = next_offset (part_log p)"
    using reopen_whole [OF l(1)] l(2,3) by auto
  then show ?thesis
    using open_log_config [of "dir_of (part_log p)" m iv l']
    by (auto simp: open_partition_def part_ok_def part_same_def part_defs)
qed

definition part_dirs :: "partition list \<Rightarrow> topic_dir" where
  "part_dirs ps = map (\<lambda>i. (part_name i, dir_of (part_log (ps ! i)))) [0..<length ps]"

lemma part_name_inj: "part_name i = part_name j \<longleftrightarrow> i = j"
  using nat_dec_val [of i] nat_dec_val [of j] by (metis list.sel(3) part_name_def)

lemma part_dirs_lookup: "i < length ps \<Longrightarrow> map_of (part_dirs ps) (part_name i) = Some (dir_of (part_log (ps ! i)))"
proof -
  assume "i < length ps"
  moreover have "inj_on part_name (set [0..<length ps])"
    by (simp add: inj_on_def part_name_inj)
  ultimately show ?thesis
    by (intro map_of_is_SomeI) (auto simp: part_dirs_def comp_def distinct_map)
qed

lemma part_dirs_count: "length (filter (\<lambda>(d, _). d \<noteq> [] \<and> hd d = 112) (part_dirs ps)) = length ps"
  by (simp add: part_dirs_def part_name_def comp_def)

lemma open_parts_again:
  assumes "\<forall>p \<in> set ps. part_ok m iv p" "\<forall>i \<in> set is. i < length ps"
  shows "\<exists>ps'. open_parts (part_dirs ps) m iv is = Inr ps' \<and> (\<forall>p' \<in> set ps'. part_ok m iv p')
    \<and> list_all2 (\<lambda>i p'. part_same (ps ! i) p') is ps'"
  using assms(2)
proof (induction "is")
  case (Cons i "is")
  then obtain p' where "open_partition (dir_of (part_log (ps ! i))) m iv = Inr p'" "part_ok m iv p'"
      "part_same (ps ! i) p'"
    using assms(1) open_partition_again [of m iv "ps ! i"] by auto
  with Cons part_dirs_lookup [of i ps] show ?case by auto
qed simp

lemma open_topic_again:
  assumes "\<forall>p \<in> set ps. part_ok (broker_segment_bytes b) (broker_index_interval b) p"
  shows "\<exists>ps'. open_topic (part_dirs ps) t (length ps) b = (Inr (), b\<lparr>topics := dict_put t ps' (topics b)\<rparr>)
    \<and> (\<forall>p' \<in> set ps'. part_ok (broker_segment_bytes b) (broker_index_interval b) p')
    \<and> list_all2 part_same ps ps'"
proof -
  obtain ps' where ps': "open_parts (part_dirs ps) (broker_segment_bytes b) (broker_index_interval b)
        [0..<length ps] = Inr ps'"
      "\<forall>p' \<in> set ps'. part_ok (broker_segment_bytes b) (broker_index_interval b) p'"
      "list_all2 (\<lambda>i p'. part_same (ps ! i) p') [0..<length ps] ps'"
    using open_parts_again [OF assms, of "[0..<length ps]"] by auto
  moreover have "list_all2 part_same ps ps'"
    using ps'(3) by (simp add: list_all2_conv_all_nth)
  ultimately show ?thesis by (auto simp: open_topic_def)
qed

lemma topics_disk_lookup:
  "map_of (topics_disk b) t = map_option part_dirs (map_of (topics b) t)"
proof -
  have "map_of (map (\<lambda>(k, v). (k, part_dirs v)) ts) t = map_option part_dirs (map_of ts t)" for ts
    by (induction ts) auto
  then show ?thesis by (simp add: topics_disk_def part_dirs_def)
qed

lemma open_topics_again:
  assumes inv: "broker_inv b"
    and b0: "broker_inv b0" "broker_segment_bytes b0 = broker_segment_bytes b"
      "broker_index_interval b0 = broker_index_interval b"
    and names: "set names \<subseteq> dom (map_of (topics b))"
  shows "\<exists>b'. open_topics (topics_disk b) names b0 = Inr b' \<and> broker_inv b'
    \<and> groups b' = groups b0 \<and> groups_dir b' = groups_dir b0
    \<and> (\<forall>t. if t \<in> set names then rel_option (list_all2 part_same) (map_of (topics b) t) (map_of (topics b') t)
           else map_of (topics b') t = map_of (topics b0) t)"
  using b0 names
proof (induction names arbitrary: b0)
  case (Cons t names)
  then obtain ps where ps: "map_of (topics b) t = Some ps" by auto
  have ok: "\<forall>p \<in> set ps. part_ok (broker_segment_bytes b0) (broker_index_interval b0) p" "ps \<noteq> []"
    using broker_inv_topic [OF inv ps] Cons.prems(2,3) by (auto simp: in_set_conv_nth)
  obtain ps' where ps': "open_topic (part_dirs ps) t (length ps) b0 = (Inr (), b0\<lparr>topics := dict_put t ps' (topics b0)\<rparr>)"
      "\<forall>p' \<in> set ps'. part_ok (broker_segment_bytes b0) (broker_index_interval b0) p'" "list_all2 part_same ps ps'"
    using open_topic_again [OF ok(1)] by blast
  define b1 where "b1 = b0\<lparr>topics := dict_put t ps' (topics b0)\<rparr>"
  have "ps' \<noteq> []" using ps'(3) ok(2) by auto
  then have "broker_inv b1"
    unfolding b1_def using Cons.prems(1) ps'(2) by (intro broker_inv_topics)
  with Cons.prems obtain b' where b': "open_topics (topics_disk b) names b1 = Inr b'" "broker_inv b'"
      "groups b' = groups b0" "groups_dir b' = groups_dir b0"
      "\<forall>t. if t \<in> set names then rel_option (list_all2 part_same) (map_of (topics b) t) (map_of (topics b') t)
           else map_of (topics b') t = map_of (topics b1) t"
    using Cons.IH [of b1] by (auto simp: b1_def)
  have "open_topics (topics_disk b) (t # names) b0 = Inr b'"
    using ok(2) ps'(1) b'(1)
    unfolding open_topics.simps Let_def topics_disk_lookup ps option.map option.case part_dirs_count
    by (simp add: b1_def)
  moreover have "rel_option (list_all2 part_same) (map_of (topics b) s) (map_of (topics b') s)"
    if "s \<in> set (t # names)" for s
    using that b'(5) [rule_format, of s] ps ps'(3)
    by (cases "s \<in> set names") (auto simp: b1_def dict_put_map_of)
  moreover have "map_of (topics b') s = map_of (topics b0) s" if "s \<notin> set (t # names)" for s
    using that b'(5) [rule_format, of s] by (auto simp: b1_def dict_put_map_of)
  ultimately show ?case using b'(2-4) by auto
qed simp

lemma group_files_lookup:
  "distinct (map fst gs) \<Longrightarrow> map_of (group_files_of gs) n = Option.bind (map_of gs n) group_file"
proof (induction gs)
  case (Cons x gs)
  moreover have "map_of (group_files_of gs) m = None" if "m \<notin> fst ` set gs" for m
    using that by (force simp: group_files_of_def map_of_eq_None_iff split: option.splits)
  ultimately show ?case
    by (cases x) (auto simp: group_files_of_def split: option.splits)
qed (simp add: group_files_of_def)

lemma groups_disk_lookup:
  assumes "distinct (map fst (groups b))"
  shows "map_of (groups_disk b) n =
    (case map_of (groups b) n of Some g \<Rightarrow> group_file g | None \<Rightarrow> map_of (groups_dir b) n)"
proof -
  have filter: "map_of (filter (\<lambda>(k, _). P k) xs) n = (if P n then map_of xs n else None)" for P and xs :: "('k \<times> 'w) list" and n
    by (induction xs) auto
  have member: "n \<in> fst ` set (groups b) \<longleftrightarrow> map_of (groups b) n \<noteq> None"
    by (simp add: map_of_eq_None_iff)
  show ?thesis
    unfolding groups_disk_def map_of_append map_add_def group_files_lookup [OF assms] filter member
    by (cases "map_of (groups b) n") (simp_all split: option.splits)
qed

lemma groups_disk_group:
  assumes "broker_inv b"
  shows "group_init (map_of (groups_disk b) n) = Inr (group_of n b) \<and> group_inv (group_of n b)"
proof -
  have dist: "distinct (map fst (groups b))" using assms by (simp add: broker_inv_def)
  have g: "group_inv (group_of n b)" using group_effect [OF assms, of n] by blast
  show ?thesis
  proof (cases "map_of (groups b) n")
    case (Some h)
    then show ?thesis
      using g group_inv_init [OF g] by (simp add: groups_disk_lookup [OF dist] group_of_def)
  next
    case None
    have "group_init (map_of (groups_dir b) n) = Inr (group_of n b)"
    proof (cases "map_of (groups_dir b) n")
      case None
      with \<open>map_of (groups b) n = None\<close> show ?thesis by (simp add: group_of_def group_init_def)
    next
      case (Some f)
      then obtain h where "group_init (Some f) = Inr h"
        using assms unfolding broker_inv_def by blast
      with Some \<open>map_of (groups b) n = None\<close> show ?thesis by (simp add: group_of_def)
    qed
    with None g show ?thesis by (simp add: groups_disk_lookup [OF dist])
  qed
qed

definition restart :: "broker \<Rightarrow> broker result" where
  "restart b = broker_init (topics_disk b) (groups_disk b) (default_partitions b) (broker_segment_bytes b)
     (broker_index_interval b) (retention_max_age_ms b) (retention_max_partition_bytes b)"

lemma restart_effect:
  assumes "broker_inv b"
  shows "\<exists>b'. restart b = Inr b' \<and> broker_inv b'
    \<and> (\<forall>t. rel_option (list_all2 part_same) (map_of (topics b) t) (map_of (topics b') t))
    \<and> (\<forall>n. group_of n b' = group_of n b)"
proof -
  define b0 where "b0 = \<lparr>default_partitions = default_partitions b, broker_segment_bytes = broker_segment_bytes b,
      broker_index_interval = broker_index_interval b, retention_max_age_ms = retention_max_age_ms b,
      retention_max_partition_bytes = retention_max_partition_bytes b,
      topics = [], groups = [], groups_dir = groups_disk b, rr = 0\<rparr>"
  have "\<exists>g. group_init (Some f) = Inr g \<and> group_inv g" if "map_of (groups_disk b) n = Some f" for n f
    using groups_disk_group [OF assms, of n] that by auto
  then have b0: "broker_inv b0" by (simp add: broker_inv_def b0_def)
  let ?names = "sort (map fst (topics_disk b))"
  have names: "set ?names = dom (map_of (topics b))"
    by (simp add: topics_disk_def dom_map_of_conv_image_fst case_prod_beta image_image)
  obtain b' where b': "open_topics (topics_disk b) ?names b0 = Inr b'" "broker_inv b'"
      "groups b' = groups b0" "groups_dir b' = groups_dir b0"
      "\<forall>t. if t \<in> set ?names then rel_option (list_all2 part_same) (map_of (topics b) t) (map_of (topics b') t)
           else map_of (topics b') t = map_of (topics b0) t"
    using open_topics_again [OF assms b0, of ?names] names by (auto simp: b0_def)
  have "rel_option (list_all2 part_same) (map_of (topics b) t) (map_of (topics b') t)" for t
    using b'(5) [rule_format, of t] unfolding names by (auto simp: b0_def domIff split: if_splits)
  moreover have "group_of n b' = group_of n b" for n
    using groups_disk_group [OF assms, of n] b'(3,4) by (simp add: group_of_def [of n b'] b0_def)
  moreover have "restart b = Inr b'"
    using b'(1) by (simp add: restart_def broker_init_def b0_def)
  ultimately show ?thesis using b'(2) by blast
qed

end
