(* ===== verification/Broker_Theorems.thy ===== *)
theory Broker_Theorems
  imports Broker_Props
begin

text \<open>
  The properties of the broker over its histories: what a producer and a consumer can rely on,
  the committed offsets, retention and a restart.
\<close>

section \<open>Histories\<close>

text \<open>
  A step of the broker is one successful call, or a restart on its own data directory. A record
  is produced only when the record format can hold it, and topic names are encodable.
\<close>

inductive broker_step :: "broker \<Rightarrow> broker \<Rightarrow> bool" where
  created: "create_topic t np b = (Inr (), b') \<Longrightarrow> broker_step b b'"
| produced: "can_produce t pl key ts b \<Longrightarrow> produce t pl key (Some ts) now b = (Inr r, b') \<Longrightarrow> broker_step b b'"
| committed: "list_all scalar t \<Longrightarrow> commit_offset g t i off b = (Inr (), b') \<Longrightarrow> broker_step b b'"
| measured: "lag g t i b = (Inr n, b') \<Longrightarrow> broker_step b b'"
| swept: "retention_sweep now clock b = Some (k, b') \<Longrightarrow> broker_step b b'"
| restarted: "restart b = Inr b' \<Longrightarrow> broker_step b b'"

text \<open>No partition disappears, and no high watermark goes back.\<close>

definition hw_le :: "partition \<Rightarrow> partition \<Rightarrow> bool" where
  "hw_le p p' \<longleftrightarrow> high_watermark p \<le> high_watermark p'"

lemma hw_le_refl [simp]: "hw_le p p"
  by (simp add: hw_le_def)

lemma hw_le_trans: "list_all2 hw_le ps qs \<Longrightarrow> list_all2 hw_le qs rs \<Longrightarrow> list_all2 hw_le ps rs"
  by (rule list_all2_trans) (auto simp: hw_le_def)

definition parts_grow :: "broker \<Rightarrow> broker \<Rightarrow> bool" where
  "parts_grow b b' \<longleftrightarrow> (\<forall>t ps. map_of (topics b) t = Some ps \<longrightarrow>
     (\<exists>ps'. map_of (topics b') t = Some ps' \<and> list_all2 hw_le ps ps'))"

lemma parts_grow_same: "map_of (topics b') = map_of (topics b) \<Longrightarrow> parts_grow b b'"
  by (auto simp: parts_grow_def list_all2_refl)

lemma parts_grow_trans:
  assumes "parts_grow b b1" "parts_grow b1 b2"
  shows "parts_grow b b2"
  unfolding parts_grow_def
proof (intro allI impI)
  fix t ps
  assume "map_of (topics b) t = Some ps"
  then obtain ps1 where ps1: "map_of (topics b1) t = Some ps1" "list_all2 hw_le ps ps1"
    using assms(1) unfolding parts_grow_def by blast
  then obtain ps2 where "map_of (topics b2) t = Some ps2" "list_all2 hw_le ps1 ps2"
    using assms(2) unfolding parts_grow_def by blast
  with ps1 show "\<exists>ps2. map_of (topics b2) t = Some ps2 \<and> list_all2 hw_le ps ps2"
    using hw_le_trans by blast
qed

lemma parts_grow_produce:
  assumes "broker_inv b" "can_produce t pl key ts b" "produce t pl key (Some ts) now b = (Inr r, b')"
  shows "parts_grow b b' \<and> broker_inv b'"
proof -
  let ?ps = "parts_of t b" and ?i = "slot key (length (parts_of t b)) b"
  obtain p' where p': "topics b' = dict_put t (?ps[?i := p']) (topics b)"
      "part_ok (broker_segment_bytes b) (broker_index_interval b) p'" "part_first p' = part_first (?ps ! ?i)"
      "part_records p' = part_records (?ps ! ?i) @ [mk_record (high_watermark (?ps ! ?i)) ts pl]" "broker_inv b'"
    using produce_effect [OF assms(1,2), of now] assms(3) by auto
  have ps: "?ps \<noteq> []" "\<forall>p \<in> set ?ps. part_inv p"
    using parts_of_ok [OF assms(1), of t] assms(2) by (auto simp: can_produce_def)
  then have "part_inv (?ps ! ?i)" using slot_less by simp
  then have le: "hw_le (?ps ! ?i) p'"
    unfolding hw_le_def using p'(2-4) pt.nxt_recs [of p'] pt.nxt_recs [of "?ps ! ?i"] by auto
  have "list_all2 hw_le ?ps (?ps[?i := p'])"
    unfolding list_all2_conv_all_nth
  proof (intro conjI allI impI)
    fix j
    assume "j < length ?ps"
    then show "hw_le (?ps ! j) (?ps[?i := p'] ! j)"
      using le by (cases "j = ?i") simp_all
  qed simp
  with p'(1,5) show ?thesis
    by (auto simp: parts_grow_def dict_put_map_of parts_of_def list_all2_refl)
qed

lemma parts_grow_suffix:
  assumes "list_all2 topic_suffix (topics b) (topics b')"
  shows "parts_grow b b'"
  unfolding parts_grow_def
proof (intro allI impI)
  fix t ps
  assume "map_of (topics b) t = Some ps"
  then obtain ps' where ps': "map_of (topics b') t = Some ps'" "list_all2 part_suffix ps ps'"
    using topic_suffix_lookup [OF assms, of t] by (auto simp: option_rel_Some1)
  have "list_all2 hw_le ps ps'"
    using ps'(2) by (rule list_all2_mono) (simp add: part_suffix_fields hw_le_def)
  with ps' show "\<exists>ps'. map_of (topics b') t = Some ps' \<and> list_all2 hw_le ps ps'"
    by blast
qed

lemma parts_grow_restart:
  assumes "\<forall>t. rel_option (list_all2 part_same) (map_of (topics b) t) (map_of (topics b') t)"
  shows "parts_grow b b'"
  unfolding parts_grow_def
proof (intro allI impI)
  fix t ps
  assume "map_of (topics b) t = Some ps"
  then obtain ps' where ps': "map_of (topics b') t = Some ps'" "list_all2 part_same ps ps'"
    using assms [rule_format, of t] by (auto simp: option_rel_Some1)
  have "list_all2 hw_le ps ps'"
    using ps'(2) by (rule list_all2_mono) (simp add: part_same_def hw_le_def)
  with ps' show "\<exists>ps'. map_of (topics b') t = Some ps' \<and> list_all2 hw_le ps ps'"
    by blast
qed

lemma lag_effect:
  assumes "broker_inv b" "lag g t i b = (Inr n, b')"
  shows "broker_inv b' \<and> topics b' = topics b"
  using assms group_effect [OF assms(1), of g]
  by (auto simp: lag_def Let_def split: option.splits sum.splits prod.splits)

lemma broker_step_inv:
  assumes "broker_step b b'" "broker_inv b"
  shows "broker_inv b' \<and> parts_grow b b'"
  using assms
proof (induction rule: broker_step.induct)
  case (created t np b b')
  then show ?case
    using create_topic_inv [OF created(2,1)] by (auto simp: parts_grow_def dict_put_map_of list_all2_refl)
next
  case (produced t pl key ts b now r b')
  then show ?case using parts_grow_produce by blast
next
  case (committed t g i off b b')
  then show ?case using commit_offset_effect [OF committed(3,1), of g i off] by (auto intro: parts_grow_same)
next
  case (measured g t i b n b')
  then show ?case using lag_effect by (auto intro: parts_grow_same)
next
  case (swept now clock b k b')
  then show ?case using retention_effect [OF swept(2), of now clock] by (auto intro: parts_grow_suffix)
next
  case (restarted b b')
  then show ?case using restart_effect [OF restarted(2)] by (auto intro: parts_grow_restart)
qed

lemma broker_steps_inv:
  assumes "broker_step\<^sup>*\<^sup>* b b'" "broker_inv b"
  shows "broker_inv b' \<and> parts_grow b b'"
  using assms
proof (induction rule: rtranclp_induct)
  case (step b1 b2)
  then show ?case using broker_step_inv [of b1 b2] parts_grow_trans by blast
qed (simp add: parts_grow_same)

section \<open>Producing and consuming\<close>

lemma part_first_nonneg:
  assumes "part_inv p"
  shows "0 \<le> part_first p"
proof -
  let ?ss = "segments (part_log p)"
  have "seg_chain ?ss" "?ss \<noteq> []"
    using assms by (simp_all add: part_inv_def log_inv_def)
  then have "seg_rep (hd ?ss) (seg_records (hd ?ss))"
    by (simp add: seg_chain_rep)
  then show ?thesis
    unfolding part_first_def first_offset_def by (rule seg_rep_props(1))
qed

text \<open>What a read of a partition returns after one more record: the new record where the old reads ended at the end.\<close>

lemma read_after_grown:
  assumes "part_inv p" "part_inv p'" "part_first p' = part_first p" "part_records p' = part_records p @ [r]"
  shows "read_after a lim p' = read_after a lim p
    @ (if max 0 (a + 1) + int (length (read_after a lim p)) = high_watermark p \<and> int (length (read_after a lim p)) < lim
       then [r] else [])"
proof -
  define st where "st = max 0 (a + 1)"
  have eq: "read_after a lim q = read_after (st - 1) lim q" for q
    by (simp add: read_after_def st_def)
  have nonneg: "0 \<le> st" by (simp add: st_def)
  have hw: "high_watermark p = part_first p + int (length (part_records p))"
    using pt.nxt_recs [OF assms(1)] by simp
  show ?thesis
  proof (cases "st < part_first p")
    case True
    then have "read_after a lim p' = []" "read_after a lim p = []"
      using read_after_before [OF assms(1), of a lim] read_after_before [OF assms(2), of a lim] assms(3)
      by (simp_all add: st_def)
    then show ?thesis using True hw by (simp add: st_def [symmetric])
  next
    case False
    define k where "k = nat (st - part_first p)"
    have sl: "read_after a lim p = take (nat lim) (drop k (part_records p))"
      "read_after a lim p' = take (nat lim) (drop k (part_records p @ [r]))"
      unfolding eq [of p] eq [of p'] using False nonneg assms read_after_slice [of p "st - 1" lim] read_after_slice [of p' "st - 1" lim]
      by (simp_all add: k_def)
    have st: "st = part_first p + int k" using False by (simp add: k_def)
    show ?thesis
      unfolding sl st_def [symmetric] hw st by (auto simp: min_def)
  qed
qed

text \<open>The partition of a record: the hash of its key, or the next one in turn.\<close>

lemma slot_of_key:
  "key_ok (Some k) \<Longrightarrow> 0 < n \<Longrightarrow>
     \<exists>kb. utf8_encode k = Inr kb \<and> int (slot (Some k) n b) = uint (crc32 kb) mod int n"
  by (auto simp: slot_def key_hash_def key_ok_def utf8_encode_def)

lemma slot_in_turn: "0 < n \<Longrightarrow> int (slot None n b) = rr b mod int n"
  by (simp add: slot_def)

lemma produced_is_fetched:
  assumes "broker_inv b" "can_produce t pl key ts b"
  shows "\<exists>b' i off. produce t pl key (Some ts) now b =
      (Inr \<lparr>pr_topic = t, pr_partition = i, pr_offset = off\<rparr>, b') \<and> broker_inv b'
    \<and> i = slot key (length (parts_of t b)) b
    \<and> i < length (parts_of t b) \<and> off = high_watermark (parts_of t b ! i)
    \<and> fetch t (int i) (off - 1) 1 b' =
        Inr [\<lparr>f_offset = off, f_timestamp = ts, f_payload = utf8_decode_replace pl\<rparr>]
    \<and> (\<forall>a lim old. fetch t (int i) a lim b = Inr old \<longrightarrow> fetch t (int i) a lim b' = Inr (old
          @ (if max 0 (a + 1) + int (length old) = off \<and> int (length old) < lim
             then [\<lparr>f_offset = off, f_timestamp = ts, f_payload = utf8_decode_replace pl\<rparr>] else [])))
    \<and> (\<forall>t' j a lim. (t', j) \<noteq> (t, int i) \<and> map_of (topics b) t' \<noteq> None \<longrightarrow>
         fetch t' j a lim b' = fetch t' j a lim b)"
proof -
  define ps where "ps = parts_of t b"
  define i where "i = slot key (length ps) b"
  obtain p' b' where eff: "produce t pl key (Some ts) now b =
        (Inr \<lparr>pr_topic = t, pr_partition = i, pr_offset = high_watermark (ps ! i)\<rparr>, b')"
      "topics b' = dict_put t (ps[i := p']) (topics b)"
      "part_ok (broker_segment_bytes b) (broker_index_interval b) p'" "part_first p' = part_first (ps ! i)"
      "part_records p' = part_records (ps ! i) @ [mk_record (high_watermark (ps ! i)) ts pl]" "broker_inv b'"
    using produce_effect [OF assms, of now] unfolding ps_def i_def by blast
  have ps: "ps \<noteq> []" "\<forall>p \<in> set ps. part_inv p"
    using parts_of_ok [OF assms(1), of t] assms(2) by (auto simp: can_produce_def ps_def)
  then have i: "i < length ps" using slot_less by (simp add: i_def)
  define off where "off = high_watermark (ps ! i)"
  let ?new = "\<lparr>f_offset = off, f_timestamp = ts, f_payload = utf8_decode_replace pl\<rparr>"
  have pi: "part_inv (ps ! i)" "part_inv p'" using ps i eff(3) by auto
  have grown: "read_after a lim p' = read_after a lim (ps ! i)
      @ (if max 0 (a + 1) + int (length (read_after a lim (ps ! i))) = off
            \<and> int (length (read_after a lim (ps ! i))) < lim then [mk_record off ts pl] else [])" for a lim
    using read_after_grown [OF pi eff(4,5)] by (simp add: off_def)
  have here: "fetch t (int i) a lim b' = Inr (map fetched_of (read_after a lim p'))" for a lim
    using fetch_part [of b' t "ps[i := p']" i] eff(2) i by (simp add: dict_put_map_of)
  have "off = part_first (ps ! i) + int (length (part_records (ps ! i)))" "0 \<le> part_first (ps ! i)"
    using pt.nxt_recs [OF pi(1)] part_first_nonneg [OF pi(1)] by (simp_all add: off_def)
  then have "read_after (off - 1) 1 (ps ! i) = []" "0 \<le> off"
    using read_after_slice [OF pi(1), of "off - 1" 1] by auto
  then have "fetch t (int i) (off - 1) 1 b' = Inr [?new]"
    using grown [of "off - 1" 1] by (simp add: here fetched_of_def)
  moreover have "fetch t (int i) a lim b' = Inr (old
      @ (if max 0 (a + 1) + int (length old) = off \<and> int (length old) < lim then [?new] else []))"
    if old: "fetch t (int i) a lim b = Inr old" for a lim old
  proof -
    have "map_of (topics b) t = Some ps"
      using old by (auto simp: fetch_def ps_def parts_of_def split: option.splits)
    then have "old = map fetched_of (read_after a lim (ps ! i))"
      using old fetch_part [of b t ps i] i by simp
    then show ?thesis using grown [of a lim] by (simp add: here fetched_of_def)
  qed
  moreover have "fetch t' j a lim b' = fetch t' j a lim b"
    if "(t', j) \<noteq> (t, int i)" "map_of (topics b) t' \<noteq> None" for t' j a lim
  proof (cases "t' = t")
    case True
    then have "map_of (topics b) t = Some ps" using that(2) by (auto simp: ps_def parts_of_def)
    then show ?thesis
      using that True eff(2) fetch_other_part [of b t ps b' i p' j] by (simp add: dict_put_map_of)
  next
    case False
    then show ?thesis using eff(2) by (intro fetch_cong) (simp add: dict_put_map_of)
  qed
  ultimately show ?thesis
    unfolding ps_def [symmetric] i_def [symmetric] using eff(1,6) i unfolding off_def by blast
qed

text \<open>
  C18. A record with a key is stored in the partition that the checksum of the key selects, a record without a key in the
  next partition in turn, at the high watermark of that partition, and can be fetched there at once with its timestamp
  and its text. Every other fetch from that partition returns what it returned before, followed by the new record
  exactly when the old answer ended at the high watermark below the limit; no fetch from another partition
  or another topic changes.
\<close>

theorem produce_then_fetch:
  assumes "broker_inv b" "can_produce t pl key ts b"
  shows "\<exists>b' i off. produce t pl key (Some ts) now b =
      (Inr \<lparr>pr_topic = t, pr_partition = i, pr_offset = off\<rparr>, b') \<and> broker_inv b'
    \<and> (case key of
         None \<Rightarrow> int i = rr b mod int (length (parts_of t b))
       | Some k \<Rightarrow> \<exists>kb. utf8_encode k = Inr kb \<and> int i = uint (crc32 kb) mod int (length (parts_of t b)))
    \<and> i < length (parts_of t b) \<and> off = high_watermark (parts_of t b ! i)
    \<and> fetch t (int i) (off - 1) 1 b' =
        Inr [\<lparr>f_offset = off, f_timestamp = ts, f_payload = utf8_decode_replace pl\<rparr>]
    \<and> (\<forall>a lim old. fetch t (int i) a lim b = Inr old \<longrightarrow> fetch t (int i) a lim b' = Inr (old
          @ (if max 0 (a + 1) + int (length old) = off \<and> int (length old) < lim
             then [\<lparr>f_offset = off, f_timestamp = ts, f_payload = utf8_decode_replace pl\<rparr>] else [])))
    \<and> (\<forall>t' j a lim. (t', j) \<noteq> (t, int i) \<and> map_of (topics b) t' \<noteq> None \<longrightarrow>
         fetch t' j a lim b' = fetch t' j a lim b)"
proof -
  let ?n = "length (parts_of t b)"
  have "0 < ?n"
    using parts_of_ok(1) [OF assms(1), of t] assms(2) by (simp add: can_produce_def)
  then have "case key of None \<Rightarrow> int (slot key ?n b) = rr b mod int ?n
     | Some k \<Rightarrow> \<exists>kb. utf8_encode k = Inr kb \<and> int (slot key ?n b) = uint (crc32 kb) mod int ?n"
    using slot_of_key slot_in_turn assms(2) by (auto simp: can_produce_def split: option.splits)
  then have place: "case key of None \<Rightarrow> int i = rr b mod int ?n
     | Some k \<Rightarrow> \<exists>kb. utf8_encode k = Inr kb \<and> int i = uint (crc32 kb) mod int ?n" if e: "i = slot key ?n b" for i
    unfolding e .
  show ?thesis
    using produced_is_fetched [OF assms, of now] by (elim exE conjE, intro exI conjI) (rule place | assumption)+
qed

definition sample_broker :: broker where
  "sample_broker = \<lparr>default_partitions = 2, broker_segment_bytes = 64, broker_index_interval = 16,
     retention_max_age_ms = None, retention_max_partition_bytes = Some 100,
     topics = [], groups = [], groups_dir = [], rr = 0\<rparr>"

lemma sample_broker_inv: "broker_inv sample_broker"
  by (simp add: broker_inv_def sample_broker_def)

lemma sample_can_produce:
  "key_ok key \<Longrightarrow> length pl \<le> 100 \<Longrightarrow> 0 \<le> ts \<Longrightarrow> ts < 100 \<Longrightarrow> can_produce t pl key ts sample_broker"
  using slot_less [of 2 key sample_broker] fresh_accepts [of pl ts 64 16]
  by (simp add: can_produce_def sample_broker_def parts_of_def part_accepts_def)

theorem produce_then_fetch_witness:
  "\<exists>b' i. produce [116] [104, 105] (Some [107]) (Some 5) 0 sample_broker =
      (Inr \<lparr>pr_topic = [116], pr_partition = i, pr_offset = 0\<rparr>, b')
    \<and> fetch [116] (int i) (-1) 1 b' = Inr [\<lparr>f_offset = 0, f_timestamp = 5, f_payload = [104, 105]\<rparr>]"
proof -
  have "can_produce [116] [104, 105] (Some [107]) 5 sample_broker"
    by (rule sample_can_produce) (simp_all add: key_ok_def scalar_def)
  from produce_then_fetch [OF sample_broker_inv this, of 0] obtain b' i off where
    b': "produce [116] [104, 105] (Some [107]) (Some 5) 0 sample_broker =
        (Inr \<lparr>pr_topic = [116], pr_partition = i, pr_offset = off\<rparr>, b')"
      "i < length (parts_of [116] sample_broker)" "off = high_watermark (parts_of [116] sample_broker ! i)"
      "fetch [116] (int i) (off - 1) 1 b' =
        Inr [\<lparr>f_offset = off, f_timestamp = 5, f_payload = utf8_decode_replace [104, 105]\<rparr>]"
    by blast
  then have "off = 0"
    by (simp add: parts_of_def sample_broker_def high_watermark_def)
  moreover have "utf8_decode_replace [104, 105] = [104, 105]"
    by (simp add: utf8_decode_replace_def utf8_step.simps(2))
  ultimately show ?thesis using b'(1,4) by auto
qed

text \<open>
  C11. Records with the same key stay in order: whatever happens between two calls, restarts and
  retention included, both records go to the same partition and the later one has the
  higher offset.
\<close>

theorem same_key_keeps_order:
  assumes "broker_inv b" "can_produce t pl (Some k) ts b"
    and "produce t pl (Some k) (Some ts) now b = (Inr r, b1)"
    and "broker_step\<^sup>*\<^sup>* b1 b2" "can_produce t pl' (Some k) ts' b2"
    and "produce t pl' (Some k) (Some ts') now' b2 = (Inr r', b3)"
  shows "pr_partition r = pr_partition r' \<and> pr_offset r < pr_offset r'"
proof -
  let ?ps = "parts_of t b" and ?i = "slot (Some k) (length (parts_of t b)) b"
  obtain p' where eff: "r = \<lparr>pr_topic = t, pr_partition = ?i, pr_offset = high_watermark (?ps ! ?i)\<rparr>"
      "topics b1 = dict_put t (?ps[?i := p']) (topics b)" "part_inv p'" "part_first p' = part_first (?ps ! ?i)"
      "part_records p' = part_records (?ps ! ?i) @ [mk_record (high_watermark (?ps ! ?i)) ts pl]" "broker_inv b1"
    using produce_effect [OF assms(1,2), of now] assms(3) by auto
  have ps: "?ps \<noteq> []" "\<forall>p \<in> set ?ps. part_inv p"
    using parts_of_ok [OF assms(1), of t] assms(2) by (auto simp: can_produce_def)
  then have i: "?i < length ?ps" using slot_less by simp
  have hw: "high_watermark p' = high_watermark (?ps ! ?i) + 1"
    using pt.nxt_recs [of "?ps ! ?i"] pt.nxt_recs [OF eff(3)] eff(4,5) ps i by simp
  have later: "broker_inv b2" "parts_grow b1 b2"
    using broker_steps_inv [OF assms(4) eff(6)] by simp_all
  moreover have "map_of (topics b1) t = Some (?ps[?i := p'])"
    using eff(2) by (simp add: dict_put_map_of)
  ultimately obtain qs where qs: "map_of (topics b2) t = Some qs" "list_all2 hw_le (?ps[?i := p']) qs"
    unfolding parts_grow_def by blast
  then have len: "length qs = length ?ps" and le: "hw_le p' (qs ! ?i)"
    using list_all2_nthD [OF qs(2), of ?i] i by (auto dest: list_all2_lengthD)
  have "parts_of t b2 = qs" using qs(1) by (simp add: parts_of_def)
  then have "r' = \<lparr>pr_topic = t, pr_partition = ?i, pr_offset = high_watermark (qs ! ?i)\<rparr>"
    using produce_effect [OF later(1) assms(5), of now'] assms(6) len by (auto simp: slot_def)
  then show ?thesis using eff(1) hw le by (simp add: hw_le_def)
qed

lemma accepts_small:
  assumes "log_inv l" "length (file_bytes (log_records l)) \<le> 10000" "next_offset l \<le> 10000"
    and "length pl \<le> 100" "0 \<le> ts" "ts < 100"
  shows "accepts_record pl ts l"
proof -
  have "0 \<le> next_offset l"
    using active_segment(3) [OF assms(1)] seg_rep_props(1) [OF active_segment(2) [OF assms(1)]] by simp
  moreover have "length (file_bytes (seg_records (active l))) \<le> length (file_bytes (log_records l))"
    by (simp add: log_records_split [OF assms(1)])
  ultimately show ?thesis
    using assms by (simp add: accepts_record_def room_for_def format_simps)
qed

text \<open>After one small record any partition of the sample broker accepts another.\<close>

lemma sample_second:
  assumes "produce t [104, 105] (Some k) (Some 5) 0 sample_broker = (Inr r, b1)" "list_all scalar k"
  shows "can_produce t [33] (Some k) 6 b1"
proof -
  let ?b = sample_broker
  have can: "can_produce t [104, 105] (Some k) 5 ?b"
    using assms(2) by (intro sample_can_produce) (simp_all add: key_ok_def)
  let ?ps = "parts_of t ?b" and ?i = "slot (Some k) (length (parts_of t ?b)) ?b"
  have ps: "?ps = replicate 2 (fresh_part ?b)" by (simp add: parts_of_def sample_broker_def)
  have i: "?i < 2" using slot_less by (simp add: ps)
  obtain p' where p': "topics b1 = dict_put t (?ps[?i := p']) (topics ?b)" "part_inv p'" "part_first p' = part_first (?ps ! ?i)"
      "part_records p' = part_records (?ps ! ?i) @ [mk_record (high_watermark (?ps ! ?i)) 5 [104, 105]]"
    using produce_effect [OF sample_broker_inv can, of 0] assms(1) by auto
  have "?ps ! ?i = fresh_part ?b"
    using i unfolding ps by (simp only: nth_replicate length_replicate)
  then have "part_first (?ps ! ?i) = 0" "part_records (?ps ! ?i) = []" "high_watermark (?ps ! ?i) = 0"
    by (simp_all add: part_defs)
  then have "high_watermark p' = 1" "part_records p' = [mk_record 0 5 [104, 105]]"
    using p'(3,4) pt.nxt_recs [OF p'(2)] by simp_all
  then have "accepts_record [33] 6 (part_log p')"
    using p'(2) by (intro accepts_small) (simp_all add: part_defs file_bytes_def length_record_bytes HEADER_SIZE_def)
  moreover have "map_of (topics b1) t = Some (?ps[?i := p'])" using p'(1) by (simp add: dict_put_map_of)
  moreover have "slot (Some k) (length (parts_of t b1)) b1 = ?i"
    using calculation(2) by (simp add: parts_of_def [of t b1] slot_def)
  ultimately show ?thesis
    using assms(2) i by (simp add: can_produce_def key_ok_def parts_of_def [of t b1] part_accepts_def ps)
qed

theorem same_key_keeps_order_witness:
  "\<exists>r b1 r' b3. produce [116] [104, 105] (Some [107]) (Some 5) 0 sample_broker = (Inr r, b1)
    \<and> produce [116] [33] (Some [107]) (Some 6) 0 b1 = (Inr r', b3)
    \<and> pr_partition r = pr_partition r' \<and> pr_offset r < pr_offset r'"
proof -
  have can: "can_produce [116] [104, 105] (Some [107]) 5 sample_broker"
    by (rule sample_can_produce) (simp_all add: key_ok_def scalar_def)
  obtain r b1 where one: "produce [116] [104, 105] (Some [107]) (Some 5) 0 sample_broker = (Inr r, b1)" "broker_inv b1"
    using produce_effect [OF sample_broker_inv can, of 0] by blast
  have can2: "can_produce [116] [33] (Some [107]) 6 b1"
    using sample_second [OF one(1)] by (simp add: scalar_def)
  obtain r' b3 where two: "produce [116] [33] (Some [107]) (Some 6) 0 b1 = (Inr r', b3)"
    using produce_effect [OF one(2) can2, of 0] by blast
  show ?thesis
    using one two same_key_keeps_order [OF sample_broker_inv can one(1) rtranclp.rtrancl_refl can2 two] by blast
qed

section \<open>Committed offsets\<close>

text \<open>
  C16. Committing an offset raises the committed offset of that group, topic and partition to it,
  never lowers it, and touches no other; a crash at any moment of the commit leaves the offset
  before or after it on disk, and a restart after the commit finds what was committed.
\<close>

theorem commit_is_durable:
  assumes "broker_inv b" "list_all scalar t"
  shows "\<exists>b' b''. commit_offset g t i off b = (Inr (), b')
    \<and> committed t i (group_of g b') = max off (committed t i (group_of g b))
    \<and> (\<forall>g' t' i'. (g', t', i') \<noteq> (g, t, i) \<longrightarrow>
         committed t' i' (group_of g' b') = committed t' i' (group_of g' b))
    \<and> (\<forall>(f, tmp) \<in> set (group_commit_trace t i off (group_of g b)). \<exists>h. group_init f = Inr h
         \<and> (offsets h = offsets (group_of g b) \<or> offsets h = offsets (group_of g b')))
    \<and> restart b' = Inr b'' \<and> (\<forall>g'. group_of g' b'' = group_of g' b')"
proof -
  obtain b' where b': "commit_offset g t i off b = (Inr (), b')" "broker_inv b'"
      "group_of g b' = group_commit t i off (group_of g b)" "\<forall>m. m \<noteq> g \<longrightarrow> group_of m b' = group_of m b"
    using commit_offset_effect [OF assms, of g i off] by blast
  moreover obtain b'' where "restart b' = Inr b''" "\<forall>n. group_of n b'' = group_of n b'"
    using restart_effect [OF b'(2)] by blast
  moreover have "group_inv (group_of g b)"
    using group_effect [OF assms(1), of g] by blast
  note crash = group_commit_crash [OF this assms(2), of _ _ i off]
  have "committed t' i' (group_of g' b') = committed t' i' (group_of g' b)"
    if "(g', t', i') \<noteq> (g, t, i)" for g' t' i'
    using that b'(3,4) by (cases "g' = g") (auto simp: group_commit_committed)
  moreover have "committed t i (group_of g b') = max off (committed t i (group_of g b))"
    by (simp add: b'(3) group_commit_committed)
  moreover have "\<exists>h. group_init f = Inr h
         \<and> (offsets h = offsets (group_of g b) \<or> offsets h = offsets (group_of g b'))"
    if "(f, tmp) \<in> set (group_commit_trace t i off (group_of g b))" for f tmp
    using crash [OF that] b'(3) by simp
  ultimately show ?thesis by (intro exI [of _ b'] exI [of _ b'']) auto
qed

theorem commit_is_durable_witness:
  "\<exists>b' b''. commit_offset [103] [116] 0 7 sample_broker = (Inr (), b') \<and> restart b' = Inr b''
    \<and> committed [116] 0 (group_of [103] b'') = 7"
proof -
  obtain b' b'' where b': "commit_offset [103] [116] 0 7 sample_broker = (Inr (), b')"
      "committed [116] 0 (group_of [103] b') = max 7 (committed [116] 0 (group_of [103] sample_broker))"
      "restart b' = Inr b''" "\<forall>g'. group_of g' b'' = group_of g' b'"
    using commit_is_durable [OF sample_broker_inv, of "[116]" "[103]" 0 7] by (auto simp: scalar_def)
  moreover have "committed [116] 0 (group_of [103] sample_broker) = -1"
    by (simp add: committed_def group_of_def sample_broker_def group_init_def)
  ultimately show ?thesis by auto
qed

text \<open>
  The lag of a group is the number of records it has not consumed: exactly the records that a
  fetch behind the committed offset returns, as long as retention has not removed any of them.
\<close>

theorem lag_counts_unread:
  assumes "broker_inv b" "map_of (topics b) t = Some ps" "i < length ps"
    and "-1 \<le> committed t (int i) (group_of g b)"
    and "part_first (ps ! i) \<le> committed t (int i) (group_of g b) + 1"
  shows "\<exists>b' ms. lag g t (int i) b = (Inr (int (length ms)), b') \<and> broker_inv b'
    \<and> fetch t (int i) (committed t (int i) (group_of g b)) (high_watermark (ps ! i)) b = Inr ms"
proof -
  let ?p = "ps ! i" and ?c = "committed t (int i) (group_of g b)"
  have p: "part_inv ?p" using broker_inv_topic(2) [OF assms(1-3)] by auto
  obtain b' where b': "group g b = (Inr (group_of g b), b')" "broker_inv b'"
    using group_effect [OF assms(1), of g] by blast
  define rs where "rs = drop (nat (?c + 1 - part_first ?p)) (part_records ?p)"
  have "read_after ?c (high_watermark ?p) ?p = take (nat (high_watermark ?p)) rs"
    unfolding rs_def by (rule read_after_slice [OF p assms(5,4)])
  moreover have "length rs \<le> nat (high_watermark ?p)"
    using pt.nxt_recs [OF p] part_first_nonneg [OF p] by (simp add: rs_def)
  ultimately have "fetch t (int i) ?c (high_watermark ?p) b = Inr (map fetched_of rs)"
    using fetch_part [OF assms(2,3)] by simp
  moreover have "lag g t (int i) b = (Inr (int (length rs)), b')"
    using assms(2,3,5) b'(1) pt.nxt_recs [OF p] by (simp add: lag_def py_index_def Let_def rs_def max_def)
  ultimately show ?thesis using b'(2) by (intro exI [of _ b'] exI [of _ "map fetched_of rs"]) simp
qed

definition busy_broker :: broker where
  "busy_broker = sample_broker\<lparr>topics := [([116], [fresh_part sample_broker])]\<rparr>"

lemma busy_broker_inv: "broker_inv busy_broker"
  using sample_broker_inv fresh_part_ok [of 64 16] by (simp add: busy_broker_def broker_inv_def sample_broker_def)

lemma busy_broker_fields:
  "map_of (topics busy_broker) [116] = Some [fresh_part sample_broker]"
  "committed [116] 0 (group_of [103] busy_broker) = -1"
  by (simp_all add: busy_broker_def sample_broker_def committed_def group_of_def group_init_def)

theorem lag_counts_unread_witness:
  "\<exists>b' ms. lag [103] [116] 0 busy_broker = (Inr (int (length ms)), b') \<and> fetch [116] 0 (-1) 0 busy_broker = Inr ms"
  using lag_counts_unread [OF busy_broker_inv busy_broker_fields(1), of 0 "[103]"] busy_broker_fields(2)
  by (auto simp: part_defs)

section \<open>Restart and retention\<close>

text \<open>
  C13. A restart loses nothing: opening the data directory again gives a broker with the same
  topics, the same number of partitions, the same answer to every fetch, the same high
  watermarks, and the same committed offsets.
\<close>

theorem restart_keeps_everything:
  assumes "broker_inv b"
  shows "\<exists>b'. restart b = Inr b' \<and> broker_inv b'
    \<and> (\<forall>t i a lim. fetch t i a lim b' = fetch t i a lim b)
    \<and> (\<forall>t. map_option (map high_watermark) (map_of (topics b') t) = map_option (map high_watermark) (map_of (topics b) t))
    \<and> (\<forall>g t i. committed t i (group_of g b') = committed t i (group_of g b))"
proof -
  obtain b' where b': "restart b = Inr b'" "broker_inv b'"
      "\<forall>t. rel_option (list_all2 part_same) (map_of (topics b) t) (map_of (topics b') t)"
      "\<forall>n. group_of n b' = group_of n b"
    using restart_effect [OF assms] by blast
  have reads: "read_after a lim p' = read_after a lim p" if "part_inv p" "part_inv p'" "part_same p p'" for a lim p p'
  proof -
    have "part_read c p' = part_read c p" for c
      using that by (simp add: pt.rd_recs part_same_def)
    then show ?thesis by (simp add: read_after_eq)
  qed
  have "fetch t i a lim b' = fetch t i a lim b" for t i a lim
  proof (cases "map_of (topics b) t")
    case None
    then show ?thesis using b'(3) [rule_format, of t] by (simp add: fetch_def)
  next
    case (Some ps)
    then obtain ps' where ps': "map_of (topics b') t = Some ps'" "list_all2 part_same ps ps'"
      using b'(3) [rule_format, of t] by (auto simp: option_rel_Some1)
    have len: "length ps' = length ps" using ps'(2) by (simp add: list_all2_lengthD)
    have "read_after a lim (ps' ! k) = read_after a lim (ps ! k)" if "k < length ps" for k
      using that len broker_inv_topic(2) [OF assms Some that] broker_inv_topic(2) [OF b'(2) ps'(1), of k]
        list_all2_nthD [OF ps'(2) that] by (intro reads) auto
    with Some ps'(1) len show ?thesis by (simp add: fetch_def nat_less_iff)
  qed
  moreover have "map_option (map high_watermark) (map_of (topics b') t) = map_option (map high_watermark) (map_of (topics b) t)" for t
  proof -
    have "map high_watermark ps' = map high_watermark ps" if "list_all2 part_same ps ps'" for ps ps'
      using that by (induction rule: list_all2_induct) (simp_all add: part_same_def)
    then show ?thesis
      using b'(3) [rule_format, of t] by (cases "map_of (topics b) t") (auto simp: option_rel_Some1)
  qed
  ultimately show ?thesis using b' by auto
qed

theorem restart_keeps_everything_witness:
  "\<exists>b'. restart busy_broker = Inr b' \<and> broker_inv b' \<and> fetch [116] 0 (-1) 10 b' = fetch [116] 0 (-1) 10 busy_broker"
  using restart_keeps_everything [OF busy_broker_inv] by blast

text \<open>
  C31. Retention always ends, although the loop of the byte budget has no bound of its own: it
  keeps a suffix of every partition that includes the newest segment, never changes a high
  watermark, and afterwards every partition is within the budget or is down to one segment.
\<close>

theorem retention_ends:
  assumes "broker_inv b"
  shows "\<exists>n b'. retention_sweep now clock b = Some (n, b') \<and> broker_inv b'
    \<and> (\<forall>t ps. map_of (topics b) t = Some ps \<longrightarrow> (\<exists>ps'. map_of (topics b') t = Some ps' \<and> length ps' = length ps
         \<and> (\<forall>i < length ps. high_watermark (ps' ! i) = high_watermark (ps ! i)
              \<and> part_records (ps' ! i) =
                  drop (nat (part_first (ps' ! i) - part_first (ps ! i))) (part_records (ps ! i))
              \<and> (\<forall>limit. retention_max_partition_bytes b = Some limit \<longrightarrow>
                   length (segments (part_log (ps' ! i))) = 1 \<or> size_bytes (ps' ! i) \<le> limit))))"
proof -
  obtain n b' where b': "retention_sweep now clock b = Some (n, b')" "broker_inv b'"
      "list_all2 topic_suffix (topics b) (topics b')"
      "Ball (set (topics b')) (topic_within (retention_max_partition_bytes b))"
    using retention_effect [OF assms, of now clock] by blast
  have "\<exists>ps'. map_of (topics b') t = Some ps' \<and> length ps' = length ps
         \<and> (\<forall>i < length ps. high_watermark (ps' ! i) = high_watermark (ps ! i)
              \<and> part_records (ps' ! i) =
                  drop (nat (part_first (ps' ! i) - part_first (ps ! i))) (part_records (ps ! i))
              \<and> (\<forall>limit. retention_max_partition_bytes b = Some limit \<longrightarrow>
                   length (segments (part_log (ps' ! i))) = 1 \<or> size_bytes (ps' ! i) \<le> limit))"
    if ps: "map_of (topics b) t = Some ps" for t ps
  proof -
    obtain ps' where ps': "map_of (topics b') t = Some ps'" "list_all2 part_suffix ps ps'"
      using topic_suffix_lookup [OF b'(3), of t] ps by (auto simp: option_rel_Some1)
    have len: "length ps' = length ps" using ps'(2) by (simp add: list_all2_lengthD)
    have "topic_within (retention_max_partition_bytes b) (t, ps')"
      using b'(4) map_of_SomeD [OF ps'(1)] by blast
    then show ?thesis
      using ps' len part_suffix_fields [OF list_all2_nthD [OF ps'(2)]]
      by (intro exI [of _ ps']) (auto simp: topic_within_def)
  qed
  with b' show ?thesis by blast
qed

theorem retention_ends_witness: "\<exists>n b'. retention_sweep (Some 5) 0 busy_broker = Some (n, b') \<and> broker_inv b'"
  using retention_ends [OF busy_broker_inv, of "Some 5" 0] by blast

text \<open>
  The byte budget removes more than it reports: while more than two segments are left and the
  budget is exceeded, one turn of the loop removes the two oldest segments, although removing the
  oldest might have been enough, and counts one.
\<close>

theorem budget_turn_removes_two:
  assumes "log_inv l" "2 < length (segments l)" "limit < stat_size_bytes (stats l)"
  shows "\<exists>l'. segments l' = drop 2 (segments l)
    \<and> budget_loop limit removed l = budget_loop limit (removed + 1) l'"
proof -
  let ?r = "truncate_segments_before (base_offset (segments l ! 1) + 1) l"
  have "segments (snd ?r) = drop 2 (segments l)"
    using budget_turn [OF assms(1)] assms(2) by simp
  moreover have "budget_loop limit removed l = budget_loop limit (removed + 1) (snd ?r)"
    using assms(2,3) by (subst budget_loop.simps) (simp add: stats_def)
  ultimately show ?thesis by blast
qed

text \<open>Small records in segments of one byte: every record starts a new segment.\<close>

fun small_log :: "nat \<Rightarrow> commit_log" where
  "small_log 0 = fresh_log 1 16"
| "small_log (Suc n) = snd (append_log [7] (Some 1) 0 (small_log n))"

lemma small_log_inv:
  "n \<le> 100 \<Longrightarrow> log_inv (small_log n) \<and> first_offset (small_log n) = 0 \<and> next_offset (small_log n) = int n
     \<and> length (file_bytes (log_records (small_log n))) = 29 * n"
proof (induction n)
  case (Suc n)
  then have "accepts_record [7] 1 (small_log n)"
    by (intro accepts_small) auto
  then show ?case
    using Suc cl.app_recs [of "small_log n" "[7]" 1 0] log_inv_records(2)
    by (auto simp: length_record_bytes HEADER_SIZE_def)
qed (simp_all add: fresh_log_inv)

lemma small_log_segments: "map seg_size (segments (small_log 3)) = [29, 29, 29]"
  by code_simp

theorem budget_turn_removes_two_witness:
  "\<exists>l'. length (segments l') = 1 \<and> budget_loop 60 0 (small_log 3) = budget_loop 60 1 l'"
proof -
  have "length (segments (small_log 3)) = 3" "stat_size_bytes (stats (small_log 3)) = 87"
    using small_log_segments length_map [of seg_size "segments (small_log 3)"] by (simp_all add: stats_def)
  then obtain l' where "segments l' = drop 2 (segments (small_log 3))"
      "budget_loop 60 0 (small_log 3) = budget_loop 60 (0 + 1) l'"
    using budget_turn_removes_two [of "small_log 3" 60 0] small_log_inv [of 3] by auto
  with \<open>length (segments (small_log 3)) = 3\<close> show ?thesis
    by (intro exI [of _ l']) simp
qed

text \<open>
  After retention has removed the beginning of a partition, a consumer without a committed
  offset gets nothing: a fetch from the start asks for offset 0, which is gone, and returns
  an empty list although the partition still holds records.
\<close>

theorem fetch_from_start_finds_nothing:
  assumes "broker_inv b" "map_of (topics b) t = Some ps" "i < length ps"
    and "0 < part_first (ps ! i)" "a < 0"
  shows "fetch t (int i) a limit b = Inr []"
proof -
  have "part_inv (ps ! i)" using broker_inv_topic(2) [OF assms(1-3)] by auto
  then have "read_after a limit (ps ! i) = []"
    using assms(4,5) by (intro read_after_before) simp_all
  then show ?thesis using fetch_part [OF assms(2,3)] by simp
qed

lemma small_log_config: "max_segment_bytes (small_log n) = 1 \<and> log_interval (small_log n) = 16"
proof (induction n)
  case (Suc n)
  then show ?case
    using append_log_config [of "[7]" "Some 1" 0 "small_log n"] by (metis prod.collapse small_log.simps(2))
qed (simp add: fresh_log_def)

definition swept_broker :: broker where
  "swept_broker = sample_broker\<lparr>broker_segment_bytes := 1,
     topics := [([116], [\<lparr>part_log = snd (truncate_segments_before 1 (small_log 2))\<rparr>])]\<rparr>"

lemma swept_first: "first_offset (snd (truncate_segments_before 1 (small_log 2))) = 1"
  by code_simp

lemma swept_broker_inv: "broker_inv swept_broker"
proof -
  obtain k l' where l': "truncate_segments_before 1 (small_log 2) = (k, l')" by fastforce
  then have "suffix_of_log (small_log 2) l'"
    using small_log_inv [of 2] by (auto intro: truncate_segments_suffix(1))
  then have "part_ok 1 16 \<lparr>part_log = l'\<rparr>"
    using small_log_config [of 2] by (simp add: part_ok_def part_inv_def suffix_of_log_def)
  with l' show ?thesis by (simp add: swept_broker_def sample_broker_def broker_inv_def)
qed

theorem fetch_from_start_finds_nothing_witness: "fetch [116] 0 (-1) 10 swept_broker = Inr []"
  using fetch_from_start_finds_nothing [OF swept_broker_inv, of "[116]" _ 0 "-1" 10] swept_first
  by (simp add: swept_broker_def part_first_def)

end
