(* ===== verification/Net.thy ===== *)
theory Net
  imports Codec Atomic_File
begin

text \<open>
  The frame protocol of \<^verbatim>\<open>pylog/net.py\<close>: a message is its JSON text behind a length of four bytes.
  A socket is what \<^verbatim>\<open>recv\<close> returns: some of the bytes that are pending, in pieces whose sizes the
  network chooses, and nothing when the peer has closed. The locale states this contract; the
  functions take \<^verbatim>\<open>recv\<close> as an argument, and \<open>chunk_recv\<close> is the socket whose pending bytes arrive in
  a given list of pieces. A connection is served on its own here; \<open>Frame_Server\<close> has the
  accept loop and connections that are served in turns.
\<close>

section \<open>Frames\<close>

definition MAX_FRAME_BYTES :: int where
  "MAX_FRAME_BYTES = 64 * 1024 * 1024"

definition pack_length :: "int \<Rightarrow> bytes result" where
  "pack_length n = (if fits_unsigned 4 n then Inr (le_bytes 4 n) else Inl StructError)"

text \<open>What \<^verbatim>\<open>send_frame\<close> hands to \<^verbatim>\<open>sendall\<close>.\<close>

definition send_frame :: "json \<Rightarrow> bytes result" where
  "send_frame obj =
     (case utf8_encode (dumps_compact obj) of
        Inl e \<Rightarrow> Inl e
      | Inr data \<Rightarrow>
          (case pack_length (int (length data)) of Inl e \<Rightarrow> Inl e | Inr hdr \<Rightarrow> Inr (hdr @ data)))"

text \<open>The loop ends whatever \<^verbatim>\<open>recv\<close> does: every piece that is not empty makes the buffer longer.\<close>

function recv_exact :: "(nat \<Rightarrow> 's \<Rightarrow> bytes \<times> 's) \<Rightarrow> nat \<Rightarrow> bytes \<Rightarrow> 's \<Rightarrow> (bytes \<times> 's) result" where
  "recv_exact rcv n buf s =
     (if length buf < n then
        (case rcv (n - length buf) s of
           (chunk, s') \<Rightarrow>
             if chunk = [] then Inl Disconnected else recv_exact rcv n (buf @ chunk) s')
      else Inr (buf, s))"
  by pat_completeness auto
termination
  by (relation "measure (\<lambda>(_, n, buf, _). n - length buf)") (auto simp: neq_Nil_conv)

declare recv_exact.simps [simp del]

definition recv_frame :: "(nat \<Rightarrow> 's \<Rightarrow> bytes \<times> 's) \<Rightarrow> 's \<Rightarrow> (json \<times> 's) result" where
  "recv_frame rcv s =
     (case recv_exact rcv 4 [] s of
        Inl e \<Rightarrow> Inl e
      | Inr (header, s1) \<Rightarrow>
          let len = le_uint header in
          if len > MAX_FRAME_BYTES then Inl (ValueError ''frame too large'')
          else
            (case recv_exact rcv (nat len) [] s1 of
               Inl e \<Rightarrow> Inl e
             | Inr (body, s2) \<Rightarrow>
                 (case utf8_decode body of
                    Inl e \<Rightarrow> Inl e
                  | Inr text \<Rightarrow> (case loads text of Inl e \<Rightarrow> Inl e | Inr v \<Rightarrow> Inr (v, s2)))))"

section \<open>Sockets\<close>

text \<open>\<open>pending\<close> are the bytes that have been sent and not yet received.\<close>

locale byte_source =
  fixes rcv :: "nat \<Rightarrow> 's \<Rightarrow> bytes \<times> 's" and pending :: "'s \<Rightarrow> bytes" and live :: "'s \<Rightarrow> bool"
  assumes rcv_splits: "live s \<Longrightarrow> rcv n s = (c, s') \<Longrightarrow> pending s = c @ pending s' \<and> live s'"
    and rcv_length: "live s \<Longrightarrow> rcv n s = (c, s') \<Longrightarrow> length c \<le> n"
    and rcv_some: "live s \<Longrightarrow> rcv n s = (c, s') \<Longrightarrow> 0 < n \<Longrightarrow> pending s \<noteq> [] \<Longrightarrow> c \<noteq> []"
begin

text \<open>The sizes of the pieces do not matter: the first bytes are received, or the end is noticed.\<close>

lemma recv_exact_prefix:
  assumes "live s" "length buf \<le> n" "n - length buf \<le> length (pending s)"
  shows "\<exists>s'. recv_exact rcv n buf s = Inr (buf @ take (n - length buf) (pending s), s')
    \<and> live s' \<and> pending s' = drop (n - length buf) (pending s)"
  using assms
proof (induction "n - length buf" arbitrary: buf s rule: less_induct)
  case less
  show ?case
  proof (cases "length buf < n")
    case True
    obtain c s1 where c: "rcv (n - length buf) s = (c, s1)" by fastforce
    have ne: "c \<noteq> []" and len: "length c \<le> n - length buf"
      and split: "pending s = c @ pending s1" "live s1"
    proof -
      have "pending s \<noteq> []" using True less.prems(3) by auto
      then show "c \<noteq> []" using rcv_some [OF less.prems(1) c] True by simp
    qed (use rcv_length [OF less.prems(1) c] rcv_splits [OF less.prems(1) c] in auto)
    have "n - length (buf @ c) < n - length buf" using ne True by (simp add: neq_Nil_conv) auto
    moreover have "length (buf @ c) \<le> n" "n - length (buf @ c) \<le> length (pending s1)"
      using len less.prems(2,3) split(1) by simp_all
    ultimately obtain s' where
      "recv_exact rcv n (buf @ c) s1 = Inr ((buf @ c) @ take (n - length (buf @ c)) (pending s1), s')"
      "live s'" "pending s' = drop (n - length (buf @ c)) (pending s1)"
      using less.hyps [of "buf @ c" s1] split(2) by blast
    moreover have "recv_exact rcv n buf s = recv_exact rcv n (buf @ c) s1"
      using True c ne by (subst recv_exact.simps) simp
    ultimately show ?thesis
      using split(1) len by simp
  next
    case False
    then show ?thesis using less.prems by (subst recv_exact.simps) simp
  qed
qed

lemma recv_exact_short:
  assumes "live s" "length (pending s) < n - length buf"
  shows "recv_exact rcv n buf s = Inl Disconnected"
  using assms
proof (induction "n - length buf" arbitrary: buf s rule: less_induct)
  case less
  obtain c s1 where c: "rcv (n - length buf) s = (c, s1)" by fastforce
  have split: "pending s = c @ pending s1" "live s1"
    using rcv_splits [OF less.prems(1) c] by auto
  show ?case
  proof (cases "c = []")
    case True
    then show ?thesis using less.prems(2) c by (subst recv_exact.simps) simp
  next
    case False
    have "n - length (buf @ c) < n - length buf" using False less.prems(2) by (simp add: neq_Nil_conv) auto
    from less.hyps [OF this split(2)] have "recv_exact rcv n (buf @ c) s1 = Inl Disconnected"
      using less.prems(2) split(1) by simp
    then show ?thesis using less.prems(2) c False by (subst recv_exact.simps) simp
  qed
qed

lemma recv_exact_start:
  assumes "live s"
  shows "n \<le> length (pending s) \<Longrightarrow>
      \<exists>s'. recv_exact rcv n [] s = Inr (take n (pending s), s') \<and> live s' \<and> pending s' = drop n (pending s)"
    and "length (pending s) < n \<Longrightarrow> recv_exact rcv n [] s = Inl Disconnected"
  using recv_exact_prefix [OF assms, of "[]" n] recv_exact_short [OF assms, of n "[]"] by simp_all

lemma recv_exact_shorter:
  assumes "live s" "recv_exact rcv n [] s = Inr (b, s')"
  shows "live s' \<and> b = take n (pending s) \<and> pending s' = drop n (pending s) \<and> n \<le> length (pending s)"
  using recv_exact_start [OF assms(1), of n] assms(2) by (cases "n \<le> length (pending s)") auto

lemma recv_frame_shorter:
  assumes "live s" "recv_frame rcv s = Inr (v, s')"
  shows "live s' \<and> length (pending s') + 4 \<le> length (pending s)"
proof -
  obtain h s1 where h: "recv_exact rcv 4 [] s = Inr (h, s1)"
    using assms(2) by (auto simp: recv_frame_def split: sum.splits)
  then obtain b where b: "recv_exact rcv (nat (le_uint h)) [] s1 = Inr (b, s')"
    using assms(2) by (auto simp: recv_frame_def Let_def split: sum.splits if_splits)
  have s1: "live s1" "pending s1 = drop 4 (pending s)" "4 \<le> length (pending s)"
    using recv_exact_shorter [OF assms(1) h] by auto
  with recv_exact_shorter [OF s1(1) b] show ?thesis by auto
qed

text \<open>A frame is received as it was sent, however it is cut into pieces and whatever follows it.\<close>

lemma recv_sent:
  assumes "live s" "wf_json v" "send_frame v = Inr f" "pending s = f @ rest"
    and "int (length (dumps_compact v)) \<le> MAX_FRAME_BYTES"
  shows "\<exists>s'. recv_frame rcv s = Inr (v, s') \<and> live s' \<and> pending s' = rest"
proof -
  let ?data = "encode_ascii (dumps_compact v)"
  have enc: "utf8_encode (dumps_compact v) = Inr ?data"
    using assms(2) by (simp add: dumps_encode_ascii)
  define len where "len = int (length (dumps_compact v))"
  have fits: "fits_unsigned 4 len"
    using assms(5) by (simp add: fits_unsigned_def MAX_FRAME_BYTES_def len_def)
  then have f: "f = le_bytes 4 len @ ?data"
    using assms(3) enc by (simp add: send_frame_def pack_length_def encode_ascii_def len_def)
  obtain s1 where s1: "recv_exact rcv 4 [] s = Inr (le_bytes 4 len, s1)" "live s1" "pending s1 = ?data @ rest"
    using recv_exact_start(1) [OF assms(1), of 4] assms(4) f by auto
  have dl: "length ?data = nat len" by (simp add: encode_ascii_def len_def)
  obtain s2 where s2: "recv_exact rcv (nat len) [] s1 = Inr (?data, s2)" "live s2" "pending s2 = rest"
    using recv_exact_start(1) [OF s1(2), of "nat len"] s1(3) dl by auto
  have "recv_frame rcv s = Inr (v, s2)"
    using s1(1) s2(1) le_uint_round_trip [OF fits] assms(5)
      encode_ascii_decode [OF blank_gaps(2) assms(2)] loads_dumps_sep [OF blank_gaps(2) assms(2)]
    by (simp add: recv_frame_def len_def)
  with s2 show ?thesis by blast
qed

end

section \<open>A socket that delivers given pieces\<close>

definition chunk_recv :: "nat \<Rightarrow> bytes list \<Rightarrow> bytes \<times> bytes list" where
  "chunk_recv n cs =
     (case dropWhile (\<lambda>c. c = []) cs of
        [] \<Rightarrow> ([], [])
      | c # r \<Rightarrow> (take n c, drop n c # r))"

lemma concat_drop_empty: "concat (dropWhile (\<lambda>c. c = []) cs) = concat cs"
  by (induction cs) auto

interpretation sock: byte_source chunk_recv concat "\<lambda>_. True"
proof
  fix s n c s'
  assume a: "chunk_recv n s = (c, s')"
  show "concat s = c @ concat s' \<and> True"
    using a concat_drop_empty [of s]
    by (cases "dropWhile (\<lambda>c. c = []) s") (auto simp: chunk_recv_def simp flip: append_assoc)
  show "length c \<le> n"
    using a by (auto simp: chunk_recv_def split: list.splits)
  show "c \<noteq> []" if "0 < n" "concat s \<noteq> []"
  proof -
    have ne: "dropWhile (\<lambda>c. c = []) s \<noteq> []"
      using that(2) concat_drop_empty [of s] by auto
    with hd_dropWhile [OF this] a that(1) show ?thesis
      by (cases "dropWhile (\<lambda>c. c = []) s") (auto simp: chunk_recv_def)
  qed
qed

section \<open>Serving a connection\<close>

definition error_reply :: "ustr \<Rightarrow> json" where
  "error_reply text = JObj [(ascii ''type'', JStr (ascii ''error'')), (ascii ''error'', JStr text)]"

text \<open>
  \<^verbatim>\<open>_serve_conn\<close>: the handler returns its answer or the text of the exception it raised, and the new
  state of the object it belongs to; the result is the list of frames sent. The pieces that
  follow the last frame received are given up with the connection.
\<close>

lemma recv_frame_less:
  assumes "recv_frame chunk_recv cs = Inr (v, cs')"
  shows "length (concat cs') < length (concat cs)"
  using sock.recv_frame_shorter [OF TrueI assms] by auto

function serve_conn ::
  "('h \<Rightarrow> json \<Rightarrow> (ustr + json) \<times> 'h) \<Rightarrow> 'h \<Rightarrow> bytes list \<Rightarrow> bytes list \<times> 'h" where
  "serve_conn handler h cs =
     (case recv_frame chunk_recv cs of
        Inl _ \<Rightarrow> ([], h)
      | Inr (req, cs') \<Rightarrow>
          (case handler h req of
             (res, h') \<Rightarrow>
               let resp = (case res of Inr v \<Rightarrow> v | Inl text \<Rightarrow> error_reply text) in
               (case send_frame resp of
                  Inl _ \<Rightarrow> ([], h')
                | Inr f \<Rightarrow> (case serve_conn handler h' cs' of (fs, h'') \<Rightarrow> (f # fs, h'')))))"
  by pat_completeness auto
termination
  by (relation "measure (\<lambda>(_, _, cs). length (concat cs))") (auto dest: recv_frame_less)

declare serve_conn.simps [simp del]

text \<open>\<^verbatim>\<open>frame_call\<close> and \<^verbatim>\<open>FrameClient.call\<close>: one frame out, one frame in.\<close>

definition frame_call :: "(bytes \<Rightarrow> bytes list) \<Rightarrow> json \<Rightarrow> (json \<times> bytes list) result" where
  "frame_call peer request =
     (case send_frame request of Inl e \<Rightarrow> Inl e | Inr f \<Rightarrow> recv_frame chunk_recv (peer f))"

end
