(* ===== verification/Wire.thy ===== *)
theory Wire
  imports Json_Props
begin

text \<open>
  The wire encoding of \<^verbatim>\<open>pylog/server.py\<close>: Python values that may contain bytes are turned into
  JSON by \<^verbatim>\<open>_encode_wire\<close>, which writes bytes as a dictionary with the single key \<^verbatim>\<open>__b64__\<close>, and
  back by \<^verbatim>\<open>_decode_wire\<close>. Base64 is the codec of the standard library; its decoder skips
  characters that are not in the alphabet.
\<close>

section \<open>Base64\<close>

definition b64_char :: "nat \<Rightarrow> nat" where
  "b64_char v =
     (if v < 26 then 65 + v else if v < 52 then 71 + v else if v < 62 then v - 4
      else if v = 62 then 43 else 47)"

definition b64_val :: "nat \<Rightarrow> nat option" where
  "b64_val c =
     (if 65 \<le> c \<and> c \<le> 90 then Some (c - 65)
      else if 97 \<le> c \<and> c \<le> 122 then Some (c - 71)
      else if 48 \<le> c \<and> c \<le> 57 then Some (c + 4)
      else if c = 43 then Some 62 else if c = 47 then Some 63 else None)"

fun b64encode :: "bytes \<Rightarrow> ustr" where
  "b64encode [] = []"
| "b64encode [a] =
     [b64_char (unat a div 4), b64_char (unat a mod 4 * 16), 61, 61]"
| "b64encode [a, b] =
     [b64_char (unat a div 4), b64_char (unat a mod 4 * 16 + unat b div 16), b64_char (unat b mod 16 * 4), 61]"
| "b64encode (a # b # c # r) =
     [b64_char (unat a div 4), b64_char (unat a mod 4 * 16 + unat b div 16),
      b64_char (unat b mod 16 * 4 + unat c div 64), b64_char (unat c mod 64)] @ b64encode r"

text \<open>The state is the position in a group of four, the bits left over, and the padding seen.\<close>

definition cons_byte :: "nat \<Rightarrow> bytes result \<Rightarrow> bytes result" where
  "cons_byte v r = (case r of Inl e \<Rightarrow> Inl e | Inr bs \<Rightarrow> Inr (of_nat v # bs))"

fun a2b_base64 :: "nat \<Rightarrow> nat \<Rightarrow> nat \<Rightarrow> ustr \<Rightarrow> bytes result" where
  "a2b_base64 quad_pos left pads [] =
     (if quad_pos = 0 then Inr [] else Inl (ValueError ''binascii.Error''))"
| "a2b_base64 quad_pos left pads (c # cs) =
     (if c = 61 then
        (if 2 \<le> quad_pos \<and> 4 \<le> quad_pos + (pads + 1) then Inr []
         else a2b_base64 quad_pos left (if 2 \<le> quad_pos then pads + 1 else pads) cs)
      else
        (case b64_val c of
           None \<Rightarrow> a2b_base64 quad_pos left pads cs
         | Some v \<Rightarrow>
             if quad_pos = 0 then a2b_base64 1 v 0 cs
             else if quad_pos = 1 then cons_byte (left * 4 + v div 16) (a2b_base64 2 (v mod 16) 0 cs)
             else if quad_pos = 2 then cons_byte (left * 16 + v div 4) (a2b_base64 3 (v mod 4) 0 cs)
             else cons_byte (left * 64 + v) (a2b_base64 0 0 0 cs)))"

definition b64decode :: "ustr \<Rightarrow> bytes result" where
  "b64decode s = (if list_all (\<lambda>c. c < 128) s then a2b_base64 0 0 0 s else Inl (ValueError ''non-ASCII''))"

lemma b64_char_val [simp]: "v < 64 \<Longrightarrow> b64_val (b64_char v) = Some v"
  by (auto simp: b64_val_def b64_char_def)

lemma b64_char_range: "v < 64 \<Longrightarrow> b64_char v < 128 \<and> b64_char v \<noteq> 61"
  by (auto simp: b64_char_def)

lemma byte_bound [simp]: "unat (b :: byte) < 256"
  using unsigned_less [of b, where 'a = nat] by simp

lemma byte_parts [simp]:
  fixes b :: byte
  shows "unat b div 4 < 64" "unat b mod 4 * 16 < 64" "unat b div 16 < 16" "unat b mod 16 * 4 < 64"
    "unat b div 64 < 4"
  using byte_bound [of b] by (auto simp: less_mult_imp_div_less)

lemma byte_pair [simp]:
  fixes a b :: byte
  shows "unat a mod 4 * 16 + unat b div 16 < 64" "unat a mod 16 * 4 + unat b div 64 < 64"
proof -
  have "unat a mod 4 < 4" "unat a mod 16 < 16" by simp_all
  then show "unat a mod 4 * 16 + unat b div 16 < 64" "unat a mod 16 * 4 + unat b div 64 < 64"
    using byte_parts(3,5) [of b] by linarith+
qed

lemma byte_recombine:
  fixes a b c :: byte
  shows "(unat a div 4) * 4 + (unat a mod 4 * 16 + unat b div 16) div 16 = unat a"
    and "(unat a div 4) * 4 + (unat a mod 4 * 16) div 16 = unat a"
    and "(unat a mod 4 * 16 + unat b div 16) mod 16 * 16 + (unat b mod 16 * 4 + unat c div 64) div 4 = unat b"
    and "(unat a mod 4 * 16 + unat b div 16) mod 16 * 16 + (unat b mod 16 * 4) div 4 = unat b"
    and "(unat b mod 16 * 4 + unat c div 64) mod 4 * 64 + unat c mod 64 = unat c"
  using byte_parts(3) [of b] byte_parts(5) [of c] by simp_all

lemma b64_round_trip: "a2b_base64 0 0 0 (b64encode bs) = Inr bs"
  by (induction bs rule: b64encode.induct)
     (simp_all add: b64_char_range cons_byte_def byte_recombine)

lemma b64encode_ascii: "list_all (\<lambda>c. c < 128) (b64encode bs)"
  by (induction bs rule: b64encode.induct) (simp_all add: b64_char_range)

lemma b64decode_encode: "b64decode (b64encode bs) = Inr bs"
  by (simp add: b64decode_def b64encode_ascii b64_round_trip)

section \<open>Values\<close>

datatype pyval =
    PNull
  | PBool bool
  | PInt int
  | PFloat ustr
  | PStr ustr
  | PBytes bytes
  | PList "pyval list"
  | PDict "(ustr \<times> pyval) list"

definition B64_KEY :: ustr where
  "B64_KEY = ascii ''__b64__''"

fun encode_wire :: "pyval \<Rightarrow> json" where
  "encode_wire (PBytes bs) = JObj [(B64_KEY, JStr (b64encode bs))]"
| "encode_wire (PDict kvs) = JObj (map (\<lambda>(k, v). (k, encode_wire v)) kvs)"
| "encode_wire (PList vs) = JList (map encode_wire vs)"
| "encode_wire PNull = JNull"
| "encode_wire (PBool b) = JBool b"
| "encode_wire (PInt i) = JInt i"
| "encode_wire (PFloat lit) = JFloat lit"
| "encode_wire (PStr s) = JStr s"

text \<open>The results of a comprehension, or the first exception raised in it.\<close>

fun gather_results :: "'a result list \<Rightarrow> 'a list result" where
  "gather_results [] = Inr []"
| "gather_results (r # rs) =
     (case r of
        Inl e \<Rightarrow> Inl e
      | Inr x \<Rightarrow> (case gather_results rs of Inl e \<Rightarrow> Inl e | Inr xs \<Rightarrow> Inr (x # xs)))"

definition is_b64_dict :: "(ustr \<times> 'v) list \<Rightarrow> bool" where
  "is_b64_dict kvs \<longleftrightarrow> length kvs = 1 \<and> B64_KEY \<in> fst ` set kvs"

definition b64_value :: "json \<Rightarrow> pyval result" where
  "b64_value v =
     (case v of
        JStr s \<Rightarrow> (case b64decode s of Inl e \<Rightarrow> Inl e | Inr bs \<Rightarrow> Inr (PBytes bs))
      | _ \<Rightarrow> Inl TypeError)"

fun decode_wire :: "json \<Rightarrow> pyval result" where
  "decode_wire (JObj kvs) =
     (if is_b64_dict kvs then b64_value (snd (hd kvs))
      else (case gather_results (map (\<lambda>(k, v). decode_wire v) kvs) of
              Inl e \<Rightarrow> Inl e
            | Inr vs \<Rightarrow> Inr (PDict (zip (map fst kvs) vs))))"
| "decode_wire (JList vs) =
     (case gather_results (map decode_wire vs) of Inl e \<Rightarrow> Inl e | Inr xs \<Rightarrow> Inr (PList xs))"
| "decode_wire JNull = Inr PNull"
| "decode_wire (JBool b) = Inr (PBool b)"
| "decode_wire (JInt i) = Inr (PInt i)"
| "decode_wire (JFloat lit) = Inr (PFloat lit)"
| "decode_wire (JStr s) = Inr (PStr s)"

section \<open>Round trip\<close>

text \<open>The values without a dictionary that has the single key \<^verbatim>\<open>__b64__\<close>.\<close>

fun wire_safe :: "pyval \<Rightarrow> bool" where
  "wire_safe (PDict kvs) \<longleftrightarrow> \<not> is_b64_dict kvs \<and> (\<forall>kv \<in> set kvs. wire_safe (snd kv))"
| "wire_safe (PList vs) \<longleftrightarrow> (\<forall>v \<in> set vs. wire_safe v)"
| "wire_safe _ \<longleftrightarrow> True"

lemma gather_results_map:
  "gather_results (map f xs) = Inr ys \<longleftrightarrow> length ys = length xs \<and> (\<forall>i < length xs. f (xs ! i) = Inr (ys ! i))"
proof (induction xs arbitrary: ys)
  case (Cons x xs)
  show ?case
  proof (cases ys)
    case (Cons y ys')
    then show ?thesis
      using Cons.IH [of ys'] by (auto simp: All_less_Suc2 split: sum.splits)
  qed (auto split: sum.splits)
qed auto

lemma gather_results_same:
  "gather_results (map f xs) = Inr xs \<longleftrightarrow> (\<forall>x \<in> set xs. f x = Inr x)"
  by (auto simp: gather_results_map all_set_conv_all_nth)

lemma b64_value_bytes: "b64_value v \<noteq> Inr (PDict kvs)"
  by (auto simp: b64_value_def split: json.splits sum.splits)

lemma zip_keys_same: "length vs = length kvs \<Longrightarrow> zip (map fst kvs) vs = kvs \<longleftrightarrow> vs = map snd kvs"
  by (auto simp: zip_map_fst_snd) (metis map_snd_zip length_map)

lemma is_b64_encoded: "is_b64_dict (map (\<lambda>(k, v). (k, f v)) kvs) = is_b64_dict kvs"
  by (simp add: is_b64_dict_def image_image case_prod_beta)

lemma wire_decode_encode: "decode_wire (encode_wire v) = Inr v \<longleftrightarrow> wire_safe v"
proof (induction v rule: encode_wire.induct)
  case (1 bs)
  then show ?case by (simp add: is_b64_dict_def b64_value_def b64decode_encode)
next
  case (2 kvs)
  show ?case
  proof (cases "is_b64_dict kvs")
    case True
    then show ?thesis using b64_value_bytes by (simp add: is_b64_encoded)
  next
    case False
    let ?f = "\<lambda>kv. decode_wire (encode_wire (snd kv))"
    have "decode_wire (encode_wire (PDict kvs)) = Inr (PDict kvs) \<longleftrightarrow>
        (\<exists>vs. gather_results (map ?f kvs) = Inr vs \<and> zip (map fst kvs) vs = kvs)"
      using False by (auto simp: is_b64_encoded case_prod_beta comp_def split: sum.splits)
    also have "\<dots> \<longleftrightarrow> (\<forall>kv \<in> set kvs. ?f kv = Inr (snd kv))"
    proof
      assume "\<forall>kv \<in> set kvs. ?f kv = Inr (snd kv)"
      then have "gather_results (map ?f kvs) = Inr (map snd kvs)"
        by (simp add: gather_results_map)
      then show "\<exists>vs. gather_results (map ?f kvs) = Inr vs \<and> zip (map fst kvs) vs = kvs"
        by (auto simp: zip_map_fst_snd)
    qed (auto simp: gather_results_map zip_keys_same all_set_conv_all_nth)
    also have "\<dots> \<longleftrightarrow> (\<forall>kv \<in> set kvs. wire_safe (snd kv))"
      using 2 by (metis prod.collapse)
    finally show ?thesis using False by simp
  qed
next
  case (3 vs)
  have "decode_wire (encode_wire (PList vs)) = Inr (PList vs) \<longleftrightarrow>
      gather_results (map (\<lambda>v. decode_wire (encode_wire v)) vs) = Inr vs"
    by (auto simp: comp_def split: sum.splits)
  with 3 show ?case by (simp add: gather_results_same)
qed simp_all

end
