(* ===== verification/Server.thy ===== *)
theory Server
  imports Raft_Node Net Wire
begin

text \<open>
  The realtime server of \<^verbatim>\<open>pylog/server.py\<close>: Raft messages as the dictionaries the code sends,
  the handler of a server node, the transport with its reusable connections, and the address
  books of a cluster that is booted node by node. What the network does to a connection
  attempt and to a call is an argument. Threads, and with them the interleaving of handlers
  on one node, are not modelled.
\<close>

section \<open>Messages as dictionaries\<close>

abbreviation field :: "string \<Rightarrow> 'v \<Rightarrow> ustr \<times> 'v" where
  "field name v \<equiv> (ascii name, v)"

fun pv_of_json :: "json \<Rightarrow> pyval" where
  "pv_of_json JNull = PNull"
| "pv_of_json (JBool b) = PBool b"
| "pv_of_json (JInt i) = PInt i"
| "pv_of_json (JFloat lit) = PFloat lit"
| "pv_of_json (JStr s) = PStr s"
| "pv_of_json (JList vs) = PList (map pv_of_json vs)"
| "pv_of_json (JObj kvs) = PDict (map (\<lambda>(k, v). (k, pv_of_json v)) kvs)"

fun json_of_pv :: "pyval \<Rightarrow> json option" where
  "json_of_pv PNull = Some JNull"
| "json_of_pv (PBool b) = Some (JBool b)"
| "json_of_pv (PInt i) = Some (JInt i)"
| "json_of_pv (PFloat lit) = Some (JFloat lit)"
| "json_of_pv (PStr s) = Some (JStr s)"
| "json_of_pv (PBytes bs) = None"
| "json_of_pv (PList vs) = map_option JList (those (map json_of_pv vs))"
| "json_of_pv (PDict kvs) = map_option (\<lambda>vs. JObj (zip (map fst kvs) vs)) (those (map (\<lambda>(k, v). json_of_pv v) kvs))"

definition entry_dict :: "entry \<Rightarrow> pyval" where
  "entry_dict e = PDict [field ''index'' (PInt (e_index e)), field ''term'' (PInt (e_term e)),
     field ''payload'' (PBytes (e_payload e))]"

definition candidate_dict :: "string \<Rightarrow> int \<Rightarrow> ustr \<Rightarrow> int \<Rightarrow> int \<Rightarrow> pyval" where
  "candidate_dict kind t cand li lt = PDict [field ''type'' (PStr (ascii kind)), field ''term'' (PInt t),
     field ''candidate'' (PStr cand), field ''last_index'' (PInt li), field ''last_term'' (PInt lt)]"

definition answer_dict :: "string \<Rightarrow> int \<Rightarrow> ustr \<Rightarrow> bool \<Rightarrow> pyval" where
  "answer_dict kind t from granted = PDict [field ''type'' (PStr (ascii kind)), field ''term'' (PInt t),
     field ''from'' (PStr from), field ''granted'' (PBool granted)]"

fun message_dict :: "message \<Rightarrow> pyval" where
  "message_dict (M_prevote t c li lt) = candidate_dict ''prevote'' t c li lt"
| "message_dict (M_prevote_resp t f g) = answer_dict ''prevote_resp'' t f g"
| "message_dict (M_vote t c li lt) = candidate_dict ''vote'' t c li lt"
| "message_dict (M_vote_resp t f g) = answer_dict ''vote_resp'' t f g"
| "message_dict (M_append t l px pt es c) =
     PDict [field ''type'' (PStr (ascii ''append'')), field ''term'' (PInt t), field ''leader'' (PStr l),
       field ''prev_index'' (PInt px), field ''prev_term'' (PInt pt),
       field ''entries'' (PList (map entry_dict es)), field ''commit'' (PInt c)]"
| "message_dict (M_append_resp t f ok mt cf) =
     PDict ([field ''type'' (PStr (ascii ''append_resp'')), field ''term'' (PInt t), field ''from'' (PStr f),
       field ''success'' (PBool ok), field ''match'' (PInt mt)]
       @ (case cf of None \<Rightarrow> [] | Some c \<Rightarrow> [field ''conflict'' (PInt c)]))"
| "message_dict (M_timeout_now t) = PDict [field ''type'' (PStr (ascii ''timeout_now'')), field ''term'' (PInt t)]"
| "message_dict (M_install_snapshot t l ii it d) =
     PDict [field ''type'' (PStr (ascii ''install_snapshot'')), field ''term'' (PInt t), field ''leader'' (PStr l),
       field ''last_included_index'' (PInt ii), field ''last_included_term'' (PInt it),
       field ''data'' (pv_of_json d)]"

text \<open>
  Reading the fields back. The handlers read them one by one; here a message with a missing
  field or a field of another type is refused as a whole, before it changes the node.
\<close>

definition get_int :: "(ustr \<times> pyval) list \<Rightarrow> string \<Rightarrow> int option" where
  "get_int kvs k = (case map_of kvs (ascii k) of Some (PInt i) \<Rightarrow> Some i | _ \<Rightarrow> None)"

definition get_str :: "(ustr \<times> pyval) list \<Rightarrow> string \<Rightarrow> ustr option" where
  "get_str kvs k = (case map_of kvs (ascii k) of Some (PStr s) \<Rightarrow> Some s | _ \<Rightarrow> None)"

definition get_bool :: "(ustr \<times> pyval) list \<Rightarrow> string \<Rightarrow> bool option" where
  "get_bool kvs k = (case map_of kvs (ascii k) of Some (PBool b) \<Rightarrow> Some b | _ \<Rightarrow> None)"

definition entry_of_pv :: "pyval \<Rightarrow> entry option" where
  "entry_of_pv v =
     (case v of
        PDict kvs \<Rightarrow>
          (case (get_int kvs ''index'', get_int kvs ''term'', map_of kvs (ascii ''payload'')) of
             (Some i, Some t, Some (PBytes p)) \<Rightarrow> Some \<lparr>e_index = i, e_term = t, e_payload = p\<rparr>
           | _ \<Rightarrow> None)
      | _ \<Rightarrow> None)"

definition get_entries :: "(ustr \<times> pyval) list \<Rightarrow> entry list option" where
  "get_entries kvs = (case map_of kvs (ascii ''entries'') of Some (PList vs) \<Rightarrow> those (map entry_of_pv vs) | _ \<Rightarrow> None)"

definition message_of_dict :: "(ustr \<times> pyval) list \<Rightarrow> message option" where
  "message_of_dict kvs =
     (let kind = get_str kvs ''type'' in
      case get_int kvs ''term'' of
        None \<Rightarrow> None
      | Some t \<Rightarrow>
          if kind = Some (ascii ''prevote'') \<or> kind = Some (ascii ''vote'') then
            (case (get_str kvs ''candidate'', get_int kvs ''last_index'', get_int kvs ''last_term'') of
               (Some c, Some li, Some lt) \<Rightarrow>
                 Some (if kind = Some (ascii ''vote'') then M_vote t c li lt else M_prevote t c li lt)
             | _ \<Rightarrow> None)
          else if kind = Some (ascii ''prevote_resp'') \<or> kind = Some (ascii ''vote_resp'') then
            (case (get_str kvs ''from'', get_bool kvs ''granted'') of
               (Some f, Some g) \<Rightarrow>
                 Some (if kind = Some (ascii ''vote_resp'') then M_vote_resp t f g else M_prevote_resp t f g)
             | _ \<Rightarrow> None)
          else if kind = Some (ascii ''append'') then
            (case (get_str kvs ''leader'', get_int kvs ''prev_index'', get_int kvs ''prev_term'',
                   get_entries kvs, get_int kvs ''commit'') of
               (Some l, Some px, Some pt, Some es, Some c) \<Rightarrow> Some (M_append t l px pt es c)
             | _ \<Rightarrow> None)
          else if kind = Some (ascii ''append_resp'') then
            (case (get_str kvs ''from'', get_bool kvs ''success'', get_int kvs ''match'') of
               (Some f, Some ok, Some mt) \<Rightarrow> Some (M_append_resp t f ok mt (get_int kvs ''conflict''))
             | _ \<Rightarrow> None)
          else if kind = Some (ascii ''timeout_now'') then Some (M_timeout_now t)
          else if kind = Some (ascii ''install_snapshot'') then
            (case (get_str kvs ''leader'', get_int kvs ''last_included_index'', get_int kvs ''last_included_term'',
                   Option.bind (map_of kvs (ascii ''data'')) json_of_pv) of
               (Some l, Some ii, Some it, Some d) \<Rightarrow> Some (M_install_snapshot t l ii it d)
             | _ \<Rightarrow> None)
          else None)"

section \<open>The server node\<close>

type_synonym address_book = "(ustr \<times> ustr \<times> int) list"

record server =
  srv_node :: raft_node
  srv_addresses :: address_book

definition server_init ::
  "ustr \<Rightarrow> address_book \<Rightarrow> rat \<Rightarrow> (nat \<Rightarrow> rat) \<Rightarrow> durable_state \<Rightarrow> raft_log \<Rightarrow> (ustr \<times> bytes) list \<Rightarrow> node_params
     \<Rightarrow> (server, unit) outcome" where
  "server_init nid book now rng ds l files ps =
     (case raft_node_init nid (map fst book) now rng ds (Some kv_init) l files ps of
        (res, n) \<Rightarrow> (res, \<lparr>srv_node = n, srv_addresses = book\<rparr>))"

definition role_value :: "role \<Rightarrow> json" where
  "role_value r = JStr (ascii (case r of FOLLOWER \<Rightarrow> ''follower'' | CANDIDATE \<Rightarrow> ''candidate'' | LEADER \<Rightarrow> ''leader''))"

definition opt_json :: "('a \<Rightarrow> json) \<Rightarrow> 'a option \<Rightarrow> json" where
  "opt_json f x = (case x of None \<Rightarrow> JNull | Some v \<Rightarrow> f v)"

definition info_fields :: "raft_node \<Rightarrow> (ustr \<times> json) list" where
  "info_fields n =
     (let i = info n in
      [field ''id'' (JStr (info_id i)), field ''role'' (role_value (info_role i)),
       field ''term'' (JInt (info_term i)), field ''leader'' (opt_json JStr (info_leader i)),
       field ''log_len'' (JInt (info_log_len i)), field ''commit'' (JInt (info_commit i)),
       field ''applied'' (JInt (info_applied i))])"

definition payload_bytes :: "(ustr \<times> pyval) list \<Rightarrow> bytes result" where
  "payload_bytes kvs =
     (case map_of kvs (ascii ''payload'') of
        None \<Rightarrow> Inl KeyError
      | Some (PBytes b) \<Rightarrow> Inr b
      | Some _ \<Rightarrow> Inl TypeError)"

definition redirect_to :: "server \<Rightarrow> json" where
  "redirect_to srv =
     (case leader_id (srv_node srv) of
        None \<Rightarrow> JNull
      | Some l \<Rightarrow>
          (case map_of (srv_addresses srv) l of
             None \<Rightarrow> JNull
           | Some (_, port) \<Rightarrow> JStr (l @ [58] @ int_dec port)))"

definition on_read :: "rat \<Rightarrow> (ustr \<times> pyval) list \<Rightarrow> server \<Rightarrow> json result" where
  "on_read now kvs srv =
     (case payload_bytes kvs of
        Inl e \<Rightarrow> Inl e
      | Inr b \<Rightarrow>
          (case utf8_decode b of
             Inl e \<Rightarrow> Inl e
           | Inr key \<Rightarrow>
               let n = srv_node srv in
               if can_serve_linearizable_read now n then
                 Inr (JObj [field ''value'' (case state_machine n of
                              None \<Rightarrow> JNull | Some sm \<Rightarrow> opt_json id (kv_get key sm)),
                            field ''linearizable'' (JBool True), field ''leader'' (JStr (node_id n))])
               else
                 Inr (JObj [field ''value'' JNull, field ''linearizable'' (JBool False),
                            field ''redirect'' (redirect_to srv)])))"

text \<open>\<^verbatim>\<open>_on_wire_message\<close>. The in-memory log has no statistics to add to the answer to \<^verbatim>\<open>info\<close>.\<close>

definition on_wire_message :: "rat \<Rightarrow> json \<Rightarrow> server \<Rightarrow> (server, json) outcome" where
  "on_wire_message now wire srv =
     (case decode_wire wire of
        Inl e \<Rightarrow> (Inl e, srv)
      | Inr (PDict kvs) \<Rightarrow>
          (let kind = get_str kvs ''type''; n = srv_node srv in
           if kind = Some (ascii ''propose'') then
             (case payload_bytes kvs of
                Inl e \<Rightarrow> (Inl e, srv)
              | Inr b \<Rightarrow>
                  (case propose now b n of
                     (Inl e, n1) \<Rightarrow> (Inl e, srv\<lparr>srv_node := n1\<rparr>)
                   | (Inr idx, n1) \<Rightarrow>
                       (Inr (JObj (field ''index'' (opt_json JInt idx) # info_fields n1)), srv\<lparr>srv_node := n1\<rparr>)))
           else if kind = Some (ascii ''read'') then (on_read now kvs srv, srv)
           else if kind = Some (ascii ''snapshot'') then
             (case take_snapshot n of
                (snap, n1) \<Rightarrow>
                  (Inr (JObj (field ''snapshot'' (JBool (snap \<noteq> None)) # info_fields n1)), srv\<lparr>srv_node := n1\<rparr>))
           else if kind = Some (ascii ''info'') then (Inr (JObj (info_fields n)), srv)
           else
             (case message_of_dict kvs of
                None \<Rightarrow> (Inl KeyError, srv)
              | Some m \<Rightarrow>
                  (case handle now m n of
                     (Inl e, n1) \<Rightarrow> (Inl e, srv\<lparr>srv_node := n1\<rparr>)
                   | (Inr _, n1) \<Rightarrow>
                       (Inr (JObj (field ''ok'' (JBool True) # info_fields n1)), srv\<lparr>srv_node := n1\<rparr>))))
      | Inr _ \<Rightarrow> (Inl AttributeError, srv))"

text \<open>One turn of \<^verbatim>\<open>_timer_loop\<close>.\<close>

definition timer_step :: "rat \<Rightarrow> server \<Rightarrow> (server, unit) outcome" where
  "timer_step now srv =
     (if now \<ge> next_event_due (srv_node srv) then
        (case tick now (srv_node srv) of (res, n) \<Rightarrow> (res, srv\<lparr>srv_node := n\<rparr>))
      else (Inr (), srv))"

text \<open>The handler that the frame server calls, with the text of an exception as \<open>err_text\<close> gives it.\<close>

definition server_handler ::
  "(py_error \<Rightarrow> ustr) \<Rightarrow> rat \<Rightarrow> server \<Rightarrow> json \<Rightarrow> (ustr + json) \<times> server" where
  "server_handler err_text now srv req =
     (case on_wire_message now req srv of
        (Inl e, s) \<Rightarrow> (Inl (err_text e), s)
      | (Inr v, s) \<Rightarrow> (Inr v, s))"

section \<open>The transport\<close>

record transport =
  tr_addresses :: address_book
  tr_conns :: "ustr list"

text \<open>An attempt: whether a new connection can be opened, and what the call on it does.\<close>

type_synonym attempt = "bool \<times> json result"

definition tcp_conn :: "ustr \<Rightarrow> bool \<Rightarrow> transport \<Rightarrow> (transport, unit) outcome" where
  "tcp_conn peer connects tr =
     (if peer \<in> set (tr_conns tr) then (Inr (), tr)
      else if map_of (tr_addresses tr) peer = None then (Inl KeyError, tr)
      else if connects then (Inr (), tr\<lparr>tr_conns := tr_conns tr @ [peer]\<rparr>)
      else (Inl OSError, tr))"

definition tcp_try :: "ustr \<Rightarrow> attempt \<Rightarrow> transport \<Rightarrow> (transport, unit) outcome" where
  "tcp_try peer att tr =
     (case tcp_conn peer (fst att) tr of
        (Inl e, tr1) \<Rightarrow> (Inl e, tr1)
      | (Inr _, tr1) \<Rightarrow> (case snd att of Inl e \<Rightarrow> (Inl e, tr1) | Inr _ \<Rightarrow> (Inr (), tr1)))"

definition lost_call :: "py_error \<Rightarrow> bool" where
  "lost_call e \<longleftrightarrow> e = OSError \<or> e = Disconnected"

definition bad_frame :: "py_error \<Rightarrow> bool" where
  "bad_frame e \<longleftrightarrow> (case e of ValueError _ \<Rightarrow> True | UnicodeDecodeError \<Rightarrow> True | _ \<Rightarrow> False)"

definition tcp_send :: "ustr \<Rightarrow> attempt \<Rightarrow> attempt \<Rightarrow> transport \<Rightarrow> (transport, unit) outcome" where
  "tcp_send peer first second tr =
     (case tcp_try peer first tr of
        (Inr _, tr1) \<Rightarrow> (Inr (), tr1)
      | (Inl e, tr1) \<Rightarrow>
          if lost_call e \<or> bad_frame e then
            (let old = peer \<in> set (tr_conns tr1);
                 tr2 = tr1\<lparr>tr_conns := removeAll peer (tr_conns tr1)\<rparr>
             in if old then
                  (case tcp_try peer second tr2 of
                     (Inr _, tr3) \<Rightarrow> (Inr (), tr3)
                   | (Inl e', tr3) \<Rightarrow> if lost_call e' then (Inr (), tr3) else (Inl e', tr3))
                else (Inr (), tr2))
          else (Inl e, tr1))"

section \<open>Booting a cluster\<close>

definition LOCALHOST :: ustr where
  "LOCALHOST = ascii ''127.0.0.1''"

text \<open>
  A node copies the runner's address book when it is built, enters the port it was given, and
  the runner enters that port in its own book and in those of the nodes before it. The
  transport of a node shares the node's book.
\<close>

definition boot_node ::
  "ustr \<times> int \<Rightarrow> address_book \<times> (ustr \<times> address_book) list \<Rightarrow> address_book \<times> (ustr \<times> address_book) list" where
  "boot_node np st =
     (let (name, port) = np; (book, nodes) = st; here = (LOCALHOST, port) in
      (dict_put name here book,
       map (\<lambda>(m, bk). (m, dict_put name here bk)) nodes @ [(name, dict_put name here book)]))"

definition boot_cluster :: "(ustr \<times> int) list \<Rightarrow> (ustr \<times> address_book) list" where
  "boot_cluster nps = snd (fold boot_node nps (map (\<lambda>(name, _). (name, LOCALHOST, 0)) nps, []))"

definition runner_leader :: "server list \<Rightarrow> server option" where
  "runner_leader srvs = find (\<lambda>s. node_role (srv_node s) = LEADER) srvs"

end
