(* ===== verification/Server_Theorems.thy ===== *)
theory Server_Theorems
  imports Server
begin

text \<open>
  The properties of the network layer: frames, the wire encoding, messages between Raft nodes,
  and the address books of a booted cluster.
\<close>

section \<open>Frames\<close>

definition frame_ok :: "json \<Rightarrow> bool" where
  "frame_ok v \<longleftrightarrow> wf_json v \<and> int (length (dumps_compact v)) \<le> MAX_FRAME_BYTES"

definition frame_of :: "json \<Rightarrow> bytes" where
  "frame_of v = (case send_frame v of Inr f \<Rightarrow> f | Inl _ \<Rightarrow> [])"

lemma send_frame_length:
  assumes "wf_json v" "int (length (dumps_compact v)) < 2 ^ 32"
  shows "send_frame v = Inr (le_bytes 4 (int (length (dumps_compact v))) @ encode_ascii (dumps_compact v))"
  using assms by (simp add: send_frame_def dumps_encode_ascii pack_length_def encode_ascii_def fits_unsigned_def)

lemma send_frame_of: "frame_ok v \<Longrightarrow> send_frame v = Inr (frame_of v)"
  by (simp add: frame_of_def frame_ok_def send_frame_length MAX_FRAME_BYTES_def)

text \<open>
  A frame arrives as it was sent: however the network cuts the bytes into pieces and whatever
  follows the frame, the receiver reads the value that was sent and leaves exactly the bytes
  behind it.
\<close>

theorem frame_survives_chunking:
  assumes "frame_ok v" "send_frame v = Inr f" "concat cs = f @ rest"
  shows "\<exists>cs'. recv_frame chunk_recv cs = Inr (v, cs') \<and> concat cs' = rest"
  using sock.recv_sent [OF TrueI _ assms(2,3)] assms(1) by (simp add: frame_ok_def)

lemma sample_frame: "frame_ok (JObj [(ascii ''a'', JInt 1)])"
  by (simp add: frame_ok_def MAX_FRAME_BYTES_def ascii_def scalar_def dump_str_def esc_def int_dec_def nat_dec.simps)

theorem frame_survives_chunking_witness:
  "\<exists>f. send_frame (JObj [(ascii ''a'', JInt 1)]) = Inr f
    \<and> (\<exists>cs'. recv_frame chunk_recv [take 2 f, [], drop 2 f, [9]] = Inr (JObj [(ascii ''a'', JInt 1)], cs') \<and> concat cs' = [9])"
  using frame_survives_chunking [OF sample_frame send_frame_of [OF sample_frame], of "[take 2 _, [], drop 2 _, [9]]" "[9]"]
    send_frame_of [OF sample_frame] by (auto simp flip: append_assoc)

text \<open>
  The sender has no limit of its own below 4 GiB: a message of more than 64 MiB is sent without
  an error and refused by the receiver, which then gives up the connection.
\<close>

theorem oversize_frame_refused:
  assumes "wf_json v" "MAX_FRAME_BYTES < int (length (dumps_compact v))" "int (length (dumps_compact v)) < 2 ^ 32"
  shows "\<exists>f. send_frame v = Inr f \<and> (\<forall>cs rest. concat cs = f @ rest \<longrightarrow>
    recv_frame chunk_recv cs = Inl (ValueError ''frame too large''))"
proof -
  let ?len = "int (length (dumps_compact v))"
  have f: "send_frame v = Inr (le_bytes 4 ?len @ encode_ascii (dumps_compact v))"
    using assms(1,3) by (rule send_frame_length)
  have "recv_frame chunk_recv cs = Inl (ValueError ''frame too large'')"
    if "concat cs = (le_bytes 4 ?len @ encode_ascii (dumps_compact v)) @ rest" for cs rest
  proof -
    have "4 \<le> length (concat cs)" "take 4 (concat cs) = le_bytes 4 ?len"
      by (simp_all add: that)
    then obtain cs' where "recv_exact chunk_recv 4 [] cs = Inr (le_bytes 4 ?len, cs')"
      using sock.recv_exact_start(1) [OF TrueI, of 4 cs] by auto
    moreover have "le_uint (le_bytes 4 ?len) = ?len"
      using assms(3) by (intro le_uint_round_trip) (simp add: fits_unsigned_def)
    ultimately show ?thesis using assms(2) by (simp add: recv_frame_def)
  qed
  with f show ?thesis by blast
qed

lemma long_string: "length (dumps_compact (JStr (replicate n 97))) = n + 2"
proof -
  have "concat (map esc (replicate n 97)) = replicate n 97"
    by (induction n) (simp_all add: esc_def)
  then show ?thesis by (simp add: dump_str_def)
qed

theorem oversize_frame_refused_witness:
  "\<exists>f. send_frame (JStr (replicate 70000000 97)) = Inr f \<and> recv_frame chunk_recv [f] = Inl (ValueError ''frame too large'')"
proof -
  have "wf_json (JStr (replicate 70000000 97))"
    by (simp add: list_all_iff scalar_def)
  then obtain f where "send_frame (JStr (replicate 70000000 97)) = Inr f"
      "\<forall>cs rest. concat cs = f @ rest \<longrightarrow> recv_frame chunk_recv cs = Inl (ValueError ''frame too large'')"
    using oversize_frame_refused [of "JStr (replicate 70000000 97)"]
    unfolding long_string MAX_FRAME_BYTES_def by auto
  then show ?thesis by (metis append_Nil2 concat.simps)
qed

section \<open>Connections\<close>

text \<open>What the handler answers to a sequence of requests.\<close>

fun replies :: "('h \<Rightarrow> json \<Rightarrow> (ustr + json) \<times> 'h) \<Rightarrow> 'h \<Rightarrow> json list \<Rightarrow> json list \<times> 'h" where
  "replies handler h [] = ([], h)"
| "replies handler h (v # vs) =
     (case handler h v of
        (res, h') \<Rightarrow>
          (case replies handler h' vs of
             (rs, h'') \<Rightarrow> ((case res of Inr r \<Rightarrow> r | Inl text \<Rightarrow> error_reply text) # rs, h'')))"

lemma recv_nothing:
  assumes "concat cs = []"
  shows "recv_frame chunk_recv cs = Inl Disconnected"
proof -
  have "length (concat cs) < 4" by (simp only: assms) simp
  then show ?thesis
    using sock.recv_exact_start(2) [OF TrueI, of cs 4] by (simp add: recv_frame_def)
qed

lemma serve_frames:
  assumes "concat cs = concat (map frame_of reqs)" "\<forall>v \<in> set reqs. frame_ok v"
    and "\<forall>v \<in> set (fst (replies handler h reqs)). frame_ok v"
  shows "serve_conn handler h cs =
    (map frame_of (fst (replies handler h reqs)), snd (replies handler h reqs))"
  using assms
proof (induction reqs arbitrary: h cs)
  case Nil
  then show ?case by (subst serve_conn.simps) (simp add: recv_nothing)
next
  case (Cons v vs)
  have v: "frame_ok v" using Cons.prems(2) by simp
  obtain cs' where cs': "recv_frame chunk_recv cs = Inr (v, cs')" "concat cs' = concat (map frame_of vs)"
    using sock.recv_sent [OF TrueI _ send_frame_of [OF v], of cs "concat (map frame_of vs)"] Cons.prems(1) v
    by (auto simp: frame_ok_def)
  obtain res h' where hv: "handler h v = (res, h')" by fastforce
  obtain rs h'' where rs: "replies handler h' vs = (rs, h'')" by fastforce
  let ?r = "case res of Inr r \<Rightarrow> r | Inl text \<Rightarrow> error_reply text"
  have "send_frame ?r = Inr (frame_of ?r)"
    using Cons.prems(3) hv rs by (intro send_frame_of) simp
  moreover have "serve_conn handler h' cs' = (map frame_of rs, h'')"
    using Cons.IH [of cs' h'] cs'(2) Cons.prems(2,3) hv rs by simp
  ultimately show ?case
    using cs'(1) hv rs by (subst serve_conn.simps) (simp add: Let_def)
qed

text \<open>
  C23. A connection answers every request, in order: if the bytes received are a sequence of frames,
  in pieces of any size, the frames sent back are the handler's answers to them one by one,
  an exception of the handler being answered with an error message and not ending the connection.
\<close>

theorem connection_answers_in_order:
  assumes "concat cs = concat (map frame_of reqs)" "\<forall>v \<in> set reqs. frame_ok v"
    and "\<forall>v \<in> set (fst (replies handler h reqs)). frame_ok v"
  shows "serve_conn handler h cs =
    (map frame_of (fst (replies handler h reqs)), snd (replies handler h reqs))"
  using assms by (rule serve_frames)

theorem connection_answers_in_order_witness:
  "serve_conn (\<lambda>h v. (Inr (JInt h), h + 1)) 0 [frame_of (JInt 5) @ take 1 (frame_of (JInt 6)), drop 1 (frame_of (JInt 6))]
    = ([frame_of (JInt 0), frame_of (JInt 1)], 2)"
proof -
  let ?h = "\<lambda>h v :: json. (Inr (JInt h) :: ustr + json, h + 1)"
    and ?cs = "[frame_of (JInt 5) @ take 1 (frame_of (JInt 6)), drop 1 (frame_of (JInt 6))]"
  have ok: "frame_ok (JInt 0)" "frame_ok (JInt 1)" "frame_ok (JInt 5)" "frame_ok (JInt 6)"
    by (simp_all add: frame_ok_def MAX_FRAME_BYTES_def int_dec_def nat_dec.simps)
  have "concat ?cs = concat (map frame_of [JInt 5, JInt 6])" by simp
  moreover have "replies ?h 0 [JInt 5, JInt 6] = ([JInt 0, JInt 1], 2)" by simp
  ultimately show ?thesis
    using connection_answers_in_order [of ?cs "[JInt 5, JInt 6]" ?h 0] ok by simp
qed

section \<open>The wire encoding\<close>

text \<open>
  A Python value comes back from the wire as it was exactly when it contains no dictionary whose
  only key is \<^verbatim>\<open>__b64__\<close>: bytes at any depth survive, and such a dictionary never does.
\<close>

theorem wire_round_trip: "decode_wire (encode_wire v) = Inr v \<longleftrightarrow> wire_safe v"
  by (rule wire_decode_encode)

text \<open>
  A snapshot of a key-value store whose only key is \<^verbatim>\<open>__b64__\<close> cannot be installed over the
  network: the follower reads its contents as bytes or fails to decode them, but never as the
  store that was sent.
\<close>

theorem b64_key_spoils_snapshot:
  "decode_wire (encode_wire (message_dict (M_install_snapshot t ldr idx it
       (kv_snapshot \<lparr>kv_data = [(B64_KEY, JStr v)], kv_ops = n\<rparr>))))
   \<noteq> Inr (message_dict (M_install_snapshot t ldr idx it
       (kv_snapshot \<lparr>kv_data = [(B64_KEY, JStr v)], kv_ops = n\<rparr>)))"
  unfolding wire_decode_encode by (simp add: kv_snapshot_def is_b64_dict_def)

section \<open>Raft messages over the network\<close>

lemma ascii_inj [simp]: "ascii s = ascii t \<longleftrightarrow> s = t"
  by (auto simp: ascii_def inj_map_eq_map inj_of_char)

lemma those_map: "(\<And>x. x \<in> set xs \<Longrightarrow> f x = Some (g x)) \<Longrightarrow> those (map f xs) = Some (map g xs)"
  by (induction xs) auto

lemma json_of_pv_of_json: "json_of_pv (pv_of_json d) = Some d"
proof (induction d)
  case (JList vs)
  then show ?case
    using those_map [of vs "\<lambda>v. json_of_pv (pv_of_json v)" id] by (simp add: comp_def)
next
  case (JObj kvs)
  have "those (map (\<lambda>kv. json_of_pv (pv_of_json (snd kv))) kvs) = Some (map snd kvs)"
    using JObj by (intro those_map) (metis snds.intros)
  then show ?case by (simp add: comp_def case_prod_beta zip_map_fst_snd)
qed simp_all

lemma encode_pv_of_json: "encode_wire (pv_of_json d) = d"
proof (induction d)
  case (JList vs)
  then show ?case by (simp add: comp_def map_idI)
next
  case (JObj kvs)
  have "(k, encode_wire (pv_of_json v)) = (k, v)" if "(k, v) \<in> set kvs" for k v
    using JObj that by (metis snds.intros snd_conv)
  then show ?case by (auto simp: comp_def case_prod_beta intro!: map_idI)
qed simp_all

lemma entry_of_pv_dict: "entry_of_pv (entry_dict e) = Some e"
  by (simp add: entry_of_pv_def entry_dict_def get_int_def)

lemma message_of_dict_of: "message_dict m = PDict kvs \<Longrightarrow> message_of_dict kvs = Some m"
proof (induction m rule: message_dict.induct)
  case (5 t l px pt es c)
  have "those (map entry_of_pv (map entry_dict es)) = Some es"
    using those_map [of es "\<lambda>e. entry_of_pv (entry_dict e)" id] by (simp add: comp_def entry_of_pv_dict)
  with 5 show ?case
    by (auto simp: message_of_dict_def get_int_def get_str_def get_entries_def Let_def)
next
  case (6 t f ok mt cf)
  then show ?case
    by (cases cf) (auto simp: message_of_dict_def get_int_def get_str_def get_bool_def Let_def)
qed (auto simp: message_of_dict_def candidate_dict_def answer_dict_def get_int_def get_str_def get_bool_def
      json_of_pv_of_json Let_def)

text \<open>Messages whose names are encodable and whose snapshot the wire encoding can carry.\<close>

fun message_ok :: "message \<Rightarrow> bool" where
  "message_ok (M_prevote t c li lt) \<longleftrightarrow> list_all scalar c"
| "message_ok (M_prevote_resp t f g) \<longleftrightarrow> list_all scalar f"
| "message_ok (M_vote t c li lt) \<longleftrightarrow> list_all scalar c"
| "message_ok (M_vote_resp t f g) \<longleftrightarrow> list_all scalar f"
| "message_ok (M_append t l px pt es c) \<longleftrightarrow> list_all scalar l"
| "message_ok (M_append_resp t f ok mt cf) \<longleftrightarrow> list_all scalar f"
| "message_ok (M_timeout_now t) \<longleftrightarrow> True"
| "message_ok (M_install_snapshot t l ii it d) \<longleftrightarrow> list_all scalar l \<and> wf_json d \<and> wire_safe (pv_of_json d)"

lemma entry_dict_safe: "wire_safe (entry_dict e)"
  by (simp add: entry_dict_def is_b64_dict_def)

lemma message_dict_safe: "message_ok m \<Longrightarrow> wire_safe (message_dict m)"
  by (cases m rule: message_dict.cases)
     (auto simp: candidate_dict_def answer_dict_def is_b64_dict_def entry_dict_safe split: option.splits)

lemma b64encode_scalar: "list_all scalar (b64encode bs)"
  using b64encode_ascii [of bs] by (auto simp: list_all_iff scalar_def)

lemma entry_dict_wf: "wf_json (encode_wire (entry_dict e))"
  by (simp add: entry_dict_def ascii_scalar b64encode_scalar B64_KEY_def)

lemma message_dict_wf: "message_ok m \<Longrightarrow> wf_json (encode_wire (message_dict m))"
  by (cases m rule: message_dict.cases)
     (auto simp: candidate_dict_def answer_dict_def ascii_scalar entry_dict_wf encode_pv_of_json split: option.splits)

lemma message_kind:
  assumes "message_dict m = PDict kvs"
  shows "get_str kvs ''type'' \<notin> {Some (ascii ''propose''), Some (ascii ''read''), Some (ascii ''snapshot''), Some (ascii ''info'')}"
  using assms by (cases m rule: message_dict.cases) (auto simp: candidate_dict_def answer_dict_def get_str_def)

lemma on_wire_raft:
  assumes "message_ok m"
  shows "on_wire_message now (encode_wire (message_dict m)) srv =
    (case handle now m (srv_node srv) of
       (Inl e, n) \<Rightarrow> (Inl e, srv\<lparr>srv_node := n\<rparr>)
     | (Inr _, n) \<Rightarrow> (Inr (JObj (field ''ok'' (JBool True) # info_fields n)), srv\<lparr>srv_node := n\<rparr>))"
proof -
  obtain kvs where kvs: "message_dict m = PDict kvs"
    by (cases m rule: message_dict.cases) (auto simp: candidate_dict_def answer_dict_def)
  have "decode_wire (encode_wire (message_dict m)) = Inr (PDict kvs)"
    using wire_decode_encode [of "message_dict m"] message_dict_safe [OF assms] kvs by simp
  then show ?thesis
    using message_kind [OF kvs] message_of_dict_of [OF kvs] by (simp add: on_wire_message_def Let_def)
qed

text \<open>
  C9. A Raft message reaches the other node unchanged: written as a dictionary, encoded for the wire,
  framed, cut into pieces by the network, received, decoded and dispatched, it does to the
  receiving node exactly what handling the message itself does.
\<close>

theorem raft_message_delivered:
  assumes "message_ok m" "int (length (dumps_compact (encode_wire (message_dict m)))) \<le> MAX_FRAME_BYTES"
    and "send_frame (encode_wire (message_dict m)) = Inr f" "concat cs = f @ rest"
  shows "\<exists>req cs'. recv_frame chunk_recv cs = Inr (req, cs') \<and> concat cs' = rest
    \<and> srv_node (snd (on_wire_message now req srv)) = snd (handle now m (srv_node srv))
    \<and> (\<forall>e. fst (on_wire_message now req srv) = Inl e \<longleftrightarrow> fst (handle now m (srv_node srv)) = Inl e)"
proof -
  obtain cs' where "recv_frame chunk_recv cs = Inr (encode_wire (message_dict m), cs')" "concat cs' = rest"
    using sock.recv_sent [OF TrueI message_dict_wf [OF assms(1)] assms(3,4,2)] by blast
  moreover have "srv_node (snd (on_wire_message now (encode_wire (message_dict m)) srv)) = snd (handle now m (srv_node srv))
      \<and> (\<forall>e. fst (on_wire_message now (encode_wire (message_dict m)) srv) = Inl e \<longleftrightarrow> fst (handle now m (srv_node srv)) = Inl e)"
    unfolding on_wire_raft [OF assms(1)] by (auto split: prod.splits sum.splits)
  ultimately show ?thesis by blast
qed

lemma sample_vote_frame: "frame_ok (encode_wire (message_dict (M_vote 1 [98] 0 0)))"
proof -
  have "length (dumps_compact (encode_wire (message_dict (M_vote 1 [98] 0 0)))) = 69"
    by (simp add: candidate_dict_def ascii_def dump_str_def esc_def int_dec_def nat_dec.simps)
  then show ?thesis
    using message_dict_wf [of "M_vote 1 [98] 0 0"] by (simp add: frame_ok_def MAX_FRAME_BYTES_def scalar_def)
qed

theorem raft_message_delivered_witness:
  "\<exists>f req cs'. send_frame (encode_wire (message_dict (M_vote 1 [98] 0 0))) = Inr f
    \<and> recv_frame chunk_recv [take 9 f, drop 9 f] = Inr (req, cs') \<and> concat cs' = []
    \<and> (\<forall>srv. srv_node (snd (on_wire_message 5 req srv)) = snd (handle 5 (M_vote 1 [98] 0 0) (srv_node srv)))"
proof -
  let ?m = "M_vote 1 [98] 0 0"
  obtain f where f: "send_frame (encode_wire (message_dict ?m)) = Inr f"
    using send_frame_of [OF sample_vote_frame] by blast
  have pre: "message_ok ?m" "int (length (dumps_compact (encode_wire (message_dict ?m)))) \<le> MAX_FRAME_BYTES"
    "concat [take 9 f, drop 9 f] = f @ []"
    using sample_vote_frame by (simp_all add: frame_ok_def scalar_def)
  note delivered = raft_message_delivered [OF pre(1,2) f pre(3), of 5]
  then obtain req cs' where "recv_frame chunk_recv [take 9 f, drop 9 f] = Inr (req, cs')" "concat cs' = []"
    by blast
  moreover from this have "srv_node (snd (on_wire_message 5 req srv)) = snd (handle 5 ?m (srv_node srv))" for srv
    using delivered [of srv] by auto
  ultimately show ?thesis using f by blast
qed

section \<open>Transport and addresses\<close>

text \<open>
  The transport swallows lost connections but not unknown peers: sending to a peer with an address
  never raises when the connection or the call fails, and afterwards no failed connection is
  kept; sending to a peer without an address, such as a server that has just been added to the
  configuration, raises \<^verbatim>\<open>KeyError\<close> in the caller.
\<close>

theorem transport_error_handling:
  "(map_of (tr_addresses tr) peer = None \<and> peer \<notin> set (tr_conns tr) \<longrightarrow>
      tcp_send peer a1 a2 tr = (Inl KeyError, tr))
   \<and> (map_of (tr_addresses tr) peer \<noteq> None \<and> (\<forall>e. snd a1 = Inl e \<longrightarrow> lost_call e \<or> bad_frame e)
        \<and> (\<forall>e. snd a2 = Inl e \<longrightarrow> lost_call e) \<longrightarrow>
      (\<exists>tr'. tcp_send peer a1 a2 tr = (Inr (), tr') \<and> tr_addresses tr' = tr_addresses tr
        \<and> set (tr_conns tr') \<subseteq> insert peer (set (tr_conns tr))))"
proof (intro conjI impI)
  assume "map_of (tr_addresses tr) peer = None \<and> peer \<notin> set (tr_conns tr)"
  then show "tcp_send peer a1 a2 tr = (Inl KeyError, tr)"
    by (simp add: tcp_send_def tcp_try_def tcp_conn_def lost_call_def bad_frame_def)
next
  assume a: "map_of (tr_addresses tr) peer \<noteq> None \<and> (\<forall>e. snd a1 = Inl e \<longrightarrow> lost_call e \<or> bad_frame e)
        \<and> (\<forall>e. snd a2 = Inl e \<longrightarrow> lost_call e)"
  have os: "lost_call OSError" by (simp add: lost_call_def)
  show "\<exists>tr'. tcp_send peer a1 a2 tr = (Inr (), tr') \<and> tr_addresses tr' = tr_addresses tr
        \<and> set (tr_conns tr') \<subseteq> insert peer (set (tr_conns tr))"
    using a os by (auto simp: tcp_send_def tcp_try_def tcp_conn_def Let_def split: sum.splits)
qed

theorem transport_error_handling_witness:
  "tcp_send [120] (True, Inr JNull) (True, Inr JNull) \<lparr>tr_addresses = [([97], LOCALHOST, 1)], tr_conns = []\<rparr>
    = (Inl KeyError, \<lparr>tr_addresses = [([97], LOCALHOST, 1)], tr_conns = []\<rparr>)"
  using transport_error_handling [of "\<lparr>tr_addresses = [([97], LOCALHOST, 1)], tr_conns = []\<rparr>" "[120]"]
  by simp

lemma boot_fold:
  assumes "distinct (map fst (ds @ nps))"
    and "\<forall>(name, port) \<in> set ds. map_of book name = Some (LOCALHOST, port)"
    and "\<forall>(m, bk) \<in> set nodes. \<forall>(name, port) \<in> set ds. map_of bk name = Some (LOCALHOST, port)"
  shows "\<forall>(m, bk) \<in> set (snd (fold boot_node nps (book, nodes))). \<forall>(name, port) \<in> set (ds @ nps).
    map_of bk name = Some (LOCALHOST, port)"
  using assms
proof (induction nps arbitrary: ds book nodes)
  case (Cons np nps)
  obtain name port where np: "np = (name, port)" by fastforce
  let ?put = "dict_put name (LOCALHOST, port)"
  let ?nodes = "map (\<lambda>(m, bk). (m, ?put bk)) nodes @ [(name, ?put book)]"
  have fresh: "name \<notin> fst ` set ds" using Cons.prems(1) np by auto
  have "map_of (?put book) n = Some (LOCALHOST, p)" if "(n, p) \<in> set (ds @ [np])" for n p
    using that fresh Cons.prems(2) np by (force simp: dict_put_map_of)
  moreover have "map_of bk n = Some (LOCALHOST, p)"
    if "(m, bk) \<in> set ?nodes" "(n, p) \<in> set (ds @ [np])" for m bk n p
    using that fresh Cons.prems(2,3) np by (force simp: dict_put_map_of)
  ultimately have "\<forall>(n, p) \<in> set (ds @ [np]). map_of (?put book) n = Some (LOCALHOST, p)"
    "\<forall>(m, bk) \<in> set ?nodes. \<forall>(n, p) \<in> set (ds @ [np]). map_of bk n = Some (LOCALHOST, p)"
    by blast+
  then have "\<forall>(m, bk) \<in> set (snd (fold boot_node nps (?put book, ?nodes))).
      \<forall>(n, p) \<in> set ((ds @ [np]) @ nps). map_of bk n = Some (LOCALHOST, p)"
    using Cons.prems(1) by (intro Cons.IH) simp_all
  moreover have "boot_node np (book, nodes) = (?put book, ?nodes)"
    by (simp add: np boot_node_def Let_def)
  ultimately show ?case by simp
qed simp

text \<open>
  When a cluster has been booted node by node, every node has the address of every node, its own
  included, although each was built before the later ones had a port.
\<close>

theorem boot_addresses_complete:
  assumes "distinct (map fst nps)" "(m, bk) \<in> set (boot_cluster nps)" "(n, port) \<in> set nps"
  shows "map_of bk n = Some (LOCALHOST, port)"
proof -
  have "\<forall>(m, bk) \<in> set (boot_cluster nps). \<forall>(n, port) \<in> set ([] @ nps). map_of bk n = Some (LOCALHOST, port)"
    unfolding boot_cluster_def using assms(1) by (intro boot_fold) auto
  with assms show ?thesis by fastforce
qed

theorem boot_addresses_complete_witness:
  "map_of (snd (boot_cluster [([97], 7001), ([98], 7002)] ! 0)) [98] = Some (LOCALHOST, 7002)"
  using boot_addresses_complete [of "[([97], 7001), ([98], 7002)]" "[97]" "snd (boot_cluster [([97], 7001), ([98], 7002)] ! 0)" "[98]" 7002]
  by (simp add: boot_cluster_def boot_node_def Let_def)

end
