(* ===== verification/Event_Queue.thy ===== *)
theory Event_Queue
  imports "HOL-Library.Multiset" "HOL-Library.Product_Lexorder"
begin

text \<open>
  What the simulator relies on from \<^verbatim>\<open>heapq\<close>: a queue of events from which the one with the
  smallest key is taken. The interface is stated over the multiset of the events; it is
  interpreted by lists kept in the order of the keys, which is all that \<^verbatim>\<open>heappush\<close>,
  \<^verbatim>\<open>heappop\<close> and the element at position 0 let a caller see of a heap whose keys differ.
\<close>

locale event_queue =
  fixes push :: "'e \<Rightarrow> 'q \<Rightarrow> 'q" and pop :: "'q \<Rightarrow> ('e \<times> 'q) option" and events :: "'q \<Rightarrow> 'e multiset"
    and ok :: "'q \<Rightarrow> bool" and key :: "'e \<Rightarrow> 'k::linorder"
  assumes push_ok: "ok q \<Longrightarrow> ok (push e q)"
    and push_events: "ok q \<Longrightarrow> events (push e q) = add_mset e (events q)"
    and pop_empty: "ok q \<Longrightarrow> pop q = None \<longleftrightarrow> events q = {#}"
    and pop_least: "ok q \<Longrightarrow> pop q = Some (e, q') \<Longrightarrow>
      ok q' \<and> events q = add_mset e (events q') \<and> (\<forall>x \<in># events q'. key e \<le> key x)"
begin

text \<open>Nothing is lost or invented: what is taken was pushed, and the rest is still there.\<close>

lemma pop_push_events:
  assumes "ok q" "pop (push e q) = Some (x, q')"
  shows "add_mset x (events q') = add_mset e (events q)"
  using assms pop_least [OF push_ok, of q e x q'] push_events by simp

text \<open>An event with a larger key than all others does not overtake them.\<close>

lemma late_push_waits:
  assumes "ok q" "events q \<noteq> {#}" "\<forall>x \<in># events q. key x < key e" "pop (push e q) = Some (x, q')"
  shows "x \<in># events q"
proof (rule ccontr)
  assume "x \<notin># events q"
  then have "x = e"
    using pop_push_events [OF assms(1,4)] by (metis insert_noteq_member)
  with pop_push_events [OF assms(1,4)] have "events q' = events q" by simp
  then have "\<forall>y \<in># events q. key e \<le> key y"
    using pop_least [OF push_ok [OF assms(1)] assms(4)] \<open>x = e\<close> by simp
  with assms(2,3) show False by (meson leD multiset_nonemptyE)
qed

end

section \<open>Lists in the order of their keys\<close>

definition heappush :: "('e \<Rightarrow> 'k::linorder) \<Rightarrow> 'e \<Rightarrow> 'e list \<Rightarrow> 'e list" where
  "heappush key e q = insort_key key e q"

definition heappop :: "'e list \<Rightarrow> ('e \<times> 'e list) option" where
  "heappop q = (case q of [] \<Rightarrow> None | e # r \<Rightarrow> Some (e, r))"

definition in_order :: "('e \<Rightarrow> 'k::linorder) \<Rightarrow> 'e list \<Rightarrow> bool" where
  "in_order key q \<longleftrightarrow> sorted (map key q)"

interpretation heap: event_queue "heappush key" heappop mset "in_order key" key for key
  by unfold_locales
     (auto simp: heappush_def heappop_def in_order_def sorted_insort_key split: list.splits)

lemma heappush_last:
  assumes "\<forall>x \<in> set q. key x < key e"
  shows "heappush key e q = q @ [e]"
  using assms by (induction q) (auto simp: heappush_def not_le)

end
