(* ===== verification/Sim.thy ===== *)
theory Sim
  imports Raft_Node Event_Queue
begin

text \<open>
  The deterministic simulator of \<^verbatim>\<open>pylog/sim.py\<close>: Raft nodes on a virtual clock, with a queue of
  messages in flight, crashes, restarts and partitions. A node's log object survives a restart, so it
  is taken over from the node that is replaced; the state machine of a node is held by the node.
  The random numbers of the nodes are the argument \<open>sim_rngs\<close>: the stream of each node that is built.
  After every call on a node \<open>absorb\<close> moves what it has sent to the queue, in order, and what it has
  applied to the list \<^verbatim>\<open>applied\<close>. The loops that run until a condition holds are partial functions.
\<close>

section \<open>State\<close>

type_synonym event = "rat \<times> nat \<times> ustr \<times> message"

record sim =
  sim_ids :: "ustr list"
  sim_clock :: rat
  sim_queue :: "event list"
  sim_seq :: nat
  latency_ms :: rat
  partitioned :: "ustr set set"
  crashed :: "ustr set"
  sim_dir :: bool
  sim_params :: node_params
  sim_nodes :: "(ustr \<times> raft_node) list"
  sim_applied :: "(ustr \<times> int \<times> bytes \<times> kv_result option) list"
  sim_rngs :: "nat \<Rightarrow> nat \<Rightarrow> rat"
  sim_built :: nat

definition ev_key :: "event \<Rightarrow> rat \<times> nat" where
  "ev_key e = (fst e, fst (snd e))"

text \<open>\<^verbatim>\<open>SimTransport.send\<close>.\<close>

definition sim_send :: "ustr \<times> message \<Rightarrow> sim \<Rightarrow> sim" where
  "sim_send dm s =
     (let seq = sim_seq s + 1 in
      s\<lparr>sim_seq := seq,
        sim_queue := heappush ev_key (sim_clock s + latency_ms s, seq, fst dm, snd dm) (sim_queue s)\<rparr>)"

definition absorb :: "ustr \<Rightarrow> raft_node \<Rightarrow> sim \<Rightarrow> sim" where
  "absorb i n s =
     fold sim_send (outbox n)
       (s\<lparr>sim_nodes := dict_put i (n\<lparr>outbox := [], apply_calls := []\<rparr>) (sim_nodes s),
          sim_applied := sim_applied s @ map (\<lambda>(idx, p, r). (i, idx, p, r)) (apply_calls n)\<rparr>)"

section \<open>Building nodes\<close>

text \<open>
  \<^verbatim>\<open>_build_node\<close>: \<open>f\<close> is the content of the node's state file and \<open>l\<close> its log, which replaces the empty
  log of the constructor and is taken to be committed as a whole.
\<close>

definition build_node :: "ustr \<Rightarrow> bytes option \<Rightarrow> raft_log \<Rightarrow> sim \<Rightarrow> (sim, raft_node) outcome" where
  "build_node i f l s =
     (let s1 = s\<lparr>sim_built := sim_built s + 1\<rparr> in
      case durable_state_init (sim_dir s) f of
        Inl e \<Rightarrow> (Inl e, s1)
      | Inr ds \<Rightarrow>
          (case raft_node_init i (sim_ids s) (sim_clock s) (sim_rngs s (sim_built s)) ds (Some kv_init)
                  raft_log_init [] (sim_params s) of
             (Inl e, _) \<Rightarrow> (Inl e, s1)
           | (Inr _, n) \<Rightarrow>
               (case apply_committed (sim_clock s)
                       (n\<lparr>rlog := l, commit_index := last_index l, applied_index := 0\<rparr>) of
                  (Inl e, _) \<Rightarrow> (Inl e, s1)
                | (Inr _, n1) \<Rightarrow> (Inr n1, s1))))"

fun build_all :: "ustr list \<Rightarrow> sim \<Rightarrow> (sim, unit) outcome" where
  "build_all [] s = (Inr (), s)"
| "build_all (i # is) s =
     (case build_node i None raft_log_init s of
        (Inl e, s1) \<Rightarrow> (Inl e, s1)
      | (Inr n, s1) \<Rightarrow> build_all is (absorb i n s1))"

definition sim_init :: "ustr list \<Rightarrow> (nat \<Rightarrow> nat \<Rightarrow> rat) \<Rightarrow> rat \<times> rat \<Rightarrow> rat \<Rightarrow> rat \<Rightarrow> bool \<Rightarrow> bool \<Rightarrow> (sim, unit) outcome" where
  "sim_init ids rngs timeouts heartbeat latency has_dir prevote =
     build_all ids
       \<lparr>sim_ids = ids, sim_clock = 0, sim_queue = [], sim_seq = 0, latency_ms = latency,
        partitioned = {}, crashed = {}, sim_dir = has_dir,
        sim_params = default_params\<lparr>p_election_timeout := timeouts, p_heartbeat := heartbeat,
          p_use_prevote := prevote, p_on_apply := True\<rparr>,
        sim_nodes = [], sim_applied = [], sim_rngs = rngs, sim_built = 0\<rparr>"

section \<open>Faults\<close>

definition crash_node :: "ustr \<Rightarrow> sim \<Rightarrow> sim" where
  "crash_node i s = s\<lparr>crashed := insert i (crashed s)\<rparr>"

definition restart_node :: "ustr \<Rightarrow> sim \<Rightarrow> (sim, unit) outcome" where
  "restart_node i s =
     (let s0 = s\<lparr>crashed := crashed s - {i}\<rparr> in
      case map_of (sim_nodes s) i of
        None \<Rightarrow> (Inl KeyError, s0)
      | Some old \<Rightarrow>
          (case build_node i (state_file (persister old)) (rlog old) s0 of
             (Inl e, s1) \<Rightarrow> (Inl e, s1)
           | (Inr n, s1) \<Rightarrow>
               let n1 = n\<lparr>persister := (persister n)\<lparr>current_term := current_term (persister old),
                            voted_for := voted_for (persister old)\<rparr>\<rparr>
               in (Inr (), absorb i n1 s1)))"

definition partition_nodes :: "ustr \<Rightarrow> ustr \<Rightarrow> sim \<Rightarrow> sim" where
  "partition_nodes a b s = s\<lparr>partitioned := insert {a, b} (partitioned s)\<rparr>"

definition heal_nodes :: "ustr \<Rightarrow> ustr \<Rightarrow> sim \<Rightarrow> sim" where
  "heal_nodes a b s = s\<lparr>partitioned := partitioned s - {{a, b}}\<rparr>"

definition isolate :: "ustr \<Rightarrow> sim \<Rightarrow> sim" where
  "isolate i s = fold (\<lambda>j s. if j \<noteq> i then partition_nodes i j s else s) (sim_ids s) s"

definition heal_all :: "ustr \<Rightarrow> sim \<Rightarrow> sim" where
  "heal_all i s = fold (\<lambda>j s. if j \<noteq> i then heal_nodes i j s else s) (sim_ids s) s"

section \<open>The event loop\<close>

definition node_at :: "sim \<Rightarrow> ustr \<Rightarrow> raft_node" where
  "node_at s i = the (map_of (sim_nodes s) i)"

definition live_nodes :: "sim \<Rightarrow> ustr list" where
  "live_nodes s = filter (\<lambda>i. i \<notin> crashed s) (sim_ids s)"

text \<open>The first of the elements with the smallest value.\<close>

fun first_min :: "('a \<Rightarrow> rat) \<Rightarrow> 'a \<Rightarrow> 'a list \<Rightarrow> 'a" where
  "first_min f best [] = best"
| "first_min f best (x # xs) = first_min f (if f x < f best then x else best) xs"

text \<open>
  The node that sent a message, as far as the message says; a leader that hands over leadership
  does not sign its message.
\<close>

definition source_of :: "message \<Rightarrow> ustr option" where
  "source_of m =
     (case m of
        M_prevote _ c _ _ \<Rightarrow> Some c
      | M_prevote_resp _ f _ \<Rightarrow> Some f
      | M_vote _ c _ _ \<Rightarrow> Some c
      | M_vote_resp _ f _ \<Rightarrow> Some f
      | M_append _ l _ _ _ _ \<Rightarrow> Some l
      | M_append_resp _ f _ _ _ \<Rightarrow> Some f
      | M_timeout_now _ \<Rightarrow> None
      | M_install_snapshot _ l _ _ _ \<Rightarrow> Some l)"

definition cut_off :: "ustr \<Rightarrow> message \<Rightarrow> sim \<Rightarrow> bool" where
  "cut_off dest m s \<longleftrightarrow> truthy (source_of m) \<and> {the (source_of m), dest} \<in> partitioned s"

definition fire_timer :: "ustr \<Rightarrow> sim \<Rightarrow> (sim, bool) outcome" where
  "fire_timer i s =
     (let n = node_at s i; s1 = s\<lparr>sim_clock := max (sim_clock s) (next_event_due n)\<rparr> in
      case tick (sim_clock s1) n of
        (Inl e, n1) \<Rightarrow> (Inl e, absorb i n1 s1)
      | (Inr _, n1) \<Rightarrow> (Inr True, absorb i n1 s1))"

definition deliver :: "event \<Rightarrow> sim \<Rightarrow> (sim, bool) outcome" where
  "deliver ev s =
     (let (due, _, dest, m) = ev; s1 = s\<lparr>sim_clock := max (sim_clock s) due\<rparr> in
      if dest \<in> crashed s then (Inr True, s1)
      else if map_of (sim_nodes s) dest = None then (Inr True, s1)
      else if cut_off dest m s then (Inr True, s1)
      else (case handle (sim_clock s1) m (node_at s dest) of
              (Inl e, n1) \<Rightarrow> (Inl e, absorb dest n1 s1)
            | (Inr _, n1) \<Rightarrow> (Inr True, absorb dest n1 s1)))"

definition sim_step :: "sim \<Rightarrow> (sim, bool) outcome" where
  "sim_step s =
     (let due = (\<lambda>i. next_event_due (node_at s i)) in
      case (live_nodes s, heappop (sim_queue s)) of
        ([], None) \<Rightarrow> (Inr False, s)
      | (i # is, None) \<Rightarrow> fire_timer (first_min due i is) s
      | ([], Some (ev, q)) \<Rightarrow> deliver ev (s\<lparr>sim_queue := q\<rparr>)
      | (i # is, Some (ev, q)) \<Rightarrow>
          let t = first_min due i is in
          if due t \<le> fst ev then fire_timer t s else deliver ev (s\<lparr>sim_queue := q\<rparr>))"

partial_function (option) until_loop ::
  "(sim \<Rightarrow> bool) \<Rightarrow> rat \<Rightarrow> rat \<Rightarrow> sim \<Rightarrow> ((sim, bool) outcome) option" where
  "until_loop goal max_ms start s =
     (if goal s then Some (Inr True, s)
      else
        (case sim_step s of
           (Inl e, s1) \<Rightarrow> Some (Inl e, s1)
         | (Inr go, s1) \<Rightarrow>
             if \<not> go then Some (Inr False, s1)
             else if sim_clock s1 - start > max_ms then Some (Inl TimeoutError, s1)
             else until_loop goal max_ms start s1))"

definition run_until :: "(sim \<Rightarrow> bool) \<Rightarrow> rat \<Rightarrow> sim \<Rightarrow> ((sim, bool) outcome) option" where
  "run_until goal max_ms s = until_loop goal max_ms (sim_clock s) s"

partial_function (option) for_loop :: "rat \<Rightarrow> sim \<Rightarrow> ((sim, unit) outcome) option" where
  "for_loop until s =
     (if \<not> sim_clock s < until then Some (Inr (), s)
      else
        (case sim_step s of
           (Inl e, s1) \<Rightarrow> Some (Inl e, s1)
         | (Inr go, s1) \<Rightarrow> if \<not> go then Some (Inr (), s1) else for_loop until s1))"

definition run_for :: "rat \<Rightarrow> sim \<Rightarrow> ((sim, unit) outcome) option" where
  "run_for ms s = for_loop (sim_clock s + ms) s"

section \<open>Observing and proposing\<close>

definition sim_leader :: "sim \<Rightarrow> ustr option" where
  "sim_leader s =
     (let ls = remdups (map (\<lambda>(_, n). node_id n)
                 (filter (\<lambda>(_, n). node_role n = LEADER \<and> node_id n \<notin> crashed s) (sim_nodes s)))
      in if length ls = 1 then Some (hd ls) else None)"

text \<open>\<^verbatim>\<open>wait_for_leader\<close>, with no name where its assertion fails.\<close>

definition wait_for_leader :: "rat \<Rightarrow> sim \<Rightarrow> ((sim, ustr option) outcome) option" where
  "wait_for_leader max_ms s =
     (case run_until (\<lambda>s. sim_leader s \<noteq> None) max_ms s of
        None \<Rightarrow> None
      | Some (Inl e, s1) \<Rightarrow> Some (Inl e, s1)
      | Some (Inr _, s1) \<Rightarrow> Some (Inr (sim_leader s1), s1))"

definition quorum_committed_value :: "ustr \<Rightarrow> sim \<Rightarrow> json option" where
  "quorum_committed_value key s =
     (let held = (\<lambda>i. case state_machine (node_at s i) of None \<Rightarrow> None | Some kv \<Rightarrow>
                        (case kv_get key kv of Some JNull \<Rightarrow> None | x \<Rightarrow> x));
          values = map (\<lambda>i. the (held i)) (filter (\<lambda>i. i \<notin> crashed s \<and> held i \<noteq> None) (sim_ids s))
      in if length values \<ge> length (sim_ids s) div 2 + 1 then Some (hd values) else None)"

definition majority_reached :: "int \<Rightarrow> sim \<Rightarrow> bool" where
  "majority_reached idx s \<longleftrightarrow>
     length (filter (\<lambda>i. i \<notin> crashed s \<and> commit_index (node_at s i) \<ge> idx) (sim_ids s))
       \<ge> length (sim_ids s) div 2 + 1"

definition sim_propose :: "ustr \<Rightarrow> bytes \<Rightarrow> sim \<Rightarrow> (sim, int option) outcome" where
  "sim_propose i payload s =
     (case propose (sim_clock s) payload (node_at s i) of (res, n) \<Rightarrow> (res, absorb i n s))"

definition propose_via_leader :: "bytes \<Rightarrow> rat \<Rightarrow> sim \<Rightarrow> ((sim, bool) outcome) option" where
  "propose_via_leader payload max_ms s =
     (case sim_leader s of
        None \<Rightarrow> Some (Inr False, s)
      | Some ldr \<Rightarrow>
          (case sim_propose ldr payload s of
             (Inl e, s1) \<Rightarrow> Some (Inl e, s1)
           | (Inr None, s1) \<Rightarrow> Some (Inr False, s1)
           | (Inr (Some idx), s1) \<Rightarrow>
               (case run_until (majority_reached idx) max_ms s1 of
                  None \<Rightarrow> None
                | Some (Inl e, s2) \<Rightarrow> Some (Inl e, s2)
                | Some (Inr _, s2) \<Rightarrow> Some (Inr (majority_reached idx s2), s2))))"

definition noop_marker_count :: "sim \<Rightarrow> nat" where
  "noop_marker_count s =
     sum_list (map (\<lambda>(_, n). length (filter (\<lambda>e. e_payload e = NOOP) (entries (rlog n)))) (sim_nodes s))"

section \<open>What sending and absorbing keep\<close>

abbreviation addressed :: "event \<Rightarrow> ustr \<times> message" where
  "addressed \<equiv> \<lambda>e. snd (snd e)"

lemma sim_send_fields:
  "sim_ids (sim_send dm s) = sim_ids s" "sim_clock (sim_send dm s) = sim_clock s"
  "latency_ms (sim_send dm s) = latency_ms s" "crashed (sim_send dm s) = crashed s"
  "sim_nodes (sim_send dm s) = sim_nodes s" "sim_params (sim_send dm s) = sim_params s"
  "sim_rngs (sim_send dm s) = sim_rngs s"
  "addressed ` set (sim_queue (sim_send dm s)) = insert dm (addressed ` set (sim_queue s))"
  by (simp_all add: sim_send_def Let_def heappush_def set_insort_key)

lemma fold_send_fields:
  "sim_ids (fold sim_send dms s) = sim_ids s" "sim_clock (fold sim_send dms s) = sim_clock s"
  "latency_ms (fold sim_send dms s) = latency_ms s" "crashed (fold sim_send dms s) = crashed s"
  "sim_nodes (fold sim_send dms s) = sim_nodes s" "sim_params (fold sim_send dms s) = sim_params s"
  "sim_rngs (fold sim_send dms s) = sim_rngs s"
  "addressed ` set (sim_queue (fold sim_send dms s)) = set dms \<union> addressed ` set (sim_queue s)"
  by (induction dms arbitrary: s) (simp_all add: sim_send_fields)

lemma absorb_fields:
  "sim_ids (absorb i n s) = sim_ids s" "sim_clock (absorb i n s) = sim_clock s"
  "latency_ms (absorb i n s) = latency_ms s" "crashed (absorb i n s) = crashed s"
  "sim_params (absorb i n s) = sim_params s" "sim_rngs (absorb i n s) = sim_rngs s"
  "map_of (sim_nodes (absorb i n s)) = (map_of (sim_nodes s))(i \<mapsto> n\<lparr>outbox := [], apply_calls := []\<rparr>)"
  "addressed ` set (sim_queue (absorb i n s)) = set (outbox n) \<union> addressed ` set (sim_queue s)"
  by (simp_all add: absorb_def fold_send_fields dict_put_map_of)

lemma node_at_absorb:
  "node_at (absorb i n s) = (node_at s)(i := n\<lparr>outbox := [], apply_calls := []\<rparr>)"
  by (auto simp: node_at_def absorb_fields)

section \<open>The earliest timer\<close>

lemma first_min_mem: "first_min f x xs \<in> set (x # xs)"
  by (induction xs arbitrary: x) (auto split: if_splits)

lemma first_min_least: "y \<in> set (x # xs) \<Longrightarrow> f (first_min f x xs) \<le> f y"
proof (induction xs arbitrary: x y)
  case (Cons z zs)
  let ?b = "if f z < f x then z else x"
  have "f (first_min f ?b zs) \<le> f ?b" using Cons.IH [of ?b ?b] by simp
  then show ?case using Cons.IH [of y ?b] Cons.prems by (auto split: if_splits)
qed simp

end
