(* ===== verification/Sim_Live.thy ===== *)
theory Sim_Live
  imports Sim Raft_Timers
begin

text \<open>
  The loops of the simulator end. With a latency and timeouts that are not zero, only finitely many events fit into a
  window of virtual time that is shorter than all of them: a message sent inside the window arrives after it, and
  a timer that fires inside it is set again to a time behind it. \<open>potential\<close> counts what is left to
  happen in a window, and \<open>paced_progress\<close> is the induction that the loops share.
\<close>

section \<open>What the simulator keeps\<close>

definition params_paced :: "rat \<Rightarrow> node_params \<Rightarrow> bool" where
  "params_paced d ps \<longleftrightarrow> d \<le> p_heartbeat ps \<and> d \<le> fst (p_election_timeout ps)
     \<and> fst (p_election_timeout ps) \<le> snd (p_election_timeout ps)
     \<and> (case p_quorum_check ps of None \<Rightarrow> d \<le> snd (p_election_timeout ps) * 2 | Some q \<Rightarrow> d \<le> q)
     \<and> \<not> p_snapshot_dir ps"

definition sim_paced :: "rat \<Rightarrow> sim \<Rightarrow> bool" where
  "sim_paced d s \<longleftrightarrow> 0 < d \<and> d \<le> latency_ms s \<and> params_paced d (sim_params s) \<and> (\<forall>k j. 0 \<le> sim_rngs s k j)
     \<and> (\<forall>i n. map_of (sim_nodes s) i = Some n \<longrightarrow> paced d n)"

definition has_nodes :: "sim \<Rightarrow> bool" where
  "has_nodes s \<longleftrightarrow> set (sim_ids s) \<subseteq> dom (map_of (sim_nodes s))"

text \<open>Sending and absorbing, as far as pace and queue are concerned.\<close>

definition early :: "rat \<Rightarrow> sim \<Rightarrow> nat" where
  "early w s = length (filter (\<lambda>e. fst e \<le> w) (sim_queue s))"

lemma early_send:
  assumes "w < sim_clock s + latency_ms s"
  shows "early w (sim_send dm s) = early w s" "sim_clock (sim_send dm s) = sim_clock s"
    "latency_ms (sim_send dm s) = latency_ms s"
proof -
  have "length (filter P (insort_key f x xs)) = length (filter P xs)" if "\<not> P x"
    for P :: "event \<Rightarrow> bool" and f :: "event \<Rightarrow> rat \<times> nat" and x xs
    using that by (induction xs) auto
  then show "early w (sim_send dm s) = early w s"
    using assms by (simp add: early_def sim_send_def Let_def heappush_def)
qed (simp_all add: sim_send_def Let_def)

lemma early_sends:
  "w < sim_clock s + latency_ms s \<Longrightarrow> early w (fold sim_send dms s) = early w s"
  by (induction dms arbitrary: s) (simp_all add: early_send)

lemma early_absorb: "w < sim_clock s + latency_ms s \<Longrightarrow> early w (absorb i n s) = early w s"
  by (simp add: absorb_def early_sends) (simp add: early_def)

lemma absorb_paced:
  assumes "sim_paced d s" "paced d n"
  shows "sim_paced d (absorb i n s)"
  using assms by (auto simp: sim_paced_def absorb_fields paced_def)

lemma absorb_nodes: "has_nodes s \<Longrightarrow> has_nodes (absorb i n s)"
  by (auto simp: has_nodes_def absorb_fields)

lemma paced_at: "sim_paced d s \<Longrightarrow> map_of (sim_nodes s) i \<noteq> None \<Longrightarrow> paced d (node_at s i)"
  by (auto simp: sim_paced_def node_at_def)

section \<open>Progress inside a window\<close>

definition potential :: "rat \<Rightarrow> sim \<Rightarrow> nat" where
  "potential w s = early w s * (3 * length (sim_ids s) + 1) + sum_list (map (\<lambda>i. deadlines w (node_at s i)) (sim_ids s))"

lemma sum_deadlines: "sum_list (map (\<lambda>i. deadlines w (f i)) xs) \<le> 3 * length xs"
  using deadlines_bound by (induction xs) (auto simp: add_le_mono)

lemma sum_list_less:
  fixes f g :: "'a \<Rightarrow> nat"
  assumes "\<And>x. f x \<le> g x" "i \<in> set xs" "f i < g i"
  shows "sum_list (map f xs) < sum_list (map g xs)"
  using assms(2)
proof (induction xs)
  case (Cons x xs)
  show ?case
  proof (cases "x = i")
    case True
    then show ?thesis using assms(3) sum_list_mono [of xs f g] assms(1) by (simp add: add_less_le_mono)
  next
    case False
    then show ?thesis using Cons assms(1) [of x] by (simp add: add_le_less_mono)
  qed
qed simp

definition moved :: "rat \<Rightarrow> rat \<Rightarrow> sim \<Rightarrow> sim \<Rightarrow> bool" where
  "moved d w s s' \<longleftrightarrow> sim_paced d s' \<and> has_nodes s' \<and> sim_clock s \<le> sim_clock s'
     \<and> (sim_clock s' \<le> w \<longrightarrow> potential w s' < potential w s)"

lemma fire_timer_moves:
  assumes s: "sim_paced d s" "has_nodes s" and i: "i \<in> set (sim_ids s)" and w: "sim_clock s \<le> w" "w < sim_clock s + d"
    and f: "fire_timer i s = (Inr True, s')"
  shows "moved d w s s'"
proof -
  let ?n = "node_at s i" and ?now = "max (sim_clock s) (next_event_due (node_at s i))"
  let ?s1 = "s\<lparr>sim_clock := ?now\<rparr>"
  obtain n' where n': "tick ?now ?n = (Inr (), n')" "s' = absorb i n' ?s1"
    using f by (auto simp: fire_timer_def Let_def split: prod.splits sum.splits)
  have p: "paced d ?n" using s i by (intro paced_at) (auto simp: has_nodes_def)
  have p': "paced d n'" using p pace_tick [of ?now ?n] n'(1) paced_cong [of n' ?n d] by simp
  have s1: "sim_paced d ?s1" "has_nodes ?s1" using s by (simp_all add: sim_paced_def has_nodes_def)
  have "potential w s' < potential w s" if "sim_clock s' \<le> w"
  proof -
    have now: "?now \<le> w" using that n'(2) by (simp add: absorb_fields)
    have "deadlines w n' < deadlines w ?n"
      using tick_fewer [OF p _ now _ n'(1)] w(2) by auto
    moreover have "deadlines w (node_at s' i) = deadlines w n'"
      by (simp add: n'(2) node_at_absorb deadlines_def)
    moreover have "deadlines w (node_at s' j) = deadlines w (node_at s j)" if "j \<noteq> i" for j
      using that unfolding n'(2) node_at_absorb by (simp add: node_at_def)
    ultimately have "sum_list (map (\<lambda>i. deadlines w (node_at s' i)) (sim_ids s))
        < sum_list (map (\<lambda>i. deadlines w (node_at s i)) (sim_ids s))"
      by (intro sum_list_less [OF _ i]) (metis less_imp_le order_refl, simp)
    moreover have "w < sim_clock ?s1 + latency_ms ?s1"
      using s(1) w(2) by (simp add: sim_paced_def) linarith
    then have "early w s' = early w s"
      by (simp only: n'(2) early_absorb) (simp add: early_def)
    ultimately show ?thesis by (simp add: potential_def n'(2) absorb_fields)
  qed
  then show ?thesis
    using absorb_paced [OF s1(1) p'] absorb_nodes [OF s1(2)] by (simp add: moved_def n'(2) absorb_fields)
qed

lemma deliver_moves:
  assumes s: "sim_paced d s" "has_nodes s" and w: "sim_clock s \<le> w" "w < sim_clock s + d"
    and q: "sim_queue s = ev # q" and f: "deliver ev (s\<lparr>sim_queue := q\<rparr>) = (Inr True, s')"
  shows "moved d w s s'"
proof -
  obtain due sq dest m where ev: "ev = (due, sq, dest, m)" by (cases ev)
  let ?s1 = "s\<lparr>sim_queue := q, sim_clock := max (sim_clock s) due\<rparr>"
  have s1: "sim_paced d ?s1" "has_nodes ?s1" using s by (simp_all add: sim_paced_def has_nodes_def)
  have "s' = ?s1 \<or> (\<exists>n. map_of (sim_nodes s) dest \<noteq> None
      \<and> n = snd (handle (sim_clock ?s1) m (node_at s dest)) \<and> s' = absorb dest n ?s1)"
    using f by (auto simp: deliver_def ev Let_def node_at_def split: prod.splits sum.splits if_splits)
  then consider (dropped) "s' = ?s1" | (handled) n where "paced d n" "s' = absorb dest n ?s1"
    using paced_at [OF s(1), of dest] pace_handle paced_cong by metis
  then have keep: "sim_paced d s' \<and> has_nodes s' \<and> sim_ids s' = sim_ids s \<and> sim_clock s' = max (sim_clock s) due
      \<and> early w s' = early w ?s1"
  proof cases
    case handled
    have "w < sim_clock ?s1 + latency_ms ?s1"
      using s(1) w(2) by (simp add: sim_paced_def) linarith
    with handled s1 show ?thesis
      by (simp add: absorb_paced absorb_nodes absorb_fields early_absorb)
  qed (use s1 in simp)
  have "potential w s' < potential w s" if "sim_clock s' \<le> w"
  proof -
    have "due \<le> w" using that keep by simp
    then have "early w s = Suc (early w s')" using keep by (simp add: early_def q ev)
    then show ?thesis
      using sum_deadlines [of w "node_at s'" "sim_ids s"] keep by (simp add: potential_def)
  qed
  with keep show ?thesis by (simp add: moved_def)
qed

lemma sim_step_moves:
  assumes s: "sim_paced d s" "has_nodes s" and w: "sim_clock s \<le> w" "w < sim_clock s + d"
    and f: "sim_step s = (Inr True, s')"
  shows "moved d w s s'"
proof -
  consider (timer) i where "i \<in> set (live_nodes s)" "fire_timer i s = (Inr True, s')"
    | (message) ev q where "sim_queue s = ev # q" "deliver ev (s\<lparr>sim_queue := q\<rparr>) = (Inr True, s')"
    using f first_min_mem [of "\<lambda>i. next_event_due (node_at s i)"]
    by (auto simp: sim_step_def heappop_def Let_def split: list.splits option.splits prod.splits if_splits)
  then show ?thesis
  proof cases
    case timer
    then show ?thesis using fire_timer_moves [OF s _ w timer(2)] by (simp add: live_nodes_def)
  next
    case message
    then show ?thesis using deliver_moves [OF s w] by blast
  qed
qed

section \<open>The loops end\<close>

text \<open>
  Whatever holds once the clock has passed the horizon, and holds of a state when it holds of the state after a step,
  holds of every state.
\<close>

lemma paced_progress:
  assumes late: "\<And>s. sim_paced d s \<Longrightarrow> has_nodes s \<Longrightarrow> horizon \<le> sim_clock s \<Longrightarrow> R s"
    and step: "\<And>s. (\<And>s'. sim_step s = (Inr True, s') \<Longrightarrow> R s') \<Longrightarrow> R s"
    and "sim_paced d s" "has_nodes s"
  shows "R s"
proof -
  have d: "0 < d" using assms(3) by (simp add: sim_paced_def)
  have in_window: "R s" if "\<And>s'. sim_paced d s' \<Longrightarrow> has_nodes s' \<Longrightarrow> w < sim_clock s' \<Longrightarrow> R s'"
      "sim_paced d s" "has_nodes s" "sim_clock s \<le> w" "w < sim_clock s + d" for s w
    using that
  proof (induction "potential w s" arbitrary: s rule: less_induct)
    case less
    show ?case
    proof (rule step)
      fix s'
      assume "sim_step s = (Inr True, s')"
      from sim_step_moves [OF less.prems(2-5) this] have m: "moved d w s s'" .
      show "R s'"
      proof (cases "sim_clock s' \<le> w")
        case True
        then show ?thesis using m less by (auto simp: moved_def)
      next
        case False
        then show ?thesis using m less.prems(1) by (simp add: moved_def)
      qed
    qed
  qed
  have windows: "R s" if "horizon \<le> sim_clock s + of_nat k * (d / 2)" "sim_paced d s" "has_nodes s" for k s
    using that
  proof (induction k arbitrary: s)
    case 0
    then show ?case using late by simp
  next
    case (Suc k)
    show ?case
    proof (rule in_window [of "sim_clock s + d / 2"])
      fix s'
      assume "sim_paced d s'" "has_nodes s'" "sim_clock s + d / 2 < sim_clock s'"
      then show "R s'" using Suc by (intro Suc.IH) (simp_all add: algebra_simps add_divide_distrib)
    qed (use Suc.prems d in simp_all)
  qed
  obtain k :: nat where "(horizon - sim_clock s) / (d / 2) \<le> of_nat k"
    using reals_Archimedean2 [of "(horizon - sim_clock s) / (d / 2)"] less_imp_le by blast
  then have "horizon \<le> sim_clock s + of_nat k * (d / 2)"
    using d by (simp add: field_simps)
  then show ?thesis using assms(3,4) by (rule windows)
qed

lemma for_loop_returns:
  assumes "sim_paced d s" "has_nodes s"
  shows "for_loop until s \<noteq> None"
proof (rule paced_progress [where R = "\<lambda>s. for_loop until s \<noteq> None" and horizon = until, OF _ _ assms])
  fix s :: sim
  assume "until \<le> sim_clock s"
  then show "for_loop until s \<noteq> None" by (subst for_loop.simps) simp
next
  fix s :: sim
  assume "\<And>s'. sim_step s = (Inr True, s') \<Longrightarrow> for_loop until s' \<noteq> None"
  then show "for_loop until s \<noteq> None"
    by (subst for_loop.simps) (auto split: prod.splits sum.splits)
qed

lemma sim_step_clock:
  assumes "sim_step s = (r, s')"
  shows "sim_clock s \<le> sim_clock s'"
proof -
  have "sim_clock s \<le> sim_clock t" if "fire_timer i s = (r, t)" for i t
    using that by (auto simp: fire_timer_def Let_def absorb_fields split: prod.splits sum.splits)
  moreover have "sim_clock s \<le> sim_clock t" if "deliver ev (s\<lparr>sim_queue := q\<rparr>) = (r, t)" for ev q t
    using that by (auto simp: deliver_def Let_def absorb_fields split: prod.splits sum.splits if_splits)
  ultimately show ?thesis
    using assms by (auto simp: sim_step_def Let_def split: list.splits option.splits prod.splits if_splits)
qed

lemma until_loop_returns:
  assumes "sim_paced d s" "has_nodes s"
  shows "until_loop goal max_ms start s \<noteq> None"
proof (rule paced_progress [where R = "\<lambda>s. until_loop goal max_ms start s \<noteq> None" and horizon = "start + max_ms + 1", OF _ _ assms])
  fix s :: sim
  assume late: "start + max_ms + 1 \<le> sim_clock s"
  have "max_ms < sim_clock s' - start" if "sim_step s = (r, s')" for r s'
    using late sim_step_clock [OF that] by linarith
  then show "until_loop goal max_ms start s \<noteq> None"
    by (subst until_loop.simps) (auto split: prod.splits sum.splits)
next
  fix s :: sim
  assume "\<And>s'. sim_step s = (Inr True, s') \<Longrightarrow> until_loop goal max_ms start s' \<noteq> None"
  then show "until_loop goal max_ms start s \<noteq> None"
    by (subst until_loop.simps) (auto split: prod.splits sum.splits)
qed

text \<open>What the loops have reached when they return.\<close>

lemma sim_step_idle: "sim_step s = (Inr False, s') \<Longrightarrow> s' = s"
  by (auto simp: sim_step_def fire_timer_def deliver_def Let_def
      split: list.splits option.splits prod.splits sum.splits if_splits)

section \<open>Histories with timeouts that are not zero\<close>

inductive live_reach :: "sim \<Rightarrow> bool" where
  started: "0 < lo \<Longrightarrow> lo \<le> hi \<Longrightarrow> 0 < hb \<Longrightarrow> 0 < lat \<Longrightarrow> (\<And>k j. 0 \<le> rngs k j)
    \<Longrightarrow> sim_init ids rngs (lo, hi) hb lat dir prevote = (Inr (), s) \<Longrightarrow> live_reach s"
| stepped: "live_reach s \<Longrightarrow> sim_step s = (Inr True, s') \<Longrightarrow> live_reach s'"
| crashed: "live_reach s \<Longrightarrow> live_reach (crash_node i s)"
| restarted: "live_reach s \<Longrightarrow> restart_node i s = (Inr (), s') \<Longrightarrow> live_reach s'"
| parted: "live_reach s \<Longrightarrow> live_reach (partition_nodes a b s)"
| healed: "live_reach s \<Longrightarrow> live_reach (heal_nodes a b s)"
| proposed: "live_reach s \<Longrightarrow> map_of (sim_nodes s) i \<noteq> None \<Longrightarrow> sim_propose i payload s = (r, s') \<Longrightarrow> live_reach s'"

lemma build_node_paced:
  assumes "params_paced d (sim_params s)" "\<forall>k j. 0 \<le> sim_rngs s k j" "build_node i f l s = (Inr n, s1)"
  shows "paced d n" "s1 = s\<lparr>sim_built := sim_built s + 1\<rparr>"
proof -
  obtain ds where ds: "durable_state_init (sim_dir s) f = Inr ds"
    using assms(3) by (auto simp: build_node_def Let_def split: sum.splits)
  obtain r n0 where n0: "raft_node_init i (sim_ids s) (sim_clock s) (sim_rngs s (sim_built s)) ds (Some kv_init)
      raft_log_init [] (sim_params s) = (r, n0)" by fastforce
  have p0: "paced d n0"
    using n0 assms(1,2)
    by (auto simp: raft_node_init_def params_paced_def paced_def Let_def reset_election_deadline_def
        split: prod.splits option.splits)
  define n1 where "n1 = n0\<lparr>rlog := l, commit_index := last_index l, applied_index := 0\<rparr>"
  have out: "n = snd (apply_committed (sim_clock s) n1) \<and> s1 = s\<lparr>sim_built := sim_built s + 1\<rparr>"
    using assms(3) ds n0 by (auto simp: build_node_def Let_def n1_def split: sum.splits prod.splits)
  then show "s1 = s\<lparr>sim_built := sim_built s + 1\<rparr>" ..
  have "pace n = pace n0" using out by (simp add: n1_def pace_simps)
  with p0 show "paced d n" using paced_cong by blast
qed

lemma sim_paced_built: "sim_paced d s \<Longrightarrow> sim_paced d (s\<lparr>sim_built := k\<rparr>)"
  by (simp add: sim_paced_def)

lemma build_all_paced:
  assumes "sim_paced d s" "build_all is s = (Inr (), s')"
  shows "sim_paced d s' \<and> sim_ids s' = sim_ids s \<and> set is \<union> dom (map_of (sim_nodes s)) \<subseteq> dom (map_of (sim_nodes s'))"
  using assms
proof (induction "is" arbitrary: s)
  case (Cons i "is")
  obtain n s1 where b: "build_node i None raft_log_init s = (Inr n, s1)" "build_all is (absorb i n s1) = (Inr (), s')"
    using Cons.prems(2) by (auto split: prod.splits sum.splits)
  have n: "paced d n" "s1 = s\<lparr>sim_built := sim_built s + 1\<rparr>"
    using build_node_paced [OF _ _ b(1)] Cons.prems(1) by (auto simp: sim_paced_def)
  have "sim_paced d (absorb i n s1)"
    using Cons.prems(1) n by (simp add: absorb_paced sim_paced_built)
  moreover have "dom (map_of (sim_nodes (absorb i n s1))) = insert i (dom (map_of (sim_nodes s)))"
    "sim_ids (absorb i n s1) = sim_ids s"
    by (simp_all only: absorb_fields n(2) dom_fun_upd) simp_all
  ultimately show ?case using Cons.IH [OF _ b(2)] by auto
qed simp

lemma restart_paced:
  assumes "sim_paced d s" "has_nodes s" "restart_node i s = (Inr (), s')"
  shows "sim_paced d s' \<and> has_nodes s'"
proof -
  let ?s0 = "s\<lparr>crashed := crashed s - {i}\<rparr>"
  have s0: "sim_paced d ?s0" "has_nodes ?s0" using assms(1,2) by (simp_all add: sim_paced_def has_nodes_def)
  obtain f l n s1 ct v where b: "build_node i f l ?s0 = (Inr n, s1)"
      "s' = absorb i (n\<lparr>persister := (persister n)\<lparr>current_term := ct, voted_for := v\<rparr>\<rparr>) s1"
    using assms(3) by (auto simp: restart_node_def Let_def split: prod.splits sum.splits option.splits)
  have n: "paced d n" "s1 = ?s0\<lparr>sim_built := sim_built ?s0 + 1\<rparr>"
    using build_node_paced [OF _ _ b(1)] s0(1) by (auto simp: sim_paced_def)
  have "sim_paced d s1" "has_nodes s1"
    using s0 unfolding n(2) by (simp_all add: sim_paced_built has_nodes_def)
  moreover have "paced d (n\<lparr>persister := (persister n)\<lparr>current_term := ct, voted_for := v\<rparr>\<rparr>)"
    using n(1) by (simp add: paced_def)
  ultimately show ?thesis by (simp add: b(2) absorb_paced absorb_nodes)
qed

lemma live_reach_paced: "live_reach s \<Longrightarrow> \<exists>d. sim_paced d s \<and> has_nodes s"
proof (induction rule: live_reach.induct)
  case (started lo hi hb lat rngs ids dir prevote s)
  let ?d = "min lo (min hb lat)"
  have b: "build_all ids \<lparr>sim_ids = ids, sim_clock = 0, sim_queue = [], sim_seq = 0, latency_ms = lat,
        partitioned = {}, crashed = {}, sim_dir = dir,
        sim_params = default_params\<lparr>p_election_timeout := (lo, hi), p_heartbeat := hb,
          p_use_prevote := prevote, p_on_apply := True\<rparr>,
        sim_nodes = [], sim_applied = [], sim_rngs = rngs, sim_built = 0\<rparr> = (Inr (), s)"
    using started.hyps(6) by (simp add: sim_init_def)
  have "sim_paced ?d \<lparr>sim_ids = ids, sim_clock = 0, sim_queue = [], sim_seq = 0, latency_ms = lat,
        partitioned = {}, crashed = {}, sim_dir = dir,
        sim_params = default_params\<lparr>p_election_timeout := (lo, hi), p_heartbeat := hb,
          p_use_prevote := prevote, p_on_apply := True\<rparr>,
        sim_nodes = [], sim_applied = [], sim_rngs = rngs, sim_built = 0\<rparr>"
    using started.hyps(1-5) by (auto simp: sim_paced_def params_paced_def default_params_def min_def)
  from build_all_paced [OF this b] show ?case by (auto simp: has_nodes_def)
next
  case (stepped s s')
  then obtain d where d: "sim_paced d s" "has_nodes s" by blast
  then have "0 < d" by (simp add: sim_paced_def)
  then show ?case
    using sim_step_moves [OF d _ _ stepped.hyps(2), of "sim_clock s"] by (auto simp: moved_def)
next
  case (restarted s i s')
  then show ?case using restart_paced by blast
next
  case (proposed s i payload r s')
  then obtain d where d: "sim_paced d s" "has_nodes s" by blast
  have "pace (snd (propose (sim_clock s) payload (node_at s i))) = pace (node_at s i)" by (simp add: pace_simps)
  then have "paced d (snd (propose (sim_clock s) payload (node_at s i)))"
    using paced_at [OF d(1) proposed.hyps(2)] paced_cong by blast
  moreover have "s' = absorb i (snd (propose (sim_clock s) payload (node_at s i))) s"
    using proposed.hyps(3) by (auto simp: sim_propose_def split: prod.splits)
  ultimately show ?case using d absorb_paced absorb_nodes by blast
qed (auto simp: sim_paced_def has_nodes_def crash_node_def partition_nodes_def heal_nodes_def)

end
