(* ===== verification/Sim_Theorems.thy ===== *)
theory Sim_Theorems
  imports Sim_Live Raft_Election Raft_Apply
begin

text \<open>
  The simulator against the abstract cluster: its histories, the order in which it delivers
  messages, and election safety for everything that is run in it.
\<close>

section \<open>Histories\<close>

text \<open>Runs without PreVote and without changes of the membership, with the faults the simulator offers.\<close>

inductive sim_reach :: "ustr list \<Rightarrow> sim \<Rightarrow> bool" for ids where
  started: "distinct ids \<Longrightarrow> 0 \<le> lat \<Longrightarrow> sim_init ids rngs timeouts hb lat dir False = (Inr (), s)
    \<Longrightarrow> sim_reach ids s"
| stepped: "sim_reach ids s \<Longrightarrow> sim_step s = (r, s') \<Longrightarrow> sim_reach ids s'"
| crashed: "sim_reach ids s \<Longrightarrow> sim_reach ids (crash_node i s)"
| restarted: "sim_reach ids s \<Longrightarrow> i \<in> set ids \<Longrightarrow> restart_node i s = (Inr (), s') \<Longrightarrow> sim_reach ids s'"
| parted: "sim_reach ids s \<Longrightarrow> sim_reach ids (partition_nodes a b s)"
| healed: "sim_reach ids s \<Longrightarrow> sim_reach ids (heal_nodes a b s)"
| proposed: "sim_reach ids s \<Longrightarrow> i \<in> set ids \<Longrightarrow> \<not> is_cfg payload \<Longrightarrow> sim_propose i payload s = (r', s')
    \<Longrightarrow> sim_reach ids s'"

section \<open>The order of delivery\<close>

definition queue_ok :: "sim \<Rightarrow> bool" where
  "queue_ok s \<longleftrightarrow> 0 \<le> latency_ms s \<and> in_order ev_key (sim_queue s)
     \<and> sorted_wrt (<) (map (\<lambda>e. fst (snd e)) (sim_queue s))
     \<and> (\<forall>e \<in> set (sim_queue s). fst e \<le> sim_clock s + latency_ms s \<and> fst (snd e) \<le> sim_seq s)"

lemma queue_ok_send:
  assumes "queue_ok s"
  shows "queue_ok (sim_send dm s)"
    and "sim_queue (sim_send dm s) = sim_queue s @ [(sim_clock s + latency_ms s, sim_seq s + 1, dm)]"
proof -
  let ?e = "(sim_clock s + latency_ms s, sim_seq s + 1, fst dm, snd dm)"
  have "\<forall>x \<in> set (sim_queue s). ev_key x < ev_key ?e"
    using assms by (auto simp: queue_ok_def ev_key_def less_prod_def' le_less)
  then have q: "sim_queue (sim_send dm s) = sim_queue s @ [?e]"
    by (simp add: sim_send_def Let_def heappush_last)
  then show "sim_queue (sim_send dm s) = sim_queue s @ [(sim_clock s + latency_ms s, sim_seq s + 1, dm)]"
    by simp
  have "in_order ev_key (sim_queue (sim_send dm s))"
    using assms heap.push_ok [of ev_key "sim_queue s" ?e] by (simp add: sim_send_def Let_def queue_ok_def)
  moreover have "sim_seq (sim_send dm s) = sim_seq s + 1"
    by (simp add: sim_send_def Let_def)
  ultimately show "queue_ok (sim_send dm s)"
    using assms by (auto simp: queue_ok_def q sim_send_fields sorted_wrt_append)
qed

lemma queue_ok_sends:
  assumes "queue_ok s"
  shows "queue_ok (fold sim_send dms s) \<and> (\<exists>sent. map addressed sent = dms
    \<and> sim_queue (fold sim_send dms s) = sim_queue s @ sent)"
  using assms
proof (induction dms arbitrary: s)
  case (Cons dm dms)
  obtain sent where "queue_ok (fold sim_send dms (sim_send dm s))" "map addressed sent = dms"
      "sim_queue (fold sim_send dms (sim_send dm s)) = sim_queue (sim_send dm s) @ sent"
    using Cons.IH [OF queue_ok_send(1) [OF Cons.prems]] by blast
  then show ?case
    using queue_ok_send(2) [OF Cons.prems, of dm]
    by (intro conjI exI [of _ "(sim_clock s + latency_ms s, sim_seq s + 1, dm) # sent"]) simp_all
qed simp

lemma queue_ok_absorb:
  assumes "queue_ok s"
  shows "queue_ok (absorb i n s) \<and> (\<exists>sent. map addressed sent = outbox n
    \<and> sim_queue (absorb i n s) = sim_queue s @ sent)"
proof -
  let ?s = "s\<lparr>sim_nodes := dict_put i (n\<lparr>outbox := [], apply_calls := []\<rparr>) (sim_nodes s),
          sim_applied := sim_applied s @ map (\<lambda>(idx, p, r). (i, idx, p, r)) (apply_calls n)\<rparr>"
  have "queue_ok ?s" using assms by (simp add: queue_ok_def)
  from queue_ok_sends [OF this, of "outbox n"] show ?thesis by (simp add: absorb_def)
qed

lemma queue_ok_clock: "queue_ok s \<Longrightarrow> sim_clock s \<le> t \<Longrightarrow> queue_ok (s\<lparr>sim_clock := t\<rparr>)"
  by (fastforce simp: queue_ok_def)

lemma queue_ok_pop: "queue_ok s \<Longrightarrow> heappop (sim_queue s) = Some (e, q) \<Longrightarrow> queue_ok (s\<lparr>sim_queue := q\<rparr>)"
  by (cases "sim_queue s") (auto simp: queue_ok_def heappop_def in_order_def)

lemma fire_timer_queue:
  assumes "queue_ok s" "fire_timer i s = (r, s')"
  shows "queue_ok s' \<and> sim_clock s \<le> sim_clock s' \<and> (\<exists>sent. sim_queue s' = sim_queue s @ sent)"
proof -
  let ?s1 = "s\<lparr>sim_clock := max (sim_clock s) (next_event_due (node_at s i))\<rparr>"
  have ok: "queue_ok ?s1" using assms(1) by (rule queue_ok_clock) simp
  obtain n where "s' = absorb i n ?s1"
    using assms(2) by (auto simp: fire_timer_def Let_def split: prod.splits sum.splits)
  with queue_ok_absorb [OF ok, of i n] show ?thesis by (auto simp: absorb_fields)
qed

lemma deliver_queue:
  assumes "queue_ok s" "deliver ev s = (r, s')"
  shows "queue_ok s' \<and> sim_clock s \<le> sim_clock s' \<and> (\<exists>sent. sim_queue s' = sim_queue s @ sent)"
proof -
  let ?s1 = "s\<lparr>sim_clock := max (sim_clock s) (fst ev)\<rparr>"
  have ok: "queue_ok ?s1" using assms(1) by (rule queue_ok_clock) simp
  have "s' = ?s1 \<or> (\<exists>i n. s' = absorb i n ?s1)"
    using assms(2) by (auto simp: deliver_def Let_def split: prod.splits sum.splits if_splits)
  with ok queue_ok_absorb [OF ok] show ?thesis
    by (auto simp: absorb_fields)
qed

lemma sim_step_queue:
  assumes "queue_ok s" "sim_step s = (r, s')"
  shows "queue_ok s' \<and> sim_clock s \<le> sim_clock s'
    \<and> (\<exists>sent. sim_queue s' = sim_queue s @ sent \<or> (sim_queue s \<noteq> [] \<and> sim_queue s' = tl (sim_queue s) @ sent))"
proof -
  consider (idle) "s' = s" | (timer) i where "fire_timer i s = (r, s')"
    | (message) ev q where "heappop (sim_queue s) = Some (ev, q)" "deliver ev (s\<lparr>sim_queue := q\<rparr>) = (r, s')"
    using assms(2) by (auto simp: sim_step_def Let_def split: list.splits option.splits prod.splits if_splits)
  then show ?thesis
  proof cases
    case idle
    then show ?thesis using assms(1) by (intro conjI exI [of _ "[]"]) simp_all
  next
    case timer
    then show ?thesis using fire_timer_queue [OF assms(1) timer] by blast
  next
    case message
    have "sim_queue s = ev # q"
      using message(1) by (auto simp: heappop_def split: list.splits)
    then show ?thesis
      using deliver_queue [OF queue_ok_pop [OF assms(1) message(1)] message(2)] by auto
  qed
qed

section \<open>Built nodes\<close>

lemma apply_nothing:
  assumes "commit_index n = applied_index n" "auto_snapshot_every n = None"
  shows "apply_committed now n = (Inr (), n)"
  using assms by (simp add: apply_committed_def apply_loop.simps snapshot_due_def)

text \<open>The settings every run has: no PreVote and no snapshot directory.\<close>

definition plain_params :: "node_params \<Rightarrow> bool" where
  "plain_params ps \<longleftrightarrow> \<not> p_use_prevote ps \<and> \<not> p_snapshot_dir ps \<and> p_auto_snapshot ps = None"

lemma init_outcome:
  assumes "plain_params ps"
  shows "fst (raft_node_init i ids now rng ds sm l [] ps) = Inr ()"
  using assms by (simp add: raft_node_init_def plain_params_def Let_def reset_election_deadline_def split: prod.splits)

lemma init_fields:
  assumes "plain_params ps" "n = snd (raft_node_init i ids now rng ds sm l [] ps)"
  shows "rlog n = l" "commit_index n = 0" "applied_index n = 0" "auto_snapshot_every n = None"
    "persister n = ds" "apply_calls n = []"
  using assms by (simp_all add: raft_node_init_def plain_params_def Let_def reset_election_deadline_def split: prod.splits)

lemma build_fresh:
  assumes "plain_params (sim_params s)" "build_node i None raft_log_init s = (Inr n, s1)"
  shows "fresh_node (sim_ids s) i 0 None raft_log_init n" "apply_calls n = []" "s1 = s\<lparr>sim_built := sim_built s + 1\<rparr>"
proof -
  obtain ds where ds: "durable_state_init (sim_dir s) None = Inr ds" "current_term ds = 0" "voted_for ds = None"
    by (simp add: durable_state_init_def)
  define n0 where "n0 = snd (raft_node_init i (sim_ids s) (sim_clock s) (sim_rngs s (sim_built s)) ds
      (Some kv_init) raft_log_init [] (sim_params s))"
  note f = init_fields [OF assms(1) n0_def]
  have init: "raft_node_init i (sim_ids s) (sim_clock s) (sim_rngs s (sim_built s)) ds
      (Some kv_init) raft_log_init [] (sim_params s) = (Inr (), n0)"
    using init_outcome [OF assms(1)] by (simp add: n0_def prod_eq_iff)
  have same: "n0\<lparr>rlog := raft_log_init, commit_index := last_index raft_log_init, applied_index := 0\<rparr> = n0"
    using f by (simp add: last_index_def raft_log_init_def)
  have "apply_committed (sim_clock s) n0 = (Inr (), n0)"
    using f by (intro apply_nothing) simp_all
  then have n: "n = n0" and s1: "s1 = s\<lparr>sim_built := sim_built s + 1\<rparr>"
    using assms(2) ds(1) init same by (simp_all add: build_node_def Let_def)
  show "fresh_node (sim_ids s) i 0 None raft_log_init n"
    unfolding fresh_node_def n n0_def using ds assms(1)
    by (intro exI [of _ "sim_clock s"] exI [of _ "sim_rngs s (sim_built s)"] exI [of _ ds]
        exI [of _ "Some kv_init"] exI [of _ "sim_params s"]) (simp add: plain_params_def)
  show "apply_calls n = []" "s1 = s\<lparr>sim_built := sim_built s + 1\<rparr>"
    using f n s1 by simp_all
qed

lemma build_all_fresh:
  assumes "build_all is s = (Inr (), s')" "plain_params (sim_params s)" "distinct (sim_ids s)" "set is \<subseteq> set (sim_ids s)"
    and "sim_queue s = []" "sim_ids s = ids"
    and "\<forall>j \<in> dom (map_of (sim_nodes s)). fresh_node ids j 0 None raft_log_init (node_at s j)"
  shows "sim_queue s' = [] \<and> sim_ids s' = ids \<and> sim_clock s' = sim_clock s \<and> latency_ms s' = latency_ms s
    \<and> sim_params s' = sim_params s \<and> dom (map_of (sim_nodes s')) = dom (map_of (sim_nodes s)) \<union> set is
    \<and> (\<forall>j \<in> dom (map_of (sim_nodes s')). fresh_node ids j 0 None raft_log_init (node_at s' j))"
  using assms
proof (induction "is" arbitrary: s)
  case (Cons i "is")
  obtain n s1 where b: "build_node i None raft_log_init s = (Inr n, s1)" "build_all is (absorb i n s1) = (Inr (), s')"
    using Cons.prems(1) by (auto split: prod.splits sum.splits)
  note n = build_fresh [OF Cons.prems(2) b(1)]
  have "outbox n = []"
    using fresh_node_facts(4) [OF n(1) Cons.prems(3)] Cons.prems(4) by (simp add: raft_log_init_def)
  then have same: "n\<lparr>outbox := [], apply_calls := []\<rparr> = n" "set (sim_queue (absorb i n s1)) = {}"
    using n(2,3) absorb_fields(8) [of i n s1] Cons.prems(5) by (auto simp: n(3))
  have nodes: "map_of (sim_nodes (absorb i n s1)) = (map_of (sim_nodes s))(i \<mapsto> n)"
    using same(1) by (simp add: absorb_fields n(3))
  have fresh: "\<forall>j \<in> dom (map_of (sim_nodes (absorb i n s1))). fresh_node ids j 0 None raft_log_init (node_at (absorb i n s1) j)"
  proof
    fix j
    assume "j \<in> dom (map_of (sim_nodes (absorb i n s1)))"
    then show "fresh_node ids j 0 None raft_log_init (node_at (absorb i n s1) j)"
      using Cons.prems(6,7) n(1) nodes by (cases "j = i") (auto simp: node_at_def)
  qed
  have "sim_queue s' = [] \<and> sim_ids s' = ids \<and> sim_clock s' = sim_clock (absorb i n s1)
    \<and> latency_ms s' = latency_ms (absorb i n s1) \<and> sim_params s' = sim_params (absorb i n s1)
    \<and> dom (map_of (sim_nodes s')) = dom (map_of (sim_nodes (absorb i n s1))) \<union> set is
    \<and> (\<forall>j \<in> dom (map_of (sim_nodes s')). fresh_node ids j 0 None raft_log_init (node_at s' j))"
    using Cons.prems(2-6) same(2) by (intro Cons.IH [OF b(2) _ _ _ _ _ fresh]) (simp_all add: absorb_fields n(3))
  then show ?case
    using nodes by (auto simp: absorb_fields n(3))
qed simp

section \<open>The simulator and the cluster\<close>

text \<open>
  The nodes of the simulator are the nodes of a cluster that satisfies the invariant of the
  election, and what is in flight has been sent in that cluster.
\<close>

definition sim_safe :: "ustr list \<Rightarrow> sim \<Rightarrow> bool" where
  "sim_safe ids s \<longleftrightarrow> sim_ids s = ids \<and> dom (map_of (sim_nodes s)) = set ids \<and> plain_params (sim_params s)
     \<and> (\<exists>N B. cluster_inv ids \<lparr>nodes = node_at s, net = N, ballots = B\<rparr> \<and> addressed ` set (sim_queue s) \<subseteq> N)"

lemma node_inv_calls: "node_inv names B i (n\<lparr>apply_calls := x\<rparr>) \<longleftrightarrow> node_inv names B i n"
  by (simp add: node_inv_def steady_def clean_def cur_term_def majority_def)

lemma sim_safe_absorb:
  assumes "sim_ids s = ids" "dom (map_of (sim_nodes s)) = set ids" "plain_params (sim_params s)" "i \<in> set ids"
    and inv: "cluster_inv ids (commit_node i n \<lparr>nodes = node_at s, net = N, ballots = B\<rparr>)"
    and "addressed ` set (sim_queue s) \<subseteq> N"
  shows "sim_safe ids (absorb i n s)"
proof -
  let ?c = "commit_node i n \<lparr>nodes = node_at s, net = N, ballots = B\<rparr>"
  let ?c' = "\<lparr>nodes = node_at (absorb i n s), net = N \<union> set (outbox n), ballots = B \<union> ballots_of i n\<rparr>"
  have "node_at (absorb i n s) j = (nodes ?c j)\<lparr>apply_calls := apply_calls (node_at (absorb i n s) j)\<rparr>" for j
    by (simp add: node_at_absorb commit_node_def)
  then have "node_inv ids (ballots ?c) j (node_at (absorb i n s) j) \<longleftrightarrow> node_inv ids (ballots ?c) j (nodes ?c j)" for j
    using node_inv_calls by metis
  moreover have "ballots ?c = ballots ?c'" "net ?c = net ?c'"
    by (simp_all add: commit_node_def)
  ultimately have "cluster_inv ids ?c'"
    using inv by (simp add: cluster_inv_def)
  moreover have "dom (map_of (sim_nodes (absorb i n s))) = set ids"
    using assms(2,4) by (auto simp: absorb_fields)
  ultimately show ?thesis
    unfolding sim_safe_def using assms(1,3,6) by (auto simp: absorb_fields intro!: exI)
qed

lemma sim_safe_clock: "sim_safe ids s \<Longrightarrow> sim_safe ids (s\<lparr>sim_clock := t\<rparr>)"
  by (simp add: sim_safe_def node_at_def [abs_def])

lemma sim_safe_faults:
  assumes "sim_safe ids s"
  shows "sim_safe ids (s\<lparr>crashed := x\<rparr>)" "sim_safe ids (s\<lparr>partitioned := y\<rparr>)" "sim_safe ids (s\<lparr>sim_built := z\<rparr>)"
  using assms by (simp_all add: sim_safe_def node_at_def [abs_def])

lemma sim_safe_op:
  assumes safe: "sim_safe ids s" and i: "i \<in> set ids" and op: "\<And>n. election_step None n (f n)"
  shows "sim_safe ids (absorb i (f (node_at s i)) s)"
proof -
  obtain N B where c: "cluster_inv ids \<lparr>nodes = node_at s, net = N, ballots = B\<rparr>" "addressed ` set (sim_queue s) \<subseteq> N"
    using safe by (auto simp: sim_safe_def)
  have "cluster_inv ids (commit_node i (f (node_at s i)) \<lparr>nodes = node_at s, net = N, ballots = B\<rparr>)"
    using op by (intro cluster_inv_op [OF c(1) i]) auto
  with safe i c(2) show ?thesis by (intro sim_safe_absorb) (auto simp: sim_safe_def)
qed

lemma sim_safe_handle:
  assumes safe: "sim_safe ids s" and i: "i \<in> set ids"
    and q: "(i, m) \<in> N" "addressed ` set (sim_queue s) \<subseteq> N" "cluster_inv ids \<lparr>nodes = node_at s, net = N, ballots = B\<rparr>"
  shows "sim_safe ids (absorb i (snd (handle now m (node_at s i))) s)"
proof -
  have "clean_msg m" using q(1,3) by (auto simp: cluster_inv_def)
  then have "cluster_inv ids (commit_node i (snd (handle now m (node_at s i))) \<lparr>nodes = node_at s, net = N, ballots = B\<rparr>)"
    using q(1,3) by (intro cluster_inv_op [OF q(3) i, of "Some m"]) (auto simp: cluster_inv_def intro: step_handle)
  with safe i q(2) show ?thesis by (intro sim_safe_absorb) (auto simp: sim_safe_def)
qed

lemma build_restarted:
  assumes "plain_params (sim_params s)" "distinct (sim_ids s)" "i \<in> set (sim_ids s)" "no_cfg (entries l)"
    and "build_node i f l s = (Inr n, s1)"
  shows "steady n" "node_id n = i" "config n = set (sim_ids s)" "node_role n = FOLLOWER" "vote_grants n = {}"
    "s1 = s\<lparr>sim_built := sim_built s + 1\<rparr>"
proof -
  obtain ds where ds: "durable_state_init (sim_dir s) f = Inr ds"
    using assms(5) by (auto simp: build_node_def Let_def split: sum.splits)
  define n0 where "n0 = snd (raft_node_init i (sim_ids s) (sim_clock s) (sim_rngs s (sim_built s)) ds
      (Some kv_init) raft_log_init [] (sim_params s))"
  have init: "raft_node_init i (sim_ids s) (sim_clock s) (sim_rngs s (sim_built s)) ds
      (Some kv_init) raft_log_init [] (sim_params s) = (Inr (), n0)"
    using init_outcome [OF assms(1)] by (simp add: n0_def prod_eq_iff)
  have "fresh_node (sim_ids s) i (current_term ds) (voted_for ds) raft_log_init n0"
    unfolding fresh_node_def n0_def using assms(1)
    by (intro exI [of _ "sim_clock s"] exI [of _ "sim_rngs s (sim_built s)"] exI [of _ ds]
        exI [of _ "Some kv_init"] exI [of _ "sim_params s"]) (simp add: plain_params_def)
  note f = fresh_node_facts [OF this assms(2,3)]
  define n1 where "n1 = n0\<lparr>rlog := l, commit_index := last_index l, applied_index := 0\<rparr>"
  have n1: "steady n1" "node_id n1 = i" "config n1 = set (sim_ids s)" "node_role n1 = FOLLOWER" "vote_grants n1 = {}"
    using f assms(4) by (auto simp: n1_def raft_log_init_def steady_def clean_def vote_grants_def)
  have out: "n = snd (apply_committed (sim_clock s) n1) \<and> s1 = s\<lparr>sim_built := sim_built s + 1\<rparr>"
    using assms(5) ds init by (auto simp: build_node_def Let_def n1_def split: sum.splits prod.splits)
  then show "s1 = s\<lparr>sim_built := sim_built s + 1\<rparr>" ..
  have calm: "calm n1 n" using out calm_apply_committed by simp
  note c = calm_facts [OF calm steady_clean [OF n1(1)]]
  show "steady n" using calm n1(1) by (rule calm_steady)
  show "node_id n = i" "config n = set (sim_ids s)" "node_role n = FOLLOWER" "vote_grants n = {}"
    using c n1 by simp_all
qed

lemma sim_safe_restart:
  assumes safe: "sim_safe ids s" and i: "i \<in> set ids" and r: "restart_node i s = (Inr (), s')"
  shows "sim_safe ids s'"
proof -
  obtain N B where c: "cluster_inv ids \<lparr>nodes = node_at s, net = N, ballots = B\<rparr>" "addressed ` set (sim_queue s) \<subseteq> N"
    using safe by (auto simp: sim_safe_def)
  have old: "node_inv ids B i (node_at s i)" and d: "distinct ids"
    using c(1) i by (auto simp: cluster_inv_def)
  have sid: "sim_ids s = ids" "plain_params (sim_params s)" "dom (map_of (sim_nodes s)) = set ids"
    using safe by (auto simp: sim_safe_def)
  let ?s0 = "s\<lparr>crashed := crashed s - {i}\<rparr>" and ?o = "node_at s i"
  have "map_of (sim_nodes s) i = Some ?o"
    using domD [of i "map_of (sim_nodes s)"] sid(3) i by (force simp: node_at_def)
  then obtain n s1 where b: "build_node i (state_file (persister ?o)) (rlog ?o) ?s0 = (Inr n, s1)"
    and s': "s' = absorb i (n\<lparr>persister := (persister n)\<lparr>current_term := current_term (persister ?o),
      voted_for := voted_for (persister ?o)\<rparr>\<rparr>) s1"
    using r by (auto simp: restart_node_def Let_def split: prod.splits sum.splits)
  define n1 where "n1 = n\<lparr>persister := (persister n)\<lparr>current_term := current_term (persister ?o),
      voted_for := voted_for (persister ?o)\<rparr>\<rparr>"
  have "no_cfg (entries (rlog ?o))"
    using old by (auto simp: node_inv_def steady_def clean_def)
  note f = build_restarted [OF _ _ _ this b, simplified, unfolded sid, OF sid(2) d i]
  have same: "cur_term n1 = cur_term ?o" "voted_for (persister n1) = voted_for (persister ?o)"
    by (simp_all add: n1_def cur_term_def)
  have n1: "steady n1" "node_id n1 = i" "config n1 = set ids" "node_role n1 = FOLLOWER" "vote_grants n1 = {}"
    using f by (auto simp: n1_def steady_def clean_def vote_grants_def)
  have "node_inv ids (B \<union> ballots_of i n1) i (n1\<lparr>outbox := []\<rparr>)"
    using old n1 same by (auto simp: node_inv_def steady_def clean_def cur_term_def ballots_of_def)
  then have "cluster_inv ids (commit_node i n1 \<lparr>nodes = node_at s, net = N, ballots = B\<rparr>)"
    using n1 by (intro cluster_inv_commit [OF c(1) i]) (auto simp: steady_clean)
  moreover have "node_at s1 = node_at s" "sim_queue s1 = sim_queue s" "sim_nodes s1 = sim_nodes s"
      "sim_ids s1 = ids" "sim_params s1 = sim_params s"
    using f(6) sid(1) by (simp_all add: node_at_def [abs_def])
  ultimately show ?thesis
    unfolding s' n1_def [symmetric] using c(2) sid i by (intro sim_safe_absorb) simp_all
qed

lemma sim_safe_timer:
  assumes "sim_safe ids s" "i \<in> set ids" "fire_timer i s = (r, s')"
  shows "sim_safe ids s'"
proof -
  let ?s1 = "s\<lparr>sim_clock := max (sim_clock s) (next_event_due (node_at s i))\<rparr>"
  have "s' = absorb i (snd (tick (sim_clock ?s1) (node_at ?s1 i))) ?s1"
    using assms(3) by (auto simp: fire_timer_def Let_def node_at_def split: prod.splits sum.splits)
  then show ?thesis
    using sim_safe_op [OF sim_safe_clock [OF assms(1)] assms(2) step_tick] by simp
qed

lemma sim_safe_deliver:
  assumes safe: "sim_safe ids s" and q: "sim_queue s = ev # q" and "deliver ev (s\<lparr>sim_queue := q\<rparr>) = (r, s')"
  shows "sim_safe ids s'"
proof -
  obtain due sq dest m where ev: "ev = (due, sq, dest, m)" by (cases ev)
  let ?s1 = "s\<lparr>sim_queue := q, sim_clock := max (sim_clock s) due\<rparr>"
  obtain N B where c: "cluster_inv ids \<lparr>nodes = node_at s, net = N, ballots = B\<rparr>" "addressed ` set (sim_queue s) \<subseteq> N"
    using safe by (auto simp: sim_safe_def)
  then have N: "(dest, m) \<in> N" "addressed ` set q \<subseteq> N" by (auto simp: q ev)
  have at: "node_at ?s1 = node_at s" by (simp add: node_at_def [abs_def])
  have safe1: "sim_safe ids ?s1"
    using safe c(1) N(2) by (auto simp: sim_safe_def at)
  have "s' = ?s1 \<or> (dest \<in> set ids \<and> s' = absorb dest (snd (handle (sim_clock ?s1) m (node_at ?s1 dest))) ?s1)"
    using assms(3) safe by (auto simp: deliver_def ev Let_def sim_safe_def node_at_def split: prod.splits sum.splits if_splits)
  then show ?thesis
    using safe1 sim_safe_handle [OF safe1 _ N(1), of B] N(2) c(1) at by auto
qed

lemma sim_safe_step:
  assumes safe: "sim_safe ids s" and "sim_step s = (r, s')"
  shows "sim_safe ids s'"
proof -
  consider (idle) "s' = s" | (timer) i where "i \<in> set (live_nodes s)" "fire_timer i s = (r, s')"
    | (message) ev q where "heappop (sim_queue s) = Some (ev, q)" "deliver ev (s\<lparr>sim_queue := q\<rparr>) = (r, s')"
    using assms(2) first_min_mem [of "\<lambda>i. next_event_due (node_at s i)"]
    by (auto simp: sim_step_def Let_def split: list.splits option.splits prod.splits if_splits)
  then show ?thesis
  proof cases
    case timer
    then show ?thesis using safe by (intro sim_safe_timer [OF safe _ timer(2)]) (auto simp: live_nodes_def sim_safe_def)
  next
    case message
    then show ?thesis by (intro sim_safe_deliver [OF safe _ message(2)]) (auto simp: heappop_def split: list.splits)
  qed (simp add: safe)
qed

lemma sim_init_safe:
  assumes "distinct ids" "0 \<le> lat" "sim_init ids rngs timeouts hb lat dir False = (Inr (), s)"
  shows "sim_safe ids s" "queue_ok s"
proof -
  note b = build_all_fresh [OF assms(3) [unfolded sim_init_def], of ids]
  have s: "sim_queue s = []" "sim_ids s = ids" "latency_ms s = lat" "plain_params (sim_params s)"
      "dom (map_of (sim_nodes s)) = set ids" "\<forall>j \<in> set ids. fresh_node ids j 0 None raft_log_init (node_at s j)"
    using b assms(1) by (auto simp: plain_params_def default_params_def)
  then have "cluster_inv ids \<lparr>nodes = node_at s, net = {}, ballots = {}\<rparr>"
    using assms(1) by (intro cluster_inv_init) simp_all
  with s show "sim_safe ids s" by (auto simp: sim_safe_def)
  show "queue_ok s" using s assms(2) by (simp add: queue_ok_def in_order_def)
qed

lemma sim_reach_safe: "sim_reach ids s \<Longrightarrow> sim_safe ids s"
proof (induction rule: sim_reach.induct)
  case (proposed s i payload r s')
  have "election_step None n (snd (propose (sim_clock s) payload n))" for n
    using proposed.hyps(3) by (intro step_of_calm calm_propose)
  from sim_safe_op [OF proposed.IH proposed.hyps(2) this] proposed.hyps(4) show ?case
    by (auto simp: sim_propose_def split: prod.splits)
qed (auto intro: sim_init_safe sim_safe_step sim_safe_restart sim_safe_faults
    simp: crash_node_def partition_nodes_def heal_nodes_def)

lemma queue_ok_cong:
  "queue_ok s \<Longrightarrow> sim_queue s' = sim_queue s \<Longrightarrow> sim_clock s' = sim_clock s \<Longrightarrow> latency_ms s' = latency_ms s
    \<Longrightarrow> sim_seq s' = sim_seq s \<Longrightarrow> queue_ok s'"
  by (simp add: queue_ok_def)

lemma restart_queue:
  assumes "queue_ok s" "restart_node i s = (r, s')"
  shows "queue_ok s'"
proof -
  let ?s1 = "s\<lparr>crashed := crashed s - {i}, sim_built := sim_built s + 1\<rparr>"
  have s1: "queue_ok ?s1" "queue_ok (s\<lparr>crashed := crashed s - {i}\<rparr>)"
    using assms(1) by (simp_all add: queue_ok_def)
  have "s' = s\<lparr>crashed := crashed s - {i}\<rparr> \<or> s' = ?s1 \<or> (\<exists>n. s' = absorb i n ?s1)"
    using assms(2) by (auto simp: restart_node_def build_node_def Let_def split: prod.splits sum.splits option.splits)
  with s1 queue_ok_absorb [OF s1(1)] show ?thesis by auto
qed

lemma sim_reach_queue: "sim_reach ids s \<Longrightarrow> queue_ok s"
proof (induction rule: sim_reach.induct)
  case (stepped s r s')
  then show ?case using sim_step_queue by blast
next
  case (proposed s i payload r s')
  then show ?case using queue_ok_absorb by (auto simp: sim_propose_def split: prod.splits)
qed (auto intro: sim_init_safe restart_queue queue_ok_cong simp: crash_node_def partition_nodes_def heal_nodes_def)

section \<open>A sample run\<close>

definition trio :: "ustr list" where
  "trio = [[97], [98], [99]]"

definition trio_start :: sim where
  "trio_start = snd (sim_init trio (\<lambda>k _. of_nat k / 4) (150, 300) 50 5 False False)"

primrec run_steps :: "nat \<Rightarrow> sim \<Rightarrow> sim" where
  "run_steps 0 s = s"
| "run_steps (Suc k) s = snd (sim_step (run_steps k s))"

lemma trio_starts: "sim_init trio (\<lambda>k _. of_nat k / 4) (150, 300) 50 5 False False = (Inr (), trio_start)"
  unfolding trio_start_def by (rule prod_eqI) (simp, code_simp, simp)

lemma trio_start_reached: "sim_reach trio trio_start"
  by (rule sim_reach.started [OF _ _ trio_starts]) (simp_all add: trio_def)

lemma run_steps_reached: "sim_reach ids s \<Longrightarrow> sim_reach ids (run_steps k s)"
  by (induction k) (auto intro: sim_reach.stepped [OF _ surjective_pairing])

definition sim_view where
  "sim_view s = (map (\<lambda>(i, n). (i, node_role n, cur_term n, commit_index n, last_index (rlog n))) (sim_nodes s),
     map (\<lambda>e. fst (snd e)) (sim_queue s), sim_leader s)"

lemma elected_view:
  "sim_view (run_steps 4 trio_start) =
     ([([97], LEADER, 1, 0, 1), ([98], FOLLOWER, 1, 0, 0), ([99], FOLLOWER, 1, 0, 0)], [4, 5, 6, 7, 8], Some [97])"
  by code_simp

lemma elected_nodes:
  obtains a b c where "sim_nodes (run_steps 4 trio_start) = [([97], a), ([98], b), ([99], c)]"
    "node_role a = LEADER" "cur_term a = 1" "commit_index a = 0" "last_index (rlog a) = 1"
    "last_index (rlog b) = 0" "last_index (rlog c) = 0"
  using elected_view by (auto simp: sim_view_def map_eq_Cons_conv)

section \<open>Properties\<close>

text \<open>
  C35. In every state the simulator can reach, by timers, deliveries, proposals, crashes, restarts,
  partitions and heals, no two nodes lead in the same term.
\<close>

theorem sim_election_safety:
  assumes "sim_reach ids s"
    and "map_of (sim_nodes s) i = Some a" "node_role a = LEADER"
    and "map_of (sim_nodes s) j = Some b" "node_role b = LEADER"
    and "cur_term a = cur_term b"
  shows "i = j"
proof -
  obtain N B where c: "cluster_inv ids \<lparr>nodes = node_at s, net = N, ballots = B\<rparr>"
      "dom (map_of (sim_nodes s)) = set ids"
    using sim_reach_safe [OF assms(1)] by (auto simp: sim_safe_def)
  moreover have "i \<in> set ids" "j \<in> set ids"
    using c(2) assms(2,4) by auto
  ultimately show ?thesis
    using assms by (intro one_leader [OF c(1)]) (simp_all add: node_at_def)
qed

theorem sim_election_safety_witness:
  "sim_leader (run_steps 4 trio_start) = Some [97]
   \<and> list_all (\<lambda>(j, b). j = [97] \<or> \<not> (node_role b = LEADER \<and> cur_term b = 1)) (sim_nodes (run_steps 4 trio_start))"
proof -
  obtain a b c where n: "sim_nodes (run_steps 4 trio_start) = [([97], a), ([98], b), ([99], c)]"
    "node_role a = LEADER" "cur_term a = 1"
    by (rule elected_nodes)
  then have "j = [97]" if "map_of (sim_nodes (run_steps 4 trio_start)) j = Some x" "node_role x = LEADER" "cur_term x = 1" for j x
    using sim_election_safety [OF run_steps_reached [OF trio_start_reached] that(1,2), of "[97]" a] that(3) by simp
  from this [of "[98]" b] this [of "[99]" c]
  have "\<not> (node_role b = LEADER \<and> cur_term b = 1)" "\<not> (node_role c = LEADER \<and> cur_term c = 1)"
    unfolding n(1) by auto
  then have "list_all (\<lambda>(j, b). j = [97] \<or> \<not> (node_role b = LEADER \<and> cur_term b = 1)) (sim_nodes (run_steps 4 trio_start))"
    unfolding n(1) by simp
  moreover have "sim_leader (run_steps 4 trio_start) = Some [97]"
    using elected_view unfolding sim_view_def by simp
  ultimately show ?thesis by blast
qed

text \<open>
  In every reachable state the messages in flight wait in the order in which they were sent, with
  strictly increasing sequence numbers, and a step never turns the clock back; it delivers nothing or
  the oldest message, and appends what was sent at the end.
\<close>

theorem sim_delivers_in_order:
  assumes "sim_reach ids s" "sim_step s = (r, s')"
  shows "sorted_wrt (<) (map (\<lambda>e. fst (snd e)) (sim_queue s)) \<and> sim_clock s \<le> sim_clock s'
    \<and> (\<exists>sent. sim_queue s' = sim_queue s @ sent \<or> (sim_queue s \<noteq> [] \<and> sim_queue s' = tl (sim_queue s) @ sent))"
  using sim_step_queue [OF _ assms(2)] sim_reach_queue [OF assms(1)] by (auto simp: queue_ok_def)

theorem sim_delivers_in_order_witness:
  "map (\<lambda>e. fst (snd e)) (sim_queue (run_steps 4 trio_start)) = [4, 5, 6, 7, 8]
   \<and> sorted_wrt (<) (map (\<lambda>e. fst (snd e)) (sim_queue (run_steps 4 trio_start)))
   \<and> sim_clock (run_steps 4 trio_start) \<le> sim_clock (run_steps 5 trio_start)"
proof -
  have "map (\<lambda>e. fst (snd e)) (sim_queue (run_steps 4 trio_start)) = [4, 5, 6, 7, 8]"
    using elected_view by (simp add: sim_view_def)
  moreover have "sim_step (run_steps 4 trio_start) = (fst (sim_step (run_steps 4 trio_start)), run_steps 5 trio_start)"
    by (simp add: numeral_eq_Suc)
  ultimately show ?thesis
    using sim_delivers_in_order [OF run_steps_reached [OF trio_start_reached, of 4]] by blast
qed

text \<open>
  Faults take effect: a step leaves a crashed node as it is, and a message between the two sides of
  a partition is taken from the queue and changes no node.
\<close>

theorem faults_take_effect:
  assumes "sim_step s = (r, s')"
  shows "(i \<in> crashed s \<longrightarrow> map_of (sim_nodes s') i = map_of (sim_nodes s) i)
    \<and> (source_of m = Some src \<and> truthy (Some src) \<longrightarrow>
        deliver (due, sq, dest, m) (partition_nodes src dest t)
          = (Inr True, (partition_nodes src dest t)\<lparr>sim_clock := max (sim_clock t) due\<rparr>))"
proof -
  have "map_of (sim_nodes s') i = map_of (sim_nodes s) i" if crashed: "i \<in> crashed s"
  proof -
    consider (idle) "s' = s" | (timer) j where "j \<in> set (live_nodes s)" "fire_timer j s = (r, s')"
      | (message) ev q where "heappop (sim_queue s) = Some (ev, q)" "deliver ev (s\<lparr>sim_queue := q\<rparr>) = (r, s')"
      using assms first_min_mem [of "\<lambda>i. next_event_due (node_at s i)"]
      by (auto simp: sim_step_def Let_def split: list.splits option.splits prod.splits if_splits)
    then show ?thesis
    proof cases
      case timer
      then show ?thesis
        using crashed by (auto simp: fire_timer_def Let_def absorb_fields live_nodes_def split: prod.splits sum.splits)
    next
      case message
      then show ?thesis
        using crashed by (auto simp: deliver_def Let_def absorb_fields split: prod.splits sum.splits if_splits)
    qed simp
  qed
  moreover have "deliver (due, sq, dest, m) (partition_nodes src dest t)
      = (Inr True, (partition_nodes src dest t)\<lparr>sim_clock := max (sim_clock t) due\<rparr>)"
    if "source_of m = Some src" "truthy (Some src)"
    using that by (simp add: deliver_def cut_off_def partition_nodes_def Let_def)
  ultimately show ?thesis by blast
qed

text \<open>
  A restarted node takes its whole log as committed: an entry that no other node holds, appended by a
  leader and never replicated, counts as committed after a restart of that leader.
\<close>

theorem restart_commits_whole_log:
  assumes "map_of (sim_nodes s) i = Some old" "restart_node i s = (Inr (), s')"
  shows "commit_index (node_at s' i) = last_index (rlog old)"
proof -
  obtain n s1 where b: "build_node i (state_file (persister old)) (rlog old) (s\<lparr>crashed := crashed s - {i}\<rparr>) = (Inr n, s1)"
    and s': "s' = absorb i (n\<lparr>persister := (persister n)\<lparr>current_term := current_term (persister old),
      voted_for := voted_for (persister old)\<rparr>\<rparr>) s1"
    using assms(1,2) by (auto simp: restart_node_def Let_def split: prod.splits sum.splits)
  obtain n0 where n0: "apply_committed (sim_clock s) (n0\<lparr>rlog := rlog old, commit_index := last_index (rlog old),
      applied_index := 0\<rparr>) = (Inr (), n)"
    using b by (auto simp: build_node_def Let_def split: prod.splits sum.splits)
  have "commit_index n = last_index (rlog old)"
    using apply_committed_commit [of "sim_clock s"
        "n0\<lparr>rlog := rlog old, commit_index := last_index (rlog old), applied_index := 0\<rparr>"] n0 by simp
  then show ?thesis by (simp add: s' node_at_absorb)
qed

text \<open>The leader of the sample run goes down while the first entry of its term is still on its way to the others.\<close>

definition lone_state :: sim where
  "lone_state = crash_node [97] (run_steps 4 trio_start)"

lemma lone_nodes: "sim_nodes lone_state = sim_nodes (run_steps 4 trio_start)"
  by (simp add: lone_state_def crash_node_def)

theorem faults_take_effect_witness:
  "map_option node_role (map_of (sim_nodes (snd (sim_step lone_state))) [97]) = Some LEADER"
proof -
  have "[97] \<in> crashed lone_state" by (simp add: lone_state_def crash_node_def)
  then have "map_of (sim_nodes (snd (sim_step lone_state))) [97] = map_of (sim_nodes lone_state) [97]"
    using faults_take_effect [of lone_state _ _ "[97]", OF surjective_pairing] by blast
  then show ?thesis by - (rule elected_nodes, simp add: lone_nodes)
qed

theorem restart_commits_whole_log_witness:
  "commit_index (node_at lone_state [97]) = 0
   \<and> last_index (rlog (node_at lone_state [98])) = 0 \<and> last_index (rlog (node_at lone_state [99])) = 0
   \<and> commit_index (node_at (snd (restart_node [97] lone_state)) [97]) = 1"
proof -
  have ok: "restart_node [97] lone_state = (Inr (), snd (restart_node [97] lone_state))"
    by (rule prod_eqI) (simp, code_simp, simp)
  obtain a b c where n: "sim_nodes lone_state = [([97], a), ([98], b), ([99], c)]" "commit_index a = 0"
    "last_index (rlog a) = 1" "last_index (rlog b) = 0" "last_index (rlog c) = 0"
    unfolding lone_nodes by (rule elected_nodes)
  with restart_commits_whole_log [OF _ ok, of a] show ?thesis
    by (simp add: node_at_def)
qed

section \<open>How the loops end\<close>

lemma run_steps_first: "run_steps (Suc k) s = run_steps k (snd (sim_step s))"
  by (induction k) simp_all

text \<open>
  The first \<open>k\<close> steps of \<^verbatim>\<open>run_for\<close> and of \<^verbatim>\<open>run_until\<close>: each was taken because the loop had not ended before it, had
  something to do, and in the second case did not exceed the time limit.
\<close>

definition for_steps :: "rat \<Rightarrow> sim \<Rightarrow> nat \<Rightarrow> bool" where
  "for_steps until s k \<longleftrightarrow> (\<forall>j < k. sim_clock (run_steps j s) < until \<and> fst (sim_step (run_steps j s)) = Inr True)"

definition until_steps :: "(sim \<Rightarrow> bool) \<Rightarrow> rat \<Rightarrow> sim \<Rightarrow> nat \<Rightarrow> bool" where
  "until_steps goal limit s k \<longleftrightarrow> (\<forall>j < k. \<not> goal (run_steps j s) \<and> fst (sim_step (run_steps j s)) = Inr True
     \<and> sim_clock (run_steps (Suc j) s) \<le> limit)"

lemma for_steps_first:
  "for_steps until s (Suc k) \<longleftrightarrow> sim_clock s < until \<and> fst (sim_step s) = Inr True \<and> for_steps until (snd (sim_step s)) k"
  by (simp add: for_steps_def All_less_Suc2 run_steps_first del: run_steps.simps(2))

lemma until_steps_first:
  "until_steps goal limit s (Suc k) \<longleftrightarrow> \<not> goal s \<and> fst (sim_step s) = Inr True \<and> sim_clock (snd (sim_step s)) \<le> limit
     \<and> until_steps goal limit (snd (sim_step s)) k"
  by (simp add: until_steps_def All_less_Suc2 run_steps_first del: run_steps.simps(2))

text \<open>How a run may have ended: on time or idle, or with the exception of a step.\<close>

definition for_ended :: "rat \<Rightarrow> sim \<Rightarrow> (sim, unit) outcome \<Rightarrow> bool" where
  "for_ended until s y \<longleftrightarrow> (\<exists>k. for_steps until s k
     \<and> (case fst y of
          Inr _ \<Rightarrow> snd y = run_steps k s \<and> (until \<le> sim_clock (snd y) \<or> fst (sim_step (snd y)) = Inr False)
        | Inl e \<Rightarrow> sim_clock (run_steps k s) < until \<and> sim_step (run_steps k s) = (Inl e, snd y)))"

text \<open>
  Or, when there is a goal: at the goal, idle before the goal, with the exception of a step, or with the time limit exceeded by the
  last step.
\<close>

definition until_ended :: "(sim \<Rightarrow> bool) \<Rightarrow> rat \<Rightarrow> sim \<Rightarrow> (sim, bool) outcome \<Rightarrow> bool" where
  "until_ended goal limit s y \<longleftrightarrow> (\<exists>k. until_steps goal limit s k
     \<and> (case fst y of
          Inr True \<Rightarrow> snd y = run_steps k s \<and> goal (snd y)
        | Inr False \<Rightarrow> snd y = run_steps k s \<and> \<not> goal (snd y) \<and> fst (sim_step (snd y)) = Inr False
        | Inl e \<Rightarrow> \<not> goal (run_steps k s) \<and> (sim_step (run_steps k s) = (Inl e, snd y)
            \<or> e = TimeoutError \<and> sim_step (run_steps k s) = (Inr True, snd y) \<and> limit < sim_clock (snd y))))"

lemma for_ended_step:
  assumes "for_ended until (snd (sim_step s)) y" "sim_clock s < until" "fst (sim_step s) = Inr True"
  shows "for_ended until s y"
proof -
  obtain k where k: "for_steps until (snd (sim_step s)) k" "case fst y of
      Inr _ \<Rightarrow> snd y = run_steps (Suc k) s \<and> (until \<le> sim_clock (snd y) \<or> fst (sim_step (snd y)) = Inr False)
    | Inl e \<Rightarrow> sim_clock (run_steps (Suc k) s) < until \<and> sim_step (run_steps (Suc k) s) = (Inl e, snd y)"
    using assms(1) unfolding for_ended_def run_steps_first by blast
  moreover have "for_steps until s (Suc k)"
    using assms(2,3) k(1) by (simp add: for_steps_first)
  ultimately show ?thesis unfolding for_ended_def by blast
qed

lemma until_ended_step:
  assumes "until_ended goal limit (snd (sim_step s)) y" "\<not> goal s" "fst (sim_step s) = Inr True"
    and "sim_clock (snd (sim_step s)) \<le> limit"
  shows "until_ended goal limit s y"
proof -
  obtain k where k: "until_steps goal limit (snd (sim_step s)) k" "case fst y of
      Inr True \<Rightarrow> snd y = run_steps (Suc k) s \<and> goal (snd y)
    | Inr False \<Rightarrow> snd y = run_steps (Suc k) s \<and> \<not> goal (snd y) \<and> fst (sim_step (snd y)) = Inr False
    | Inl e \<Rightarrow> \<not> goal (run_steps (Suc k) s) \<and> (sim_step (run_steps (Suc k) s) = (Inl e, snd y)
        \<or> e = TimeoutError \<and> sim_step (run_steps (Suc k) s) = (Inr True, snd y) \<and> limit < sim_clock (snd y))"
    using assms(1) unfolding until_ended_def run_steps_first by blast
  moreover have "until_steps goal limit s (Suc k)"
    using assms(2-4) k(1) by (simp add: until_steps_first)
  ultimately show ?thesis unfolding until_ended_def by blast
qed

lemma for_ended_now:
  "until \<le> sim_clock s \<Longrightarrow> for_ended until s (Inr u, s)"
  "sim_clock s < until \<Longrightarrow> sim_step s = (Inr False, s1) \<Longrightarrow> for_ended until s (Inr u, s1)"
  "sim_clock s < until \<Longrightarrow> sim_step s = (Inl e, s1) \<Longrightarrow> for_ended until s (Inl e, s1)"
  unfolding for_ended_def using sim_step_idle [of s s1] by (auto intro!: exI [of _ 0] simp: for_steps_def)

lemma until_ended_now:
  "goal s \<Longrightarrow> until_ended goal limit s (Inr True, s)"
  "\<not> goal s \<Longrightarrow> sim_step s = (Inr False, s1) \<Longrightarrow> until_ended goal limit s (Inr False, s1)"
  "\<not> goal s \<Longrightarrow> sim_step s = (Inl e, s1) \<Longrightarrow> until_ended goal limit s (Inl e, s1)"
  "\<not> goal s \<Longrightarrow> sim_step s = (Inr True, s1) \<Longrightarrow> limit < sim_clock s1 \<Longrightarrow> until_ended goal limit s (Inl TimeoutError, s1)"
  unfolding until_ended_def using sim_step_idle [of s s1] by (auto intro!: exI [of _ 0] simp: until_steps_def)

lemma for_loop_ended:
  assumes "for_loop until s = Some y"
  shows "for_ended until s y"
proof (rule for_loop.raw_induct [OF _ assms])
  fix loop :: "rat \<Rightarrow> sim \<Rightarrow> ((sim, unit) outcome) option" and until :: rat and s y
  assume ih: "\<And>until s y. loop until s = Some y \<Longrightarrow> for_ended until s y"
    and body: "(if \<not> sim_clock s < until then Some (Inr (), s)
       else case sim_step s of (Inl e, s1) \<Rightarrow> Some (Inl e, s1)
         | (Inr go, s1) \<Rightarrow> if \<not> go then Some (Inr (), s1) else loop until s1) = Some y"
  obtain r s1 where r: "sim_step s = (r, s1)" by fastforce
  consider "\<not> sim_clock s < until" | e where "sim_clock s < until" "r = Inl e"
    | "sim_clock s < until" "r = Inr False" | "sim_clock s < until" "r = Inr True"
    by (cases r) auto
  then show "for_ended until s y"
    using body r ih [of until s1 y] for_ended_step [of until s y] by cases (auto intro: for_ended_now)
qed

lemma until_loop_ended:
  assumes "until_loop goal max_ms start s = Some y"
  shows "until_ended goal (start + max_ms) s y"
proof (rule until_loop.raw_induct [OF _ assms])
  fix loop :: "(sim \<Rightarrow> bool) \<Rightarrow> rat \<Rightarrow> rat \<Rightarrow> sim \<Rightarrow> ((sim, bool) outcome) option"
    and goal :: "sim \<Rightarrow> bool" and max_ms start :: rat and s y
  assume ih: "\<And>goal max_ms start s y. loop goal max_ms start s = Some y \<Longrightarrow> until_ended goal (start + max_ms) s y"
    and body: "(if goal s then Some (Inr True, s)
       else case sim_step s of (Inl e, s1) \<Rightarrow> Some (Inl e, s1)
         | (Inr go, s1) \<Rightarrow> if \<not> go then Some (Inr False, s1)
             else if max_ms < sim_clock s1 - start then Some (Inl TimeoutError, s1)
             else loop goal max_ms start s1) = Some y"
  obtain r s1 where r: "sim_step s = (r, s1)" by fastforce
  consider "goal s" | e where "\<not> goal s" "r = Inl e" | "\<not> goal s" "r = Inr False"
    | "\<not> goal s" "r = Inr True" "start + max_ms < sim_clock s1" | "\<not> goal s" "r = Inr True" "sim_clock s1 \<le> start + max_ms"
    by (cases r; cases "start + max_ms < sim_clock s1") (auto simp: not_less)
  then show "until_ended goal (start + max_ms) s y"
    using body r ih [of goal max_ms start s1 y] until_ended_step [of goal "start + max_ms" s y]
    by cases (auto intro: until_ended_now simp: less_diff_eq algebra_simps)
qed

text \<open>
  C25. The loops of the simulator end, and only where they should: in every state a simulation reaches, with PreVote or
  without it and after any faults and proposals, running for a time takes steps only while the clock is below the end and
  returns when the clock has reached it or nothing is left to happen. Running until a goal takes steps only while the goal does not
  hold and the clock is within the limit, and returns \<^verbatim>\<open>True\<close> in the first state with the goal, \<^verbatim>\<open>False\<close> when nothing is left to
  happen, or raises the timeout exactly when a step has moved the clock past the limit. Any other exception is one
  that a step raises.
\<close>

theorem simulation_ends:
  assumes "live_reach s"
  shows "(\<exists>y. run_for ms s = Some y \<and> for_ended (sim_clock s + ms) s y)
    \<and> (\<exists>z. run_until goal max_ms s = Some z \<and> until_ended goal (sim_clock s + max_ms) s z)"
proof -
  obtain d where d: "sim_paced d s" "has_nodes s" using live_reach_paced [OF assms] by blast
  obtain y z where "for_loop (sim_clock s + ms) s = Some y" "until_loop goal max_ms (sim_clock s) s = Some z"
    using for_loop_returns [OF d] until_loop_returns [OF d] by blast
  then show ?thesis
    using for_loop_ended until_loop_ended by (auto simp: run_for_def run_until_def)
qed

lemma trio_start_live: "live_reach trio_start"
proof (rule live_reach.started)
  show "sim_init trio (\<lambda>k _. of_nat k / 4) (150, 300) 50 5 False False = (Inr (), trio_start)"
    by (rule trio_starts)
qed simp_all

theorem simulation_ends_witness:
  "(\<exists>y. run_for 1000 trio_start = Some y \<and> for_ended (sim_clock trio_start + 1000) trio_start y)
   \<and> (\<exists>z. run_until (\<lambda>s. sim_leader s \<noteq> None) 30000 trio_start = Some z
        \<and> until_ended (\<lambda>s. sim_leader s \<noteq> None) (sim_clock trio_start + 30000) trio_start z)"
  by (rule simulation_ends [OF trio_start_live])

end
