(* ===== verification/Metrics.thy ===== *)
theory Metrics
  imports Complex_Main "HOL-Library.Sublist" Json
begin

text \<open>
  The class \<^verbatim>\<open>Metrics\<close> of \<^verbatim>\<open>pylog/metrics.py\<close>: counters, gauges and windows of observed values. Numbers
  are rationals, the clock is an argument, and the lock has no counterpart: every method runs as a
  whole. The text for Prometheus is the list of its lines, a line being a declaration of a type or a
  name with a number, which leaves out how numbers are printed.
\<close>

section \<open>Operations\<close>

record metrics =
  counters :: "(ustr \<times> rat) list"
  hist :: "(ustr \<times> rat list) list"
  gauges :: "(ustr \<times> rat) list"
  metrics_start :: rat

definition metrics_init :: "rat \<Rightarrow> metrics" where
  "metrics_init now = \<lparr>counters = [], hist = [], gauges = [], metrics_start = now\<rparr>"

definition inc :: "ustr \<Rightarrow> rat \<Rightarrow> metrics \<Rightarrow> metrics" where
  "inc name value m =
     m\<lparr>counters := dict_put name ((case map_of (counters m) name of None \<Rightarrow> 0 | Some v \<Rightarrow> v) + value) (counters m)\<rparr>"

definition observe :: "ustr \<Rightarrow> rat \<Rightarrow> metrics \<Rightarrow> metrics" where
  "observe name value m =
     (let lst = (case map_of (hist m) name of None \<Rightarrow> [] | Some l \<Rightarrow> l) @ [value];
          lst' = (if length lst > 2048 then drop (length lst - 1024) lst else lst)
      in m\<lparr>hist := dict_put name lst' (hist m)\<rparr>)"

definition set_gauge :: "ustr \<Rightarrow> rat \<Rightarrow> metrics \<Rightarrow> metrics" where
  "set_gauge name value m = m\<lparr>gauges := dict_put name value (gauges m)\<rparr>"

record metrics_snapshot =
  snap_counters :: "(ustr \<times> rat) list"
  snap_gauges :: "(ustr \<times> rat) list"
  snap_hist :: "(ustr \<times> rat list) list"
  uptime_sec :: rat

definition snapshot :: "rat \<Rightarrow> metrics \<Rightarrow> metrics_snapshot" where
  "snapshot now m = \<lparr>snap_counters = counters m, snap_gauges = gauges m, snap_hist = hist m,
     uptime_sec = now - metrics_start m\<rparr>"

datatype prom_line = Type_line ustr string | Value_line ustr rat

definition metric_lines :: "string \<Rightarrow> ustr \<times> rat \<Rightarrow> prom_line list" where
  "metric_lines kind kv = [Type_line (fst kv) kind, Value_line (fst kv) (snd kv)]"

definition hist_p50 :: "rat list \<Rightarrow> rat" where
  "hist_p50 vals = sort vals ! (length vals div 2)"

definition hist_p99 :: "rat list \<Rightarrow> rat" where
  "hist_p99 vals = (if length vals > 1 then sort vals ! (99 * length vals div 100) else sort vals ! 0)"

definition hist_avg :: "rat list \<Rightarrow> rat" where
  "hist_avg vals = sum_list (sort vals) / of_nat (length vals)"

definition hist_lines :: "ustr \<times> rat list \<Rightarrow> prom_line list" where
  "hist_lines kv =
     (let (k, vals) = kv in
      if vals = [] then []
      else metric_lines ''gauge'' (k @ ascii ''_avg'', hist_avg vals)
         @ metric_lines ''gauge'' (k @ ascii ''_p50'', hist_p50 vals)
         @ metric_lines ''gauge'' (k @ ascii ''_p99'', hist_p99 vals))"

definition prometheus :: "rat \<Rightarrow> metrics \<Rightarrow> prom_line list" where
  "prometheus now m =
     (let snap = snapshot now m in
      concat (map (metric_lines ''counter'') (snap_counters snap))
      @ concat (map (metric_lines ''gauge'') (snap_gauges snap))
      @ concat (map hist_lines (snap_hist snap))
      @ [Value_line (ascii ''pylog_uptime_sec'') (uptime_sec snap)])"

section \<open>Windows\<close>

datatype metric_op = Inc ustr rat | Observe ustr rat | Set_gauge ustr rat

fun metric_step :: "metric_op \<Rightarrow> metrics \<Rightarrow> metrics" where
  "metric_step (Inc k v) m = inc k v m"
| "metric_step (Observe k v) m = observe k v m"
| "metric_step (Set_gauge k v) m = set_gauge k v m"

text \<open>All values that were ever observed under a name.\<close>

fun observed :: "ustr \<Rightarrow> metric_op list \<Rightarrow> rat list" where
  "observed k [] = []"
| "observed k (Observe j v # ops) = (if j = k then v # observed k ops else observed k ops)"
| "observed k (_ # ops) = observed k ops"

definition window :: "ustr \<Rightarrow> metrics \<Rightarrow> rat list" where
  "window k m = (case map_of (hist m) k of None \<Rightarrow> [] | Some l \<Rightarrow> l)"

lemma window_step:
  "window k (metric_step oper m) =
     (let w = window k m @ observed k [oper] in if length w > 2048 \<and> observed k [oper] \<noteq> [] then drop (length w - 1024) w else w)"
  by (cases oper) (auto simp: window_def inc_def observe_def set_gauge_def dict_put_map_of Let_def)

lemma observed_append: "observed k (xs @ ys) = observed k xs @ observed k ys"
  by (induction k xs rule: observed.induct) auto

lemma observed_one: "observed k [oper] = [] \<or> length (observed k [oper]) = 1"
  by (cases oper) auto

text \<open>The window is the end of what was observed, at most 2048 values and at least the last 1024.\<close>

definition window_of :: "rat list \<Rightarrow> rat list \<Rightarrow> bool" where
  "window_of all w \<longleftrightarrow> suffix w all \<and> length w \<le> 2048 \<and> min 1024 (length all) \<le> length w"

lemma window_of_step:
  assumes "window_of all w" "new = [] \<or> length new = 1"
  shows "window_of (all @ new) (if length (w @ new) > 2048 \<and> new \<noteq> [] then drop (length (w @ new) - 1024) (w @ new) else w @ new)"
proof -
  have s: "suffix (w @ new) (all @ new)" using assms(1) by (simp add: window_of_def)
  then have "suffix (drop (length (w @ new) - 1024) (w @ new)) (all @ new)"
    using suffix_drop suffix_order.trans by blast
  with s assms show ?thesis by (auto simp: window_of_def)
qed

lemma window_of_run: "window_of (observed k ops) (window k (fold metric_step ops (metrics_init now)))"
proof (induction ops rule: rev_induct)
  case Nil
  then show ?case by (simp add: window_of_def window_def metrics_init_def)
next
  case (snoc oper ops)
  from window_of_step [OF snoc observed_one [of k oper]] show ?case
    by (simp add: window_step observed_append Let_def)
qed

section \<open>Quantiles\<close>

lemma sorted_pick:
  assumes "i < length xs"
  shows "sort xs ! i \<in> set xs"
  using assms nth_mem [of i "sort xs"] by simp

lemma quantiles_in_window:
  assumes "vals \<noteq> []"
  shows "hist_p50 vals \<in> set vals" "hist_p99 vals \<in> set vals" "hist_p50 vals \<le> hist_p99 vals"
proof -
  have n: "0 < length vals" using assms by simp
  have i: "length vals div 2 < length vals" "99 * length vals div 100 < length vals"
    using n by (simp_all add: div_less_iff_less_mult)
  show "hist_p50 vals \<in> set vals" "hist_p99 vals \<in> set vals"
    using sorted_pick [OF i(1)] sorted_pick [OF i(2)] sorted_pick [OF n] by (simp_all add: hist_p50_def hist_p99_def)
  show "hist_p50 vals \<le> hist_p99 vals"
  proof (cases "length vals > 1")
    case True
    then have "length vals div 2 \<le> 99 * length vals div 100" by linarith
    then show ?thesis
      using sorted_nth_mono [OF sorted_sort, of "length vals div 2" "99 * length vals div 100" vals] i True
      by (simp add: hist_p50_def hist_p99_def)
  next
    case False
    then have "length vals = 1" using n by linarith
    then show ?thesis by (simp add: hist_p50_def hist_p99_def)
  qed
qed

text \<open>
  A value has rank \<open>i\<close> in a list when at most \<open>i\<close> elements are smaller and more than \<open>i\<close> are not greater; no two
  elements have the same rank.
\<close>

definition has_rank :: "nat \<Rightarrow> rat \<Rightarrow> rat list \<Rightarrow> bool" where
  "has_rank i v xs \<longleftrightarrow> v \<in> set xs \<and> length (filter (\<lambda>x. x < v) xs) \<le> i \<and> i < length (filter (\<lambda>x. x \<le> v) xs)"

lemma length_filter_sort: "length (filter P (sort xs)) = length (filter P xs)"
  by (simp add: filter_sort)

lemma has_rank_sort: "has_rank i v (sort xs) \<longleftrightarrow> has_rank i v xs"
  by (simp add: has_rank_def length_filter_sort)

lemma sorted_rank:
  assumes "sorted ys" "i < length ys"
  shows "has_rank i (ys ! i) ys"
proof -
  have "{j. j < length ys \<and> ys ! j < ys ! i} \<subseteq> {..<i}"
    using assms sorted_nth_mono [OF assms(1), of i] by (auto simp: not_less [symmetric])
  then have "length (filter (\<lambda>x. x < ys ! i) ys) \<le> i"
    using card_mono [of "{..<i}"] by (simp add: length_filter_conv_card)
  moreover have "{..i} \<subseteq> {j. j < length ys \<and> ys ! j \<le> ys ! i}"
    using assms sorted_nth_mono [OF assms(1)] by auto
  then have "Suc i \<le> length (filter (\<lambda>x. x \<le> ys ! i) ys)"
    using card_mono [of "{j. j < length ys \<and> ys ! j \<le> ys ! i}" "{..i}"] by (simp add: length_filter_conv_card)
  ultimately show ?thesis using assms(2) by (simp add: has_rank_def)
qed

lemma quantile_ranks:
  assumes "vals \<noteq> []"
  shows "has_rank (length vals div 2) (hist_p50 vals) vals" "has_rank (99 * length vals div 100) (hist_p99 vals) vals"
proof -
  have n: "0 < length vals" using assms by simp
  have i: "length vals div 2 < length vals" "99 * length vals div 100 < length vals"
    using n by (simp_all add: div_less_iff_less_mult)
  have rank: "has_rank i (sort vals ! i) vals" if "i < length vals" for i
    using sorted_rank [of "sort vals" i] that has_rank_sort by simp
  show "has_rank (length vals div 2) (hist_p50 vals) vals" using rank [OF i(1)] by (simp add: hist_p50_def)
  have "length vals > 1 \<or> 99 * length vals div 100 = 0" using n by linarith
  then show "has_rank (99 * length vals div 100) (hist_p99 vals) vals"
    using rank [OF i(2)] by (auto simp: hist_p99_def)
qed

lemma rank_unique: "has_rank i v xs \<Longrightarrow> has_rank i u xs \<Longrightarrow> v = u"
proof (rule ccontr)
  have less: False if "v < u" "has_rank i v xs" "has_rank i u xs" for u v
  proof -
    have "length (filter (\<lambda>x. x \<le> v) xs) \<le> length (filter (\<lambda>x. x < u) xs)"
      using that(1) by (induction xs) auto
    then show False using that(2,3) by (simp add: has_rank_def)
  qed
  assume "has_rank i v xs" "has_rank i u xs" "v \<noteq> u"
  then show False using less [of v u] less [of u v] by (auto simp: neq_iff)
qed

lemma sum_list_insort: "sum_list (insort x xs) = x + sum_list (xs :: rat list)"
  by (induction xs) simp_all

lemma sum_list_sort: "sum_list (sort xs) = sum_list (xs :: rat list)"
  by (induction xs) (simp_all add: sum_list_insort)

lemma average_sum: "vals \<noteq> [] \<Longrightarrow> of_nat (length vals) * hist_avg vals = sum_list vals"
  by (simp add: hist_avg_def sum_list_sort)

text \<open>The report has the lines of every window.\<close>

lemma window_reported:
  assumes "window k m \<noteq> []"
  shows "{Value_line (k @ ascii ''_avg'') (hist_avg (window k m)), Value_line (k @ ascii ''_p50'') (hist_p50 (window k m)),
      Value_line (k @ ascii ''_p99'') (hist_p99 (window k m))} \<subseteq> set (prometheus now m)"
proof -
  have "(k, window k m) \<in> set (hist m)"
    using assms by (auto simp: window_def split: option.splits dest: map_of_SomeD)
  moreover have "{Value_line (k @ ascii ''_avg'') (hist_avg (window k m)), Value_line (k @ ascii ''_p50'') (hist_p50 (window k m)),
      Value_line (k @ ascii ''_p99'') (hist_p99 (window k m))} \<subseteq> set (hist_lines (k, window k m))"
    using assms by (simp add: hist_lines_def metric_lines_def)
  ultimately show ?thesis
    by (fastforce simp: prometheus_def snapshot_def Let_def)
qed

lemma average_bounds:
  fixes vals :: "rat list"
  assumes "vals \<noteq> []" "\<forall>v \<in> set vals. lo \<le> v \<and> v \<le> hi"
  shows "lo \<le> hist_avg vals \<and> hist_avg vals \<le> hi"
proof -
  have "of_nat (length xs) * lo \<le> sum_list xs \<and> sum_list xs \<le> of_nat (length xs) * hi"
    if "\<forall>v \<in> set xs. lo \<le> v \<and> v \<le> hi" for xs
    using that by (induction xs) (auto simp: algebra_simps)
  from this [of "sort vals"] show ?thesis
    using assms by (simp add: hist_avg_def field_simps)
qed

end
