(* ===== verification/Gateway.thy ===== *)
theory Gateway
  imports Broker Metrics
begin

text \<open>
  The HTTP gateway of \<^verbatim>\<open>pylog/api.py\<close>: the two request handlers that \<^verbatim>\<open>make_handler\<close> builds around a
  broker. A request is the path and the parsed query (every value list of \<^verbatim>\<open>parse_qs\<close> has an element)
  or the path, the content length and the content. \<open>err_text\<close> is \<^verbatim>\<open>str\<close> of an exception. The page around the
  table of the dashboard is in \<open>Dashboard_Page\<close>; the sockets and the thread of the server are left out; requests run one after
  the other. A group or a key that is not a string is an exception when it is used.
\<close>

section \<open>Requests and replies\<close>

datatype reply =
    Json_reply nat json
  | Metrics_reply "prom_line list"
  | Snapshot_reply metrics_snapshot
  | Page_reply ustr

fun split_on :: "nat \<Rightarrow> ustr \<Rightarrow> ustr list" where
  "split_on c [] = [[]]"
| "split_on c (x # xs) =
     (case split_on c xs of
        [] \<Rightarrow> [[x]]
      | p # ps \<Rightarrow> if x = c then [] # p # ps else (x # p) # ps)"

definition path_parts :: "ustr \<Rightarrow> ustr list" where
  "path_parts path = filter (\<lambda>p. p \<noteq> []) (split_on 47 path)"

text \<open>The body that \<^verbatim>\<open>_json\<close> writes; its length is the announced content length.\<close>

definition json_body :: "json \<Rightarrow> bytes result" where
  "json_body obj = utf8_encode (dumps obj)"

definition error_json :: "ustr \<Rightarrow> json" where
  "error_json msg = JObj [(ascii ''error'', JStr msg)]"

definition not_found :: reply where
  "not_found = Json_reply 404 (error_json (ascii ''not found''))"

definition failed :: "(py_error \<Rightarrow> ustr) \<Rightarrow> py_error \<Rightarrow> reply" where
  "failed err_text e = Json_reply 400 (error_json (err_text e))"

section \<open>The dictionaries of the broker\<close>

definition topic_stats_fields :: "topic_stats \<Rightarrow> (ustr \<times> json) list" where
  "topic_stats_fields t =
     [(ascii ''partitions'', JInt (int (ts_partitions t))),
      (ascii ''high_watermarks'', JList (map JInt (ts_high_watermarks t))),
      (ascii ''size_bytes'', JInt (ts_size_bytes t))]"

definition stats_json :: "broker_stats \<Rightarrow> json" where
  "stats_json st =
     JObj [(ascii ''topics'', JObj (map (\<lambda>(n, t). (n, JObj (topic_stats_fields t))) (bs_topics st))),
           (ascii ''groups'', JList (map JStr (bs_groups st))),
           (ascii ''total_size_bytes'', JInt (bs_total_size_bytes st))]"

definition produced_json :: "produced \<Rightarrow> json" where
  "produced_json r =
     JObj [(ascii ''topic'', JStr (pr_topic r)), (ascii ''partition'', JInt (int (pr_partition r))),
           (ascii ''offset'', JInt (pr_offset r))]"

definition fetched_json :: "fetched \<Rightarrow> json" where
  "fetched_json f =
     JObj [(ascii ''offset'', JInt (f_offset f)), (ascii ''timestamp'', JInt (f_timestamp f)),
           (ascii ''payload'', JStr (f_payload f))]"

definition messages_json :: "fetched list \<Rightarrow> json" where
  "messages_json msgs = JObj [(ascii ''messages'', JList (map fetched_json msgs))]"

section \<open>The dashboard\<close>

definition int_list_repr :: "int list \<Rightarrow> ustr" where
  "int_list_repr xs = ascii ''['' @ commas [32] (map int_dec xs) @ ascii '']''"

definition dashboard_row :: "ustr \<Rightarrow> topic_stats \<Rightarrow> ustr" where
  "dashboard_row name t =
     ascii ''<tr><td>'' @ name @ ascii ''</td><td>'' @ int_dec (int (ts_partitions t)) @ ascii ''</td><td>''
     @ int_list_repr (ts_high_watermarks t) @ ascii ''</td><td>'' @ int_dec (ts_size_bytes t) @ ascii ''</td></tr>''"

fun join_lines :: "ustr list \<Rightarrow> ustr" where
  "join_lines [] = []"
| "join_lines [r] = r"
| "join_lines (r # rs) = r @ [10] @ join_lines rs"

definition dashboard :: "broker \<Rightarrow> ustr" where
  "dashboard b =
     (let ts = bs_topics (broker_stats_of b) in
      join_lines (map (\<lambda>n. dashboard_row n (the (map_of ts n))) (sort (map fst ts))))"

section \<open>GET\<close>

definition query_first :: "ustr \<Rightarrow> ustr \<Rightarrow> (ustr \<times> ustr list) list \<Rightarrow> ustr" where
  "query_first name dflt q =
     (case map_of q name of Some (v # vs) \<Rightarrow> v | _ \<Rightarrow> dflt)"

text \<open>\<^verbatim>\<open>/topics/<topic>/consume/<partition>\<close>: with a group, the records behind its offset, which moves on.\<close>

definition consume :: "ustr \<Rightarrow> ustr \<Rightarrow> (ustr \<times> ustr list) list \<Rightarrow> broker \<Rightarrow> (broker, fetched list) outcome" where
  "consume topic part_text q b =
     (case int_of_str part_text of
        Inl e \<Rightarrow> (Inl e, b)
      | Inr part \<Rightarrow>
          let grp = query_first (ascii ''group'') [] q in
          (case int_of_str (query_first (ascii ''limit'') (ascii ''100'') q) of
             Inl e \<Rightarrow> (Inl e, b)
           | Inr limit \<Rightarrow>
               (case (if grp = [] then (Inr (-1), b)
                      else (case group grp b of
                              (Inl e, b1) \<Rightarrow> (Inl e, b1)
                            | (Inr g, b1) \<Rightarrow> (Inr (committed topic part g), b1))) of
                  (Inl e, b1) \<Rightarrow> (Inl e, b1)
                | (Inr after, b1) \<Rightarrow>
                    (case fetch topic part after limit b1 of
                       Inl e \<Rightarrow> (Inl e, b1)
                     | Inr msgs \<Rightarrow>
                         if grp \<noteq> [] \<and> msgs \<noteq> [] then
                           (case commit_offset grp topic part (f_offset (last msgs)) b1 of
                              (Inl e, b2) \<Rightarrow> (Inl e, b2)
                            | (Inr _, b2) \<Rightarrow> (Inr msgs, b2))
                         else (Inr msgs, b1)))))"

definition topics_get :: "(py_error \<Rightarrow> ustr) \<Rightarrow> ustr list \<Rightarrow> (ustr \<times> ustr list) list \<Rightarrow> broker \<Rightarrow> reply \<times> broker" where
  "topics_get err_text parts q b =
     (if length parts = 1 then
        (Json_reply 200 (JObj [(ascii ''topics'', JList (map JStr (sort (map fst (topics b)))))]), b)
      else
        let topic = parts ! 1 in
        if length parts = 2 \<and> map_of (topics b) topic \<noteq> None then
          (Json_reply 200 (JObj ((ascii ''topic'', JStr topic) #
             (case map_of (bs_topics (broker_stats_of b)) topic of
                Some st \<Rightarrow> topic_stats_fields st
              | None \<Rightarrow> [(ascii ''partitions'', JInt 0)]))), b)
        else if length parts = 4 \<and> parts ! 2 = ascii ''consume'' then
          (case consume topic (parts ! 3) q b of
             (Inl e, b1) \<Rightarrow> (failed err_text e, b1)
           | (Inr msgs, b1) \<Rightarrow> (Json_reply 200 (messages_json msgs), b1))
        else (not_found, b))"

definition do_get ::
  "(py_error \<Rightarrow> ustr) \<Rightarrow> rat \<Rightarrow> metrics \<Rightarrow> ustr \<Rightarrow> (ustr \<times> ustr list) list \<Rightarrow> broker \<Rightarrow> reply \<times> broker" where
  "do_get err_text now m path q b =
     (let parts = path_parts path in
      if path = ascii ''/'' then (Page_reply (dashboard b), b)
      else if path = ascii ''/health'' then (Json_reply 200 (JObj [(ascii ''status'', JStr (ascii ''ok''))]), b)
      else if path = ascii ''/metrics'' then (Metrics_reply (prometheus now m), b)
      else if path = ascii ''/metrics/json'' then (Snapshot_reply (snapshot now m), b)
      else if path = ascii ''/stats'' then (Json_reply 200 (stats_json (broker_stats_of b)), b)
      else if length parts \<ge> 1 \<and> parts ! 0 = ascii ''topics'' then topics_get err_text parts q b
      else (not_found, b))"

section \<open>POST\<close>

text \<open>\<^verbatim>\<open>key.encode\<close> is an \<^verbatim>\<open>AttributeError\<close> for a key that is not a string, after the topic has been created.\<close>

definition produce_json :: "ustr \<Rightarrow> bytes \<Rightarrow> json option \<Rightarrow> int \<Rightarrow> broker \<Rightarrow> (broker, produced) outcome" where
  "produce_json topic pl key now b =
     (case key of
        None \<Rightarrow> produce topic pl None None now b
      | Some JNull \<Rightarrow> produce topic pl None None now b
      | Some (JStr k) \<Rightarrow> produce topic pl (Some k) None now b
      | Some _ \<Rightarrow>
          (case map_of (topics b) topic of
             Some _ \<Rightarrow> (Inl AttributeError, b)
           | None \<Rightarrow>
               (case create_topic topic None b of
                  (Inl e, b1) \<Rightarrow> (Inl e, b1)
                | (Inr _, b1) \<Rightarrow> (Inl AttributeError, b1))))"

definition payload_of :: "bytes \<Rightarrow> (ustr \<times> json) list \<Rightarrow> bytes result" where
  "payload_of raw req =
     (case (case obj_get (ascii ''payload'') req of None \<Rightarrow> JStr [] | Some v \<Rightarrow> v) of
        JStr s \<Rightarrow> utf8_encode s
      | v \<Rightarrow> if req = [] then Inr raw else utf8_encode (dumps v))"

definition post_produce :: "ustr \<Rightarrow> bytes \<Rightarrow> int \<Rightarrow> broker \<Rightarrow> (broker, produced) outcome" where
  "post_produce topic raw now b =
     (case utf8_decode raw of
        Inl e \<Rightarrow> (Inl e, b)
      | Inr text \<Rightarrow>
          (case loads (if text = [] then ascii ''{}'' else text) of
             Inl e \<Rightarrow> (Inl e, b)
           | Inr (JObj req) \<Rightarrow>
               (case payload_of raw req of
                  Inl e \<Rightarrow> (Inl e, b)
                | Inr pl \<Rightarrow> produce_json topic pl (obj_get (ascii ''key'') req) now b)
           | Inr _ \<Rightarrow> (Inl AttributeError, b)))"

definition post_commit :: "ustr \<Rightarrow> ustr \<Rightarrow> bytes \<Rightarrow> broker \<Rightarrow> (broker, unit) outcome" where
  "post_commit topic part_text raw b =
     (case utf8_decode raw of
        Inl e \<Rightarrow> (Inl e, b)
      | Inr text \<Rightarrow>
          (case loads text of
             Inl e \<Rightarrow> (Inl e, b)
           | Inr (JObj req) \<Rightarrow>
               (case int_of_str part_text of
                  Inl e \<Rightarrow> (Inl e, b)
                | Inr part \<Rightarrow>
                    (case obj_get (ascii ''offset'') req of
                       None \<Rightarrow> (Inl KeyError, b)
                     | Some v \<Rightarrow>
                         (case int_of_json v of
                            Inl e \<Rightarrow> (Inl e, b)
                          | Inr off \<Rightarrow>
                              (case (case obj_get (ascii ''group'') req of
                                       None \<Rightarrow> JStr (ascii ''default'') | Some g \<Rightarrow> g) of
                                 JStr g \<Rightarrow> commit_offset g topic part off b
                               | _ \<Rightarrow> (Inl TypeError, b)))))
           | Inr _ \<Rightarrow> (Inl AttributeError, b)))"

definition do_post ::
  "(py_error \<Rightarrow> ustr) \<Rightarrow> int \<Rightarrow> ustr \<Rightarrow> nat \<Rightarrow> bytes \<Rightarrow> broker \<Rightarrow> reply \<times> broker" where
  "do_post err_text now path len content b =
     (let parts = path_parts path;
          raw = (if len = 0 then [123, 125] else take len content)
      in if length parts = 3 \<and> parts ! 0 = ascii ''topics'' \<and> parts ! 2 = ascii ''produce'' then
           (case post_produce (parts ! 1) raw now b of
              (Inl e, b1) \<Rightarrow> (failed err_text e, b1)
            | (Inr res, b1) \<Rightarrow> (Json_reply 200 (produced_json res), b1))
         else if length parts = 4 \<and> parts ! 2 = ascii ''commit'' then
           (case post_commit (parts ! 1) (parts ! 3) raw b of
              (Inl e, b1) \<Rightarrow> (failed err_text e, b1)
            | (Inr _, b1) \<Rightarrow> (Json_reply 200 (JObj [(ascii ''status'', JStr (ascii ''committed''))]), b1))
         else (not_found, b))"

end
