(* ===== verification/Gateway_Theorems.thy ===== *)
theory Gateway_Theorems
  imports Gateway Broker_Theorems
begin

text \<open>
  What a client of the HTTP gateway can rely on: reading in turns with a consumer group, reading back what
  was posted, and that no GET request, whatever it asks for, does harm.
\<close>

section \<open>Paths\<close>

lemma split_on_free: "c \<notin> set xs \<Longrightarrow> split_on c xs = [xs]"
  by (induction xs) auto

lemma split_on_nonempty: "split_on c xs \<noteq> []"
  by (induction xs) (auto split: list.splits)

lemma split_on_sep: "c \<notin> set xs \<Longrightarrow> split_on c (xs @ c # ys) = xs # split_on c ys"
  using split_on_nonempty [of c ys] by (induction xs) (auto split: list.splits)

lemma split_on_chars: "p \<in> set (split_on c xs) \<Longrightarrow> set p \<subseteq> set xs"
  by (induction xs arbitrary: p) (fastforce split: list.splits if_splits)+

lemma path_parts_chars: "p \<in> set (path_parts path) \<Longrightarrow> set p \<subseteq> set path"
  by (auto simp: path_parts_def dest: split_on_chars)

definition topic_path :: "ustr \<Rightarrow> ustr list \<Rightarrow> ustr" where
  "topic_path t rest = ascii ''/topics/'' @ t @ concat (map (\<lambda>p. 47 # p) rest)"

lemma path_parts_topic:
  assumes "list_all (\<lambda>p. p \<noteq> [] \<and> 47 \<notin> set p) (t # rest)"
  shows "path_parts (topic_path t rest) = ascii ''topics'' # t # rest"
proof -
  have tail: "filter (\<lambda>p. p \<noteq> []) (split_on 47 (x @ concat (map (\<lambda>p. 47 # p) xs))) = x # xs"
    if "list_all (\<lambda>p. p \<noteq> [] \<and> 47 \<notin> set p) (x # xs)" for x and xs :: "ustr list"
    using that by (induction xs arbitrary: x) (simp_all add: split_on_free split_on_sep)
  have "topic_path t rest = [] @ 47 # ascii ''topics'' @ 47 # t @ concat (map (\<lambda>p. 47 # p) rest)"
    by (simp add: topic_path_def ascii_def)
  moreover have "47 \<notin> set (ascii ''topics'')" "ascii ''topics'' \<noteq> []" by (simp_all add: ascii_def)
  ultimately show ?thesis
    using tail [OF assms] by (simp only: path_parts_def split_on_sep) (simp add: split_on_sep)
qed

lemma topic_path_get:
  assumes "list_all (\<lambda>p. p \<noteq> [] \<and> 47 \<notin> set p) (t # rest)"
  shows "do_get err_text now m (topic_path t rest) q b = topics_get err_text (ascii ''topics'' # t # rest) q b"
proof -
  have "topic_path t rest \<noteq> ascii ''/''" "topic_path t rest \<noteq> ascii ''/health''" "topic_path t rest \<noteq> ascii ''/metrics''"
    "topic_path t rest \<noteq> ascii ''/metrics/json''" "topic_path t rest \<noteq> ascii ''/stats''"
    by (simp_all add: topic_path_def ascii_def)
  then show ?thesis by (simp add: do_get_def path_parts_topic [OF assms])
qed

section \<open>Reading in turns\<close>

lemma read_loop_split:
  "read_loop rd (m + n) pos =
     read_loop rd m pos @ (if length (read_loop rd m pos) = m then read_loop rd n (pos + int m) else [])"
proof (induction m arbitrary: pos)
  case (Suc m)
  from Suc [of "pos + 1"] show ?case by (simp add: algebra_simps split: option.split)
qed simp

lemma read_loop_stop:
  "length (read_loop rd m pos) < m \<Longrightarrow> rd (pos + int (length (read_loop rd m pos))) = None"
proof (induction m arbitrary: pos)
  case (Suc m)
  show ?case
  proof (cases "rd pos")
    case (Some r)
    with Suc.IH [of "pos + 1"] Suc.prems show ?thesis by (simp add: algebra_simps)
  qed simp
qed simp

text \<open>Reading on behind the last record found gives what one longer read gives.\<close>

definition read_start :: "int \<Rightarrow> int" where
  "read_start a = (if 0 \<le> a then a + 1 else 0)"

lemma read_after_start: "read_after a k p = read_loop (\<lambda>pos. part_read pos p) (nat k) (read_start a)"
  by (simp add: read_after_eq read_start_def)

lemma read_after_last:
  assumes "part_inv p" "read_after a k p \<noteq> []"
  shows "rec_offset (last (read_after a k p)) = read_start a + int (length (read_after a k p)) - 1"
proof -
  have "rec_offset (last (read_loop (\<lambda>pos. part_read pos p) m pos)) = pos + int (length (read_loop (\<lambda>pos. part_read pos p) m pos)) - 1"
    if "read_loop (\<lambda>pos. part_read pos p) m pos \<noteq> []" for m pos
    using that
  proof (induction m arbitrary: pos)
    case (Suc m)
    then obtain r where r: "part_read pos p = Some r" by (cases "part_read pos p") auto
    have "rec_offset r = pos" using pt.rd_offset [OF assms(1) r] .
    with r Suc.IH [of "pos + 1"] show ?case by auto
  qed simp
  with assms(2) show ?thesis by (simp add: read_after_start)
qed

lemma read_after_on:
  assumes "part_inv p" "0 \<le> k" "0 \<le> l"
    and "c = (if read_after a k p = [] then a else rec_offset (last (read_after a k p)))"
  shows "read_after a (k + l) p = read_after a k p @ read_after c l p"
proof -
  let ?rd = "\<lambda>pos. part_read pos p" and ?r = "read_after a k p"
  have sum: "read_after a (k + l) p = ?r @ (if length ?r = nat k then read_loop ?rd (nat l) (read_start a + k) else [])"
    using assms(2,3) read_loop_split [of ?rd "nat k" "nat l" "read_start a"] by (simp add: read_after_start nat_add_distrib)
  have start: "read_start c = read_start a + int (length ?r)"
  proof (cases "?r = []")
    case False
    have "0 \<le> read_start a" by (simp add: read_start_def)
    moreover have "1 \<le> int (length ?r)" using False by (cases ?r) simp_all
    moreover have "c = read_start a + int (length ?r) - 1"
      using assms(4) False read_after_last [OF assms(1) False] by simp
    ultimately have "0 \<le> c" "c + 1 = read_start a + int (length ?r)" by linarith+
    then show ?thesis by (simp add: read_start_def [of c])
  qed (use assms(4) in simp)
  show ?thesis
  proof (cases "length ?r = nat k")
    case True
    then show ?thesis using sum start assms(2) by (simp add: read_after_start [of c])
  next
    case False
    have "length ?r \<le> nat k"
    proof -
      have "length (read_loop ?rd m pos) \<le> m" for m pos
        by (induction m arbitrary: pos) (auto split: option.split)
      then show ?thesis by (simp add: read_after_start)
    qed
    then have "?rd (read_start c) = None"
      using False read_loop_stop [of ?rd "nat k" "read_start a"] start by (simp add: read_after_start)
    then have "read_after c l p = []" by (cases "nat l") (simp_all add: read_after_start)
    with sum False show ?thesis by simp
  qed
qed

lemma fetched_offset [simp]: "f_offset (fetched_of r) = rec_offset r"
  by (simp add: fetched_of_def)

definition group_query :: "ustr \<Rightarrow> int \<Rightarrow> (ustr \<times> ustr list) list" where
  "group_query g k = [(ascii ''group'', [g]), (ascii ''limit'', [int_dec k])]"

lemma group_query_fields:
  "query_first (ascii ''group'') [] (group_query g k) = g"
  "query_first (ascii ''limit'') (ascii ''100'') (group_query g k) = int_dec k"
  by (simp_all add: group_query_def query_first_def ascii_def)

lemma group_same:
  assumes "broker_inv b"
  shows "\<exists>b1. group n b = (Inr (group_of n b), b1) \<and> broker_inv b1 \<and> topics b1 = topics b
    \<and> (\<forall>m. group_of m b1 = group_of m b)"
proof -
  obtain b1 where b1: "group n b = (Inr (group_of n b), b1)" "broker_inv b1" "topics b1 = topics b"
      "groups_dir b1 = groups_dir b" "map_of (groups b1) = (map_of (groups b))(n \<mapsto> group_of n b)"
    using group_effect [OF assms, of n] by blast
  have "group_of m b1 = group_of m b" for m
  proof (cases "m = n")
    case True
    then show ?thesis using b1(5) by (simp add: group_of_opened)
  next
    case False
    then show ?thesis using b1(4,5) by (intro group_of_cong) simp_all
  qed
  with b1 show ?thesis by blast
qed

text \<open>One turn of a consumer group: the records behind its offset, which moves to the last of them.\<close>

lemma consume_turn:
  fixes k :: int
  assumes inv: "broker_inv b" and t: "list_all scalar t" and ps: "map_of (topics b) t = Some ps" "i < length ps"
    and g: "g \<noteq> []"
  defines "a \<equiv> committed t (int i) (group_of g b)"
  defines "rs \<equiv> read_after a k (ps ! i)"
  shows "\<exists>b'. consume t (int_dec (int i)) (group_query g k) b = (Inr (map fetched_of rs), b')
    \<and> broker_inv b' \<and> topics b' = topics b
    \<and> committed t (int i) (group_of g b') = (if rs = [] then a else rec_offset (last rs))"
proof -
  obtain b1 where b1: "group g b = (Inr (group_of g b), b1)" "broker_inv b1" "topics b1 = topics b"
      "\<forall>m. group_of m b1 = group_of m b"
    using group_same [OF inv] by blast
  have msgs: "fetch t (int i) a k b1 = Inr (map fetched_of rs)"
    using fetch_part [of b1 t ps i a k] ps b1(3) by (simp add: rs_def)
  show ?thesis
  proof (cases "rs = []")
    case True
    then show ?thesis
      using b1 msgs g by (simp add: consume_def group_query_fields int_of_str_dec Let_def a_def)
  next
    case False
    have p: "part_inv (ps ! i)" using broker_inv_topic(2) [OF inv ps(1,2)] by blast
    have "a < rec_offset (last rs)"
    proof -
      have "1 \<le> int (length rs)" using False by (cases rs) simp_all
      moreover have "a < read_start a" by (simp add: read_start_def)
      ultimately show ?thesis
        using read_after_last [OF p, of a k] False unfolding rs_def by linarith
    qed
    moreover obtain b2 where b2: "commit_offset g t (int i) (rec_offset (last rs)) b1 = (Inr (), b2)" "broker_inv b2"
        "topics b2 = topics b1" "group_of g b2 = group_commit t (int i) (rec_offset (last rs)) (group_of g b1)"
      using commit_offset_effect [OF b1(2) t] by blast
    ultimately have "committed t (int i) (group_of g b2) = rec_offset (last rs)"
      using b1(4) by (simp add: group_commit_committed a_def)
    moreover have "consume t (int_dec (int i)) (group_query g k) b = (Inr (map fetched_of rs), b2)"
      using b1(1) msgs g False b2(1)
      by (simp add: consume_def group_query_fields int_of_str_dec Let_def a_def last_map)
    ultimately show ?thesis using b2 b1(3) False by simp
  qed
qed

text \<open>
  C19. A consumer group that reads a partition over HTTP in two turns, of at most k and l records, is given
  exactly what a single read of k + l records behind its committed offset would give: nothing is
  skipped and nothing is given twice.
\<close>

theorem consume_reads_on:
  assumes "broker_inv b" "list_all scalar t" "t \<noteq> []" "47 \<notin> set t" "g \<noteq> []"
    and "map_of (topics b) t = Some ps" "i < length ps" "0 \<le> k" "0 \<le> l"
  defines "path \<equiv> topic_path t [ascii ''consume'', int_dec (int i)]"
  shows "\<exists>m1 m2 b1 b2. do_get err_text now m path (group_query g k) b = (Json_reply 200 (messages_json m1), b1)
    \<and> do_get err_text now m path (group_query g l) b1 = (Json_reply 200 (messages_json m2), b2)
    \<and> fetch t (int i) (committed t (int i) (group_of g b)) (k + l) b = Inr (m1 @ m2)"
proof -
  define a where "a = committed t (int i) (group_of g b)"
  define rs where "rs = read_after a k (ps ! i)"
  define c where "c = (if rs = [] then a else rec_offset (last rs))"
  obtain b1 where b1: "consume t (int_dec (int i)) (group_query g k) b = (Inr (map fetched_of rs), b1)" "broker_inv b1"
      "topics b1 = topics b" "committed t (int i) (group_of g b1) = c"
    using consume_turn [OF assms(1,2,6,7,5), of k] unfolding a_def rs_def c_def by blast
  obtain b2 where b2: "consume t (int_dec (int i)) (group_query g l) b1 = (Inr (map fetched_of (read_after c l (ps ! i))), b2)"
    using consume_turn [OF b1(2) assms(2) _ assms(7,5), of l] b1(3,4) assms(6) by auto
  have p: "part_inv (ps ! i)" using broker_inv_topic(2) [OF assms(1,6,7)] by blast
  have "read_after a (k + l) (ps ! i) = rs @ read_after c l (ps ! i)"
    using read_after_on [OF p assms(8,9)] unfolding rs_def c_def by blast
  then have "fetch t (int i) a (k + l) b = Inr (map fetched_of rs @ map fetched_of (read_after c l (ps ! i)))"
    using fetch_part [OF assms(6,7)] by simp
  moreover have "47 \<notin> set (int_dec (int i))" by (rule int_dec_no_slash)
  then have parts: "list_all (\<lambda>p. p \<noteq> [] \<and> 47 \<notin> set p) [t, ascii ''consume'', int_dec (int i)]"
    using assms(3,4) by (simp add: ascii_def int_dec_def)
  have "do_get err_text now m path q b' = (case consume t (int_dec (int i)) q b' of
      (Inl e, b1) \<Rightarrow> (failed err_text e, b1) | (Inr msgs, b1) \<Rightarrow> (Json_reply 200 (messages_json msgs), b1))" for q b'
    unfolding path_def topic_path_get [OF parts] by (simp add: topics_get_def)
  ultimately show ?thesis using b1(1) b2 unfolding a_def by auto
qed

definition three_broker :: broker where
  "three_broker = sample_broker\<lparr>broker_segment_bytes := 1, topics := [([116], [\<lparr>part_log = small_log 3\<rparr>])]\<rparr>"

lemma three_broker_inv: "broker_inv three_broker"
  using small_log_inv [of 3] small_log_config [of 3]
  by (simp add: three_broker_def sample_broker_def broker_inv_def part_ok_def part_inv_def)

theorem consume_reads_on_witness:
  "\<exists>m1 m2 b1 b2. do_get (\<lambda>_. []) 0 (metrics_init 0) (topic_path [116] [ascii ''consume'', int_dec 0]) (group_query [103] 2)
      three_broker = (Json_reply 200 (messages_json m1), b1)
    \<and> do_get (\<lambda>_. []) 0 (metrics_init 0) (topic_path [116] [ascii ''consume'', int_dec 0]) (group_query [103] 1) b1
      = (Json_reply 200 (messages_json m2), b2)
    \<and> map f_offset (m1 @ m2) = [0, 1, 2]"
proof -
  have t: "map_of (topics three_broker) [116] = Some [\<lparr>part_log = small_log 3\<rparr>]" "list_all scalar [116]"
    by (simp_all add: three_broker_def scalar_def)
  have c: "committed [116] 0 (group_of [103] three_broker) = -1"
    by (simp add: three_broker_def sample_broker_def committed_def group_of_def group_init_def)
  have "map rec_offset (read_after (-1) 3 \<lparr>part_log = small_log 3\<rparr>) = [0, 1, 2]" by code_simp
  then have three: "fetch [116] 0 (-1) 3 three_broker = Inr m \<Longrightarrow> map f_offset m = [0, 1, 2]" for m
    using fetch_part [OF t(1), of 0 "-1" 3] by (auto simp: comp_def)
  have "\<exists>m1 m2 b1 b2. do_get (\<lambda>_. []) 0 (metrics_init 0) (topic_path [116] [ascii ''consume'', int_dec 0]) (group_query [103] 2)
      three_broker = (Json_reply 200 (messages_json m1), b1)
    \<and> do_get (\<lambda>_. []) 0 (metrics_init 0) (topic_path [116] [ascii ''consume'', int_dec 0]) (group_query [103] 1) b1
      = (Json_reply 200 (messages_json m2), b2)
    \<and> fetch [116] 0 (-1) 3 three_broker = Inr (m1 @ m2)"
    using consume_reads_on [OF three_broker_inv t(2) _ _ _ t(1), of "[103]" 0 2 1 "\<lambda>_. []" 0 "metrics_init 0"] c by simp
  with three show ?thesis by blast
qed

section \<open>Posting\<close>

definition produce_request :: "ustr \<Rightarrow> ustr \<Rightarrow> json" where
  "produce_request s k = JObj [(ascii ''payload'', JStr s), (ascii ''key'', JStr k)]"

lemma produce_request_wf: "list_all scalar s \<Longrightarrow> list_all scalar k \<Longrightarrow> wf_json (produce_request s k)"
  by (simp add: produce_request_def ascii_def scalar_def)

lemma post_produce_request:
  assumes "list_all scalar s" "list_all scalar k"
  shows "post_produce t (encode_ascii (dumps (produce_request s k))) now b =
    produce t (map of_nat (concat (map utf8_code s))) (Some k) None now b"
proof -
  note wf = produce_request_wf [OF assms]
  have "utf8_decode (encode_ascii (dumps (produce_request s k))) = Inr (dumps (produce_request s k))"
    using encode_ascii_decode [OF blank_gaps(1) wf] .
  moreover have "dumps (produce_request s k) \<noteq> []" by (simp add: produce_request_def)
  moreover have "loads (dumps (produce_request s k)) = Inr (produce_request s k)"
    using loads_dumps [OF wf] .
  moreover have "utf8_encode s = Inr (map of_nat (concat (map utf8_code s)))"
    using assms(1) by (simp add: utf8_encode_def)
  ultimately show ?thesis
    by (simp add: post_produce_def produce_request_def [of s k] payload_of_def produce_json_def obj_get_def ascii_def)
qed

lemma produce_now: "produce t pl key None now b = produce t pl key (Some now) now b"
  unfolding produce_def by (simp only: option.case)

text \<open>
  A text posted over HTTP is answered with the partition and the offset of its record, and whoever fetches
  that record is given the same text, whatever characters it consists of.
\<close>

theorem post_then_fetch:
  assumes "broker_inv b" "t \<noteq> []" "47 \<notin> set t" "list_all scalar s" "list_all scalar k"
    and "can_produce t (map of_nat (concat (map utf8_code s))) (Some k) now b"
  defines "body \<equiv> encode_ascii (dumps (produce_request s k))"
  shows "\<exists>i off b'. do_post err_text now (topic_path t [ascii ''produce'']) (length body) body b
      = (Json_reply 200 (produced_json \<lparr>pr_topic = t, pr_partition = i, pr_offset = off\<rparr>), b') \<and> broker_inv b'
    \<and> fetch t (int i) (off - 1) 1 b' = Inr [\<lparr>f_offset = off, f_timestamp = now, f_payload = s\<rparr>]"
proof -
  let ?pl = "map of_nat (concat (map utf8_code s)) :: bytes"
  obtain b' i off where p: "produce t ?pl (Some k) (Some now) now b =
      (Inr \<lparr>pr_topic = t, pr_partition = i, pr_offset = off\<rparr>, b')" "broker_inv b'"
    "fetch t (int i) (off - 1) 1 b' = Inr [\<lparr>f_offset = off, f_timestamp = now, f_payload = utf8_decode_replace ?pl\<rparr>]"
    using produced_is_fetched [OF assms(1,6)] by blast
  have "utf8_decode_replace ?pl = s"
    using assms(4) by (intro utf8_replace_valid utf8_round_trip) (simp add: utf8_encode_def)
  moreover have "length body \<noteq> 0" by (simp add: body_def encode_ascii_def produce_request_def)
  moreover have "path_parts (topic_path t [ascii ''produce'']) = [ascii ''topics'', t, ascii ''produce'']"
    using assms(2,3) by (intro path_parts_topic) (simp add: ascii_def)
  ultimately show ?thesis
    using p post_produce_request [OF assms(4,5), of t now b]
    by (intro exI [of _ i] exI [of _ off] exI [of _ b']) (simp add: do_post_def Let_def produce_now body_def [symmetric])
qed

theorem post_then_fetch_witness:
  "\<exists>i off b'. do_post (\<lambda>_. []) 5 (topic_path [116] [ascii ''produce'']) (length (encode_ascii (dumps (produce_request [233] [107]))))
      (encode_ascii (dumps (produce_request [233] [107]))) sample_broker
      = (Json_reply 200 (produced_json \<lparr>pr_topic = [116], pr_partition = i, pr_offset = off\<rparr>), b')
    \<and> fetch [116] (int i) (off - 1) 1 b' = Inr [\<lparr>f_offset = off, f_timestamp = 5, f_payload = [233]\<rparr>]"
proof -
  have can: "can_produce [116] (map of_nat (concat (map utf8_code [233]))) (Some [107]) 5 sample_broker"
    by (rule sample_can_produce) (simp_all add: key_ok_def scalar_def utf8_code_def)
  show ?thesis
    using post_then_fetch [OF sample_broker_inv _ _ _ _ can, of "\<lambda>_. []"] by (fastforce simp: scalar_def)
qed

section \<open>GET requests\<close>

lemma commit_monotone:
  assumes "broker_inv b" "list_all scalar t" "commit_offset g t i off b = (r, b')"
  shows "broker_inv b' \<and> topics b' = topics b
    \<and> (\<forall>g' t' i'. committed t' i' (group_of g' b) \<le> committed t' i' (group_of g' b'))"
proof -
  have b': "broker_inv b'" "topics b' = topics b" "group_of g b' = group_commit t i off (group_of g b)"
      "\<forall>m. m \<noteq> g \<longrightarrow> group_of m b' = group_of m b"
    using commit_offset_effect [OF assms(1,2), of g i off] assms(3) by auto
  have "committed t' i' (group_of g' b) \<le> committed t' i' (group_of g' b')" for g' t' i'
    using b'(3,4) by (cases "g' = g") (auto simp: group_commit_committed)
  with b' show ?thesis by blast
qed

lemma consume_safe:
  assumes "broker_inv b" "list_all scalar t" "consume t pt q b = (r, b')"
  shows "broker_inv b' \<and> topics b' = topics b
    \<and> (\<forall>g' t' i'. committed t' i' (group_of g' b) \<le> committed t' i' (group_of g' b'))"
proof -
  let ?g = "query_first (ascii ''group'') [] q"
  obtain b1 where b1: "group ?g b = (Inr (group_of ?g b), b1)" "broker_inv b1" "topics b1 = topics b"
      "\<forall>m. group_of m b1 = group_of m b"
    using group_same [OF assms(1)] by blast
  consider "b' = b" | "b' = b1" | off i u where "commit_offset ?g t i off b1 = (u, b')"
    using assms(3) b1(1) unfolding consume_def Let_def by (auto split: sum.splits prod.splits if_splits)
  then show ?thesis
  proof cases
    case 3
    from commit_monotone [OF b1(2) assms(2) this] b1 show ?thesis by simp
  qed (use assms(1) b1 in simp_all)
qed

text \<open>
  C30. No GET request does harm: for every path a client can send and every query, answered or refused, the
  broker stays well-formed, no topic and no record changes, and no committed offset goes back.
\<close>

theorem get_does_no_harm:
  assumes "broker_inv b" "list_all (\<lambda>c. c < 256) path" "do_get err_text now m path q b = (r, b')"
  shows "broker_inv b' \<and> topics b' = topics b
    \<and> (\<forall>g t i. committed t i (group_of g b) \<le> committed t i (group_of g b'))"
proof -
  let ?ps = "path_parts path"
  have "b' = b \<or> (\<exists>u. length ?ps = 4 \<and> consume (?ps ! 1) (?ps ! 3) q b = (u, b'))"
    using assms(3) unfolding do_get_def topics_get_def Let_def
    by (auto split: if_splits prod.splits sum.splits)
  moreover have "list_all scalar (?ps ! 1)" if "length ?ps = 4"
  proof -
    have "set (?ps ! 1) \<subseteq> set path" using that by (intro path_parts_chars nth_mem) simp
    then have "\<forall>c \<in> set (?ps ! 1). c < 256" using assms(2) by (auto simp: list_all_iff)
    then show ?thesis by (force simp: list_all_iff scalar_def)
  qed
  ultimately show ?thesis using assms(1) consume_safe by auto
qed

theorem get_does_no_harm_witness:
  "topics (snd (do_get (\<lambda>_. []) 0 (metrics_init 0) (ascii ''/topics/t/consume/x'') [] three_broker)) = topics three_broker"
proof -
  have "list_all (\<lambda>c. c < 256) (ascii ''/topics/t/consume/x'')" by (simp add: ascii_def)
  from get_does_no_harm [OF three_broker_inv this surjective_pairing] show ?thesis by blast
qed

end
