(* ===== verification/Command_Line.thy ===== *)
theory Command_Line
  imports Gateway Net
begin

text \<open>
  The parts of \<^verbatim>\<open>cli.py\<close> that compute something: the requests a broker answers over TCP, the client loop of
  \<^verbatim>\<open>consume\<close> (without \<^verbatim>\<open>--follow\<close>, which never ends), the peer list of a Raft node and the size of
  the demonstration cluster. \<open>err_text\<close> is the text the frame server makes of an exception and
  \<open>repr_text\<close> is Python's \<^verbatim>\<open>repr\<close>. A partition or an offset that is not an integer is a \<^verbatim>\<open>TypeError\<close>.
\<close>

section \<open>Requests to the broker\<close>

definition int_arg :: "string \<Rightarrow> int \<Rightarrow> (ustr \<times> json) list \<Rightarrow> int result" where
  "int_arg name dflt req =
     (case obj_get (ascii name) req of
        None \<Rightarrow> Inr dflt
      | Some (JInt i) \<Rightarrow> Inr i
      | Some (JBool b) \<Rightarrow> Inr (if b then 1 else 0)
      | Some _ \<Rightarrow> Inl TypeError)"

definition dispatch_produce :: "int \<Rightarrow> (ustr \<times> json) list \<Rightarrow> broker \<Rightarrow> (broker, json) outcome" where
  "dispatch_produce now req b =
     (case obj_get (ascii ''topic'') req of
        None \<Rightarrow> (Inl KeyError, b)
      | Some topic \<Rightarrow>
          (case obj_get (ascii ''payload'') req of
             None \<Rightarrow> (Inl KeyError, b)
           | Some (JStr s) \<Rightarrow>
               (case utf8_encode s of
                  Inl e \<Rightarrow> (Inl e, b)
                | Inr pl \<Rightarrow>
                    (case topic of
                       JStr t \<Rightarrow>
                         (case produce_json t pl (obj_get (ascii ''key'') req) now b of
                            (Inl e, b1) \<Rightarrow> (Inl e, b1)
                          | (Inr r, b1) \<Rightarrow> (Inr (produced_json r), b1))
                     | _ \<Rightarrow> (Inl TypeError, b)))
           | Some _ \<Rightarrow> (Inl AttributeError, b)))"

definition dispatch_fetch :: "(ustr \<times> json) list \<Rightarrow> broker \<Rightarrow> json result" where
  "dispatch_fetch req b =
     (case obj_get (ascii ''topic'') req of
        None \<Rightarrow> Inl KeyError
      | Some (JStr t) \<Rightarrow>
          if map_of (topics b) t = None then Inl KeyError
          else
            (case int_arg ''partition'' 0 req of
               Inl e \<Rightarrow> Inl e
             | Inr part \<Rightarrow>
                 (case map_of (topics b) t of
                    None \<Rightarrow> Inl KeyError
                  | Some ps \<Rightarrow>
                      if \<not> (0 \<le> part \<and> part < int (length ps)) then Inl KeyError
                      else
                        (case int_arg ''after'' (-1) req of
                           Inl e \<Rightarrow> Inl e
                         | Inr aft \<Rightarrow>
                             (case fetch t part aft 100 b of
                                Inl e \<Rightarrow> Inl e
                              | Inr msgs \<Rightarrow> Inr (messages_json msgs)))))
      | Some (JList _) \<Rightarrow> Inl TypeError
      | Some (JObj _) \<Rightarrow> Inl TypeError
      | Some _ \<Rightarrow> Inl KeyError)"

definition tcp_dispatch :: "(json \<Rightarrow> ustr) \<Rightarrow> int \<Rightarrow> json \<Rightarrow> broker \<Rightarrow> (broker, json) outcome" where
  "tcp_dispatch repr_text now request b =
     (case request of
        JObj req \<Rightarrow>
          let oper = (case obj_get (ascii ''op'') req of None \<Rightarrow> JNull | Some v \<Rightarrow> v) in
          if oper = JStr (ascii ''produce'') then dispatch_produce now req b
          else if oper = JStr (ascii ''fetch'') then (dispatch_fetch req b, b)
          else if oper = JStr (ascii ''stats'') then (Inr (stats_json (broker_stats_of b)), b)
          else (Inr (error_json (ascii ''unknown op '' @ repr_text oper)), b)
      | _ \<Rightarrow> (Inl AttributeError, b))"

text \<open>The handler that \<^verbatim>\<open>cmd_serve\<close> gives to the frame server, as \<open>serve_conn\<close> takes it.\<close>

definition broker_handler ::
  "(py_error \<Rightarrow> ustr) \<Rightarrow> (json \<Rightarrow> ustr) \<Rightarrow> int \<Rightarrow> broker \<Rightarrow> json \<Rightarrow> (ustr + json) \<times> broker" where
  "broker_handler err_text repr_text now b req =
     (case tcp_dispatch repr_text now req b of
        (Inl e, b1) \<Rightarrow> (Inl (err_text e), b1)
      | (Inr v, b1) \<Rightarrow> (Inr v, b1))"

section \<open>One call over TCP\<close>

text \<open>
  \<^verbatim>\<open>FrameClient.call\<close> on a connection to the broker: the request goes out as a frame, the connection is
  served, and the answer comes in. \<open>pieces\<close> is how the network cuts what is sent.
\<close>

definition client_call ::
  "(py_error \<Rightarrow> ustr) \<Rightarrow> (json \<Rightarrow> ustr) \<Rightarrow> int \<Rightarrow> (bytes \<Rightarrow> bytes list) \<Rightarrow> json \<Rightarrow> broker \<Rightarrow> (broker, json) outcome" where
  "client_call err_text repr_text now pieces request b =
     (case send_frame request of
        Inl e \<Rightarrow> (Inl e, b)
      | Inr f \<Rightarrow>
          (case serve_conn (broker_handler err_text repr_text now) b (pieces f) of
             (fs, b') \<Rightarrow>
               (case recv_frame chunk_recv (pieces (concat fs)) of
                  Inl e \<Rightarrow> (Inl e, b')
                | Inr (res, _) \<Rightarrow> (Inr res, b'))))"

definition produce_command :: "ustr \<Rightarrow> ustr \<Rightarrow> ustr option \<Rightarrow> json" where
  "produce_command topic payload key =
     JObj [(ascii ''op'', JStr (ascii ''produce'')), (ascii ''topic'', JStr topic),
           (ascii ''payload'', JStr payload),
           (ascii ''key'', case key of None \<Rightarrow> JNull | Some k \<Rightarrow> JStr k)]"

text \<open>The commands return what they print.\<close>

definition cmd_produce ::
  "(py_error \<Rightarrow> ustr) \<Rightarrow> (json \<Rightarrow> ustr) \<Rightarrow> int \<Rightarrow> (bytes \<Rightarrow> bytes list) \<Rightarrow> ustr \<Rightarrow> ustr \<Rightarrow> ustr option \<Rightarrow> broker
     \<Rightarrow> (broker, ustr) outcome" where
  "cmd_produce err_text repr_text now pieces topic payload key b =
     (case client_call err_text repr_text now pieces (produce_command topic payload key) b of
        (Inl e, b') \<Rightarrow> (Inl e, b')
      | (Inr res, b') \<Rightarrow> (Inr (dumps res), b'))"

text \<open>\<^verbatim>\<open>json.dumps(v, indent=2)\<close>: every member on a line of its own, two blanks per level.\<close>

definition new_line :: "nat \<Rightarrow> ustr" where
  "new_line level = 10 # replicate (2 * level) 32"

fun dumps_indent :: "nat \<Rightarrow> json \<Rightarrow> ustr" where
  "dumps_indent level (JList vs) =
     (if vs = [] then [91, 93]
      else [91] @ new_line (level + 1) @ commas (new_line (level + 1)) (map (dumps_indent (level + 1)) vs)
        @ new_line level @ [93])"
| "dumps_indent level (JObj kvs) =
     (if kvs = [] then [123, 125]
      else [123] @ new_line (level + 1)
        @ commas (new_line (level + 1)) (map (\<lambda>(k, v). dump_str k @ [58, 32] @ dumps_indent (level + 1) v) kvs)
        @ new_line level @ [125])"
| "dumps_indent level v = dumps v"

definition cmd_status ::
  "(py_error \<Rightarrow> ustr) \<Rightarrow> (json \<Rightarrow> ustr) \<Rightarrow> int \<Rightarrow> (bytes \<Rightarrow> bytes list) \<Rightarrow> broker \<Rightarrow> (broker, ustr) outcome" where
  "cmd_status err_text repr_text now pieces b =
     (case client_call err_text repr_text now pieces (JObj [(ascii ''op'', JStr (ascii ''stats''))]) b of
        (Inl e, b') \<Rightarrow> (Inl e, b')
      | (Inr res, b') \<Rightarrow> (Inr (dumps_indent 0 res), b'))"

section \<open>The consuming client\<close>

definition fetch_request :: "ustr \<Rightarrow> int \<Rightarrow> int \<Rightarrow> json" where
  "fetch_request topic part aft =
     JObj [(ascii ''op'', JStr (ascii ''fetch'')), (ascii ''topic'', JStr topic),
           (ascii ''partition'', JInt part), (ascii ''after'', JInt aft)]"

text \<open>\<^verbatim>\<open>res.get("messages", [])\<close>, for the answers that the broker gives.\<close>

definition messages_of :: "json \<Rightarrow> json list" where
  "messages_of res =
     (case res of
        JObj kvs \<Rightarrow> (case obj_get (ascii ''messages'') kvs of Some (JList ms) \<Rightarrow> ms | _ \<Rightarrow> [])
      | _ \<Rightarrow> [])"

definition ask_broker ::
  "(py_error \<Rightarrow> ustr) \<Rightarrow> (json \<Rightarrow> ustr) \<Rightarrow> int \<Rightarrow> ustr \<Rightarrow> int \<Rightarrow> broker \<Rightarrow> int \<Rightarrow> json list" where
  "ask_broker err_text repr_text now topic part b aft =
     (case fst (broker_handler err_text repr_text now b (fetch_request topic part aft)) of
        Inl text \<Rightarrow> messages_of (error_reply text)
      | Inr res \<Rightarrow> messages_of res)"

definition msg_offset :: "json \<Rightarrow> int" where
  "msg_offset v = (case v of JObj kvs \<Rightarrow> (case obj_get (ascii ''offset'') kvs of Some (JInt i) \<Rightarrow> i | _ \<Rightarrow> 0) | _ \<Rightarrow> 0)"

definition msg_payload :: "json \<Rightarrow> ustr" where
  "msg_payload v = (case v of JObj kvs \<Rightarrow> (case obj_get (ascii ''payload'') kvs of Some (JStr s) \<Rightarrow> s | _ \<Rightarrow> []) | _ \<Rightarrow> [])"

definition msg_line :: "json \<Rightarrow> ustr" where
  "msg_line v = [91] @ int_dec (msg_offset v) @ [93, 32] @ msg_payload v"

function consume_loop :: "(int \<Rightarrow> json list) \<Rightarrow> int \<Rightarrow> int \<Rightarrow> int \<Rightarrow> ustr list" where
  "consume_loop ask limit aft shown =
     (if shown < limit then
        let msgs = ask aft in
        if msgs = [] then (if shown = 0 then [ascii ''(no new messages)''] else [])
        else map msg_line msgs @ consume_loop ask limit (msg_offset (last msgs)) (shown + int (length msgs))
      else [])"
  by pat_completeness auto
termination
proof (relation "measure (\<lambda>(_, limit, _, shown). nat (limit - shown))")
  fix ask :: "int \<Rightarrow> json list" and limit aft shown :: int and msgs
  assume "shown < limit" "msgs = ask aft" and ne: "msgs \<noteq> []"
  then show "((ask, limit, msg_offset (last msgs), shown + int (length msgs)), ask, limit, aft, shown)
      \<in> measure (\<lambda>(_, limit, _, shown). nat (limit - shown))"
    by simp
qed simp

declare consume_loop.simps [simp del]

definition cmd_consume :: "(int \<Rightarrow> json list) \<Rightarrow> int \<Rightarrow> ustr list" where
  "cmd_consume ask limit = consume_loop ask limit (-1) 0"

section \<open>Peers and cluster size\<close>

text \<open>\<^verbatim>\<open>s.split(c, 1)\<close> and \<^verbatim>\<open>s.rsplit(c, 1)\<close> unpacked into two strings.\<close>

definition split_first :: "nat \<Rightarrow> ustr \<Rightarrow> (ustr \<times> ustr) result" where
  "split_first c s =
     (if c \<in> set s then Inr (takeWhile (\<lambda>x. x \<noteq> c) s, tl (dropWhile (\<lambda>x. x \<noteq> c) s))
      else Inl (ValueError ''not enough values to unpack''))"

definition split_last :: "nat \<Rightarrow> ustr \<Rightarrow> (ustr \<times> ustr) result" where
  "split_last c s =
     (case split_first c (rev s) of Inl e \<Rightarrow> Inl e | Inr (x, y) \<Rightarrow> Inr (rev y, rev x))"

definition parse_peer :: "ustr \<Rightarrow> (ustr \<times> ustr \<times> int) result" where
  "parse_peer spec =
     (case split_first 61 spec of
        Inl e \<Rightarrow> Inl e
      | Inr (nid, addr) \<Rightarrow>
          (case split_last 58 addr of
             Inl e \<Rightarrow> Inl e
           | Inr (host, port) \<Rightarrow>
               (case int_of_str port of Inl e \<Rightarrow> Inl e | Inr p \<Rightarrow> Inr (nid, host, p))))"

fun parse_peers :: "ustr list \<Rightarrow> (ustr \<times> ustr \<times> int) list \<Rightarrow> (ustr \<times> ustr \<times> int) list result" where
  "parse_peers [] peers = Inr peers"
| "parse_peers (spec # specs) peers =
     (case parse_peer spec of
        Inl e \<Rightarrow> Inl e
      | Inr (nid, addr) \<Rightarrow> parse_peers specs (dict_put nid addr peers))"

text \<open>No peers stand for the exit with code 2 when the node itself is not listed.\<close>

definition node_peers :: "ustr \<Rightarrow> ustr list \<Rightarrow> (ustr \<times> ustr \<times> int) list option result" where
  "node_peers nid specs =
     (case parse_peers specs [] of
        Inl e \<Rightarrow> Inl e
      | Inr peers \<Rightarrow> Inr (if map_of peers nid = None then None else Some peers))"

definition replica_count :: "int \<Rightarrow> int" where
  "replica_count n = max 3 (if n mod 2 = 1 then n else n + 1)"

end
