(* ===== verification/Client_Theorems.thy ===== *)
theory Client_Theorems
  imports Command_Line Gateway_Theorems Server_Theorems
begin

text \<open>
  The command line client against the broker it talks to, the peer list of a Raft node, and what the metrics
  report.
\<close>

section \<open>Consuming from the command line\<close>

lemma fetched_json_fields [simp]:
  "msg_offset (fetched_json f) = f_offset f" "msg_payload (fetched_json f) = f_payload f"
  by (simp_all add: msg_offset_def msg_payload_def fetched_json_def obj_get_def ascii_def)

lemma ask_broker_fetch:
  assumes "map_of (topics b) t = Some ps" "i < length ps"
  shows "ask_broker err_text repr_text now t (int i) b a = map (fetched_json \<circ> fetched_of) (read_after a 100 (ps ! i))"
  using assms fetch_part [OF assms, of a 100]
  by (simp add: ask_broker_def broker_handler_def tcp_dispatch_def dispatch_fetch_def fetch_request_def
      int_arg_def obj_get_def messages_of_def messages_json_def ascii_def Let_def)

definition record_line :: "log_record \<Rightarrow> ustr" where
  "record_line r = [91] @ int_dec (rec_offset r) @ [93, 32] @ utf8_decode_replace (rec_payload r)"

lemma msg_line_record [simp]: "msg_line (fetched_json (fetched_of r)) = record_line r"
  by (simp add: msg_line_def record_line_def fetched_of_def)

text \<open>The loop after some full batches, or at the end of the records.\<close>

lemma consume_loop_batches:
  fixes rs :: "log_record list" and limit :: int
  assumes ask: "\<And>a. -1 \<le> a \<Longrightarrow> ask a = map (fetched_json \<circ> fetched_of) (take 100 (drop (nat (a + 1)) rs))"
    and offs: "consecutive 0 rs" and rs: "rs \<noteq> []"
  defines "cap \<equiv> 100 * nat ((limit + 99) div 100)"
  shows "consume_loop ask limit (int (min (100 * m) (length rs)) - 1) (int (min (100 * m) (length rs)))
    = map record_line (take (cap - 100 * m) (drop (100 * m) rs))"
proof (induction "cap - 100 * m" arbitrary: m rule: less_induct)
  case less
  let ?j = "min (100 * m) (length rs)"
  let ?msgs = "ask (int ?j - 1)"
  have msgs: "?msgs = map (fetched_json \<circ> fetched_of) (take 100 (drop ?j rs))"
    using ask [of "int ?j - 1"] by simp
  consider (enough) "\<not> int ?j < limit" | (empty) "int ?j < limit" "length rs \<le> 100 * m" | (batch) "100 * m < length rs" "int (100 * m) < limit"
    by linarith
  then show ?case
  proof cases
    case enough
    have "cap \<le> 100 * m \<or> length rs \<le> 100 * m"
    proof (cases "length rs \<le> 100 * m")
      case False
      then have "limit \<le> 100 * int m" using enough by simp
      then have "(limit + 99) div 100 \<le> int m" by linarith
      then show ?thesis unfolding cap_def by linarith
    qed simp
    with enough show ?thesis by (subst consume_loop.simps) auto
  next
    case empty
    then have "?msgs = []" "?j \<noteq> 0" using msgs rs by auto
    with empty show ?thesis by (subst consume_loop.simps) auto
  next
    case batch
    have j: "?j = 100 * m" using batch by simp
    have batch_msgs: "?msgs = map (fetched_json \<circ> fetched_of) (take 100 (drop (100 * m) rs))"
      using msgs unfolding j .
    have ne: "take 100 (drop (100 * m) rs) \<noteq> []" using batch by simp
    have len: "length (take 100 (drop (100 * m) rs)) = min (100 * Suc m) (length rs) - 100 * m" by simp
    have "int m + 1 \<le> (limit + 99) div 100" using batch(2) by linarith
    then have "Suc m \<le> nat ((limit + 99) div 100)" by linarith
    then have "100 * Suc m \<le> cap" unfolding cap_def by simp
    then have less: "cap - 100 * Suc m < cap - 100 * m" by simp
    have last: "msg_offset (last ?msgs) = int (min (100 * Suc m) (length rs)) - 1"
    proof -
      let ?l = "min (100 * Suc m) (length rs) - 1"
      have l: "?l < length rs" using batch(1) by auto
      have "last (take 100 (drop (100 * m) rs)) = rs ! ?l"
      proof -
        have "100 * m + (length (take 100 (drop (100 * m) rs)) - 1) = ?l" using batch(1) by simp
        moreover have "length (take 100 (drop (100 * m) rs)) - 1 < 100" by simp
        ultimately show ?thesis
          using batch(1) unfolding last_conv_nth [OF ne] by (simp only: nth_take nth_drop less_imp_le)
      qed
      moreover have "rec_offset (rs ! ?l) = int ?l"
        using offs l by (simp add: consecutive_def)
      moreover have "1 \<le> min (100 * Suc m) (length rs)" using batch(1) by simp
      ultimately show ?thesis
        using ne unfolding batch_msgs by (simp add: last_map of_nat_diff)
    qed
    have shown: "int ?j + int (length ?msgs) = int (min (100 * Suc m) (length rs))"
      unfolding batch_msgs using batch(1) by (simp add: min_def) linarith
    have "consume_loop ask limit (int ?j - 1) (int ?j) = map msg_line ?msgs
        @ consume_loop ask limit (msg_offset (last ?msgs)) (int ?j + int (length ?msgs))"
    proof -
      have "?msgs \<noteq> []" "int ?j < limit" using ne batch unfolding batch_msgs by auto
      then show ?thesis by (subst consume_loop.simps) (simp only: Let_def if_True if_False)
    qed
    also have "\<dots> = map record_line (take 100 (drop (100 * m) rs) @ take (cap - 100 * Suc m) (drop (100 * Suc m) rs))"
      unfolding last shown less.hyps [OF less] unfolding batch_msgs by simp
    also have "take 100 (drop (100 * m) rs) @ take (cap - 100 * Suc m) (drop (100 * Suc m) rs)
        = take (cap - 100 * m) (drop (100 * m) rs)"
      using take_add [of 100 "cap - 100 * Suc m" "drop (100 * m) rs"] \<open>100 * Suc m \<le> cap\<close>
      by (simp add: add.commute algebra_simps)
    finally show ?thesis .
  qed
qed

lemma consumed_batches:
  assumes "broker_inv b" "map_of (topics b) t = Some ps" "i < length ps"
    and "part_first (ps ! i) = 0" "part_records (ps ! i) \<noteq> []"
  shows "cmd_consume (ask_broker err_text repr_text now t (int i) b) limit
    = map record_line (take (100 * nat ((limit + 99) div 100)) (part_records (ps ! i)))"
proof -
  have p: "part_inv (ps ! i)" using broker_inv_topic(2) [OF assms(1-3)] by blast
  have "ask_broker err_text repr_text now t (int i) b a
      = map (fetched_json \<circ> fetched_of) (take 100 (drop (nat (a + 1)) (part_records (ps ! i))))" if "-1 \<le> a" for a
    using that assms(4) by (simp add: ask_broker_fetch [OF assms(2,3)] read_after_slice [OF p])
  from consume_loop_batches [OF this _ assms(5), of limit 0] show ?thesis
    using pt.offsets [OF p] assms(4) by (simp add: cmd_consume_def)
qed

text \<open>
  C33. The client prints the records of a partition that holds records from offset 0 on, each once and in order, and comes to
  an end; it prints whole batches of 100, so a limit is rounded up to the next hundred.
\<close>

theorem consume_prints_batches:
  assumes "broker_inv b" "map_of (topics b) t = Some ps" "i < length ps"
    and "part_first (ps ! i) = 0" "part_records (ps ! i) \<noteq> []"
  shows "cmd_consume (ask_broker err_text repr_text now t (int i) b) limit
    = map record_line (take (100 * nat ((limit + 99) div 100)) (part_records (ps ! i)))"
  using assms by (rule consumed_batches)

theorem consume_prints_batches_witness:
  "length (cmd_consume (ask_broker (\<lambda>_. []) (\<lambda>_. []) 0 [116] 0 three_broker) 1) = 3"
proof -
  have t: "map_of (topics three_broker) [116] = Some [\<lparr>part_log = small_log 3\<rparr>]"
    by (simp add: three_broker_def)
  have "first_offset (small_log 3) = 0 \<and> length (log_records (small_log 3)) = 3" by code_simp
  then have "part_first \<lparr>part_log = small_log 3\<rparr> = 0" "length (part_records \<lparr>part_log = small_log 3\<rparr>) = 3"
    by (simp_all add: part_first_def part_records_def)
  moreover from this have "part_records \<lparr>part_log = small_log 3\<rparr> \<noteq> []" by fastforce
  ultimately show ?thesis
    using consume_prints_batches [OF three_broker_inv t, of 0 "\<lambda>_. []" "\<lambda>_. []" 0 1] by simp
qed

section \<open>A call over TCP\<close>

text \<open>However the bytes travel, the client receives the answer of the handler and the broker changes as the handler says.\<close>

lemma client_call_answer:
  assumes cut: "\<And>x. concat (pieces x) = x" and req: "frame_ok req"
    and answer: "broker_handler err_text repr_text now b req = (Inr res, b')" and res: "frame_ok res"
  shows "client_call err_text repr_text now pieces req b = (Inr res, b')"
proof -
  have "serve_conn (broker_handler err_text repr_text now) b (pieces (frame_of req)) = ([frame_of res], b')"
    using serve_frames [of "pieces (frame_of req)" "[req]" "broker_handler err_text repr_text now" b] cut req answer res
    by simp
  moreover have "\<exists>cs'. recv_frame chunk_recv (pieces (frame_of res)) = Inr (res, cs')"
    using sock.recv_sent [OF TrueI _ send_frame_of [OF res], of "pieces (frame_of res)" "[]"] cut res
    by (auto simp: frame_ok_def)
  ultimately show ?thesis
    using send_frame_of [OF req] by (auto simp: client_call_def)
qed

lemma produce_command_answer:
  assumes "list_all scalar s"
  shows "broker_handler err_text repr_text now b (produce_command t s key) =
    (case produce t (map of_nat (concat (map utf8_code s))) key (Some now) now b of
       (Inl e, b') \<Rightarrow> (Inl (err_text e), b') | (Inr r, b') \<Rightarrow> (Inr (produced_json r), b'))"
proof -
  have "utf8_encode s = Inr (map of_nat (concat (map utf8_code s)))"
    using assms by (simp add: utf8_encode_def)
  then show ?thesis
    by (simp add: broker_handler_def tcp_dispatch_def dispatch_produce_def produce_command_def produce_json_def obj_get_def
        ascii_def Let_def produce_now split: option.splits prod.splits sum.splits)
qed

text \<open>
  C20. What the client produces it can consume: over any network that delivers the bytes in order, with frames below 64 MiB and a
  partition whose first records have not been removed, the command prints the partition and the offset that the record was given, and reading that partition to the end then prints the
  old records and, in the last line, this offset and the text as it was typed.
\<close>

theorem produced_is_consumed:
  fixes s t :: ustr and key :: "ustr option" and now limit :: int and b :: broker
  defines "pl \<equiv> map of_nat (concat (map utf8_code s))"
    and "i \<equiv> slot key (length (parts_of t b)) b"
  defines "p \<equiv> parts_of t b ! i"
  defines "r \<equiv> \<lparr>pr_topic = t, pr_partition = i, pr_offset = high_watermark p\<rparr>"
  assumes cut: "\<And>x. concat (pieces x) = x" and inv: "broker_inv b" and s: "list_all scalar s"
    and can: "can_produce t pl key now b"
    and fits: "frame_ok (produce_command t s key)" "frame_ok (produced_json r)"
    and all: "part_first p = 0" "high_watermark p < limit"
  shows "\<exists>b'. cmd_produce err_text repr_text now pieces t s key b = (Inr (dumps (produced_json r)), b') \<and> broker_inv b'
    \<and> cmd_consume (ask_broker err_text repr_text now t (int i) b') limit
      = map record_line (part_records p) @ [[91] @ int_dec (high_watermark p) @ [93, 32] @ s]"
proof -
  obtain p' b' where eff: "produce t pl key (Some now) now b = (Inr r, b')"
      "topics b' = dict_put t ((parts_of t b)[i := p']) (topics b)" "part_first p' = part_first p"
      "part_records p' = part_records p @ [mk_record (high_watermark p) now pl]" "broker_inv b'"
    using produce_effect [OF inv can, of now] unfolding r_def p_def i_def by blast
  have i: "i < length (parts_of t b)"
    using parts_of_ok(1) [OF inv, of t] can slot_less by (simp add: can_produce_def i_def)
  have "part_inv p"
    using parts_of_ok(2) [OF inv, of t] can i by (auto simp: can_produce_def p_def)
  then have hw: "high_watermark p = int (length (part_records p))"
    using pt.nxt_recs all(1) by fastforce
  have "utf8_decode_replace pl = s"
    using s by (intro utf8_replace_valid utf8_round_trip) (simp add: utf8_encode_def pl_def)
  then have line: "record_line (mk_record (high_watermark p) now pl) = [91] @ int_dec (high_watermark p) @ [93, 32] @ s"
    by (simp add: record_line_def)
  have "length (part_records p') \<le> 100 * nat ((limit + 99) div 100)"
    using all(2) hw eff(4) by simp
  then have "cmd_consume (ask_broker err_text repr_text now t (int i) b') limit = map record_line (part_records p')"
    using consumed_batches [of b' t "(parts_of t b)[i := p']" i err_text repr_text now limit] eff(2-5) i all(1)
    by (simp add: dict_put_map_of)
  moreover have "client_call err_text repr_text now pieces (produce_command t s key) b = (Inr (produced_json r), b')"
    using produce_command_answer [OF s, of err_text repr_text now b t key] eff(1)
    by (intro client_call_answer [OF cut fits(1) _ fits(2)]) (simp add: pl_def)
  ultimately show ?thesis
    using eff(4,5) line by (auto simp: cmd_produce_def)
qed

theorem produced_is_consumed_witness:
  "\<exists>b' i. cmd_produce (\<lambda>_. []) (\<lambda>_. []) 5 (map (\<lambda>x. [x])) [116] [233] None sample_broker
      = (Inr (dumps (produced_json \<lparr>pr_topic = [116], pr_partition = i, pr_offset = 0\<rparr>)), b')
    \<and> cmd_consume (ask_broker (\<lambda>_. []) (\<lambda>_. []) 5 [116] (int i) b') 100 = [[91, 48, 93, 32, 233]]"
proof -
  have hw: "high_watermark (parts_of [116] sample_broker ! slot None (length (parts_of [116] sample_broker)) sample_broker) = 0"
    "part_first (parts_of [116] sample_broker ! slot None (length (parts_of [116] sample_broker)) sample_broker) = 0"
    "part_records (parts_of [116] sample_broker ! slot None (length (parts_of [116] sample_broker)) sample_broker) = []"
    "slot None (length (parts_of [116] sample_broker)) sample_broker = 0"
    by code_simp+
  have "frame_ok (produce_command [116] [233] None)" "frame_ok (produced_json \<lparr>pr_topic = [116], pr_partition = 0, pr_offset = 0\<rparr>)"
    by (simp_all add: frame_ok_def MAX_FRAME_BYTES_def produce_command_def produced_json_def ascii_def scalar_def dump_str_def
        esc_def hex4_def int_dec_def nat_dec.simps)
  moreover have "can_produce [116] (map of_nat (concat (map utf8_code [233]))) None 5 sample_broker"
    by (rule sample_can_produce) (simp_all add: key_ok_def utf8_code_def)
  ultimately show ?thesis
    using produced_is_consumed [of "map (\<lambda>x. [x])" sample_broker "[233]" "[116]" None 5 100 "\<lambda>_. []" "\<lambda>_. []"] hw sample_broker_inv
    by (fastforce simp: scalar_def int_dec_def nat_dec.simps)
qed

text \<open>The status command prints the statistics of the broker and changes nothing.\<close>

lemma status_prints_stats:
  assumes "\<And>x. concat (pieces x) = x" "frame_ok (stats_json (broker_stats_of b))"
  shows "cmd_status err_text repr_text now pieces b = (Inr (dumps_indent 0 (stats_json (broker_stats_of b))), b)"
proof -
  let ?req = "JObj [(ascii ''op'', JStr (ascii ''stats''))]"
  have "frame_ok ?req"
    by (simp add: frame_ok_def MAX_FRAME_BYTES_def ascii_def scalar_def dump_str_def esc_def)
  moreover have "broker_handler err_text repr_text now b ?req = (Inr (stats_json (broker_stats_of b)), b)"
    by (simp add: broker_handler_def tcp_dispatch_def obj_get_def ascii_def Let_def)
  ultimately show ?thesis
    using client_call_answer [OF assms(1) _ _ assms(2)] by (simp add: cmd_status_def)
qed

section \<open>Peers\<close>

lemma split_first_at: "c \<notin> set xs \<Longrightarrow> split_first c (xs @ c # ys) = Inr (xs, ys)"
proof -
  assume "c \<notin> set xs"
  then have "takeWhile (\<lambda>x. x \<noteq> c) (xs @ c # ys) = xs" "dropWhile (\<lambda>x. x \<noteq> c) (xs @ c # ys) = c # ys"
    by (induction xs) auto
  then show ?thesis by (simp add: split_first_def)
qed

lemma split_last_at: "c \<notin> set ys \<Longrightarrow> split_last c (xs @ c # ys) = Inr (xs, ys)"
  using split_first_at [of c "rev ys" "rev xs"] by (simp add: split_last_def)

definition peer_spec :: "ustr \<times> ustr \<times> int \<Rightarrow> ustr" where
  "peer_spec p = fst p @ [61] @ fst (snd p) @ [58] @ int_dec (snd (snd p))"

lemma int_dec_no_colon: "58 \<notin> set (int_dec i)"
proof -
  have "58 \<notin> set (nat_dec n)" for n
    using nat_dec_digits [of n] by (auto simp: list_all_iff is_digit_def)
  then show ?thesis by (simp add: int_dec_def)
qed

lemma parse_peer_spec: "61 \<notin> set (fst p) \<Longrightarrow> parse_peer (peer_spec p) = Inr p"
  using split_first_at [of 61 "fst p"] split_last_at [OF int_dec_no_colon]
  by (simp add: parse_peer_def peer_spec_def int_of_str_dec)

lemma parse_peers_specs:
  assumes "distinct (map fst (acc @ ps))" "\<forall>p \<in> set ps. 61 \<notin> set (fst p)"
  shows "parse_peers (map peer_spec ps) acc = Inr (acc @ ps)"
  using assms
proof (induction ps arbitrary: acc)
  case (Cons p ps)
  obtain n a where p: "p = (n, a)" by (cases p)
  have "n \<notin> fst ` set acc" using Cons.prems(1) p by auto
  then have "dict_put n a acc = acc @ [(n, a)]" by (rule dict_put_new)
  with Cons.IH [of "acc @ [p]"] Cons.prems p show ?case by (simp add: parse_peer_spec)
qed simp

text \<open>
  The peers of a Raft node given as \<^verbatim>\<open>id=host:port\<close> are read back in the order given, hosts with colons
  included, and the node starts exactly when it is one of them.
\<close>

theorem peers_read_back:
  assumes "distinct (map fst ps)" "\<forall>p \<in> set ps. 61 \<notin> set (fst p)"
  shows "node_peers nid (map peer_spec ps) = Inr (if nid \<in> fst ` set ps then Some ps else None)"
  using parse_peers_specs [of "[]" ps] assms by (auto simp: node_peers_def map_of_eq_None_iff)

theorem peers_read_back_witness:
  "node_peers [97] [peer_spec ([97], [58, 58, 49], 9001), peer_spec ([98], [104], 9002)]
    = Inr (Some [([97], [58, 58, 49], 9001), ([98], [104], 9002)])"
  using peers_read_back [of "[([97], [58, 58, 49], 9001), ([98], [104], 9002)]" "[97]"] by simp

section \<open>Metrics\<close>

text \<open>
  C26. Whatever is counted and observed, the window of a metric holds the most recent observations, at most 2048 and
  never fewer than the last 1024 of them. The report has three values for it: the average, which times the number of
  observations in the window is their sum; as median the observation of rank n div 2; and as 99th percentile the one of rank
  99 n div 100. An observation has a rank when at most that many in the window are smaller and more than that
  many are not greater, which no other value has.
\<close>

theorem metrics_report_recent:
  fixes ops :: "metric_op list" and k :: ustr and now now' :: rat
  defines "m \<equiv> fold metric_step ops (metrics_init now)" and "w \<equiv> window k (fold metric_step ops (metrics_init now))"
  shows "suffix w (observed k ops) \<and> length w \<le> 2048 \<and> min 1024 (length (observed k ops)) \<le> length w
    \<and> (observed k ops = [] \<or> (\<exists>avg p50 p99.
        {Value_line (k @ ascii ''_avg'') avg, Value_line (k @ ascii ''_p50'') p50, Value_line (k @ ascii ''_p99'') p99}
          \<subseteq> set (prometheus now' m)
        \<and> of_nat (length w) * avg = sum_list w
        \<and> has_rank (length w div 2) p50 w \<and> has_rank (99 * length w div 100) p99 w
        \<and> p50 \<le> p99 \<and> Min (set w) \<le> avg \<and> avg \<le> Max (set w)))"
proof -
  have w: "window_of (observed k ops) w" unfolding w_def by (rule window_of_run)
  show ?thesis
  proof (cases "w = []")
    case True
    then have "observed k ops = []" using w by (cases "observed k ops") (simp_all add: window_of_def)
    then show ?thesis using w by (simp add: window_of_def)
  next
    case False
    have "window k m = w" by (simp add: m_def w_def)
    then have "{Value_line (k @ ascii ''_avg'') (hist_avg w), Value_line (k @ ascii ''_p50'') (hist_p50 w),
        Value_line (k @ ascii ''_p99'') (hist_p99 w)} \<subseteq> set (prometheus now' m)"
      using window_reported [of k m now'] False by simp
    then show ?thesis
      using w average_sum [OF False] quantile_ranks [OF False] quantiles_in_window(3) [OF False]
        average_bounds [OF False, of "Min (set w)" "Max (set w)"]
      unfolding window_of_def
      by (intro conjI disjI2 exI [of _ "hist_avg w"] exI [of _ "hist_p50 w"] exI [of _ "hist_p99 w"]) simp_all
  qed
qed

end
