(* ===== verification/Cluster_Demo.thy ===== *)
theory Cluster_Demo
  imports Server
begin

text \<open>
  The demonstration clusters of \<^verbatim>\<open>cmd_replicate\<close> in \<^verbatim>\<open>cli.py\<close> and of \<^verbatim>\<open>raft_demo.py\<close>, and the waiting of a server node. The nodes
  run in threads of their own: what they do while the main thread sleeps is the argument \<open>wait\<close>, a function of
  the time slept and the state, and what the main thread does between two sleeps happens at one time. Times
  are milliseconds. \<open>kv_text\<close> is the text Python makes of the data of a store and \<open>disk_records\<close> the number of
  records on disk of a log that has statistics.
\<close>

record demo_node =
  dn_server :: server
  dn_running :: bool
  dn_stopped :: bool

record demo =
  demo_now :: rat
  demo_nodes :: "demo_node list"

abbreviation dn_node :: "demo_node \<Rightarrow> raft_node" where
  "dn_node dn \<equiv> srv_node (dn_server dn)"

definition set_node :: "nat \<Rightarrow> raft_node \<Rightarrow> demo \<Rightarrow> demo" where
  "set_node i n d =
     (let dn = demo_nodes d ! i in
      d\<lparr>demo_nodes := (demo_nodes d)[i := dn\<lparr>dn_server := (dn_server dn)\<lparr>srv_node := n\<rparr>\<rparr>]\<rparr>)"

section \<open>Waiting\<close>

text \<open>\<^verbatim>\<open>stop\<close> ends the timer loop and closes the listening socket; the object stays as it is.\<close>

definition stop_server :: "demo_node \<Rightarrow> demo_node" where
  "stop_server dn = dn\<lparr>dn_running := False\<rparr>"

partial_function (option) role_loop ::
  "(rat \<Rightarrow> demo \<Rightarrow> demo) \<Rightarrow> nat \<Rightarrow> role \<Rightarrow> rat \<Rightarrow> demo \<Rightarrow> (bool \<times> demo) option" where
  "role_loop wait i r deadline d =
     (if demo_now d < deadline then
        if node_role (dn_node (demo_nodes d ! i)) = r then Some (True, d)
        else role_loop wait i r deadline (wait 10 d)
      else Some (False, d))"

definition wait_for_role ::
  "(rat \<Rightarrow> demo \<Rightarrow> demo) \<Rightarrow> nat \<Rightarrow> role \<Rightarrow> rat \<Rightarrow> demo \<Rightarrow> (bool \<times> demo) option" where
  "wait_for_role wait i r timeout d = role_loop wait i r (demo_now d + timeout) d"

text \<open>\<^verbatim>\<open>runner.leader()\<close>, as the place of the node in the list.\<close>

definition leader_place :: "demo \<Rightarrow> nat option" where
  "leader_place d = find (\<lambda>i. node_role (dn_node (demo_nodes d ! i)) = LEADER) [0..<length (demo_nodes d)]"

fun propose_stable ::
  "(rat \<Rightarrow> demo \<Rightarrow> demo) \<Rightarrow> bytes \<Rightarrow> nat \<Rightarrow> demo \<Rightarrow> (demo, bool) outcome" where
  "propose_stable wait payload 0 d = (Inr False, d)"
| "propose_stable wait payload (Suc attempts) d =
     (case leader_place d of
        None \<Rightarrow> propose_stable wait payload attempts (wait 100 d)
      | Some i \<Rightarrow>
          (case propose (demo_now d) payload (dn_node (demo_nodes d ! i)) of
             (Inl e, n) \<Rightarrow> (Inl e, set_node i n d)
           | (Inr None, n) \<Rightarrow> propose_stable wait payload attempts (wait 100 (set_node i n d))
           | (Inr (Some _), n) \<Rightarrow> (Inr True, set_node i n d)))"

definition demo_live :: "demo \<Rightarrow> demo_node list" where
  "demo_live d = filter (\<lambda>n. \<not> dn_stopped n) (demo_nodes d)"

text \<open>One turn of \<^verbatim>\<open>cluster_stable\<close>: the leader that all live nodes name and that is one of them.\<close>

definition agreed_leader :: "demo \<Rightarrow> ustr option" where
  "agreed_leader d =
     (let live = demo_live d; claimed = remdups (map (\<lambda>n. leader_id (dn_node n)) live) in
      case claimed of
        [Some l] \<Rightarrow>
          if l \<in> set (map (\<lambda>n. node_id (dn_node n)) live)
            \<and> list_ex (\<lambda>n. node_id (dn_node n) = l \<and> node_role (dn_node n) = LEADER) live
          then Some l else None
      | _ \<Rightarrow> None)"

partial_function (option) stable_loop ::
  "(rat \<Rightarrow> demo \<Rightarrow> demo) \<Rightarrow> rat \<Rightarrow> demo \<Rightarrow> (ustr option \<times> demo) option" where
  "stable_loop wait deadline d =
     (if demo_now d < deadline then
        (case agreed_leader d of
           Some l \<Rightarrow> Some (Some l, d)
         | None \<Rightarrow> stable_loop wait deadline (wait 50 d))
      else Some (None, d))"

definition cluster_stable ::
  "(rat \<Rightarrow> demo \<Rightarrow> demo) \<Rightarrow> rat \<Rightarrow> demo \<Rightarrow> (ustr option \<times> demo) option" where
  "cluster_stable wait timeout d = stable_loop wait (demo_now d + timeout) d"

section \<open>What is shown\<close>

definition role_name :: "role \<Rightarrow> ustr" where
  "role_name r = ascii (case r of FOLLOWER \<Rightarrow> ''follower'' | CANDIDATE \<Rightarrow> ''candidate'' | LEADER \<Rightarrow> ''leader'')"

text \<open>\<^verbatim>\<open>{text:<width}\<close>\<close>

definition pad_right :: "nat \<Rightarrow> ustr \<Rightarrow> ustr" where
  "pad_right width s = s @ replicate (width - length s) 32"

definition show_node :: "(kv_store option \<Rightarrow> ustr) \<Rightarrow> (server \<Rightarrow> int option) \<Rightarrow> demo_node \<Rightarrow> ustr" where
  "show_node kv_text disk_records dn =
     (if dn_stopped dn then ascii ''  '' @ node_id (dn_node dn) @ ascii '': <crashed>''
      else
        let i = info (dn_node dn);
            log_part = ascii ''log='' @ int_dec (info_log_len i)
              @ (case disk_records (dn_server dn) of None \<Rightarrow> [] | Some k \<Rightarrow> ascii ''/disk='' @ int_dec k)
        in ascii ''  '' @ node_id (dn_node dn) @ ascii '': '' @ pad_right 8 (role_name (info_role i))
          @ ascii '' term='' @ int_dec (info_term i) @ ascii '' commit='' @ int_dec (info_commit i)
          @ ascii '' '' @ log_part @ ascii '' kv='' @ kv_text (state_machine (dn_node dn)))"

definition show_cluster :: "(demo_node \<Rightarrow> ustr) \<Rightarrow> ustr \<Rightarrow> demo \<Rightarrow> ustr list" where
  "show_cluster line reason d = ([10, 45, 45, 32] @ reason @ [32, 45, 45]) # map line (demo_nodes d)"

section \<open>The demonstration\<close>

definition numbered_write :: "int \<Rightarrow> bytes" where
  "numbered_write i = encode_ascii (ascii ''key'' @ int_dec i @ ascii ''=value'' @ int_dec i)"

fun demo_writes :: "(rat \<Rightarrow> demo \<Rightarrow> demo) \<Rightarrow> int list \<Rightarrow> demo \<Rightarrow> (demo, ustr list) outcome" where
  "demo_writes wait [] d = (Inr [], d)"
| "demo_writes wait (i # is) d =
     (case propose_stable wait (numbered_write i) 60 d of
        (Inl e, d1) \<Rightarrow> (Inl e, d1)
      | (Inr ok, d1) \<Rightarrow>
          (case demo_writes wait is d1 of
             (Inl e, d2) \<Rightarrow> (Inl e, d2)
           | (Inr warnings, d2) \<Rightarrow>
               (Inr ((if ok then [] else [ascii ''warning: write key'' @ int_dec i @ ascii '' did not commit'']) @ warnings), d2)))"

definition opt_name :: "ustr option \<Rightarrow> ustr" where
  "opt_name x = (case x of None \<Rightarrow> ascii ''None'' | Some s \<Rightarrow> s)"

text \<open>The snapshot on the leader and its crash: the lines printed.\<close>

definition crash_leader :: "demo \<Rightarrow> (demo, ustr list) outcome" where
  "crash_leader d =
     (case leader_place d of
        None \<Rightarrow> (Inl AttributeError, d)
      | Some i \<Rightarrow>
          let (res, n) = take_snapshot (dn_node (demo_nodes d ! i));
              d1 = set_node i n d;
              name = node_id n;
              included = (case res of None \<Rightarrow> [45] | Some (idx, _, _) \<Rightarrow> int_dec idx);
              d2 = d1\<lparr>demo_nodes := (demo_nodes d1)[i := (stop_server (demo_nodes d1 ! i))\<lparr>dn_stopped := True\<rparr>]\<rparr>
          in (Inr [10 # ascii ''snapshot taken on '' @ name @ ascii '': last_included_index='' @ included,
                   10 # ascii ''crashing the LEADER ('' @ name @ ascii '') ...''], d2))"

text \<open>From the crash to the end. The exit code comes with the lines printed.\<close>

definition after_crash ::
  "(rat \<Rightarrow> demo \<Rightarrow> demo) \<Rightarrow> (demo_node \<Rightarrow> ustr) \<Rightarrow> demo \<Rightarrow> ((demo, ustr list) outcome) option" where
  "after_crash wait line d =
     (case crash_leader d of
        (Inl e, d1) \<Rightarrow> Some (Inl e, d1)
      | (Inr crash_lines, d1) \<Rightarrow>
          (case cluster_stable wait 20000 (wait 500 d1) of
             None \<Rightarrow> None
           | Some (new_leader, d2) \<Rightarrow>
               (case propose_stable wait (encode_ascii (ascii ''after-crash=yes'')) 60 d2 of
                  (Inl e, d3) \<Rightarrow> Some (Inl e, d3)
                | (Inr _, d3) \<Rightarrow>
                    let d4 = wait 300 d3 in
                    Some (Inr (crash_lines
                        @ show_cluster line (ascii ''re-elected '' @ [39] @ opt_name new_leader @ [39] @ ascii '' and kept writing'') d4
                        @ [10 # ascii ''stopping cluster'']),
                      d4\<lparr>demo_nodes := map (\<lambda>n. if dn_stopped n then n else stop_server n) (demo_nodes d4)\<rparr>))))"

definition replicate_demo ::
  "(rat \<Rightarrow> demo \<Rightarrow> demo) \<Rightarrow> (demo_node \<Rightarrow> ustr) \<Rightarrow> demo \<Rightarrow> ((demo, int \<times> ustr list) outcome) option" where
  "replicate_demo wait line d =
     (case cluster_stable wait 15000 d of
        None \<Rightarrow> None
      | Some (None, d1) \<Rightarrow> Some (Inr (1, [ascii ''no stable leader elected'']), d1)
      | Some (Some l, d1) \<Rightarrow>
          (case demo_writes wait [0, 1, 2, 3, 4] d1 of
             (Inl e, d2) \<Rightarrow> Some (Inl e, d2)
           | (Inr warnings, d2) \<Rightarrow>
               (case cluster_stable wait 15000 d2 of
                  None \<Rightarrow> None
                | Some (_, d3) \<Rightarrow>
                    (case after_crash wait line d3 of
                       None \<Rightarrow> None
                     | Some (Inl e, d4) \<Rightarrow> Some (Inl e, d4)
                     | Some (Inr lines, d4) \<Rightarrow>
                         Some (Inr (0, show_cluster line (ascii ''cluster formed (leader: '' @ l @ ascii '')'') d1 @ warnings
                           @ show_cluster line (ascii ''replicated writes'') d3 @ lines), d4)))))"

section \<open>The live demonstration\<close>

text \<open>\<^verbatim>\<open>raft_demo.py\<close>. The loop that waits for a leader, and the rest with the leader it found.\<close>

partial_function (option) leader_loop :: "(rat \<Rightarrow> demo \<Rightarrow> demo) \<Rightarrow> rat \<Rightarrow> demo \<Rightarrow> demo option" where
  "leader_loop wait deadline d =
     (if demo_now d < deadline \<and> leader_place d = None then leader_loop wait deadline (wait 50 d) else Some d)"

fun live_writes :: "(rat \<Rightarrow> demo \<Rightarrow> demo) \<Rightarrow> nat \<Rightarrow> int list \<Rightarrow> demo \<Rightarrow> (demo, int option list) outcome" where
  "live_writes wait i [] d = (Inr [], d)"
| "live_writes wait i (k # ks) d =
     (case propose (demo_now d) (numbered_write k) (dn_node (demo_nodes d ! i)) of
        (Inl e, n) \<Rightarrow> (Inl e, set_node i n d)
      | (Inr idx, n) \<Rightarrow>
          (case live_writes wait i ks (wait 200 (set_node i n d)) of
             (Inl e, d1) \<Rightarrow> (Inl e, d1)
           | (Inr idxs, d1) \<Rightarrow> (Inr (idx # idxs), d1)))"

definition stop_all :: "demo \<Rightarrow> demo" where
  "stop_all d = d\<lparr>demo_nodes := map stop_server (demo_nodes d)\<rparr>"

text \<open>The first node that is not the leader is stopped.\<close>

definition stop_peer :: "nat \<Rightarrow> demo \<Rightarrow> (demo, nat) outcome" where
  "stop_peer i d =
     (case find (\<lambda>j. j \<noteq> i) [0..<length (demo_nodes d)] of
        None \<Rightarrow> (Inl StopIteration, d)
      | Some j \<Rightarrow> (Inr j, d\<lparr>demo_nodes := (demo_nodes d)[j := stop_server (demo_nodes d ! j)]\<rparr>))"

definition live_line :: "(kv_store option \<Rightarrow> ustr) \<Rightarrow> bool \<Rightarrow> demo_node \<Rightarrow> ustr" where
  "live_line kv_text commits dn =
     ascii ''  '' @ node_id (dn_node dn) @ ascii '': role='' @ pad_right 8 (role_name (node_role (dn_node dn)))
       @ (if commits then ascii '' commit='' @ int_dec (commit_index (dn_node dn)) else [])
       @ ascii '' kv='' @ kv_text (state_machine (dn_node dn))"

text \<open>
  The indexes at which the writes were proposed, the lines about the nodes, the victim, the lines about the nodes
  that still run, and the index of the last write.
\<close>

definition live_demo ::
  "(rat \<Rightarrow> demo \<Rightarrow> demo) \<Rightarrow> (kv_store option \<Rightarrow> ustr) \<Rightarrow> demo
     \<Rightarrow> ((demo, int option list \<times> ustr list \<times> nat \<times> ustr list \<times> int option) outcome) option" where
  "live_demo wait kv_text d =
     (case leader_loop wait (demo_now d + 10000) d of
        None \<Rightarrow> None
      | Some d1 \<Rightarrow>
          Some (case leader_place d1 of
             None \<Rightarrow> (Inl AssertionError, d1)
           | Some i \<Rightarrow>
               (case live_writes wait i [0, 1, 2, 3, 4] d1 of
                  (Inl e, d2) \<Rightarrow> (Inl e, d2)
                | (Inr idxs, d2) \<Rightarrow>
                    let d3 = wait 500 d2 in
                    (case stop_peer i d3 of
                       (Inl e, d4) \<Rightarrow> (Inl e, d4)
                     | (Inr victim, d4) \<Rightarrow>
                         (case propose (demo_now d4) (encode_ascii (ascii ''after-crash=yes'')) (dn_node (demo_nodes d4 ! i)) of
                            (Inl e, n) \<Rightarrow> (Inl e, set_node i n d4)
                          | (Inr idx, n) \<Rightarrow>
                              let d5 = wait 1000 (set_node i n d4) in
                              (Inr (idxs, map (live_line kv_text True) (demo_nodes d3), victim,
                                    map (live_line kv_text False) (filter dn_running (demo_nodes d5)), idx),
                               stop_all d5))))))"

end
