(* ===== verification/Cluster_Demo_Theorems.thy ===== *)
theory Cluster_Demo_Theorems
  imports Cluster_Demo
begin

text \<open>
  The waiting loops end, what \<^verbatim>\<open>cluster_stable\<close> answers holds at that moment, and where a write goes after the
  leader has been stopped. The only fact used of \<^verbatim>\<open>time.sleep\<close> is that it sleeps for at least the time given.
\<close>

section \<open>Loops that wait\<close>

definition sleeps :: "(rat \<Rightarrow> demo \<Rightarrow> demo) \<Rightarrow> bool" where
  "sleeps wait \<longleftrightarrow> (\<forall>ms d. demo_now d + ms \<le> demo_now (wait ms d))"

lemma wait_induct:
  assumes "sleeps wait" "0 < ms"
    and over: "\<And>d. deadline \<le> demo_now d \<Longrightarrow> P d"
    and again: "\<And>d. demo_now d < deadline \<Longrightarrow> P (wait ms d) \<Longrightarrow> P d"
  shows "P d"
proof (induction "nat \<lceil>(deadline - demo_now d) / ms\<rceil>" arbitrary: d rule: less_induct)
  case less
  show ?case
  proof (cases "deadline \<le> demo_now d")
    case False
    have "demo_now d + ms \<le> demo_now (wait ms d)"
      using assms(1) by (simp add: sleeps_def)
    then have "(deadline - demo_now (wait ms d)) / ms \<le> (deadline - demo_now d) / ms - 1"
      using assms(2) divide_right_mono [of "deadline - demo_now (wait ms d)" "deadline - demo_now d - ms" ms]
      by (simp add: diff_divide_distrib)
    then have "\<lceil>(deadline - demo_now (wait ms d)) / ms\<rceil> \<le> \<lceil>(deadline - demo_now d) / ms\<rceil> - 1"
      by (metis ceiling_diff_one ceiling_mono)
    moreover have "0 < \<lceil>(deadline - demo_now d) / ms\<rceil>"
      using False assms(2) by simp
    ultimately have "nat \<lceil>(deadline - demo_now (wait ms d)) / ms\<rceil> < nat \<lceil>(deadline - demo_now d) / ms\<rceil>"
      by linarith
    then show ?thesis using False less again by simp
  qed (rule over)
qed

lemma wait_for_role_ends:
  assumes "sleeps wait"
  shows "\<exists>ok d'. wait_for_role wait i r timeout d = Some (ok, d')
    \<and> (if ok then node_role (dn_node (demo_nodes d' ! i)) = r \<and> demo_now d' < demo_now d + timeout
       else demo_now d + timeout \<le> demo_now d')"
proof -
  have "\<exists>ok d'. role_loop wait i r deadline d = Some (ok, d')
      \<and> (if ok then node_role (dn_node (demo_nodes d' ! i)) = r \<and> demo_now d' < deadline else deadline \<le> demo_now d')" for deadline
  proof (induction rule: wait_induct [OF assms, of 10 deadline])
    case (2 d)
    then show ?case by (subst role_loop.simps) (simp add: exI [of _ False])
  next
    case (3 d)
    then show ?case by (subst role_loop.simps) auto
  qed simp
  then show ?thesis by (simp add: wait_for_role_def)
qed

definition agreed :: "ustr \<Rightarrow> demo \<Rightarrow> bool" where
  "agreed l d \<longleftrightarrow> (\<forall>n \<in> set (demo_live d). leader_id (dn_node n) = Some l)
     \<and> (\<exists>n \<in> set (demo_live d). node_id (dn_node n) = l \<and> node_role (dn_node n) = LEADER)"

lemma remdups_single: "remdups xs = [x] \<longleftrightarrow> xs \<noteq> [] \<and> (\<forall>y \<in> set xs. y = x)"
proof
  assume r: "remdups xs = [x]"
  have "set (remdups xs) = {x}" by (simp only: r list.set)
  then have "set xs = {x}" by simp
  then show "xs \<noteq> [] \<and> (\<forall>y \<in> set xs. y = x)" by auto
next
  assume a: "xs \<noteq> [] \<and> (\<forall>y \<in> set xs. y = x)"
  then have "set (remdups xs) = {x}" by (auto simp: neq_Nil_conv)
  then show "remdups xs = [x]"
    using distinct_remdups [of xs] distinct_card [of "remdups xs"] by (cases "remdups xs" rule: remdups_adj.cases) auto
qed

lemma agreed_leader_iff: "agreed_leader d = Some l \<longleftrightarrow> agreed l d"
proof -
  let ?ls = "map (\<lambda>n. leader_id (dn_node n)) (demo_live d)"
  have "agreed_leader d = Some l \<longleftrightarrow> remdups ?ls = [Some l] \<and> l \<in> set (map (\<lambda>n. node_id (dn_node n)) (demo_live d))
      \<and> list_ex (\<lambda>n. node_id (dn_node n) = l \<and> node_role (dn_node n) = LEADER) (demo_live d)"
    by (auto simp: agreed_leader_def Let_def split: list.splits option.splits)
  then show ?thesis
    by (auto simp: remdups_single agreed_def list_ex_iff)
qed

lemma cluster_stable_ends:
  assumes "sleeps wait"
  shows "\<exists>res d'. cluster_stable wait timeout d = Some (res, d')
    \<and> (case res of Some l \<Rightarrow> agreed l d' \<and> demo_now d' < demo_now d + timeout | None \<Rightarrow> demo_now d + timeout \<le> demo_now d')"
proof -
  have "\<exists>res d'. stable_loop wait deadline d = Some (res, d')
      \<and> (case res of Some l \<Rightarrow> agreed l d' \<and> demo_now d' < deadline | None \<Rightarrow> deadline \<le> demo_now d')" for deadline
  proof (induction rule: wait_induct [OF assms, of 50 deadline])
    case (2 d)
    then show ?case by (subst stable_loop.simps) simp
  next
    case (3 d)
    show ?case
    proof (cases "agreed_leader d")
      case None
      then show ?thesis using 3 by (subst stable_loop.simps) simp
    next
      case (Some l)
      then have "stable_loop wait deadline d = Some (Some l, d)"
        using 3(1) by (subst stable_loop.simps) simp
      then show ?thesis using Some 3(1) by (simp add: agreed_leader_iff)
    qed
  qed simp
  then show ?thesis by (simp add: cluster_stable_def)
qed

section \<open>The demonstration\<close>

lemma after_crash_ends:
  assumes "sleeps wait"
  shows "\<exists>res d'. after_crash wait line d = Some (res, d')"
proof (cases "crash_leader d")
  case (Pair res d1)
  show ?thesis
  proof (cases res)
    case (Inr a)
    obtain new d2 where "cluster_stable wait 20000 (wait 500 d1) = Some (new, d2)"
      using cluster_stable_ends [OF assms] by blast
    then show ?thesis
      using Pair Inr by (auto simp: after_crash_def Let_def split: prod.splits sum.splits)
  qed (simp add: after_crash_def Pair)
qed

text \<open>
  C34. The demonstration of a replicated cluster comes to an end whatever its nodes do, provided that sleeping takes the time it
  should. It gives up with code 1 exactly when the nodes have not agreed on a leader after fifteen seconds;
  otherwise there was a moment at which every live node named the same leader and that node was live and led.
\<close>

theorem replicate_demo_ends:
  assumes "sleeps wait"
  shows "\<exists>res d'. replicate_demo wait line d = Some (res, d')
    \<and> (\<exists>found d1. cluster_stable wait 15000 d = Some (found, d1)
      \<and> (case found of
           None \<Rightarrow> res = Inr (1, [ascii ''no stable leader elected'']) \<and> d' = d1 \<and> demo_now d + 15000 \<le> demo_now d1
         | Some l \<Rightarrow> agreed l d1 \<and> demo_now d1 < demo_now d + 15000 \<and> (\<forall>printed. res \<noteq> Inr (1, printed))))"
proof -
  obtain found d1 where s: "cluster_stable wait 15000 d = Some (found, d1)"
      "case found of Some l \<Rightarrow> agreed l d1 \<and> demo_now d1 < demo_now d + 15000 | None \<Rightarrow> demo_now d + 15000 \<le> demo_now d1"
    using cluster_stable_ends [OF assms] by blast
  show ?thesis
  proof (cases found)
    case None
    then show ?thesis using s by (auto simp: replicate_demo_def)
  next
    case (Some l)
    obtain w d2 where w: "demo_writes wait [0, 1, 2, 3, 4] d1 = (w, d2)" by fastforce
    obtain f3 d3 where f: "cluster_stable wait 15000 d2 = Some (f3, d3)"
      using cluster_stable_ends [OF assms] by blast
    obtain a d4 where a: "after_crash wait line d3 = Some (a, d4)"
      using after_crash_ends [OF assms] by blast
    have "\<exists>res d'. replicate_demo wait line d = Some (res, d') \<and> (\<forall>printed. res \<noteq> Inr (1, printed))"
      unfolding replicate_demo_def s(1) Some
      by (cases w; cases a) (simp_all add: w f a del: demo_writes.simps)
    then show ?thesis using s Some by auto
  qed
qed

text \<open>Three nodes after the crash of the first, of which the second has been elected.\<close>

definition demo_member :: "ustr \<Rightarrow> role \<Rightarrow> ustr \<Rightarrow> bool \<Rightarrow> demo_node" where
  "demo_member name r leads stopped =
     \<lparr>dn_server = \<lparr>srv_node = (snd (raft_node_init name [[97], [98], [99]] 0 (\<lambda>_. 0) \<lparr>current_term = 0, voted_for = None, state_path = False, state_file = None\<rparr>
          (Some kv_init) raft_log_init [] default_params))\<lparr>node_role := r, leader_id := Some leads\<rparr>, srv_addresses = []\<rparr>,
      dn_running = \<not> stopped, dn_stopped = stopped\<rparr>"

definition crashed_demo :: demo where
  "crashed_demo = \<lparr>demo_now = 0, demo_nodes =
     [demo_member [97] LEADER [97] True, demo_member [98] LEADER [98] False, demo_member [99] FOLLOWER [98] False]\<rparr>"

definition frozen :: "rat \<Rightarrow> demo \<Rightarrow> demo" where
  "frozen ms d = d\<lparr>demo_now := demo_now d + ms\<rparr>"

lemma frozen_sleeps: "sleeps frozen"
  by (simp add: sleeps_def frozen_def)

lemma demo_member_facts [simp]:
  "node_role (dn_node (demo_member name r leads stopped)) = r" "leader_id (dn_node (demo_member name r leads stopped)) = Some leads"
  "node_id (dn_node (demo_member name r leads stopped)) = name" "transfer_target (dn_node (demo_member name r leads stopped)) = None"
  "dn_stopped (demo_member name r leads stopped) = stopped"
  by (simp_all add: demo_member_def raft_node_init_def default_params_def reset_election_deadline_def Let_def)

lemma crashed_demo_facts: "leader_place crashed_demo = Some 0" "agreed_leader crashed_demo = Some [98]"
  by (simp_all add: crashed_demo_def leader_place_def agreed_leader_def demo_live_def Let_def)

theorem replicate_demo_ends_witness: "\<exists>res d'. replicate_demo frozen (show_node (\<lambda>_. []) (\<lambda>_. None)) crashed_demo = Some (res, d')"
  using replicate_demo_ends [OF frozen_sleeps, of "show_node (\<lambda>_. []) (\<lambda>_. None)" crashed_demo] by blast

section \<open>Writing after the crash\<close>

lemma leader_place_props:
  assumes "leader_place d = Some i"
  shows "i < length (demo_nodes d)" "node_role (dn_node (demo_nodes d ! i)) = LEADER"
  using assms by (auto simp: leader_place_def find_Some_iff)

lemma leader_propose:
  assumes "node_role n = LEADER" "transfer_target n = None" "propose now payload n = (Inr res, n')"
  shows "res \<noteq> None"
  using assms by (auto simp: propose_def Let_def split: prod.splits sum.splits)

text \<open>
  A write after the crash can be lost and reported as done: a stopped node still says that it leads until a message tells
  it otherwise, and a node that was started before the new leader is asked first. The write is then entered in
  the log of the stopped node only, every other node is as before, and the result is true unless an exception is raised,
  whatever leader the live nodes agree on.
\<close>

theorem stopped_leader_takes_write:
  assumes "leader_place d = Some i" "transfer_target (dn_node (demo_nodes d ! i)) = None"
    and "dn_stopped (demo_nodes d ! i)" "0 < attempts"
  shows "\<exists>res d'. propose_stable wait payload attempts d = (res, d') \<and> res \<noteq> Inr False
    \<and> length (demo_nodes d') = length (demo_nodes d)
    \<and> (\<forall>j. j \<noteq> i \<longrightarrow> demo_nodes d' ! j = demo_nodes d ! j) \<and> demo_live d' = demo_live d"
proof -
  note i = leader_place_props [OF assms(1)]
  obtain k where k: "attempts = Suc k" using assms(4) by (cases attempts) auto
  obtain res n where p: "propose (demo_now d) payload (dn_node (demo_nodes d ! i)) = (res, n)" by fastforce
  have same: "length (demo_nodes (set_node i n d)) = length (demo_nodes d)"
      "\<forall>j. j \<noteq> i \<longrightarrow> demo_nodes (set_node i n d) ! j = demo_nodes d ! j"
    by (simp_all add: set_node_def Let_def)
  have live: "demo_live (set_node i n d) = demo_live d"
  proof -
    have "filter P (xs[i := y]) = filter P xs" if "i < length xs" "\<not> P (xs ! i)" "\<not> P y" for P :: "demo_node \<Rightarrow> bool" and xs y
      using that id_take_nth_drop [OF that(1)] by (metis append_Nil filter.simps(2) filter_append upd_conv_take_nth_drop)
    then show ?thesis using i(1) assms(3) by (simp add: demo_live_def set_node_def Let_def)
  qed
  have "propose_stable wait payload attempts d = (case res of Inl e \<Rightarrow> Inl e | Inr _ \<Rightarrow> Inr True, set_node i n d)"
    using k assms(1) p leader_propose [OF i(2) assms(2)] by (auto split: sum.splits option.splits)
  then show ?thesis using same live by (auto split: sum.splits)
qed

theorem stopped_leader_takes_write_witness:
  "agreed_leader crashed_demo = Some [98]
    \<and> (\<exists>res d'. propose_stable frozen [120] 60 crashed_demo = (res, d') \<and> res \<noteq> Inr False \<and> demo_live d' = demo_live crashed_demo)"
  using stopped_leader_takes_write [OF crashed_demo_facts(1), of 60 frozen "[120]"] crashed_demo_facts(2)
  by (auto simp: crashed_demo_def)

section \<open>The live demonstration\<close>

lemma leader_loop_ends:
  assumes "sleeps wait"
  shows "\<exists>d'. leader_loop wait deadline d = Some d' \<and> (leader_place d' = None \<longrightarrow> deadline \<le> demo_now d')"
proof (induction rule: wait_induct [OF assms, of 50 deadline])
  case (2 d)
  then show ?case by (subst leader_loop.simps) simp
next
  case (3 d)
  then show ?case by (cases "leader_place d"; subst leader_loop.simps) auto
qed simp

lemma stop_peer_effect:
  assumes "stop_peer i d = (Inr j, d')"
  shows "j \<noteq> i" "j < length (demo_nodes d)" "\<forall>k. k \<noteq> j \<longrightarrow> demo_nodes d' ! k = demo_nodes d ! k"
    "\<not> dn_running (demo_nodes d' ! j)"
  using assms by (auto simp: stop_peer_def stop_server_def find_Some_iff split: option.splits)

text \<open>
  The live demonstration ends whatever the nodes do. If no node leads after ten seconds of waiting it fails with an
  assertion; when it runs to its end, the node it stopped was not the leader it wrote to, and no node is left running.
\<close>

theorem live_demo_ends:
  assumes "sleeps wait"
  shows "\<exists>res d' d1. live_demo wait kv_text d = Some (res, d') \<and> leader_loop wait (demo_now d + 10000) d = Some d1
    \<and> (leader_place d1 = None \<longrightarrow> res = Inl AssertionError \<and> demo_now d + 10000 \<le> demo_now d1)
    \<and> (\<forall>idxs before victim after idx. res = Inr (idxs, before, victim, after, idx) \<longrightarrow>
         length idxs = 5 \<and> leader_place d1 \<noteq> Some victim \<and> (\<forall>n \<in> set (demo_nodes d'). \<not> dn_running n))"
proof -
  obtain d1 where d1: "leader_loop wait (demo_now d + 10000) d = Some d1"
      "leader_place d1 = None \<longrightarrow> demo_now d + 10000 \<le> demo_now d1"
    using leader_loop_ends [OF assms, where deadline = "demo_now d + 10000" and d = d] by auto
  have five: "live_writes wait i ks d0 = (Inr idxs, d2) \<Longrightarrow> length idxs = length ks" for i ks d0 idxs d2
    by (induction ks arbitrary: d0 idxs) (auto split: prod.splits sum.splits)
  show ?thesis
  proof (cases "leader_place d1")
    case None
    then show ?thesis using d1 by (simp add: live_demo_def)
  next
    case (Some i)
    then show ?thesis
      using d1 by (auto simp: live_demo_def stop_all_def stop_server_def Let_def dest!: five stop_peer_effect(1)
          simp del: live_writes.simps split: prod.splits sum.splits)
  qed
qed

theorem live_demo_ends_witness:
  "\<exists>res d'. live_demo frozen (\<lambda>_. []) crashed_demo = Some (res, d')"
  using live_demo_ends [OF frozen_sleeps, of "\<lambda>_. []" crashed_demo] by blast

end
