(* ===== verification/Segment_Handles.thy ===== *)
theory Segment_Handles
  imports Commit_Log
begin

text \<open>
  The open files of \<^verbatim>\<open>Segment\<close> in \<^verbatim>\<open>pylog/log.py\<close>: the two append handles, the buffered reader and the
  memory map, which the object keeps from one call to the next. A path names a file of the file system, an
  open handle holds the file itself and keeps it when the path is removed. A reader has a buffer with bytes that
  it has read before; a memory map shows the file up to the size it was made with. What the buffer holds after a
  read is the argument \<open>win\<close> (a position and a length), and whether the operating system can
  make a map is the argument \<open>can_map\<close>.

  The operations are those of \<open>Segment\<close> again, now through the handles; the two fields of \<open>cs_seg\<close> with the
  contents of the files are not used. The lemmas show that they do what the operations on the
  contents do.
\<close>

section \<open>Files and handles\<close>

datatype seg_path = Log_path | Index_path

record file_system =
  fs_names :: "seg_path \<Rightarrow> nat option"
  fs_data :: "nat \<Rightarrow> bytes"
  fs_fresh :: nat

record reader =
  rd_file :: nat
  rd_start :: nat
  rd_buffer :: bytes

record cached_segment =
  cs_seg :: segment
  cs_fs :: file_system
  log_fh :: "nat option"
  index_fh :: "nat option"
  read_fh :: "reader option"
  mmap :: "(nat \<times> nat) option"

definition path_contents :: "seg_path \<Rightarrow> file_system \<Rightarrow> bytes option" where
  "path_contents p fs = map_option (fs_data fs) (fs_names fs p)"

text \<open>Opening a path creates the file if there is none; mode \<^verbatim>\<open>wb\<close> also empties it.\<close>

definition open_create :: "seg_path \<Rightarrow> file_system \<Rightarrow> nat \<times> file_system" where
  "open_create p fs =
     (case fs_names fs p of
        Some i \<Rightarrow> (i, fs)
      | None \<Rightarrow>
          (fs_fresh fs, fs\<lparr>fs_names := (fs_names fs)(p \<mapsto> fs_fresh fs),
             fs_data := (fs_data fs)(fs_fresh fs := []), fs_fresh := fs_fresh fs + 1\<rparr>))"

definition write_end :: "nat \<Rightarrow> bytes \<Rightarrow> file_system \<Rightarrow> file_system" where
  "write_end i bs fs = fs\<lparr>fs_data := (fs_data fs)(i := fs_data fs i @ bs)\<rparr>"

definition set_contents :: "seg_path \<Rightarrow> bytes \<Rightarrow> file_system \<Rightarrow> file_system" where
  "set_contents p bs fs = (case open_create p fs of (i, fs1) \<Rightarrow> fs1\<lparr>fs_data := (fs_data fs1)(i := bs)\<rparr>)"

definition remove_path :: "seg_path \<Rightarrow> file_system \<Rightarrow> file_system" where
  "remove_path p fs = fs\<lparr>fs_names := (fs_names fs)(p := None)\<rparr>"

definition append_handle :: "cached_segment \<Rightarrow> nat \<times> cached_segment" where
  "append_handle c =
     (case log_fh c of
        Some i \<Rightarrow> (i, c)
      | None \<Rightarrow> (case open_create Log_path (cs_fs c) of (i, fs) \<Rightarrow> (i, c\<lparr>cs_fs := fs, log_fh := Some i\<rparr>)))"

definition index_handle :: "cached_segment \<Rightarrow> nat \<times> cached_segment" where
  "index_handle c =
     (case index_fh c of
        Some i \<Rightarrow> (i, c)
      | None \<Rightarrow> (case open_create Index_path (cs_fs c) of (i, fs) \<Rightarrow> (i, c\<lparr>cs_fs := fs, index_fh := Some i\<rparr>)))"

definition read_handle :: "cached_segment \<Rightarrow> (cached_segment, reader) outcome" where
  "read_handle c =
     (case read_fh c of
        Some r \<Rightarrow> (Inr r, c)
      | None \<Rightarrow>
          (case fs_names (cs_fs c) Log_path of
             None \<Rightarrow> (Inl OSError, c)
           | Some i \<Rightarrow>
               let r = \<lparr>rd_file = i, rd_start = 0, rd_buffer = []\<rparr> in (Inr r, c\<lparr>read_fh := Some r\<rparr>)))"

definition mmap_handle :: "bool \<Rightarrow> cached_segment \<Rightarrow> (nat \<times> nat) option \<times> cached_segment" where
  "mmap_handle can_map c =
     (let sz = length (contents (path_contents Log_path (cs_fs c))) in
      if sz = 0 then (None, c)
      else if mmap c \<noteq> None \<and> snd (the (mmap c)) = sz then (mmap c, c)
      else if can_map then
        (let m = map_option (\<lambda>i. (i, sz)) (fs_names (cs_fs c) Log_path) in (m, c\<lparr>mmap := m\<rparr>))
      else (None, c\<lparr>mmap := None\<rparr>))"

definition close_handles :: "cached_segment \<Rightarrow> cached_segment" where
  "close_handles c = c\<lparr>log_fh := None, index_fh := None, read_fh := None, mmap := None\<rparr>"

text \<open>The bytes from a position on that a reader delivers: from its buffer as far as that reaches, then from the file.\<close>

definition reader_bytes :: "file_system \<Rightarrow> reader \<Rightarrow> nat \<Rightarrow> bytes" where
  "reader_bytes fs r pos =
     (let stop = rd_start r + length (rd_buffer r) in
      if rd_start r \<le> pos \<and> pos < stop
      then drop (pos - rd_start r) (rd_buffer r) @ drop stop (fs_data fs (rd_file r))
      else drop pos (fs_data fs (rd_file r)))"

definition refill :: "nat \<times> nat \<Rightarrow> reader \<Rightarrow> cached_segment \<Rightarrow> cached_segment" where
  "refill win r c =
     c\<lparr>read_fh := Some (r\<lparr>rd_start := fst win,
         rd_buffer := take (snd win) (drop (fst win) (fs_data (cs_fs c) (rd_file r)))\<rparr>)\<rparr>"

section \<open>The operations through the handles\<close>

definition h_maybe_index :: "int \<Rightarrow> int \<Rightarrow> cached_segment \<Rightarrow> (cached_segment, unit) outcome" where
  "h_maybe_index abs_offset position c =
     (let s = cs_seg c; rel = abs_offset - base_offset s in
      if index s = [] \<or> position - last_indexed_position s \<ge> index_interval_bytes s then
        case index_handle (c\<lparr>cs_seg := s\<lparr>index := index s @ [(rel, position)]\<rparr>\<rparr>) of
          (fh, c1) \<Rightarrow>
            (case pack_index_entry rel position of
               Inl e \<Rightarrow> (Inl e, c1)
             | Inr b \<Rightarrow>
                 (Inr (), c1\<lparr>cs_fs := write_end fh b (cs_fs c1),
                             cs_seg := (cs_seg c1)\<lparr>last_indexed_position := position\<rparr>\<rparr>))
      else (Inr (), c))"

definition h_rewrite_index :: "cached_segment \<Rightarrow> (cached_segment, unit) outcome" where
  "h_rewrite_index c =
     (let (res, out) = write_entries (index (cs_seg c)) [] in
      (res, c\<lparr>cs_fs := set_contents Index_path out (cs_fs c)\<rparr>))"

function h_recover_loop ::
  "bytes \<Rightarrow> int \<Rightarrow> int \<Rightarrow> int \<Rightarrow> cached_segment \<Rightarrow> (cached_segment, int \<times> int) outcome" where
  "h_recover_loop f position nxt good c =
     (case read_record f of
        Inl _ \<Rightarrow> (Inr (nxt, good), c)
      | Inr (None, _) \<Rightarrow> (Inr (nxt, good), c)
      | Inr (Some r, f') \<Rightarrow>
          (case h_maybe_index (rec_offset r) position c of
             (Inl e, c1) \<Rightarrow> (Inl e, c1)
           | (Inr _, c1) \<Rightarrow>
               let told = position + int (length f - length f') in
               h_recover_loop f' told (rec_offset r + 1) told
                 (c1\<lparr>cs_seg := (cs_seg c1)\<lparr>max_timestamp := max (max_timestamp (cs_seg c1)) (rec_timestamp r)\<rparr>\<rparr>)))"
  by pat_completeness auto
termination
  by (relation "measure (\<lambda>(f, _). length f)")
    (auto dest!: read_record_shorter simp: HEADER_SIZE_def)

declare h_recover_loop.simps [simp del]

definition h_recover :: "cached_segment \<Rightarrow> (cached_segment, int) outcome" where
  "h_recover c =
     (let s = cs_seg c;
          c0 = (close_handles c)\<lparr>cs_seg := s\<lparr>index := [], seg_size := 0, last_indexed_position := -1,
                 max_timestamp := 0, seg_next_offset := base_offset s\<rparr>\<rparr> in
      case path_contents Log_path (cs_fs c) of
        None \<Rightarrow>
          (Inr (base_offset s), c0\<lparr>cs_fs := set_contents Index_path [] (set_contents Log_path [] (cs_fs c0))\<rparr>)
      | Some f \<Rightarrow>
          (case h_recover_loop f 0 (base_offset s) 0 c0 of
             (Inl e, c1) \<Rightarrow> (Inl e, c1)
           | (Inr (nxt, good), c1) \<Rightarrow>
               let c2 = (if good < int (length f)
                         then c1\<lparr>cs_fs := set_contents Log_path (take (nat good) f) (cs_fs c1)\<rparr> else c1);
                   c3 = c2\<lparr>cs_seg := (cs_seg c2)\<lparr>seg_size := good, seg_next_offset := nxt\<rparr>\<rparr> in
               (case h_rewrite_index c3 of
                  (Inl e, c4) \<Rightarrow> (Inl e, c4)
                | (Inr _, c4) \<Rightarrow> (Inr nxt, c4))))"

definition h_write_log :: "bytes \<Rightarrow> cached_segment \<Rightarrow> cached_segment" where
  "h_write_log bs c = (case append_handle c of (fh, c1) \<Rightarrow> c1\<lparr>cs_fs := write_end fh bs (cs_fs c1)\<rparr>)"

definition h_append :: "int \<Rightarrow> bytes \<Rightarrow> int \<Rightarrow> cached_segment \<Rightarrow> (cached_segment, unit) outcome" where
  "h_append off record_bs ts c =
     (let position = seg_size (cs_seg c);
          c1 = h_write_log record_bs c;
          s = cs_seg c1;
          c2 = c1\<lparr>cs_seg := s\<lparr>seg_size := seg_size s + int (length record_bs),
                 max_timestamp := (if ts > max_timestamp s then ts else max_timestamp s),
                 seg_next_offset := off + 1\<rparr>\<rparr>
      in h_maybe_index off position c2)"

fun h_index_batch :: "batch \<Rightarrow> cached_segment \<Rightarrow> (cached_segment, unit) outcome" where
  "h_index_batch [] c = (Inr (), c)"
| "h_index_batch ((off, pos, ts, rb) # b) c =
     (case h_maybe_index off pos c of
        (Inl e, c1) \<Rightarrow> (Inl e, c1)
      | (Inr _, c1) \<Rightarrow>
          h_index_batch b (c1\<lparr>cs_seg := (cs_seg c1)\<lparr>seg_next_offset := off + 1,
            max_timestamp := (if ts > max_timestamp (cs_seg c1) then ts else max_timestamp (cs_seg c1))\<rparr>\<rparr>))"

definition h_write_batch :: "batch \<Rightarrow> cached_segment \<Rightarrow> (cached_segment, unit) outcome" where
  "h_write_batch b c =
     (let sz = seg_size (cs_seg c) in
      case h_index_batch b (h_write_log (batch_bytes b) c) of
        (Inl e, c2) \<Rightarrow> (Inl e, c2)
      | (Inr _, c2) \<Rightarrow> (Inr (), c2\<lparr>cs_seg := (cs_seg c2)\<lparr>seg_size := sz + int (length (batch_bytes b))\<rparr>\<rparr>))"

definition h_read_file :: "nat \<times> nat \<Rightarrow> (bytes \<Rightarrow> 'a) \<Rightarrow> nat \<Rightarrow> cached_segment \<Rightarrow> (cached_segment, 'a) outcome" where
  "h_read_file win scan from_pos c =
     (case read_handle c of
        (Inl e, c1) \<Rightarrow> (Inl e, c1)
      | (Inr r, c1) \<Rightarrow> (Inr (scan (reader_bytes (cs_fs c1) r from_pos)), refill win r c1))"

text \<open>Seeking behind the end of a map raises, and the reader is used instead.\<close>

definition h_read ::
  "bool \<Rightarrow> nat \<times> nat \<Rightarrow> int \<Rightarrow> cached_segment \<Rightarrow> (cached_segment, log_record option) outcome" where
  "h_read can_map win abs_offset c =
     (let s = cs_seg c in
      if abs_offset < base_offset s \<or> abs_offset \<ge> seg_next_offset s then (Inr None, c)
      else
        let from_pos = nat (start_position (index s) (abs_offset - base_offset s)) in
        case mmap_handle can_map c of
          (Some (i, sz), c1) \<Rightarrow>
            if from_pos \<le> sz
            then (Inr (scan_record abs_offset (drop from_pos (take sz (fs_data (cs_fs c1) i)))), c1)
            else h_read_file win (scan_record abs_offset) from_pos c1
        | (None, c1) \<Rightarrow> h_read_file win (scan_record abs_offset) from_pos c1)"

definition h_position_of :: "nat \<times> nat \<Rightarrow> int \<Rightarrow> cached_segment \<Rightarrow> (cached_segment, int option) outcome" where
  "h_position_of win abs_offset c =
     (let s = cs_seg c in
      if abs_offset < base_offset s \<or> abs_offset \<ge> seg_next_offset s then (Inr None, c)
      else
        let from_pos = start_position (index s) (abs_offset - base_offset s) in
        h_read_file win (scan_position abs_offset from_pos) (nat from_pos) c)"

definition h_truncate_from :: "nat \<times> nat \<Rightarrow> int \<Rightarrow> cached_segment \<Rightarrow> (cached_segment, bool) outcome" where
  "h_truncate_from win abs_offset c =
     (let s = cs_seg c in
      if abs_offset \<le> base_offset s then
        let changed = (seg_size s > 0 \<or> seg_next_offset s \<noteq> base_offset s);
            c0 = close_handles c;
            c1 = c0\<lparr>cs_fs := set_contents Log_path [] (cs_fs c0),
                   cs_seg := s\<lparr>index := [], seg_size := 0, last_indexed_position := -1,
                     max_timestamp := 0, seg_next_offset := base_offset s\<rparr>\<rparr> in
        (case h_rewrite_index c1 of
           (Inl e, c2) \<Rightarrow> (Inl e, c2)
         | (Inr _, c2) \<Rightarrow> (Inr changed, c2))
      else
        (case h_position_of win abs_offset c of
           (Inl e, c0) \<Rightarrow> (Inl e, c0)
         | (Inr None, c0) \<Rightarrow> (Inr False, c0)
         | (Inr (Some position), c0) \<Rightarrow>
             let rel_cut = abs_offset - base_offset s;
                 idx = filter (\<lambda>e. fst e < rel_cut) (index s);
                 f = contents (path_contents Log_path (cs_fs c0));
                 c1 = (close_handles c0)\<lparr>cs_fs := set_contents Log_path (take (nat position) f) (cs_fs c0),
                        cs_seg := s\<lparr>seg_size := position, seg_next_offset := abs_offset, index := idx,
                          last_indexed_position := (if idx \<noteq> [] then snd (last idx) else -1)\<rparr>\<rparr> in
             (case h_rewrite_index c1 of
                (Inl e, c2) \<Rightarrow> (Inl e, c2)
              | (Inr _, c2) \<Rightarrow> (Inr True, c2))))"

definition h_delete :: "cached_segment \<Rightarrow> cached_segment" where
  "h_delete c =
     (let c0 = close_handles c in c0\<lparr>cs_fs := remove_path Index_path (remove_path Log_path (cs_fs c0))\<rparr>)"

end
