(* ===== verification/Segment_Handles_Props.thy ===== *)
theory Segment_Handles_Props
  imports Segment_Handles Segment_Props
begin

text \<open>
  The handles of a segment are coherent: they belong to the files that the paths name, the buffer of the reader
  holds what the file holds, and a map does not reach behind the end of the file. Every operation keeps this,
  and on a coherent segment does what \<open>Segment\<close> says of the contents of the files. The locale states what it
  means to carry out operations on a representation.
\<close>

section \<open>Carrying out operations on a representation\<close>

primrec run_ops :: "('x \<Rightarrow> 's \<Rightarrow> 'o \<times> 's) \<Rightarrow> 'x list \<Rightarrow> 's \<Rightarrow> 'o list \<times> 's" where
  "run_ops step [] s = ([], s)"
| "run_ops step (x # xs) s =
     (case step x s of (out, s1) \<Rightarrow> (case run_ops step xs s1 of (outs, s2) \<Rightarrow> (out # outs, s2)))"

locale carried_out =
  fixes inv :: "'c \<Rightarrow> bool" and view :: "'c \<Rightarrow> 'a"
    and cstep :: "'x \<Rightarrow> 'c \<Rightarrow> 'o \<times> 'c" and astep :: "'x \<Rightarrow> 'a \<Rightarrow> 'o \<times> 'a"
  assumes carried: "inv c \<Longrightarrow> cstep x c = (out, c') \<Longrightarrow> astep x (view c) = (out, view c') \<and> inv c'"
begin

lemma runs_agree:
  "inv c \<Longrightarrow> run_ops cstep xs c = (outs, c') \<Longrightarrow> run_ops astep xs (view c) = (outs, view c') \<and> inv c'"
proof (induction xs arbitrary: c outs)
  case (Cons x xs)
  obtain out c1 where c1: "cstep x c = (out, c1)" by fastforce
  obtain outs1 c2 where c2: "run_ops cstep xs c1 = (outs1, c2)" by fastforce
  have "astep x (view c) = (out, view c1)" "inv c1" using carried [OF Cons.prems(1) c1] by simp_all
  with Cons.IH [of c1 outs1] Cons.prems(2) c1 c2 show ?case by simp
qed simp

end

section \<open>Files\<close>

definition fs_ok :: "file_system \<Rightarrow> bool" where
  "fs_ok fs \<longleftrightarrow> (\<forall>p i. fs_names fs p = Some i \<longrightarrow> i < fs_fresh fs)
     \<and> (\<forall>p q i. fs_names fs p = Some i \<and> fs_names fs q = Some i \<longrightarrow> p = q)"

lemma open_create_effect:
  assumes "fs_ok fs" "open_create p fs = (i, fs')"
  shows "fs_ok fs'" "fs_names fs' = (fs_names fs)(p \<mapsto> i)"
    "path_contents q fs' = (if q = p then Some (contents (path_contents p fs)) else path_contents q fs)"
    "fs_names fs p = Some j \<Longrightarrow> fs' = fs"
    "fs_names fs q = Some j \<Longrightarrow> fs_data fs' j = fs_data fs j"
proof -
  have new: "fs_names fs q = Some j \<Longrightarrow> j \<noteq> fs_fresh fs" for q j
    using assms(1) by (auto simp: fs_ok_def)
  show "fs_ok fs'"
    using assms by (auto simp: fs_ok_def open_create_def less_Suc_eq split: option.splits if_splits dest: new)
  show "fs_names fs' = (fs_names fs)(p \<mapsto> i)"
    using assms(2) by (auto simp: open_create_def split: option.splits)
  show "path_contents q fs' = (if q = p then Some (contents (path_contents p fs)) else path_contents q fs)"
    using assms(2) new [of q]
    by (cases "fs_names fs q") (auto simp: open_create_def path_contents_def contents_def split: option.splits)
  show "fs_names fs p = Some j \<Longrightarrow> fs' = fs"
    using assms(2) by (simp add: open_create_def)
  show "fs_names fs q = Some j \<Longrightarrow> fs_data fs' j = fs_data fs j"
    using assms(2) new by (auto simp: open_create_def split: option.splits)
qed

lemma write_end_effect:
  assumes "fs_ok fs" "fs_names fs p = Some i"
  shows "fs_ok (write_end i bs fs)" "fs_names (write_end i bs fs) = fs_names fs"
    "path_contents q (write_end i bs fs) = (if q = p then Some (contents (path_contents p fs) @ bs) else path_contents q fs)"
proof -
  show "path_contents q (write_end i bs fs) = (if q = p then Some (contents (path_contents p fs) @ bs) else path_contents q fs)"
    using assms by (cases "fs_names fs q") (auto simp: fs_ok_def write_end_def path_contents_def contents_def)
qed (use assms in \<open>simp_all add: fs_ok_def write_end_def\<close>)

lemma set_contents_effect:
  assumes "fs_ok fs"
  shows "fs_ok (set_contents p bs fs)" "fs_names (set_contents p bs fs) p \<noteq> None"
    "q \<noteq> p \<Longrightarrow> fs_names (set_contents p bs fs) q = fs_names fs q"
    "path_contents q (set_contents p bs fs) = (if q = p then Some bs else path_contents q fs)"
    "fs_names fs p = Some j \<Longrightarrow> fs_names (set_contents p bs fs) = fs_names fs"
    "q \<noteq> p \<Longrightarrow> fs_names fs q = Some j \<Longrightarrow> fs_data (set_contents p bs fs) j = fs_data fs j"
proof -
  obtain i fs1 where o: "open_create p fs = (i, fs1)" by fastforce
  note e = open_create_effect [OF assms o]
  have sc: "set_contents p bs fs = fs1\<lparr>fs_data := (fs_data fs1)(i := bs)\<rparr>" by (simp add: set_contents_def o)
  have other: "fs_names fs1 q = Some j \<Longrightarrow> q \<noteq> p \<Longrightarrow> j \<noteq> i" for q j
    using e(1,2) unfolding fs_ok_def by (metis fun_upd_same)
  show "fs_ok (set_contents p bs fs)" using e(1) by (simp add: sc fs_ok_def)
  show "fs_names (set_contents p bs fs) p \<noteq> None" by (simp add: sc e(2))
  show "q \<noteq> p \<Longrightarrow> fs_names (set_contents p bs fs) q = fs_names fs q" by (simp add: sc e(2))
  show "path_contents q (set_contents p bs fs) = (if q = p then Some bs else path_contents q fs)"
  proof (cases "q = p")
    case False
    then have "path_contents q (set_contents p bs fs) = path_contents q fs1"
      using other [of q] by (cases "fs_names fs1 q") (simp_all add: sc path_contents_def)
    then show ?thesis using e(3) [of q] False by simp
  qed (simp add: sc path_contents_def e(2))
  show "fs_names fs p = Some j \<Longrightarrow> fs_names (set_contents p bs fs) = fs_names fs"
    using e(4) [of j] by (simp add: sc)
  show "q \<noteq> p \<Longrightarrow> fs_names fs q = Some j \<Longrightarrow> fs_data (set_contents p bs fs) j = fs_data fs j"
    using e(2,5) other [of q j] by (simp add: sc)
qed

section \<open>Coherence\<close>

text \<open>\<open>seg_view\<close> is the segment with the contents that its paths name.\<close>

definition seg_view :: "cached_segment \<Rightarrow> segment" where
  "seg_view c = (cs_seg c)\<lparr>log_file := path_contents Log_path (cs_fs c), index_file := path_contents Index_path (cs_fs c)\<rparr>"

definition reader_ok :: "file_system \<Rightarrow> reader \<Rightarrow> bool" where
  "reader_ok fs r \<longleftrightarrow> fs_names fs Log_path = Some (rd_file r)
     \<and> rd_buffer r = take (length (rd_buffer r)) (drop (rd_start r) (fs_data fs (rd_file r)))"

definition coherent :: "cached_segment \<Rightarrow> bool" where
  "coherent c \<longleftrightarrow> fs_ok (cs_fs c)
     \<and> (\<forall>i. log_fh c = Some i \<longrightarrow> fs_names (cs_fs c) Log_path = Some i)
     \<and> (\<forall>i. index_fh c = Some i \<longrightarrow> fs_names (cs_fs c) Index_path = Some i)
     \<and> (\<forall>r. read_fh c = Some r \<longrightarrow> reader_ok (cs_fs c) r)
     \<and> (\<forall>i n. mmap c = Some (i, n) \<longrightarrow> fs_names (cs_fs c) Log_path = Some i \<and> n \<le> length (fs_data (cs_fs c) i))"

abbreviation present :: "cached_segment \<Rightarrow> bool" where
  "present c \<equiv> fs_names (cs_fs c) Log_path \<noteq> None"

lemma seg_view_fields [simp]:
  "base_offset (seg_view c) = base_offset (cs_seg c)" "index_interval_bytes (seg_view c) = index_interval_bytes (cs_seg c)"
  "index (seg_view c) = index (cs_seg c)" "seg_size (seg_view c) = seg_size (cs_seg c)"
  "last_indexed_position (seg_view c) = last_indexed_position (cs_seg c)"
  "max_timestamp (seg_view c) = max_timestamp (cs_seg c)" "seg_next_offset (seg_view c) = seg_next_offset (cs_seg c)"
  "log_file (seg_view c) = path_contents Log_path (cs_fs c)" "index_file (seg_view c) = path_contents Index_path (cs_fs c)"
  by (simp_all add: seg_view_def)

lemma coherent_seg [simp]: "coherent (c\<lparr>cs_seg := s\<rparr>) = coherent c"
  by (simp add: coherent_def)

lemma close_handles_coherent:
  "fs_ok fs \<Longrightarrow> coherent ((close_handles c)\<lparr>cs_fs := fs\<rparr>)" "coherent c \<Longrightarrow> coherent (close_handles c)"
  by (simp_all add: coherent_def close_handles_def)

text \<open>A reader whose buffer is right delivers what the file holds.\<close>

lemma reader_bytes_file:
  assumes "reader_ok fs r"
  shows "reader_bytes fs r pos = drop pos (contents (path_contents Log_path fs))"
proof -
  let ?f = "fs_data fs (rd_file r)" and ?n = "length (rd_buffer r)"
  have f: "contents (path_contents Log_path fs) = ?f"
    using assms by (simp add: reader_ok_def path_contents_def contents_def)
  show ?thesis
  proof (cases "rd_start r \<le> pos \<and> pos < rd_start r + ?n")
    case True
    define k where "k = pos - rd_start r"
    have k: "pos = rd_start r + k" "k < ?n" using True by (auto simp: k_def)
    have "drop k (rd_buffer r) @ drop ?n (drop (rd_start r) ?f) = drop k (rd_buffer r @ drop ?n (drop (rd_start r) ?f))"
      using k by simp
    also have "rd_buffer r @ drop ?n (drop (rd_start r) ?f) = drop (rd_start r) ?f"
      using assms append_take_drop_id [of ?n "drop (rd_start r) ?f"] by (simp add: reader_ok_def)
    finally show ?thesis using k f by (simp add: reader_bytes_def Let_def add.commute)
  qed (auto simp: reader_bytes_def Let_def f)
qed

lemma refill_coherent:
  assumes "coherent c" "read_fh c = Some r"
  shows "coherent (refill win r c)"
  using assms by (auto simp: coherent_def refill_def reader_ok_def min_def)

text \<open>Bytes added at the end of the log spoil neither the buffer nor the map.\<close>

lemma reader_ok_grow:
  assumes "reader_ok fs r" "fs_names fs' Log_path = fs_names fs Log_path"
    and "\<exists>bs. fs_data fs' (rd_file r) = fs_data fs (rd_file r) @ bs"
  shows "reader_ok fs' r"
proof -
  let ?n = "length (rd_buffer r)"
  obtain bs where bs: "fs_data fs' (rd_file r) = fs_data fs (rd_file r) @ bs" using assms(3) by blast
  have buf: "rd_buffer r = take ?n (drop (rd_start r) (fs_data fs (rd_file r)))"
    using assms(1) by (simp add: reader_ok_def)
  then have "?n \<le> length (drop (rd_start r) (fs_data fs (rd_file r)))"
    by (metis length_take min.cobounded1 min_def nle_le)
  then have "take ?n (drop (rd_start r) (fs_data fs' (rd_file r))) = rd_buffer r"
    using buf by (simp add: bs)
  then show ?thesis using assms(1,2) by (simp add: reader_ok_def)
qed

lemma coherent_grow:
  assumes "coherent c" "fs_ok fs'" "fs_names (cs_fs c) Log_path = Some i" "fs_names fs' Log_path = Some i"
    and "\<exists>bs. fs_data fs' i = fs_data (cs_fs c) i @ bs"
    and "\<And>j. index_fh c = Some j \<Longrightarrow> fs_names fs' Index_path = Some j"
  shows "coherent (c\<lparr>cs_fs := fs'\<rparr>)"
proof -
  have "reader_ok fs' r" if "read_fh c = Some r" for r
    using that assms(1,3-5) reader_ok_grow [of "cs_fs c" r fs'] by (auto simp: coherent_def reader_ok_def)
  moreover have "n \<le> length (fs_data fs' j) \<and> j = i" if "mmap c = Some (j, n)" for j n
    using that assms(1,3,5) by (fastforce simp: coherent_def)
  ultimately show ?thesis
    using assms by (auto simp: coherent_def)
qed

text \<open>Changes of the index file do not concern the handles of the log.\<close>

definition same_log :: "file_system \<Rightarrow> file_system \<Rightarrow> bool" where
  "same_log fs fs' \<longleftrightarrow> fs_names fs' Log_path = fs_names fs Log_path
     \<and> (\<forall>i. fs_names fs Log_path = Some i \<longrightarrow> fs_data fs' i = fs_data fs i)"

lemma same_log_contents: "same_log fs fs' \<Longrightarrow> path_contents Log_path fs' = path_contents Log_path fs"
  by (cases "fs_names fs Log_path") (simp_all add: same_log_def path_contents_def)

lemma same_log_trans: "same_log fs fs' \<Longrightarrow> same_log fs' fs'' \<Longrightarrow> same_log fs fs''"
  by (simp add: same_log_def)

lemma coherent_same_log:
  assumes "coherent c" "fs_ok fs'" "same_log (cs_fs c) fs'" "\<And>j. index_fh c = Some j \<Longrightarrow> fs_names fs' Index_path = Some j"
  shows "coherent (c\<lparr>cs_fs := fs'\<rparr>)"
  using assms by (fastforce simp: coherent_def same_log_def reader_ok_def)

section \<open>The handles\<close>

lemma index_handle_effect:
  assumes "coherent c" "index_handle c = (i, c')"
  shows "coherent c' \<and> cs_seg c' = cs_seg c \<and> fs_names (cs_fs c') Index_path = Some i \<and> same_log (cs_fs c) (cs_fs c')
    \<and> path_contents Index_path (cs_fs c') = Some (contents (path_contents Index_path (cs_fs c)))"
proof (cases "index_fh c")
  case None
  obtain fs where o: "open_create Index_path (cs_fs c) = (i, fs)" and c': "c' = c\<lparr>cs_fs := fs, index_fh := Some i\<rparr>"
    using assms(2) None by (auto simp: index_handle_def split: prod.splits)
  have ok: "fs_ok (cs_fs c)" using assms(1) by (simp add: coherent_def)
  note e = open_create_effect [OF ok o]
  have same: "same_log (cs_fs c) fs" using e(2) e(5) [of Log_path] by (auto simp: same_log_def)
  have "coherent (c\<lparr>cs_fs := fs\<rparr>)" using coherent_same_log [OF assms(1) e(1) same] None by simp
  then have "coherent c'" using e(2) by (simp add: c' coherent_def)
  then show ?thesis using same e(2,3) by (simp add: c')
next
  case (Some j)
  then have "c' = c" "j = i" using assms(2) by (simp_all add: index_handle_def)
  then show ?thesis
    using assms(1) Some by (simp add: coherent_def same_log_def path_contents_def contents_def)
qed

lemma append_handle_effect:
  assumes "coherent c" "append_handle c = (i, c')"
  shows "coherent c' \<and> cs_seg c' = cs_seg c \<and> fs_names (cs_fs c') Log_path = Some i
    \<and> path_contents Log_path (cs_fs c') = Some (contents (path_contents Log_path (cs_fs c)))
    \<and> path_contents Index_path (cs_fs c') = path_contents Index_path (cs_fs c)"
proof (cases "log_fh c")
  case None
  obtain fs where o: "open_create Log_path (cs_fs c) = (i, fs)" and c': "c' = c\<lparr>cs_fs := fs, log_fh := Some i\<rparr>"
    using assms(2) None by (auto simp: append_handle_def split: prod.splits)
  have ok: "fs_ok (cs_fs c)" using assms(1) by (simp add: coherent_def)
  note e = open_create_effect [OF ok o]
  have "coherent c'"
  proof (cases "fs_names (cs_fs c) Log_path")
    case None
    then show ?thesis using assms(1) e(1,2) by (auto simp: c' coherent_def reader_ok_def)
  next
    case (Some j)
    then have "fs = cs_fs c" "i = j" using e(4) o by (auto simp: open_create_def)
    then show ?thesis using assms(1) Some by (simp add: c' coherent_def)
  qed
  then show ?thesis using e(2,3) by (simp add: c')
next
  case (Some j)
  then have c': "c' = c" "j = i" using assms(2) by (simp_all add: append_handle_def)
  then have "fs_names (cs_fs c) Log_path = Some i" using assms(1) Some by (simp add: coherent_def)
  then show ?thesis using assms(1) c' by (simp add: path_contents_def contents_def)
qed

lemma h_write_log_effect:
  assumes "coherent c"
  shows "coherent (h_write_log bs c)" "cs_seg (h_write_log bs c) = cs_seg c" "present (h_write_log bs c)"
    "path_contents Log_path (cs_fs (h_write_log bs c)) = Some (contents (path_contents Log_path (cs_fs c)) @ bs)"
    "path_contents Index_path (cs_fs (h_write_log bs c)) = path_contents Index_path (cs_fs c)"
proof -
  obtain i c1 where a: "append_handle c = (i, c1)" by fastforce
  note e = append_handle_effect [OF assms a]
  have ok: "fs_ok (cs_fs c1)" using e by (simp add: coherent_def)
  note w = write_end_effect [OF ok, where p = Log_path and i = i and bs = bs]
  have eq: "h_write_log bs c = c1\<lparr>cs_fs := write_end i bs (cs_fs c1)\<rparr>" by (simp add: h_write_log_def a)
  have "index_fh c1 = Some j \<Longrightarrow> fs_names (cs_fs c1) Index_path = Some j" for j
    using e by (simp add: coherent_def)
  then show "coherent (h_write_log bs c)"
    unfolding eq using e w by (intro coherent_grow) (auto simp: write_end_def)
  show "cs_seg (h_write_log bs c) = cs_seg c" "present (h_write_log bs c)"
    "path_contents Log_path (cs_fs (h_write_log bs c)) = Some (contents (path_contents Log_path (cs_fs c)) @ bs)"
    "path_contents Index_path (cs_fs (h_write_log bs c)) = path_contents Index_path (cs_fs c)"
    using e w by (simp_all add: eq)
qed

lemma mmap_handle_effect:
  assumes "coherent c" "present c" "mmap_handle can_map c = (m, c')"
  shows "coherent c' \<and> cs_seg c' = cs_seg c \<and> cs_fs c' = cs_fs c
    \<and> (\<forall>i n. m = Some (i, n) \<longrightarrow> take n (fs_data (cs_fs c) i) = contents (path_contents Log_path (cs_fs c)))"
  using assms by (auto simp: mmap_handle_def coherent_def Let_def path_contents_def contents_def split: if_splits)

lemma h_read_file_effect:
  assumes "coherent c" "present c"
  shows "\<exists>c'. h_read_file win scan pos c = (Inr (scan (drop pos (contents (path_contents Log_path (cs_fs c))))), c')
    \<and> coherent c' \<and> cs_seg c' = cs_seg c \<and> cs_fs c' = cs_fs c"
proof -
  obtain i where i: "fs_names (cs_fs c) Log_path = Some i" using assms(2) by auto
  have "\<exists>r c1. read_handle c = (Inr r, c1) \<and> reader_ok (cs_fs c) r \<and> read_fh c1 = Some r
      \<and> coherent c1 \<and> cs_seg c1 = cs_seg c \<and> cs_fs c1 = cs_fs c"
  proof (cases "read_fh c")
    case None
    let ?r = "\<lparr>rd_file = i, rd_start = 0, rd_buffer = []\<rparr>"
    have "reader_ok (cs_fs c) ?r" using i by (simp add: reader_ok_def)
    moreover from this have "coherent (c\<lparr>read_fh := Some ?r\<rparr>)" using assms(1) by (simp add: coherent_def)
    ultimately show ?thesis using None i by (simp add: read_handle_def Let_def)
  next
    case (Some r)
    moreover have "reader_ok (cs_fs c) r" using assms(1) Some by (simp add: coherent_def)
    ultimately show ?thesis using assms(1) by (simp add: read_handle_def)
  qed
  then obtain r c1 where r: "read_handle c = (Inr r, c1)" "reader_ok (cs_fs c) r" "read_fh c1 = Some r"
      "coherent c1" "cs_seg c1 = cs_seg c" "cs_fs c1 = cs_fs c" by blast
  then show ?thesis
    using refill_coherent [OF r(4,3), of win] reader_bytes_file [OF r(2), of pos] by (simp add: h_read_file_def refill_def)
qed

section \<open>The operations\<close>

lemma h_maybe_index_view:
  assumes "coherent c" "h_maybe_index off pos c = (res, c')"
  shows "maybe_index off pos (seg_view c) = (res, seg_view c') \<and> coherent c' \<and> same_log (cs_fs c) (cs_fs c')"
proof (cases "index (cs_seg c) = [] \<or> pos - last_indexed_position (cs_seg c) \<ge> index_interval_bytes (cs_seg c)")
  case True
  let ?rel = "off - base_offset (cs_seg c)"
  let ?c = "c\<lparr>cs_seg := (cs_seg c)\<lparr>index := index (cs_seg c) @ [(?rel, pos)]\<rparr>\<rparr>"
  obtain i c1 where h: "index_handle ?c = (i, c1)" by fastforce
  have e: "coherent c1 \<and> cs_seg c1 = cs_seg ?c \<and> fs_names (cs_fs c1) Index_path = Some i \<and> same_log (cs_fs c) (cs_fs c1)
      \<and> path_contents Index_path (cs_fs c1) = Some (contents (path_contents Index_path (cs_fs c)))"
    using index_handle_effect [OF _ h] assms(1) by simp
  have run: "h_maybe_index off pos c = (case pack_index_entry ?rel pos of
        Inl e \<Rightarrow> (Inl e, c1)
      | Inr b \<Rightarrow> (Inr (), c1\<lparr>cs_fs := write_end i b (cs_fs c1), cs_seg := (cs_seg c1)\<lparr>last_indexed_position := pos\<rparr>\<rparr>))"
    using True h by (simp add: h_maybe_index_def Let_def split: prod.splits)
  show ?thesis
  proof (cases "pack_index_entry ?rel pos")
    case (Inl err)
    then have "res = Inl err" "c' = c1" using assms(2) run by auto
    then show ?thesis
      using True e Inl same_log_contents [of "cs_fs c" "cs_fs c1"]
      by (simp add: maybe_index_def Let_def seg_view_def)
  next
    case (Inr b)
    then have c': "res = Inr ()" "c' = c1\<lparr>cs_fs := write_end i b (cs_fs c1), cs_seg := (cs_seg c1)\<lparr>last_indexed_position := pos\<rparr>\<rparr>"
      using assms(2) run by auto
    have ok: "fs_ok (cs_fs c1)" using e by (simp add: coherent_def)
    have same: "same_log (cs_fs c1) (write_end i b (cs_fs c1))"
    proof -
      have "fs_names (cs_fs c1) Log_path \<noteq> Some i"
        using ok e unfolding fs_ok_def by (metis seg_path.distinct(1))
      then show ?thesis by (auto simp: same_log_def write_end_def)
    qed
    have w: "fs_ok (write_end i b (cs_fs c1))" "fs_names (write_end i b (cs_fs c1)) = fs_names (cs_fs c1)"
        "path_contents Index_path (write_end i b (cs_fs c1)) = Some (contents (path_contents Index_path (cs_fs c)) @ b)"
      using write_end_effect [OF ok, where p = Index_path and i = i and bs = b] e by simp_all
    have "coherent (c1\<lparr>cs_fs := write_end i b (cs_fs c1)\<rparr>)"
      using e w same by (intro coherent_same_log) (auto simp: coherent_def)
    then have "coherent c'" unfolding c'(2) by (simp add: coherent_def)
    moreover have "same_log (cs_fs c) (write_end i b (cs_fs c1))" using same_log_trans e same by blast
    ultimately show ?thesis
      using True Inr c' e w same_log_contents by (simp add: maybe_index_def Let_def seg_view_def)
  qed
next
  case False
  then have "res = Inr ()" "c' = c" using assms(2) by (simp_all add: h_maybe_index_def Let_def)
  then show ?thesis using False assms(1) by (simp add: maybe_index_def Let_def same_log_def)
qed

lemma same_log_present: "same_log (cs_fs c) (cs_fs c') \<Longrightarrow> present c' = present c"
  by (simp add: same_log_def)

lemma h_rewrite_index_view:
  assumes "coherent c" "index_fh c = None \<or> fs_names (cs_fs c) Index_path \<noteq> None" "h_rewrite_index c = (res, c')"
  shows "rewrite_index (seg_view c) = (res, seg_view c') \<and> coherent c' \<and> same_log (cs_fs c) (cs_fs c')"
proof -
  obtain out where out: "write_entries (index (cs_seg c)) [] = (res, out)"
      and c': "c' = c\<lparr>cs_fs := set_contents Index_path out (cs_fs c)\<rparr>"
    using assms(3) by (auto simp: h_rewrite_index_def split: prod.splits)
  have ok: "fs_ok (cs_fs c)" using assms(1) by (simp add: coherent_def)
  note e = set_contents_effect [OF ok, where p = Index_path and bs = out]
  have same: "same_log (cs_fs c) (set_contents Index_path out (cs_fs c))"
    using e(3) e(6) [of Log_path] by (simp add: same_log_def)
  have "fs_names (set_contents Index_path out (cs_fs c)) Index_path = Some j" if "index_fh c = Some j" for j
  proof -
    have "fs_names (cs_fs c) Index_path = Some j" using assms(1) that by (simp add: coherent_def)
    then show ?thesis using e(5) by simp
  qed
  then have "coherent c'" unfolding c' using assms(1) e(1) same by (intro coherent_same_log)
  then show ?thesis
    using out e(4) same by (simp add: c' rewrite_index_def seg_view_def)
qed

lemma coherent_index_ready: "coherent c \<Longrightarrow> index_fh c = None \<or> fs_names (cs_fs c) Index_path \<noteq> None"
  by (auto simp: coherent_def)

lemma h_recover_loop_view:
  assumes "coherent c" "h_recover_loop f pos nxt good c = (res, c')"
  shows "recover_loop f pos nxt good (seg_view c) = (res, seg_view c') \<and> coherent c' \<and> same_log (cs_fs c) (cs_fs c')"
  using assms
proof (induction f pos nxt good c arbitrary: res c' rule: h_recover_loop.induct)
  case (1 f pos nxt good c)
  consider (stop) "(\<exists>e. read_record f = Inl e) \<or> (\<exists>f'. read_record f = Inr (None, f'))"
    | (rec) r f' where "read_record f = Inr (Some r, f')"
    by (metis option.exhaust prod.exhaust sum.exhaust)
  then show ?case
  proof cases
    case stop
    then have "res = Inr (nxt, good)" "c' = c"
      using "1.prems"(2) by (auto simp: h_recover_loop.simps [of f])
    then show ?thesis using stop "1.prems"(1) by (auto simp: recover_loop.simps [of f] same_log_def)
  next
    case rec
    obtain r1 c1 where m: "h_maybe_index (rec_offset r) pos c = (r1, c1)" by fastforce
    note v = h_maybe_index_view [OF "1.prems"(1) m]
    show ?thesis
    proof (cases r1)
      case (Inl e)
      then have "res = Inl e" "c' = c1" using "1.prems"(2) rec m by (auto simp: h_recover_loop.simps [of f])
      then show ?thesis using v rec Inl by (simp add: recover_loop.simps [of f])
    next
      case (Inr u)
      let ?told = "pos + int (length f - length f')"
      let ?c = "c1\<lparr>cs_seg := (cs_seg c1)\<lparr>max_timestamp := max (max_timestamp (cs_seg c1)) (rec_timestamp r)\<rparr>\<rparr>"
      have step: "h_recover_loop f' ?told (rec_offset r + 1) ?told ?c = (res, c')"
        using "1.prems"(2) rec m Inr by (simp add: h_recover_loop.simps [of f] Let_def)
      have "recover_loop f' ?told (rec_offset r + 1) ?told (seg_view ?c) = (res, seg_view c') \<and> coherent c'
          \<and> same_log (cs_fs ?c) (cs_fs c')"
        using "1.IH" [OF rec refl refl m [symmetric] _ refl _ step] v Inr by simp
      moreover have "seg_view ?c = (seg_view c1)\<lparr>max_timestamp := max (max_timestamp (seg_view c1)) (rec_timestamp r)\<rparr>"
        by (simp add: seg_view_def)
      moreover have "recover_loop f pos nxt good (seg_view c) = recover_loop f' ?told (rec_offset r + 1) ?told
          ((seg_view c1)\<lparr>max_timestamp := max (max_timestamp (seg_view c1)) (rec_timestamp r)\<rparr>)"
        using v rec Inr by (simp add: recover_loop.simps [of f] Let_def)
      ultimately show ?thesis using v same_log_trans by auto
    qed
  qed
qed

text \<open>Where the log itself is replaced, no handle of it is open.\<close>

definition log_closed :: "cached_segment \<Rightarrow> bool" where
  "log_closed c \<longleftrightarrow> log_fh c = None \<and> read_fh c = None \<and> mmap c = None"

lemma log_closed_simps [simp]:
  "log_closed (close_handles c)" "log_closed (c\<lparr>cs_seg := s\<rparr>) = log_closed c" "log_closed (c\<lparr>cs_fs := fs\<rparr>) = log_closed c"
  by (simp_all add: log_closed_def close_handles_def)

lemma h_maybe_index_closed: "log_closed c \<Longrightarrow> h_maybe_index off pos c = (res, c') \<Longrightarrow> log_closed c'"
  by (auto simp: h_maybe_index_def index_handle_def log_closed_def Let_def split: if_splits prod.splits option.splits sum.splits)

lemma h_recover_loop_closed: "log_closed c \<Longrightarrow> h_recover_loop f pos nxt good c = (res, c') \<Longrightarrow> log_closed c'"
proof (induction f pos nxt good c arbitrary: res c' rule: h_recover_loop.induct)
  case (1 f pos nxt good c)
  from "1.prems" show ?case
    by (subst (asm) h_recover_loop.simps)
      (auto simp: Let_def split: sum.splits option.splits prod.splits intro: h_maybe_index_closed dest!: "1.IH" [rotated -1])
qed

lemma coherent_set_log:
  assumes "coherent c" "log_closed c"
  shows "coherent (c\<lparr>cs_fs := set_contents Log_path bs (cs_fs c)\<rparr>)"
  using assms set_contents_effect(1,3) [of "cs_fs c"] by (simp add: coherent_def log_closed_def)

lemma close_handles_view [simp]:
  "cs_seg (close_handles c) = cs_seg c" "cs_fs (close_handles c) = cs_fs c" "seg_view (close_handles c) = seg_view c"
  by (simp_all add: close_handles_def seg_view_def)

lemma h_recover_view:
  assumes "coherent c" "h_recover c = (res, c')"
  shows "recover (seg_view c) = (res, seg_view c') \<and> coherent c' \<and> present c'"
proof -
  let ?s = "cs_seg c"
  let ?s0 = "?s\<lparr>index := [], seg_size := 0, last_indexed_position := -1, max_timestamp := 0, seg_next_offset := base_offset ?s\<rparr>"
  define c0 where "c0 = (close_handles c)\<lparr>cs_seg := ?s0\<rparr>"
  have c0: "coherent c0" "log_closed c0" "cs_fs c0 = cs_fs c" "cs_seg c0 = ?s0"
    using assms(1) by (simp_all add: c0_def close_handles_coherent)
  have v0: "seg_view c0 = (seg_view c)\<lparr>index := [], seg_size := 0, last_indexed_position := -1, max_timestamp := 0,
      seg_next_offset := base_offset (seg_view c)\<rparr>"
    by (simp add: seg_view_def c0)
  show ?thesis
  proof (cases "path_contents Log_path (cs_fs c)")
    case None
    let ?fs1 = "set_contents Log_path [] (cs_fs c0)"
    have ok: "fs_ok (cs_fs c0)" using c0(1) by (simp add: coherent_def)
    have "res = Inr (base_offset ?s)" and c': "c' = c0\<lparr>cs_fs := set_contents Index_path [] ?fs1\<rparr>"
      using assms(2) None by (auto simp: h_recover_def Let_def c0_def)
    moreover have "coherent c'"
    proof -
      have "index_fh c0 = None" by (simp add: c0_def close_handles_def)
      then show ?thesis using c0(2) set_contents_effect(1) [OF set_contents_effect(1) [OF ok]]
        by (simp add: c' coherent_def log_closed_def)
    qed
    moreover have "present c'"
      using set_contents_effect(2) [OF ok, of Log_path "[]"] set_contents_effect(3) [OF set_contents_effect(1) [OF ok], of Log_path Index_path]
      by (simp add: c')
    moreover have "seg_view c' = (seg_view c0)\<lparr>log_file := Some [], index_file := Some []\<rparr>"
      using set_contents_effect(4) [OF ok] set_contents_effect(4) [OF set_contents_effect(1) [OF ok]]
      by (simp add: c' seg_view_def)
    ultimately show ?thesis using None by (simp add: recover_def v0 Let_def)
  next
    case (Some f)
    obtain r1 c1 where l: "h_recover_loop f 0 (base_offset ?s) 0 c0 = (r1, c1)" by fastforce
    have v: "recover_loop f 0 (base_offset ?s) 0 (seg_view c0) = (r1, seg_view c1)" "coherent c1" "same_log (cs_fs c) (cs_fs c1)"
      using h_recover_loop_view [OF c0(1) l] by (simp_all add: c0(3))
    have closed: "log_closed c1" using h_recover_loop_closed [OF c0(2) l] .
    have f1: "path_contents Log_path (cs_fs c1) = Some f" using same_log_contents [OF v(3)] Some by simp
    have pres: "present c1" using Some v(3) by (auto simp: same_log_def path_contents_def)
    show ?thesis
    proof (cases r1)
      case (Inl e)
      then have "res = Inl e" "c' = c1" using assms(2) Some l by (auto simp: h_recover_def Let_def c0_def)
      then show ?thesis using v Inl Some pres by (simp add: recover_def v0 Let_def)
    next
      case (Inr ng)
      obtain nxt good where ng: "ng = (nxt, good)" by fastforce
      define c2 where "c2 = (if good < int (length f)
        then c1\<lparr>cs_fs := set_contents Log_path (take (nat good) f) (cs_fs c1)\<rparr> else c1)"
      define c3 where "c3 = c2\<lparr>cs_seg := (cs_seg c2)\<lparr>seg_size := good, seg_next_offset := nxt\<rparr>\<rparr>"
      have ok: "fs_ok (cs_fs c1)" using v(2) by (simp add: coherent_def)
      have c3: "coherent c3" "present c3"
        using v(2) closed pres coherent_set_log set_contents_effect(2) [OF ok, of Log_path] by (simp_all add: c3_def c2_def)
      have v3: "seg_view c3 = (if good < int (length f) then (seg_view c1)\<lparr>log_file := Some (take (nat good) f)\<rparr>
          else seg_view c1)\<lparr>seg_size := good, seg_next_offset := nxt\<rparr>"
        using set_contents_effect(4) [OF ok] by (simp add: c3_def c2_def seg_view_def)
      obtain r4 c4 where w: "h_rewrite_index c3 = (r4, c4)" by fastforce
      have v4: "rewrite_index (seg_view c3) = (r4, seg_view c4)" "coherent c4" "same_log (cs_fs c3) (cs_fs c4)"
        using h_rewrite_index_view [OF c3(1) coherent_index_ready [OF c3(1)] w] by simp_all
      have "c' = c4" "res = (case r4 of Inl e \<Rightarrow> Inl e | Inr _ \<Rightarrow> Inr nxt)"
        using assms(2) Some l Inr ng w by (auto simp: h_recover_def Let_def c0_def c2_def c3_def split: sum.splits)
      moreover have "recover (seg_view c) = (case r4 of Inl e \<Rightarrow> Inl e | Inr _ \<Rightarrow> Inr nxt, seg_view c4)"
        using v(1) Some Inr ng v4(1) by (simp add: recover_def v0 Let_def v3 split: sum.splits)
      ultimately show ?thesis using v4(2) same_log_present [OF v4(3)] c3(2) by simp
    qed
  qed
qed

lemma h_append_view:
  assumes "coherent c" "h_append off rb ts c = (res, c')"
  shows "append_record off rb ts (seg_view c) = (res, seg_view c') \<and> coherent c' \<and> present c'"
proof -
  let ?c1 = "h_write_log rb c" and ?s = "cs_seg c"
  define c2 where "c2 = ?c1\<lparr>cs_seg := ?s\<lparr>seg_size := seg_size ?s + int (length rb),
      max_timestamp := (if ts > max_timestamp ?s then ts else max_timestamp ?s), seg_next_offset := off + 1\<rparr>\<rparr>"
  note w = h_write_log_effect [OF assms(1), of rb]
  have m: "h_maybe_index off (seg_size ?s) c2 = (res, c')"
    using assms(2) unfolding h_append_def Let_def c2_def w(2) .
  have c2: "coherent c2" "present c2" using w(1,3) by (simp_all add: c2_def)
  have "seg_view c2 = (seg_view c)\<lparr>log_file := Some (contents (log_file (seg_view c)) @ rb),
      seg_size := seg_size (seg_view c) + int (length rb),
      max_timestamp := (if ts > max_timestamp (seg_view c) then ts else max_timestamp (seg_view c)), seg_next_offset := off + 1\<rparr>"
    using w(4,5) by (simp add: c2_def seg_view_def)
  then show ?thesis
    using h_maybe_index_view [OF c2(1) m] c2(2) same_log_present by (auto simp: append_record_def Let_def)
qed

lemma h_index_batch_view:
  "coherent c \<Longrightarrow> h_index_batch b c = (res, c') \<Longrightarrow>
     index_batch b (seg_view c) = (res, seg_view c') \<and> coherent c' \<and> same_log (cs_fs c) (cs_fs c')"
proof (induction b arbitrary: c)
  case (Cons x b)
  obtain off pos ts rb where x: "x = (off, pos, ts, rb)" by (cases x)
  obtain r1 c1 where m: "h_maybe_index off pos c = (r1, c1)" by fastforce
  note v = h_maybe_index_view [OF Cons.prems(1) m]
  show ?case
  proof (cases r1)
    case (Inr u)
    let ?c = "c1\<lparr>cs_seg := (cs_seg c1)\<lparr>seg_next_offset := off + 1,
        max_timestamp := (if ts > max_timestamp (cs_seg c1) then ts else max_timestamp (cs_seg c1))\<rparr>\<rparr>"
    have "index_batch b (seg_view ?c) = (res, seg_view c') \<and> coherent c' \<and> same_log (cs_fs ?c) (cs_fs c')"
      using Cons.prems(2) v m Inr x by (intro Cons.IH) auto
    moreover have "seg_view ?c = (seg_view c1)\<lparr>seg_next_offset := off + 1,
        max_timestamp := (if ts > max_timestamp (seg_view c1) then ts else max_timestamp (seg_view c1))\<rparr>"
      by (simp add: seg_view_def)
    ultimately show ?thesis using v x Inr same_log_trans by auto
  qed (use Cons.prems v m x in auto)
qed (auto simp: same_log_def)

lemma h_write_batch_view:
  assumes "coherent c" "h_write_batch b c = (res, c')"
  shows "write_batch b (seg_view c) = (res, seg_view c') \<and> coherent c' \<and> present c'"
proof -
  let ?c1 = "h_write_log (batch_bytes b) c"
  note w = h_write_log_effect [OF assms(1), of "batch_bytes b"]
  obtain r2 c2 where i: "h_index_batch b ?c1 = (r2, c2)" by fastforce
  have v: "index_batch b (seg_view ?c1) = (r2, seg_view c2)" "coherent c2" "present c2"
    using h_index_batch_view [OF w(1) i] w(3) same_log_present [of ?c1 c2] by simp_all
  have "seg_view ?c1 = (seg_view c)\<lparr>log_file := Some (contents (log_file (seg_view c)) @ batch_bytes b)\<rparr>"
    using w by (simp add: seg_view_def)
  then show ?thesis
    using assms(2) i v by (auto simp: h_write_batch_def write_batch_def Let_def seg_view_def split: sum.splits)
qed

lemma h_read_view:
  assumes "coherent c" "present c"
  shows "\<exists>c'. h_read can_map win off c = (Inr (seg_read off (seg_view c)), c') \<and> seg_view c' = seg_view c \<and> coherent c' \<and> present c'"
proof (cases "off < base_offset (cs_seg c) \<or> off \<ge> seg_next_offset (cs_seg c)")
  case True
  then show ?thesis using assms by (simp add: h_read_def seg_read_def Let_def)
next
  case False
  let ?pos = "nat (start_position (index (cs_seg c)) (off - base_offset (cs_seg c)))"
  let ?f = "contents (path_contents Log_path (cs_fs c))"
  obtain m c1 where m: "mmap_handle can_map c = (m, c1)" by fastforce
  have e: "coherent c1" "cs_seg c1 = cs_seg c" "cs_fs c1 = cs_fs c" "\<And>i n. m = Some (i, n) \<Longrightarrow> take n (fs_data (cs_fs c) i) = ?f"
    using mmap_handle_effect [OF assms m] by auto
  have "present c1" using assms(2) e(3) by simp
  from h_read_file_effect [OF e(1) this, of win "scan_record off" ?pos] obtain c2 where c2:
      "h_read_file win (scan_record off) ?pos c1 = (Inr (scan_record off (drop ?pos ?f)), c2)"
      "coherent c2" "cs_seg c2 = cs_seg c" "cs_fs c2 = cs_fs c"
    using e(2,3) by auto
  have "\<exists>c'. h_read can_map win off c = (Inr (scan_record off (drop ?pos ?f)), c') \<and> coherent c' \<and> cs_seg c' = cs_seg c \<and> cs_fs c' = cs_fs c"
    using False m e c2 by (auto simp: h_read_def Let_def split: option.splits)
  then show ?thesis
    using False assms(2) by (auto simp: seg_read_def Let_def seg_view_def)
qed

lemma h_position_of_view:
  assumes "coherent c" "present c"
  shows "\<exists>c'. h_position_of win off c = (Inr (position_of off (seg_view c)), c')
    \<and> cs_seg c' = cs_seg c \<and> cs_fs c' = cs_fs c \<and> seg_view c' = seg_view c \<and> coherent c' \<and> present c'"
proof (cases "off < base_offset (cs_seg c) \<or> off \<ge> seg_next_offset (cs_seg c)")
  case False
  let ?pos = "start_position (index (cs_seg c)) (off - base_offset (cs_seg c))"
  show ?thesis
    using False assms(2) h_read_file_effect [OF assms, of win "scan_position off ?pos" "nat ?pos"]
    by (auto simp: h_position_of_def position_of_def Let_def seg_view_def)
qed (use assms in \<open>simp add: h_position_of_def position_of_def Let_def\<close>)

lemma h_truncate_view:
  assumes "coherent c" "present c" "h_truncate_from win off c = (res, c')"
  shows "seg_truncate_from off (seg_view c) = (res, seg_view c') \<and> coherent c' \<and> present c'"
proof -
  let ?s = "cs_seg c"
  have rewrite: "seg_truncate_from off (seg_view c) = (res, seg_view c') \<and> coherent c' \<and> present c'"
    if c1: "c1 = (close_handles c0)\<lparr>cs_fs := set_contents Log_path f (cs_fs c0), cs_seg := s\<rparr>" "coherent c0"
      and run: "(case h_rewrite_index c1 of (Inl e, c2) \<Rightarrow> (Inl e, c2) | (Inr _, c2) \<Rightarrow> (Inr b, c2)) = (res, c')"
      and t: "t = s\<lparr>log_file := Some f, index_file := path_contents Index_path (cs_fs c0)\<rparr>"
      and spec: "seg_truncate_from off (seg_view c)
        = (case rewrite_index t of (Inl e, s2) \<Rightarrow> (Inl e, s2) | (Inr _, s2) \<Rightarrow> (Inr b, s2))"
    for c0 c1 s f b t
  proof -
    have ok: "fs_ok (cs_fs c0)" using c1(2) by (simp add: coherent_def)
    have "coherent ((close_handles c0)\<lparr>cs_fs := set_contents Log_path f (cs_fs c0)\<rparr>)"
      using close_handles_coherent(1) [OF set_contents_effect(1) [OF ok]] .
    then have coh: "coherent c1" unfolding c1(1) by (simp add: coherent_def)
    have pres: "present c1" using set_contents_effect(2) [OF ok] by (simp add: c1(1))
    have view: "seg_view c1 = t"
      using set_contents_effect(4) [OF ok] by (simp add: c1(1) seg_view_def t)
    obtain r2 c2 where w: "h_rewrite_index c1 = (r2, c2)" by fastforce
    have "rewrite_index (seg_view c1) = (r2, seg_view c2)" "coherent c2" "present c2"
      using h_rewrite_index_view [OF coh coherent_index_ready [OF coh] w] pres same_log_present [of c1 c2] by simp_all
    then show ?thesis using run spec w unfolding view by (auto split: sum.splits)
  qed
  show ?thesis
  proof (cases "off \<le> base_offset ?s")
    case True
    let ?new = "\<lambda>s. s\<lparr>index := [], seg_size := 0, last_indexed_position := -1, max_timestamp := 0, seg_next_offset := base_offset ?s\<rparr>"
    have t: "?new ((seg_view c)\<lparr>log_file := Some []\<rparr>)
        = (?new ?s)\<lparr>log_file := Some [], index_file := path_contents Index_path (cs_fs c)\<rparr>"
      by (simp add: seg_view_def)
    show ?thesis
      by (rule rewrite [OF refl assms(1) _ t, where b = "seg_size ?s > 0 \<or> seg_next_offset ?s \<noteq> base_offset ?s"])
        (use True assms(3) in \<open>simp_all add: h_truncate_from_def seg_truncate_from_def Let_def\<close>)
  next
    case False
    obtain c0 where c0: "h_position_of win off c = (Inr (position_of off (seg_view c)), c0)"
        "cs_seg c0 = ?s" "cs_fs c0 = cs_fs c" "seg_view c0 = seg_view c" "coherent c0" "present c0"
      using h_position_of_view [OF assms(1,2)] by blast
    show ?thesis
    proof (cases "position_of off (seg_view c)")
      case None
      then have "res = Inr False" "c' = c0" using False c0(1) assms(3) by (auto simp: h_truncate_from_def Let_def)
      then show ?thesis using False None c0 by (simp add: seg_truncate_from_def Let_def)
    next
      case (Some position)
      let ?f = "take (nat position) (contents (path_contents Log_path (cs_fs c0)))"
        and ?idx = "filter (\<lambda>e. fst e < off - base_offset ?s) (index ?s)"
      let ?new = "\<lambda>s. s\<lparr>seg_size := position, seg_next_offset := off, index := ?idx,
          last_indexed_position := (if ?idx \<noteq> [] then snd (last ?idx) else -1)\<rparr>"
      have t: "?new ((seg_view c)\<lparr>log_file := Some ?f\<rparr>)
          = (?new ?s)\<lparr>log_file := Some ?f, index_file := path_contents Index_path (cs_fs c0)\<rparr>"
        by (simp add: seg_view_def c0(3))
      show ?thesis
        by (rule rewrite [OF refl c0(5) _ t, where b = True])
          (use False Some c0 assms(3) in \<open>simp_all add: h_truncate_from_def seg_truncate_from_def Let_def\<close>)
    qed
  qed
qed

lemma h_delete_view:
  assumes "coherent c"
  shows "seg_view (h_delete c) = seg_delete (seg_view c)" "coherent (h_delete c)"
    "log_closed (h_delete c) \<and> index_fh (h_delete c) = None"
proof -
  show "seg_view (h_delete c) = seg_delete (seg_view c)"
    by (simp add: h_delete_def seg_delete_def seg_view_def remove_path_def path_contents_def Let_def)
  show "coherent (h_delete c)"
    using assms by (auto simp: h_delete_def coherent_def close_handles_def remove_path_def fs_ok_def Let_def split: if_splits)
  show "log_closed (h_delete c) \<and> index_fh (h_delete c) = None"
    by (simp add: h_delete_def close_handles_def log_closed_def Let_def)
qed

end
