(* ===== verification/Handle_Theorems.thy ===== *)
theory Handle_Theorems
  imports Segment_Handles_Props
begin

text \<open>
  Any sequence of operations on a segment through its cached handles against the same operations on the
  contents of the files.
\<close>

datatype seg_op =
    Op_append int bytes int
  | Op_batch batch
  | Op_read bool "nat \<times> nat" int
  | Op_position "nat \<times> nat" int
  | Op_truncate "nat \<times> nat" int
  | Op_recover
  | Op_close

datatype seg_out =
    Out_unit "unit result"
  | Out_record "log_record option result"
  | Out_position "int option result"
  | Out_bool "bool result"
  | Out_offset "int result"

fun cached_step :: "seg_op \<Rightarrow> cached_segment \<Rightarrow> seg_out \<times> cached_segment" where
  "cached_step (Op_append off rb ts) c = apfst Out_unit (h_append off rb ts c)"
| "cached_step (Op_batch b) c = apfst Out_unit (h_write_batch b c)"
| "cached_step (Op_read can_map win off) c = apfst Out_record (h_read can_map win off c)"
| "cached_step (Op_position win off) c = apfst Out_position (h_position_of win off c)"
| "cached_step (Op_truncate win off) c = apfst Out_bool (h_truncate_from win off c)"
| "cached_step Op_recover c = apfst Out_offset (h_recover c)"
| "cached_step Op_close c = (Out_unit (Inr ()), close_handles c)"

fun plain_step :: "seg_op \<Rightarrow> segment \<Rightarrow> seg_out \<times> segment" where
  "plain_step (Op_append off rb ts) s = apfst Out_unit (append_record off rb ts s)"
| "plain_step (Op_batch b) s = apfst Out_unit (write_batch b s)"
| "plain_step (Op_read can_map win off) s = (Out_record (Inr (seg_read off s)), s)"
| "plain_step (Op_position win off) s = (Out_position (Inr (position_of off s)), s)"
| "plain_step (Op_truncate win off) s = apfst Out_bool (seg_truncate_from off s)"
| "plain_step Op_recover s = apfst Out_offset (recover s)"
| "plain_step Op_close s = (Out_unit (Inr ()), s)"

lemma step_carried:
  assumes "coherent c \<and> present c" "cached_step x c = (out, c')"
  shows "plain_step x (seg_view c) = (out, seg_view c') \<and> coherent c' \<and> present c'"
proof (cases x)
  case (Op_append off rb ts)
  then show ?thesis
    using assms h_append_view [of c off rb ts] by (cases "h_append off rb ts c") auto
next
  case (Op_batch b)
  then show ?thesis
    using assms h_write_batch_view [of c b] by (cases "h_write_batch b c") auto
next
  case (Op_read can_map win off)
  then show ?thesis
    using assms h_read_view [of c can_map win off] by auto
next
  case (Op_position win off)
  then show ?thesis
    using assms h_position_of_view [of c win off] by auto
next
  case (Op_truncate win off)
  then show ?thesis
    using assms h_truncate_view [of c win off] by (cases "h_truncate_from win off c") auto
next
  case Op_recover
  then show ?thesis
    using assms h_recover_view [of c] by (cases "h_recover c") auto
next
  case Op_close
  then show ?thesis
    using assms close_handles_coherent(2) by auto
qed

interpretation cs: carried_out "\<lambda>c. coherent c \<and> present c" seg_view cached_step plain_step
  by unfold_locales (rule step_carried)

text \<open>A segment object as \<^verbatim>\<open>__init__\<close> makes it, with no file open.\<close>

definition closed_segment :: "segment \<Rightarrow> file_system \<Rightarrow> cached_segment" where
  "closed_segment s fs = \<lparr>cs_seg = s, cs_fs = fs, log_fh = None, index_fh = None, read_fh = None, mmap = None\<rparr>"

lemma closed_segment_coherent: "fs_ok fs \<Longrightarrow> coherent (closed_segment s fs)"
  by (simp add: coherent_def closed_segment_def)

text \<open>
  C8. The cached file handles, the buffer of the reader and the memory map are invisible: from the recovery of a
  segment on, any sequence of appends, group commits, reads, truncations, recoveries and closings answers
  as if every operation worked on the contents of the files, whatever the buffer holds and whether or not
  a map can be made; and no map ever reaches behind the end of the file.
\<close>

theorem handles_are_transparent:
  assumes "fs_ok fs" "run_ops cached_step (Op_recover # ops) (closed_segment s fs) = (outs, c)"
  shows "run_ops plain_step (Op_recover # ops) (seg_view (closed_segment s fs)) = (outs, seg_view c)
    \<and> (\<forall>i n. mmap c = Some (i, n) \<longrightarrow> n \<le> length (fs_data (cs_fs c) i))"
proof -
  obtain r c1 where r: "h_recover (closed_segment s fs) = (r, c1)" by fastforce
  obtain outs' where rest: "run_ops cached_step ops c1 = (outs', c)" "outs = Out_offset r # outs'"
    using assms(2) r by (auto split: prod.splits)
  have v: "recover (seg_view (closed_segment s fs)) = (r, seg_view c1)" "coherent c1 \<and> present c1"
    using h_recover_view [OF closed_segment_coherent [OF assms(1)] r] by simp_all
  have "run_ops plain_step ops (seg_view c1) = (outs', seg_view c) \<and> coherent c \<and> present c"
    using cs.runs_agree [OF v(2) rest(1)] .
  then show ?thesis using v(1) rest(2) by (auto simp: coherent_def)
qed

definition no_files :: file_system where
  "no_files = \<lparr>fs_names = \<lambda>_. None, fs_data = \<lambda>_. [], fs_fresh = 0\<rparr>"

theorem handles_are_transparent_witness:
  "fst (run_ops cached_step [Op_recover, Op_append 0 (record_bytes (mk_record 0 5 [7])) 5, Op_read True (0, 0) 0,
      Op_append 1 (record_bytes (mk_record 1 6 [8])) 6, Op_read False (3, 9) 1, Op_truncate (0, 2) 1, Op_read True (0, 0) 1]
      (closed_segment (segment_init 0 16 None None) no_files))
   = fst (run_ops plain_step [Op_recover, Op_append 0 (record_bytes (mk_record 0 5 [7])) 5, Op_read True (0, 0) 0,
      Op_append 1 (record_bytes (mk_record 1 6 [8])) 6, Op_read False (3, 9) 1, Op_truncate (0, 2) 1, Op_read True (0, 0) 1]
      (seg_view (closed_segment (segment_init 0 16 None None) no_files)))"
  (is "fst (run_ops cached_step (Op_recover # ?ops) ?c) = _")
proof -
  have "fs_ok no_files" by (simp add: fs_ok_def no_files_def)
  then show ?thesis
    using handles_are_transparent [of no_files ?ops "segment_init 0 16 None None"] by (metis fst_conv surj_pair)
qed

end
