(* ===== verification/Log_Races.thy ===== *)
theory Log_Races
  imports Commit_Log_Props
begin

text \<open>
  \<^verbatim>\<open>CommitLog.append\<close> when two threads are in it. The HTTP gateway and the frame server run every request in
  a thread of its own and neither the broker nor the log takes a lock. \<open>append_from\<close> is what is left of the
  method after its first line, which reads the next offset; a second thread may run between the two.
\<close>

definition append_from :: "int \<Rightarrow> bytes \<Rightarrow> int option \<Rightarrow> int \<Rightarrow> commit_log \<Rightarrow> (commit_log, int) outcome" where
  "append_from off pl ts_opt now l =
     (if segments l = [] then (Inl IndexError, l) else
      let ts = (case ts_opt of None \<Rightarrow> now | Some t \<Rightarrow> t);
          (rolled, l1) = (if seg_size (last (segments l)) \<ge> max_segment_bytes l
                          then new_segment off l else (Inr (), l))
      in case rolled of
           Inl e \<Rightarrow> (Inl e, l1)
         | Inr _ \<Rightarrow>
             (case encode_record off pl ts of
                Inl e \<Rightarrow> (Inl e, l1)
              | Inr rb \<Rightarrow>
                  (case append_record off rb ts (last (segments l1)) of
                     (Inl e, s) \<Rightarrow> (Inl e, set_active s l1)
                   | (Inr _, s) \<Rightarrow> (Inr off, (set_active s l1)\<lparr>next_offset := off + 1\<rparr>))))"

lemma append_log_from: "append_log pl ts_opt now l = append_from (next_offset l) pl ts_opt now l"
  by (simp add: append_log_def append_from_def Let_def)

lemma seg_next_le:
  "seg_chain ss \<Longrightarrow> s \<in> set ss \<Longrightarrow> seg_next_offset s \<le> seg_next_offset (last ss)"
proof (induction ss arbitrary: s rule: seg_chain.induct)
  case (3 s' t ss)
  have "seg_next_offset s' = base_offset t"
    using "3.prems"(1) seg_rep_fields(1) [of s' "seg_records s'"] by simp
  moreover have "base_offset t \<le> seg_next_offset t"
    using seg_chain_rep [of "t # ss" t] "3.prems"(1) seg_rep_fields(1) [of t "seg_records t"] by simp
  moreover have "seg_next_offset t \<le> seg_next_offset (last (t # ss))"
    using "3.IH" [of t] "3.prems"(1) by simp
  ultimately show ?case using "3.IH" [of s] "3.prems" by auto
qed auto

lemma read_past_segments:
  assumes "\<forall>s \<in> set (segments l). seg_next_offset s \<le> off" "sorted_wrt (<) (map base_offset (segments l))"
  shows "read_log off l = None"
proof -
  let ?pos = "bisect_right (map base_offset (segments l)) off"
  have "?pos \<le> length (segments l)" using bisect_right_spec [OF assms(2), of off] by simp
  moreover have "seg_read off (segments l ! i) = None" if "i < length (segments l)" for i
    using assms(1) that by (simp add: seg_read_def)
  ultimately show ?thesis by (simp add: read_log_def Let_def)
qed

lemma maybe_index_keeps:
  "maybe_index off pos s = (res, s') \<Longrightarrow> base_offset s' = base_offset s \<and> seg_next_offset s' = seg_next_offset s"
  by (auto simp: maybe_index_def Let_def split: if_splits sum.splits)

lemma append_record_keeps:
  "append_record off rb ts s = (res, s') \<Longrightarrow> base_offset s' = base_offset s \<and> seg_next_offset s' = off + 1"
  by (auto simp: append_record_def Let_def dest!: maybe_index_keeps)

lemma append_from_base:
  assumes "append_from off pl ts now l = (Inr r, l')" "base_offset (last (segments l)) \<le> off"
  shows "base_offset (last (segments l')) \<le> off"
  using assms
  by (auto simp: append_from_def new_segment_eq set_active_def Let_def dest!: append_record_keeps
      split: if_splits sum.splits prod.splits option.splits)

text \<open>
  C37. Two threads that read the next offset one after the other, before either has written, with records the format can
  hold and a segment that the first of them does not fill, are both told that their
  record has been stored at that offset, and nothing can be read behind it: of the two acknowledged records at most
  one can ever be read.
\<close>

theorem racing_appends_share_offset:
  assumes inv: "log_inv l" and first: "accepts_record pl1 ts1 l" and off: "off = next_offset l"
    and one: "append_from off pl1 (Some ts1) now1 l = (res1, l1)"
    and two: "append_from off pl2 (Some ts2) now2 l1 = (res2, l2)"
    and second: "valid_record (mk_record off ts2 pl2)" "seg_size (last (segments l1)) < max_segment_bytes l1"
  shows "res1 = Inr off \<and> res2 = Inr off \<and> next_offset l2 = off + 1 \<and> (\<forall>o' > off. read_log o' l2 = None)"
proof -
  let ?s = "last (segments l1)" and ?rb = "record_bytes (mk_record off ts2 pl2)"
  have l1: "res1 = Inr off" "log_inv l1" "next_offset l1 = off + 1"
    using append_log_inv [OF inv, of ts1 pl1 now1] first one by (auto simp: accepts_record_def append_log_from off)
  then have chain: "segments l1 \<noteq> []" "seg_chain (segments l1)" "seg_next_offset ?s = off + 1"
    by (simp_all add: log_inv_def)
  have rep: "seg_rep ?s (seg_records ?s)" using seg_chain_rep chain by simp
  have base: "base_offset ?s \<le> off"
    using append_from_base [of off pl1 "Some ts1" now1 l] one l1(1) active_segment(3) [OF inv] by (simp add: off active_def)
  have fits: "fits_unsigned 8 (off - base_offset ?s)" "fits_unsigned 8 (seg_size ?s)"
    using second(1) base seg_rep_props(1,4) [OF rep] seg_rep_fields(2) [OF rep]
    by (simp_all add: valid_record_def fits_unsigned_def)
  obtain s' where s': "append_record off ?rb ts2 ?s = (Inr (), s')"
    using maybe_index_fits fits by (simp add: append_record_def Let_def)
  have l2: "res2 = Inr off" "l2 = (set_active s' l1)\<lparr>next_offset := off + 1\<rparr>"
    using two second encode_valid [OF second(1)] s' chain(1) by (simp_all add: append_from_def Let_def)
  have keep: "base_offset s' = base_offset ?s" "seg_next_offset s' = off + 1"
    using append_record_keeps [OF s'] by simp_all
  have segs: "segments l1 = butlast (segments l1) @ [?s]" "segments l2 = butlast (segments l1) @ [s']"
    using chain(1) by (simp_all add: l2(2) set_active_def)
  have "map base_offset (segments l2) = map base_offset (segments l1)"
    by (subst segs(1), subst segs(2)) (simp add: keep)
  then have sorted: "sorted_wrt (<) (map base_offset (segments l2))"
    using seg_chain_bases_sorted [OF chain(2)] by simp
  have "\<forall>s \<in> set (segments l2). seg_next_offset s \<le> off + 1"
    using seg_next_le [OF chain(2)] chain(3) keep by (auto simp: segs(2) dest: in_set_butlastD)
  then have "read_log o' l2 = None" if "o' > off" for o'
    using that sorted by (intro read_past_segments) auto
  then show ?thesis using l1(1) l2 by simp
qed

definition raced_log :: commit_log where
  "raced_log = snd (append_from 0 [1] (Some 5) 0 (fresh_log 64 16))"

theorem racing_appends_share_offset_witness:
  "fst (append_from 0 [1] (Some 5) 0 (fresh_log 64 16)) = Inr 0 \<and> fst (append_from 0 [2] (Some 6) 0 raced_log) = Inr 0
    \<and> read_log 1 (snd (append_from 0 [2] (Some 6) 0 raced_log)) = None"
proof -
  have "accepts_record [1] 5 (fresh_log 64 16)" by (rule fresh_accepts) simp_all
  moreover have "seg_size (last (segments raced_log)) < max_segment_bytes raced_log" by code_simp
  moreover have "valid_record (mk_record 0 6 [2])" by (simp add: format_simps)
  ultimately show ?thesis
    using racing_appends_share_offset [OF fresh_log_inv, of "[1]" 5 64 16 0 0 "fst (append_from 0 [1] (Some 5) 0 (fresh_log 64 16))"
        raced_log "[2]" 6 0 "fst (append_from 0 [2] (Some 6) 0 raced_log)" "snd (append_from 0 [2] (Some 6) 0 raced_log)"]
    by (simp add: raced_log_def)
qed

end
