(* ===== verification/Scenarios.thy ===== *)
theory Scenarios
  imports Broker
begin

text \<open>
  The scripts \<^verbatim>\<open>demo.py\<close> and \<^verbatim>\<open>bench.py\<close> as programs over the log and the broker. What they print is returned, less
  the texts around the values; the rates of the benchmarks are quotients of their counts by a time and are
  left out, as is the removal of the data directory before and after.
\<close>

section \<open>Appending in a loop\<close>

fun append_each :: "(bytes \<times> int option) list \<Rightarrow> int \<Rightarrow> commit_log \<Rightarrow> (commit_log, unit) outcome" where
  "append_each [] now l = (Inr (), l)"
| "append_each ((pl, ts) # xs) now l =
     (case append_log pl ts now l of
        (Inl e, l1) \<Rightarrow> (Inl e, l1)
      | (Inr _, l1) \<Rightarrow> append_each xs now l1)"

section \<open>The walkthrough\<close>

definition event_payload :: "nat \<Rightarrow> bytes" where
  "event_payload i = encode_ascii (ascii (''event-'' @ pad_left 4 (nat_str i)))"

text \<open>Bytes added to the file of the first segment behind the back of the log.\<close>

definition spoil_first :: "bytes \<Rightarrow> commit_log \<Rightarrow> commit_log" where
  "spoil_first bs l =
     l\<lparr>segments := (case segments l of
         [] \<Rightarrow> []
       | s # ss \<Rightarrow> s\<lparr>log_file := Some (contents (log_file s) @ bs)\<rparr> # ss)\<rparr>"

definition garbage :: bytes where
  "garbage = [0, 1, 2, 3] @ encode_ascii (ascii ''partial-garbage-without-valid-crc'')"

fun append_after :: "nat \<Rightarrow> int \<Rightarrow> commit_log \<Rightarrow> (commit_log, unit) outcome" where
  "append_after 0 now l = (Inr (), l)"
| "append_after (Suc k) now l =
     (case append_log (encode_ascii (ascii ''post-crash-'' @ int_dec (next_offset l))) None now l of
        (Inl e, l1) \<Rightarrow> (Inl e, l1)
      | (Inr _, l1) \<Rightarrow> append_after k now l1)"

record walkthrough =
  w_stats :: log_stats
  w_index_entries :: nat
  w_read :: "int \<times> ustr"
  w_recovered :: int
  w_final :: log_stats

definition walkthrough_main :: "int \<Rightarrow> walkthrough result" where
  "walkthrough_main now =
     (case open_log [] 512 128 of
        Inl e \<Rightarrow> Inl e
      | Inr l0 \<Rightarrow>
          (case append_each (map (\<lambda>i. (event_payload i, Some (1000 + int i))) [0..<200]) now l0 of
             (Inl e, _) \<Rightarrow> Inl e
           | (Inr _, l1) \<Rightarrow>
               (case read_log 137 l1 of
                  None \<Rightarrow> Inl AttributeError
                | Some r \<Rightarrow>
                    (case utf8_decode (rec_payload r) of
                       Inl e \<Rightarrow> Inl e
                     | Inr text \<Rightarrow>
                         (case open_log (dir_of (spoil_first garbage l1)) 512 128 of
                            Inl e \<Rightarrow> Inl e
                          | Inr l2 \<Rightarrow>
                              (case append_after 3 now l2 of
                                 (Inl e, _) \<Rightarrow> Inl e
                               | (Inr _, l3) \<Rightarrow>
                                   Inr \<lparr>w_stats = stats l1, w_index_entries = length (index (hd (segments l1))),
                                        w_read = (rec_offset r, text), w_recovered = next_offset l2,
                                        w_final = stats l3\<rparr>))))))"

section \<open>The benchmarks\<close>

definition bench_commit_log :: "nat \<Rightarrow> commit_log result" where
  "bench_commit_log n =
     (case open_log [] (64 * 1024 * 1024) 4096 of
        Inl e \<Rightarrow> Inl e
      | Inr l \<Rightarrow>
          (case append_each (map (\<lambda>i. (replicate 100 120, Some (int i))) [0..<n]) 0 l of
             (Inl e, _) \<Rightarrow> Inl e
           | (Inr _, l1) \<Rightarrow> Inr l1))"

text \<open>A batch of no records makes no progress, so the loop need not end.\<close>

partial_function (option) group_loop :: "int \<Rightarrow> int \<Rightarrow> int \<Rightarrow> commit_log \<Rightarrow> commit_log result option" where
  "group_loop n batch_size sofar l =
     (if sofar < n then
        let k = min batch_size (n - sofar) in
        (case append_many (replicate (nat k) (replicate 100 120)) (Some (replicate (nat k) 0)) 0 l of
           (Inl e, l1) \<Rightarrow> Some (Inl e)
         | (Inr _, l1) \<Rightarrow> group_loop n batch_size (sofar + k) l1)
      else Some (Inr l))"

definition bench_group_commit :: "int \<Rightarrow> int \<Rightarrow> commit_log result option" where
  "bench_group_commit n batch_size =
     (case open_log [] (64 * 1024 * 1024) 8192 of
        Inl e \<Rightarrow> Some (Inl e)
      | Inr l \<Rightarrow> group_loop n batch_size 0 l)"

definition bench_reads :: "nat \<Rightarrow> log_record option list result" where
  "bench_reads n_written =
     (case open_log [] (128 * 1024 * 1024) 4096 of
        Inl e \<Rightarrow> Inl e
      | Inr l \<Rightarrow>
          (case append_each (map (\<lambda>i. (replicate 100 121, Some (int i))) [0..<n_written]) 0 l of
             (Inl e, _) \<Rightarrow> Inl e
           | (Inr _, l1) \<Rightarrow>
               if n_written = 0 then Inl ZeroDivisionError
               else Inr (map (\<lambda>i. read_log (int (i * 7 mod n_written)) l1) [0..<10000])))"

definition bench_topic :: ustr where
  "bench_topic = ascii ''bench''"

fun produce_each :: "nat list \<Rightarrow> int \<Rightarrow> broker \<Rightarrow> (broker, unit) outcome" where
  "produce_each [] now b = (Inr (), b)"
| "produce_each (i # is) now b =
     (case produce bench_topic (replicate 200 122) (Some (ascii ''k'' @ int_dec (int (i mod 97)))) None now b of
        (Inl e, b1) \<Rightarrow> (Inl e, b1)
      | (Inr _, b1) \<Rightarrow> produce_each is now b1)"

fun count_fetched :: "int list \<Rightarrow> int \<Rightarrow> broker \<Rightarrow> nat result" where
  "count_fetched [] limit b = Inr 0"
| "count_fetched (p # ps) limit b =
     (case fetch bench_topic p (-1) limit b of
        Inl e \<Rightarrow> Inl e
      | Inr msgs \<Rightarrow>
          (case count_fetched ps limit b of Inl e \<Rightarrow> Inl e | Inr k \<Rightarrow> Inr (length msgs + k)))"

text \<open>The number of messages that the fetching half counts.\<close>

definition bench_broker :: "nat \<Rightarrow> int \<Rightarrow> nat result" where
  "bench_broker n now =
     (case broker_init [] [] 4 (128 * 1024 * 1024) 4096 None None of
        Inl e \<Rightarrow> Inl e
      | Inr b \<Rightarrow>
          (case produce_each [0..<n] now b of
             (Inl e, _) \<Rightarrow> Inl e
           | (Inr _, b1) \<Rightarrow> count_fetched [0, 1, 2, 3] (int n) b1))"

end
