(* ===== verification/Scenario_Theorems.thy ===== *)
theory Scenario_Theorems
  imports Scenarios Broker_Props
begin

text \<open>
  What the scripts \<^verbatim>\<open>demo.py\<close> and \<^verbatim>\<open>bench.py\<close> show: a log whose files have garbage at their ends is recovered
  whole, and the benchmarks handle exactly the records they count.
\<close>

section \<open>Garbage behind the records\<close>

text \<open>Bytes behind the records of every segment, the closed ones included.\<close>

definition spoil :: "bytes list \<Rightarrow> commit_log \<Rightarrow> commit_log" where
  "spoil tails l =
     l\<lparr>segments := map2 (\<lambda>s t. s\<lparr>log_file := Some (contents (log_file s) @ t)\<rparr>) (segments l) tails\<rparr>"

lemma recover_spoiled:
  assumes "seg_rep s rs" "no_record t"
  shows "recover (segment_init (base_offset s) iv (Some (file_bytes rs @ t)) idxf) =
    (Inr (base_offset s + int (length rs)), segment_of (base_offset s) (max 1 iv) rs (max_ts rs))"
proof -
  have "\<forall>r \<in> set rs. valid_record r \<and> base_offset s \<le> rec_offset r"
    using seg_rep_props(2,3) [OF assms(1)] by (auto simp: consecutive_def in_set_conv_nth)
  then show ?thesis
    using recover_segment [of "segment_init (base_offset s) iv (Some (file_bytes rs @ t)) idxf" rs t]
      seg_rep_props [OF assms(1)] assms(2)
    by (simp add: segment_init_def next_of_consecutive)
qed

lemma recover_segments_spoiled:
  assumes "length ts = length ss" "\<forall>s \<in> set ss. seg_rep s (seg_records s)" "\<forall>t \<in> set ts. no_record t"
  shows "recover_segments (map (\<lambda>s. segment_init (base_offset s) iv (Some (contents (log_file s))) (idxf s))
      (map2 (\<lambda>s t. s\<lparr>log_file := Some (contents (log_file s) @ t)\<rparr>) ss ts))
    = Inr (map (\<lambda>s. segment_of (base_offset s) (max 1 iv) (seg_records s) (max_ts (seg_records s))) ss)"
  using assms
proof (induction ts ss rule: list_induct2)
  case (Cons t ts s ss)
  have "contents (log_file s) = file_bytes (seg_records s)"
    using seg_rep_fields(3) [of s "seg_records s"] Cons.prems by simp
  then show ?case using Cons recover_spoiled [of s "seg_records s" t iv] by simp
qed simp

lemma spoiled_bases:
  "length ts = length ss \<Longrightarrow>
     map base_offset (map2 (\<lambda>s t. s\<lparr>log_file := Some (contents (log_file s) @ t)\<rparr>) ss ts) = map base_offset ss"
  by (induction ts ss rule: list_induct2) simp_all

lemma reopen_spoiled:
  assumes inv: "log_inv l" and tails: "length tails = length (segments l)" "\<forall>t \<in> set tails. no_record t"
  shows "\<exists>l'. open_log (dir_of (spoil tails l)) (max_segment_bytes l) (log_interval l) = Inr l' \<and> log_inv l'
    \<and> first_offset l' = first_offset l \<and> log_records l' = log_records l \<and> next_offset l' = next_offset l"
proof -
  let ?iv = "log_interval l"
  let ?ss = "map2 (\<lambda>s t. s\<lparr>log_file := Some (contents (log_file s) @ t)\<rparr>) (segments l) tails"
  define ss' where "ss' = map (\<lambda>s. segment_of (base_offset s) (max 1 ?iv) (seg_records s) (max_ts (seg_records s))) (segments l)"
  have chain: "segments l \<noteq> []" "seg_chain (segments l)" using inv by (simp_all add: log_inv_def)
  have reps: "\<forall>s \<in> set (segments l). seg_rep s (seg_records s)" using seg_chain_rep [OF chain(2)] by blast
  have bases: "map base_offset ?ss = map base_offset (segments l)"
    by (rule spoiled_bases [OF tails(1)])
  have "sorted_wrt (<) (map base_offset ?ss)"
    unfolding bases by (rule seg_chain_bases_sorted [OF chain(2)])
  moreover have "\<forall>s \<in> set ?ss. 0 \<le> base_offset s"
    using reps seg_rep_props(1) by (auto dest!: set_zip_leftD)
  ultimately obtain idxf where "seg_inits (dir_of (spoil tails l)) ?iv =
      map (\<lambda>s. segment_init (base_offset s) ?iv (Some (contents (log_file s))) (idxf s)) ?ss"
    using seg_inits_files [of ?ss ?iv] by (auto simp: dir_of_seg_files spoil_def)
  then have inits: "recover_segments (seg_inits (dir_of (spoil tails l)) ?iv) = Inr ss'"
      "seg_inits (dir_of (spoil tails l)) ?iv \<noteq> []"
    using recover_segments_spoiled [OF tails(1) reps tails(2), of ?iv idxf] chain(1) tails(1)
    by (auto simp: ss'_def zip_eq_Nil_iff)
  define l' where "l' = \<lparr>max_segment_bytes = max 1 (max_segment_bytes l), log_interval = ?iv,
      segments = ss', next_offset = seg_next_offset (last ss')\<rparr>"
  have opened: "open_log (dir_of (spoil tails l)) (max_segment_bytes l) ?iv = Inr l'"
    unfolding open_log_def Let_def seg_inits_def [symmetric] using inits by (simp add: l'_def)
  have segs: "segments l = butlast (segments l) @ [active l]" using chain(1) by (simp add: active_def)
  have ss': "ss' = rebuilt (max 1 ?iv) (butlast (segments l)) (active l) (seg_records (active l))"
    unfolding ss'_def rebuilt_def by (subst segs) simp
  have c: "seg_chain (butlast (segments l) @ [active l])" using chain(2) segs by simp
  have "seg_records (active l) = take (length (seg_records (active l))) (seg_records (active l))" by simp
  note chain' = rebuilt_chain [OF c this, of "max 1 ?iv", folded ss']
  have inv': "log_inv l'"
    using chain'(1) ss' by (auto simp: log_inv_def l'_def rebuilt_def)
  have first: "first_offset l' = first_offset l"
    using chain(1) by (cases "segments l") (simp_all add: first_offset_def l'_def ss'_def)
  have recs: "log_records l' = log_records l"
    using chain'(2) log_records_split [OF inv] by (simp add: log_records_def l'_def)
  show ?thesis
    using opened inv' first recs log_inv_records(2) [OF inv] log_inv_records(2) [OF inv'] by simp
qed

text \<open>
  C6. Garbage behind the records of any segment does no harm: if bytes that no record can be read from follow the records
  in some or all files of a log, reopening the directory yields all records and the same next offset.
\<close>

theorem garbage_is_cut:
  assumes "log_inv l" "length tails = length (segments l)"
    and "\<forall>t \<in> set tails. \<not> (\<exists>r rest. read_record t = Inr (Some r, rest))"
  shows "\<exists>l'. open_log (dir_of (spoil tails l)) (max_segment_bytes l) (log_interval l) = Inr l' \<and> log_inv l'
    \<and> log_records l' = log_records l \<and> next_offset l' = next_offset l \<and> (\<forall>off. read_log off l' = read_log off l)"
proof -
  obtain l' where l': "open_log (dir_of (spoil tails l)) (max_segment_bytes l) (log_interval l) = Inr l'" "log_inv l'"
      "first_offset l' = first_offset l" "log_records l' = log_records l" "next_offset l' = next_offset l"
    using reopen_spoiled [OF assms(1,2)] assms(3) by (auto simp: no_record_iff)
  then show ?thesis using assms(1) by (simp add: cl.rd_recs)
qed

theorem garbage_is_cut_witness:
  "\<exists>l'. open_log (dir_of (spoil [[9, 9]] (fresh_log 64 16))) 64 16 = Inr l' \<and> next_offset l' = 0"
proof -
  have "read_record [9, 9] \<noteq> Inr (Some r, rest)" for r rest
    by (simp add: read_record_def HEADER_SIZE_def Let_def)
  then show ?thesis
    using garbage_is_cut [OF fresh_log_inv, of "[[9, 9]]" 64 16] by (auto simp: fresh_log_def)
qed

lemma read_garbage: "read_record garbage = Inl (CorruptRecord ''bad magic'')"
  by (simp add: read_record_def garbage_def encode_ascii_def ascii_def MAGIC_def HEADER_SIZE_def Let_def)

section \<open>Appending in a loop\<close>

fun stored :: "int \<Rightarrow> int \<Rightarrow> (bytes \<times> int option) list \<Rightarrow> log_record list" where
  "stored off now [] = []"
| "stored off now ((pl, ts) # xs) = mk_record off (case ts of None \<Rightarrow> now | Some t \<Rightarrow> t) pl # stored (off + 1) now xs"

lemma stored_length [simp]: "length (stored off now xs) = length xs"
  by (induction off now xs rule: stored.induct) simp_all

lemma active_bytes: "log_inv l \<Longrightarrow> length (file_bytes (seg_records (active l))) \<le> length (file_bytes (log_records l))"
  by (simp add: log_records_split)

lemma append_log_room:
  assumes "log_inv l" "r = mk_record (next_offset l) (case ts of None \<Rightarrow> now | Some t \<Rightarrow> t) pl" "valid_record r"
    and "length (file_bytes (log_records l)) + length (record_bytes r) < 2 ^ 64"
  shows "\<exists>l'. append_log pl ts now l = (Inr (next_offset l), l') \<and> log_inv l' \<and> log_records l' = log_records l @ [r]
    \<and> first_offset l' = first_offset l \<and> next_offset l' = next_offset l + 1
    \<and> max_segment_bytes l' = max_segment_bytes l \<and> log_interval l' = log_interval l"
proof -
  let ?t = "case ts of None \<Rightarrow> now | Some t \<Rightarrow> t"
  have same: "append_log pl ts now l = append_log pl (Some ?t) now l"
    by (simp add: append_log_def split: option.splits)
  have "room_for [r] (active l)"
    using assms(4) active_bytes [OF assms(1)] by (simp add: room_for_def)
  then obtain l' where l': "append_log pl (Some ?t) now l = (Inr (next_offset l), l')" "log_inv l'"
      "log_records l' = log_records l @ [r]" "first_offset l' = first_offset l" "next_offset l' = next_offset l + 1"
    using append_log_inv [OF assms(1), of ?t pl now] assms(2,3) by auto
  then show ?thesis using same append_log_config [OF l'(1)] by simp
qed

lemma append_each_adds:
  assumes "log_inv l" "\<forall>r \<in> set (stored (next_offset l) now xs). valid_record r"
    and "length (file_bytes (log_records l)) + length (file_bytes (stored (next_offset l) now xs)) < 2 ^ 64"
  shows "\<exists>l'. append_each xs now l = (Inr (), l') \<and> log_inv l'
    \<and> log_records l' = log_records l @ stored (next_offset l) now xs
    \<and> first_offset l' = first_offset l \<and> next_offset l' = next_offset l + int (length xs)
    \<and> max_segment_bytes l' = max_segment_bytes l \<and> log_interval l' = log_interval l"
  using assms
proof (induction xs arbitrary: l)
  case (Cons x xs)
  obtain pl ts where x: "x = (pl, ts)" by (cases x)
  let ?r = "mk_record (next_offset l) (case ts of None \<Rightarrow> now | Some t \<Rightarrow> t) pl"
  obtain l1 where l1: "append_log pl ts now l = (Inr (next_offset l), l1)" "log_inv l1" "log_records l1 = log_records l @ [?r]"
      "first_offset l1 = first_offset l" "next_offset l1 = next_offset l + 1"
      "max_segment_bytes l1 = max_segment_bytes l" "log_interval l1 = log_interval l"
    using append_log_room [OF Cons.prems(1) refl, where ts = ts and now = now and pl = pl] Cons.prems(2,3) x by auto
  show ?case
    using Cons.IH [OF l1(2)] Cons.prems(2,3) l1 x by (auto simp: add_ac)
qed simp

text \<open>Payloads of one length make records of one length.\<close>

lemma stored_bytes:
  "\<forall>x \<in> set xs. length (fst x) \<le> k \<Longrightarrow> length (file_bytes (stored off now xs)) \<le> length xs * (HEADER_SIZE + k)"
proof (induction off now xs rule: stored.induct)
  case (2 off now pl ts xs)
  then show ?case by (simp add: length_record_bytes)
qed simp

lemma stored_valid:
  assumes "\<forall>x \<in> set xs. int (length (fst x)) \<le> MAX_RECORD_BYTES \<and> fits_signed 8 (case snd x of None \<Rightarrow> now | Some t \<Rightarrow> t)"
    and "0 \<le> off" "off + int (length xs) < 2 ^ 64"
  shows "\<forall>r \<in> set (stored off now xs). valid_record r"
  using assms
proof (induction off now xs rule: stored.induct)
  case (2 off now pl ts xs)
  have "valid_record (mk_record off (case ts of None \<Rightarrow> now | Some t \<Rightarrow> t) pl)"
    using 2(2-4) by (simp add: valid_record_def fits_unsigned_def)
  then show ?case using 2 by (simp add: add_ac)
qed simp

lemma stored_nth:
  "i < length xs \<Longrightarrow> stored off now xs ! i
     = mk_record (off + int i) (case snd (xs ! i) of None \<Rightarrow> now | Some t \<Rightarrow> t) (fst (xs ! i))"
proof (induction off now xs arbitrary: i rule: stored.induct)
  case (2 off now pl ts xs)
  then show ?case by (cases i) (simp_all add: add_ac)
qed simp

lemma fresh_log_facts:
  "log_records (fresh_log m iv) = []" "next_offset (fresh_log m iv) = 0" "first_offset (fresh_log m iv) = 0"
  "max_segment_bytes (fresh_log m iv) = max 1 m" "log_interval (fresh_log m iv) = iv"
  using log_inv_records(2) [OF fresh_log_inv, of m iv] by (simp_all add: fresh_log_def first_offset_def)

text \<open>A new log after a loop of appends of short payloads.\<close>

lemma fresh_append_each:
  assumes "\<forall>x \<in> set xs. length (fst x) \<le> 1000 \<and> fits_signed 8 (case snd x of None \<Rightarrow> now | Some t \<Rightarrow> t)" "length xs < 2 ^ 32"
  shows "\<exists>l. append_each xs now (fresh_log m iv) = (Inr (), l) \<and> log_inv l \<and> log_records l = stored 0 now xs
    \<and> first_offset l = 0 \<and> next_offset l = int (length xs) \<and> max_segment_bytes l = max 1 m \<and> log_interval l = iv
    \<and> length (file_bytes (log_records l)) < 2 ^ 50"
proof -
  have "length (file_bytes (stored 0 now xs)) \<le> length xs * (HEADER_SIZE + 1000)"
    using assms(1) by (intro stored_bytes) auto
  also have "\<dots> < 2 ^ 50" using assms(2) by (simp add: HEADER_SIZE_def)
  finally have small: "length (file_bytes (stored 0 now xs)) < 2 ^ 50" .
  have valid: "\<forall>r \<in> set (stored 0 now xs). valid_record r"
    using assms by (intro stored_valid) (auto simp: MAX_RECORD_BYTES_def)
  show ?thesis
    using append_each_adds [OF fresh_log_inv, of m iv now xs] valid small by (auto simp: fresh_log_facts)
qed

section \<open>The benchmarks of the log\<close>

text \<open>
  The benchmarks of the log work on as many records as they count: \<open>n\<close> appends leave \<open>n\<close> records, and each of the ten
  thousand reads of a log with \<open>n\<close> records finds its record.
\<close>

theorem log_benchmarks_count:
  assumes "n < 2 ^ 32"
  shows "\<exists>l. bench_commit_log n = Inr l \<and> log_inv l \<and> length (log_records l) = n"
    and "0 < n \<Longrightarrow> \<exists>rs. bench_reads n = Inr (map Some rs) \<and> map rec_offset rs = map (\<lambda>i. int (i * 7 mod n)) [0..<10000]"
proof -
  have ts: "fits_signed 8 (int i)" if "i < n" for i
    using that assms by (simp add: fits_signed_def)
  let ?xs = "\<lambda>c. map (\<lambda>i. (replicate 100 c, Some (int i))) [0..<n] :: (bytes \<times> int option) list"
  have loop: "\<exists>l. append_each (?xs c) 0 (fresh_log m iv) = (Inr (), l) \<and> log_inv l \<and> log_records l = stored 0 0 (?xs c) \<and> first_offset l = 0" for c m iv
    using fresh_append_each [of "?xs c" 0 m iv] ts assms by auto
  show "\<exists>l. bench_commit_log n = Inr l \<and> log_inv l \<and> length (log_records l) = n"
    using loop [of 120 "64 * 1024 * 1024" 4096] by (auto simp: bench_commit_log_def open_empty)
  assume n: "0 < n"
  obtain l where l: "append_each (?xs 121) 0 (fresh_log (128 * 1024 * 1024) 4096) = (Inr (), l)" "log_inv l"
      "log_records l = stored 0 0 (?xs 121)" "first_offset l = 0"
    using loop by blast
  have "read_log (int k) l = Some (stored 0 0 (?xs 121) ! k)" if "k < n" for k
    using that l by (simp add: cl.rd_recs alog_read_def)
  then have reads: "map (\<lambda>i. read_log (int (i * 7 mod n)) l) [0..<10000] = map Some (map (\<lambda>i. stored 0 0 (?xs 121) ! (i * 7 mod n)) [0..<10000])"
    using n by simp
  have "bench_reads n = Inr (map Some (map (\<lambda>i. stored 0 0 (?xs 121) ! (i * 7 mod n)) [0..<10000]))"
    using l(1) n reads by (simp add: bench_reads_def open_empty)
  moreover have "map rec_offset (map (\<lambda>i. stored 0 0 (?xs 121) ! (i * 7 mod n)) [0..<10000]) = map (\<lambda>i. int (i * 7 mod n)) [0..<10000]"
    using n by (simp add: stored_nth)
  ultimately show "\<exists>rs. bench_reads n = Inr (map Some rs) \<and> map rec_offset rs = map (\<lambda>i. int (i * 7 mod n)) [0..<10000]"
    by blast
qed

text \<open>The group commits of one batch after another.\<close>

lemma group_batch:
  assumes "log_inv l" "0 \<le> next_offset l" "next_offset l + int k < 2 ^ 32" "length (file_bytes (log_records l)) + k * (HEADER_SIZE + 100) < 2 ^ 50"
  shows "\<exists>res l'. append_many (replicate k (replicate 100 120)) (Some (replicate k 0)) 0 l = (Inr res, l') \<and> log_inv l'
    \<and> length (log_records l') = length (log_records l) + k \<and> next_offset l' = next_offset l + int k
    \<and> length (file_bytes (log_records l')) = length (file_bytes (log_records l)) + k * (HEADER_SIZE + 100)"
proof -
  let ?rs = "many_records (next_offset l) (replicate k (replicate 100 120)) (replicate k 0)"
  have nth: "?rs = map (\<lambda>j. mk_record (next_offset l + int j) 0 (replicate 100 120)) [0..<k]"
    by (auto simp: many_records_def)
  have valid: "\<forall>r \<in> set ?rs. valid_record r"
    using assms(2,3) by (auto simp: nth valid_record_def MAX_RECORD_BYTES_def fits_unsigned_def fits_signed_def)
  have bytes: "length (file_bytes ?rs) = k * (HEADER_SIZE + 100)"
    unfolding nth by (induction k) (simp_all add: length_record_bytes)
  have "room_for ?rs (active l)"
    using assms(4) active_bytes [OF assms(1)] bytes by (simp add: room_for_def)
  then show ?thesis
    using append_many_inv [OF assms(1) _ valid, of 0] bytes by (auto simp: nth)
qed

lemma group_loop_ends:
  assumes "log_inv l" "first_offset l = 0" "sofar = int (length (log_records l))" "sofar \<le> n" "n < 2 ^ 32" "1 \<le> batch_size"
    and "length (file_bytes (log_records l)) = length (log_records l) * (HEADER_SIZE + 100)"
  shows "\<exists>l'. group_loop n batch_size sofar l = Some (Inr l') \<and> log_inv l' \<and> int (length (log_records l')) = n"
  using assms
proof (induction "nat (n - sofar)" arbitrary: sofar l rule: less_induct)
  case less
  note nxt = log_inv_records(2) [OF less.prems(1)]
  show ?case
  proof (cases "sofar < n")
    case True
    define k where "k = min batch_size (n - sofar)"
    have k: "1 \<le> k" "k \<le> n - sofar" using True less.prems(6) by (auto simp: k_def)
    have "length (log_records l) * (HEADER_SIZE + 100) + nat k * (HEADER_SIZE + 100) \<le> nat n * (HEADER_SIZE + 100)"
      using k less.prems(3) by (simp flip: add_mult_distrib)
    also have "\<dots> < 2 ^ 50" using less.prems(5) True by (simp add: HEADER_SIZE_def)
    finally obtain res l1 where l1: "append_many (replicate (nat k) (replicate 100 120)) (Some (replicate (nat k) 0)) 0 l = (Inr res, l1)"
        "log_inv l1" "length (log_records l1) = length (log_records l) + nat k" "next_offset l1 = next_offset l + int (nat k)"
        "length (file_bytes (log_records l1)) = length (file_bytes (log_records l)) + nat k * (HEADER_SIZE + 100)"
      using group_batch [OF less.prems(1), of "nat k"] nxt less.prems k by auto
    have "first_offset l1 = 0" using log_inv_records(2) [OF l1(2)] l1(3,4) nxt less.prems(2) by simp
    then have "\<exists>l'. group_loop n batch_size (sofar + k) l1 = Some (Inr l') \<and> log_inv l' \<and> int (length (log_records l')) = n"
      using less.prems l1 k True by (intro less.hyps) (auto simp: add_mult_distrib)
    moreover have "group_loop n batch_size sofar l = group_loop n batch_size (sofar + k) l1"
      using True l1(1) by (subst group_loop.simps) (simp add: k_def Let_def)
    ultimately show ?thesis by simp
  next
    case False
    then show ?thesis using less.prems by (subst group_loop.simps) simp
  qed
qed

lemma bench_group_commit_ends:
  assumes "0 \<le> n" "n < 2 ^ 32" "1 \<le> batch_size"
  shows "\<exists>l. bench_group_commit n batch_size = Some (Inr l) \<and> log_inv l \<and> int (length (log_records l)) = n"
  using group_loop_ends [OF fresh_log_inv, of "64 * 1024 * 1024" 8192 0 n batch_size] assms
  by (simp add: bench_group_commit_def open_empty fresh_log_facts)

section \<open>The benchmark of the broker\<close>

definition bench_state :: "nat \<Rightarrow> broker \<Rightarrow> bool" where
  "bench_state k b \<longleftrightarrow> broker_inv b \<and> (map_of (topics b) bench_topic = None \<longrightarrow> default_partitions b = 4 \<and> k = 0)
     \<and> length (parts_of bench_topic b) = 4
     \<and> (\<forall>p \<in> set (parts_of bench_topic b). part_first p = 0
          \<and> length (file_bytes (part_records p)) = length (part_records p) * (HEADER_SIZE + 200))
     \<and> sum_list (map (\<lambda>p. length (part_records p)) (parts_of bench_topic b)) = k"

lemma bench_state_accepts:
  assumes "bench_state k b" "k < 2 ^ 32" "fits_signed 8 now" "p \<in> set (parts_of bench_topic b)"
  shows "part_accepts (replicate 200 122) now p"
proof -
  have "part_inv p"
    using assms(1,4) parts_of_ok(2) [of b bench_topic] by (auto simp: bench_state_def)
  then have inv: "log_inv (part_log p)" by (simp add: part_inv_def)
  have p: "part_first p = 0" "length (file_bytes (part_records p)) = length (part_records p) * (HEADER_SIZE + 200)"
    using assms(1,4) by (auto simp: bench_state_def)
  have "length (part_records p) \<le> k"
    using assms(1,4) member_le_sum_list [of "length (part_records p)" "map (\<lambda>p. length (part_records p)) (parts_of bench_topic b)"]
    by (auto simp: bench_state_def)
  then have few: "length (part_records p) < 2 ^ 32" using assms(2) by simp
  then have "length (file_bytes (log_records (part_log p))) < 2 ^ 50"
    using p(2) by (simp add: HEADER_SIZE_def part_records_def)
  then have "room_for [mk_record (next_offset (part_log p)) now (replicate 200 122)] (active (part_log p))"
    using active_bytes [OF inv] by (simp add: room_for_def length_record_bytes HEADER_SIZE_def)
  moreover have "next_offset (part_log p) = int (length (part_records p))"
    using log_inv_records(2) [OF inv] p(1) by (simp add: part_first_def part_records_def)
  ultimately show ?thesis
    using few assms(3)
    by (simp add: part_accepts_def accepts_record_def valid_record_def MAX_RECORD_BYTES_def fits_unsigned_def)
qed

lemma bench_produce:
  assumes "bench_state k b" "k < 2 ^ 32" "fits_signed 8 now" "key_ok key"
  shows "\<exists>r b'. produce bench_topic (replicate 200 122) key None now b = (Inr r, b') \<and> bench_state (Suc k) b'"
proof -
  let ?ps = "parts_of bench_topic b" and ?pl = "replicate 200 122 :: bytes"
  define i where "i = slot key (length ?ps) b"
  have four: "length ?ps = 4" using assms(1) by (simp add: bench_state_def)
  have i: "i < length ?ps" using slot_less four by (simp add: i_def)
  have "can_produce bench_topic ?pl key now b"
    using assms(1,4) bench_state_accepts [OF assms(1-3), of "?ps ! i"] i
    by (auto simp: can_produce_def bench_state_def i_def)
  then obtain p' b' where e: "produce bench_topic ?pl key (Some now) now b =
        (Inr \<lparr>pr_topic = bench_topic, pr_partition = i, pr_offset = high_watermark (?ps ! i)\<rparr>, b')"
      "topics b' = dict_put bench_topic (?ps[i := p']) (topics b)" "part_first p' = part_first (?ps ! i)"
      "part_records p' = part_records (?ps ! i) @ [mk_record (high_watermark (?ps ! i)) now ?pl]" "broker_inv b'"
    using produce_effect [of b bench_topic ?pl key now now] assms(1) by (auto simp: bench_state_def i_def)
  have found: "map_of (topics b') bench_topic = Some (?ps[i := p'])" by (simp add: e(2) dict_put_map_of)
  then have parts: "parts_of bench_topic b' = ?ps[i := p']" by (simp add: parts_of_def)
  have old: "part_first (?ps ! i) = 0 \<and> length (file_bytes (part_records (?ps ! i))) = length (part_records (?ps ! i)) * (HEADER_SIZE + 200)"
    using assms(1) i by (auto simp: bench_state_def)
  have "length (part_records (?ps ! i)) \<le> k"
    using assms(1) i elem_le_sum_list [of i "map (\<lambda>p. length (part_records p)) ?ps"] by (auto simp: bench_state_def)
  then have "sum_list (map (\<lambda>p. length (part_records p)) (?ps[i := p'])) = Suc k"
    using assms(1) i e(4) by (simp add: bench_state_def map_update sum_list_update)
  moreover have "\<forall>p \<in> set (?ps[i := p']). part_first p = 0 \<and> length (file_bytes (part_records p)) = length (part_records p) * (HEADER_SIZE + 200)"
    using assms(1) old e(3,4) by (auto simp: bench_state_def length_record_bytes dest!: subsetD [OF set_update_subset_insert])
  ultimately have "bench_state (Suc k) b'"
    using e(5) found four by (simp add: bench_state_def parts)
  moreover have "produce bench_topic ?pl key None now b = produce bench_topic ?pl key (Some now) now b"
    unfolding produce_def by (simp only: option.case)
  ultimately show ?thesis using e(1) by simp
qed

lemma bench_key_ok: "key_ok (Some (ascii ''k'' @ int_dec (int m)))"
proof -
  have "list_all scalar (nat_dec m)"
    using nat_dec_digits [of m] by (auto simp: list_all_iff is_digit_def scalar_def)
  then show ?thesis by (simp add: key_ok_def ascii_def scalar_def int_dec_def)
qed

lemma produce_each_state:
  assumes "bench_state k b" "k + length is < 2 ^ 32" "fits_signed 8 now"
  shows "\<exists>b'. produce_each is now b = (Inr (), b') \<and> bench_state (k + length is) b'"
  using assms
proof (induction "is" arbitrary: k b)
  case (Cons i "is")
  obtain r b1 where "produce bench_topic (replicate 200 122) (Some (ascii ''k'' @ int_dec (int (i mod 97)))) None now b = (Inr r, b1)"
      "bench_state (Suc k) b1"
    using bench_produce [OF Cons.prems(1) _ Cons.prems(3) bench_key_ok] Cons.prems(2) by fastforce
  then show ?case using Cons.IH [of "Suc k" b1] Cons.prems by simp
qed simp

lemma count_fetched_all:
  assumes "bench_state k b" "map_of (topics b) bench_topic = Some ps" "\<forall>j \<in> set js. j < 4"
  shows "count_fetched (map int js) (int k) b = Inr (sum_list (map (\<lambda>j. length (part_records (ps ! j))) js))"
  using assms(3)
proof (induction js)
  case (Cons j js)
  have ps: "parts_of bench_topic b = ps" using assms(2) by (simp add: parts_of_def)
  have j: "j < length ps" using assms(1) Cons.prems ps by (simp add: bench_state_def)
  have p: "part_inv (ps ! j)" "part_first (ps ! j) = 0"
    using assms(1) j ps broker_inv_topic(2) [OF _ assms(2), of j] by (auto simp: bench_state_def)
  have "length (part_records (ps ! j)) \<le> k"
    using assms(1) j ps elem_le_sum_list [of j "map (\<lambda>p. length (part_records p)) ps"] by (auto simp: bench_state_def)
  then have "fetch bench_topic (int j) (-1) (int k) b = Inr (map fetched_of (part_records (ps ! j)))"
    using fetch_part [OF assms(2) j, of "-1" "int k"] read_after_slice [OF p(1), of "-1" "int k"] p(2) by simp
  then show ?case using Cons by simp
qed simp

text \<open>
  C32. The benchmark of the broker fetches exactly what it has produced: whatever partitions the keys are routed to, the
  numbers of messages fetched from the four partitions add up to the number of records produced.
\<close>

theorem bench_broker_counts_all:
  assumes "0 < n" "n < 2 ^ 32" "0 \<le> now" "now < 2 ^ 63"
  shows "bench_broker n now = Inr n"
proof -
  let ?b = "\<lparr>default_partitions = 4, broker_segment_bytes = 128 * 1024 * 1024, broker_index_interval = 4096,
      retention_max_age_ms = None, retention_max_partition_bytes = None, topics = [], groups = [], groups_dir = [], rr = 0\<rparr>"
  have init: "broker_init [] [] 4 (128 * 1024 * 1024) 4096 None None = Inr ?b"
    by (simp add: broker_init_def)
  have "part_records (fresh_part ?b) = []" "part_first (fresh_part ?b) = 0"
    by (simp_all add: part_records_def part_first_def fresh_log_facts)
  then have "bench_state 0 ?b"
    by (simp add: bench_state_def broker_inv_def parts_of_def)
  then obtain b1 where b1: "produce_each [0..<n] now ?b = (Inr (), b1)" "bench_state n b1"
    using produce_each_state [of 0 ?b "[0..<n]" now] assms by (auto simp: fits_signed_def)
  obtain ps where ps: "map_of (topics b1) bench_topic = Some ps"
    using b1(2) assms(1) by (cases "map_of (topics b1) bench_topic") (auto simp: bench_state_def)
  then have "parts_of bench_topic b1 = ps" by (simp add: parts_of_def)
  then have total: "length ps = 4" "sum_list (map (\<lambda>p. length (part_records p)) ps) = n"
    using b1(2) by (simp_all add: bench_state_def)
  have "map (\<lambda>p. length (part_records p)) ps = map (\<lambda>j. length (part_records (ps ! j))) [0..<4]"
    using total(1) by (intro nth_equalityI) simp_all
  then have "sum_list (map (\<lambda>j. length (part_records (ps ! j))) [0..<4]) = n" using total(2) by simp
  moreover have "map int [0..<4] = [0, 1, 2, 3]" by (simp add: upt_rec)
  ultimately have "count_fetched [0, 1, 2, 3] (int n) b1 = Inr n"
    using count_fetched_all [OF b1(2) ps, of "[0..<4]"] by simp
  then show ?thesis
    unfolding bench_broker_def init using b1(1) by simp
qed

theorem bench_broker_counts_all_witness: "bench_broker 150000 1700000000000 = Inr 150000"
  by (rule bench_broker_counts_all) simp_all

section \<open>The walkthrough\<close>

lemma spoil_first_dir:
  assumes "log_inv l"
  shows "dir_of (spoil_first bs l) = dir_of (spoil (bs # replicate (length (segments l) - 1) []) l)"
proof -
  have "concat (map seg_files (map2 (\<lambda>s t. s\<lparr>log_file := Some (contents (log_file s) @ t)\<rparr>) ss (replicate (length ss) [])))
      = concat (map seg_files ss)" for ss
    by (induction ss) (simp_all add: seg_files_def)
  moreover obtain s ss where "segments l = s # ss" using assms by (cases "segments l") (auto simp: log_inv_def)
  ultimately show ?thesis by (simp add: dir_of_seg_files spoil_first_def spoil_def)
qed

lemma nat_dec_length: "length (nat_dec n) \<le> Suc n"
proof (induction n rule: nat_dec.induct)
  case (1 n)
  show ?case
  proof (cases "n < 10")
    case False
    then have "Suc (n div 10) \<le> n" by simp
    then show ?thesis using 1 False by (subst nat_dec.simps) simp
  qed (subst nat_dec.simps, simp)
qed

lemma append_after_adds:
  assumes "log_inv l" "0 \<le> next_offset l" "next_offset l + int k \<le> 900" "fits_signed 8 now"
    and "length (file_bytes (log_records l)) + k * 2000 < 2 ^ 64"
  shows "\<exists>l'. append_after k now l = (Inr (), l') \<and> log_inv l' \<and> next_offset l' = next_offset l + int k"
  using assms
proof (induction k arbitrary: l)
  case (Suc k)
  let ?pl = "encode_ascii (ascii ''post-crash-'' @ int_dec (next_offset l))"
  have "length (int_dec (next_offset l)) \<le> 901"
    using nat_dec_length [of "nat (next_offset l)"] Suc.prems(2,3) by (simp add: int_dec_def)
  then have len: "length ?pl \<le> 1000" by (simp add: encode_ascii_def ascii_def)
  then have "valid_record (mk_record (next_offset l) now ?pl)" "length (record_bytes (mk_record (next_offset l) now ?pl)) \<le> 2000"
    using Suc.prems(2-4) by (auto simp: valid_record_def MAX_RECORD_BYTES_def fits_unsigned_def length_record_bytes HEADER_SIZE_def)
  then obtain l1 where l1: "append_log ?pl None now l = (Inr (next_offset l), l1)" "log_inv l1"
      "log_records l1 = log_records l @ [mk_record (next_offset l) now ?pl]" "next_offset l1 = next_offset l + 1"
    using append_log_room [OF Suc.prems(1) refl, where ts = None and now = now and pl = ?pl] Suc.prems(5) by auto
  have "length (file_bytes (log_records l1)) + k * 2000 < 2 ^ 64"
    using Suc.prems(5) \<open>length (record_bytes _) \<le> 2000\<close> by (simp add: l1(3))
  then show ?case using Suc.IH [OF l1(2)] Suc.prems l1 by auto
qed simp

lemma nat_str_length: "length (nat_str n) \<le> Suc n"
proof (induction n rule: nat_str.induct)
  case (1 n)
  show ?case
  proof (cases "n < 10")
    case False
    then have "Suc (n div 10) \<le> n" by simp
    then show ?thesis using 1 False by (subst nat_str.simps) simp
  qed (subst nat_str.simps, simp)
qed

lemma event_payload_short: "i < 200 \<Longrightarrow> length (event_payload i) \<le> 1000"
  using nat_str_length [of i] by (simp add: event_payload_def encode_ascii_def ascii_def pad_left_def)

lemma event_payload_text: "utf8_decode (event_payload 137) = Inr (ascii ''event-0137'')"
proof -
  have "nat_str 137 = ''137''" by code_simp
  then have "event_payload 137 = encode_ascii (ascii ''event-0137'')"
    by (simp add: event_payload_def pad_left_def)
  moreover have "utf8_encode (ascii ''event-0137'') = Inr (encode_ascii (ascii ''event-0137''))"
    by (simp add: utf8_encode_def ascii_def encode_ascii_def scalar_def utf8_code_def)
  ultimately show ?thesis using utf8_round_trip by simp
qed

text \<open>
  The walkthrough shows what it announces: record 137 is read back, the garbage written behind the first segment is
  cut off and the log goes on at offset 200, and three more records make it 203.
\<close>

theorem walkthrough_recovers:
  assumes "0 \<le> now" "now < 2 ^ 63"
  shows "\<exists>w. walkthrough_main now = Inr w \<and> stat_next_offset (w_stats w) = 200 \<and> w_read w = (137, ascii ''event-0137'')
    \<and> w_recovered w = 200 \<and> stat_next_offset (w_final w) = 203"
proof -
  let ?xs = "map (\<lambda>i. (event_payload i, Some (1000 + int i))) [0..<200]"
  have "\<forall>x \<in> set ?xs. length (fst x) \<le> 1000 \<and> fits_signed 8 (case snd x of None \<Rightarrow> now | Some t \<Rightarrow> t)"
    using event_payload_short by (auto simp: fits_signed_def)
  then obtain l1 where l1: "append_each ?xs now (fresh_log 512 128) = (Inr (), l1)" "log_inv l1"
      "log_records l1 = stored 0 now ?xs" "first_offset l1 = 0" "next_offset l1 = 200" "max_segment_bytes l1 = 512"
      "log_interval l1 = 128" "length (file_bytes (log_records l1)) < 2 ^ 50"
    using fresh_append_each [of ?xs now 512 128] by auto
  have read: "read_log 137 l1 = Some (mk_record 137 1137 (event_payload 137))"
    using l1(2-4) by (simp add: cl.rd_recs alog_read_def stored_nth)
  obtain l2 where l2: "open_log (dir_of (spoil_first garbage l1)) 512 128 = Inr l2" "log_inv l2"
      "log_records l2 = log_records l1" "next_offset l2 = 200"
  proof -
    have "segments l1 \<noteq> []" using l1(2) by (simp add: log_inv_def)
    moreover have "no_record garbage" "no_record []" using read_garbage by (simp_all add: no_record_iff)
    ultimately show ?thesis
      using that reopen_spoiled [OF l1(2), of "garbage # replicate (length (segments l1) - 1) []"] l1(5-7)
      by (auto simp: spoil_first_dir [OF l1(2)])
  qed
  obtain l3 where l3: "append_after 3 now l2 = (Inr (), l3)" "next_offset l3 = 203"
    using append_after_adds [OF l2(2), of 3 now] l2(3,4) l1(8) assms by (auto simp: fits_signed_def)
  show ?thesis
    using l1(1,5) read event_payload_text l2(1,4) l3
    by (simp add: walkthrough_main_def open_empty stats_def)
qed

theorem walkthrough_recovers_witness: "\<exists>w. walkthrough_main 1700000000000 = Inr w \<and> w_recovered w = 200"
  using walkthrough_recovers [of 1700000000000] by auto

end
