(* ===== verification/Dashboard_Page.thy ===== *)
theory Dashboard_Page
  imports Gateway Broker_Props
begin

text \<open>
  The page of the dashboard in \<^verbatim>\<open>pylog/api.py\<close>: the template with the rows put in place of \<^verbatim>\<open>{rows}\<close>. The rows are
  those of \<open>Gateway\<close>; status line and headers of the response are left out.
\<close>

text \<open>\<^verbatim>\<open>s.replace(pat, new)\<close> for a pattern that is not empty: from the left, never inside what was put in.\<close>

function py_replace :: "ustr \<Rightarrow> ustr \<Rightarrow> ustr \<Rightarrow> ustr" where
  "py_replace pat new s =
     (if s = [] \<or> pat = [] then s
      else if take (length pat) s = pat then new @ py_replace pat new (drop (length pat) s)
      else hd s # py_replace pat new (tl s))"
  by pat_completeness auto
termination
  by (relation "measure (\<lambda>(_, _, s). length s)") auto

declare py_replace.simps [simp del]

definition html_before :: ustr where
  "html_before =
     ascii ''<!doctype html>'' @ [10]
      @ ascii ''<html><head><title>pylog '' @ [8212] @ ascii '' dashboard</title>'' @ [10]
      @ ascii ''<meta charset=\"utf-8\"><meta http-equiv=\"refresh\" content=\"2\">'' @ [10]
      @ ascii ''<style>'' @ [10]
      @ ascii '' body{font-family:Consolas,monospace;background:#0d1117;color:#c9d1d9;margin:2rem}'' @ [10]
      @ ascii '' h1{color:#58a6ff} h2{color:#8b949e;margin-top:2rem} table{border-collapse:collapse;margin-top:1rem;width:100%}'' @ [10]
      @ ascii '' td,th{border:1px solid #30363d;padding:.4rem .8rem;text-align:left}'' @ [10]
      @ ascii '' th{background:#161b22}.ok{color:#3fb950}.num{text-align:right} a{color:#58a6ff}'' @ [10]
      @ ascii '' .badge{display:inline-block;padding:2px 8px;border-radius:999px;background:#21262d;border:1px solid #30363d;font-size:12px;margin-right:6px}'' @ [10]
      @ ascii '' .grid{display:grid;grid-template-columns:repeat(auto-fit,minmax(280px,1fr));gap:1rem}'' @ [10]
      @ ascii '' .card{border:1px solid #30363d;border-radius:8px;padding:1rem;background:#161b22}'' @ [10]
      @ ascii ''</style></head><body>'' @ [10]
      @ ascii ''<h1>pylog broker <span class=\"badge\">live</span> <span class=\"badge\">raft: durable</span> <span class=\"badge\">100/100</span></h1>'' @ [10]
      @ ascii ''<p><a href=\"/stats\">/stats JSON</a> '' @ [183] @ ascii '' <a href=\"/metrics\">/metrics Prometheus</a> '' @ [183] @ ascii '' <a href=\"/metrics/json\">/metrics/json</a> '' @ [183] @ ascii '' <a href=\"/health\">/health</a></p>'' @ [10]
      @ ascii ''<div class=\"grid\">'' @ [10]
      @ ascii '' <div class=\"card\"><h2>Topics</h2><table><tr><th>topic</th><th>partitions</th><th>high watermarks</th><th>bytes</th></tr>''"

definition html_after :: ustr where
  "html_after =
     ascii ''</table></div>'' @ [10]
      @ ascii '' <div class=\"card\"><h2>Quick start</h2><pre>python cli.py produce orders \"pizza\" --key u1'' @ [10]
      @ ascii ''python cli.py consume orders --follow'' @ [10]
      @ ascii ''curl http://127.0.0.1:8787/stats | jq</pre></div>'' @ [10]
      @ ascii ''</div>'' @ [10]
      @ ascii ''<p style=\"margin-top:2rem;color:#8b949e\">pylog v0.1.0 '' @ [8212] @ ascii '' Kafka-style log + Raft '' @ [8212] @ ascii '' stdlib only '' @ [8212] @ ascii '' <a href=\"https://github.com/rahulrajsinghwork15072005-a11y/pylog\">GitHub</a></p>'' @ [10]
      @ ascii ''</body></html>''"

definition ROWS :: ustr where
  "ROWS = ascii ''{rows}''"

definition DASHBOARD_HTML :: ustr where
  "DASHBOARD_HTML = html_before @ ROWS @ html_after"

definition dashboard_page :: "broker \<Rightarrow> ustr" where
  "dashboard_page b = py_replace ROWS (dashboard b) DASHBOARD_HTML"

section \<open>What the page shows\<close>

text \<open>The two characters that the placeholder starts with are next to each other nowhere else.\<close>

fun opens :: "ustr \<Rightarrow> bool" where
  "opens (x # y # xs) \<longleftrightarrow> x = 123 \<and> y = 114 \<or> opens (y # xs)"
| "opens xs \<longleftrightarrow> False"

lemma py_replace_skip:
  assumes "\<not> opens (xs @ [y])"
  shows "py_replace (123 # 114 # p) new (xs @ y # ys) = xs @ py_replace (123 # 114 # p) new (y # ys)"
  using assms
proof (induction xs)
  case (Cons x xs)
  obtain z zs where z: "xs @ y # ys = z # zs" by (cases xs) auto
  have "\<not> (x = 123 \<and> z = 114)" "\<not> opens (xs @ [y])"
    using Cons.prems z by (cases xs; auto)+
  then have "py_replace (123 # 114 # p) new ((x # xs) @ y # ys) = x # py_replace (123 # 114 # p) new (xs @ y # ys)"
    by (subst py_replace.simps) (auto simp: z)
  then show ?case using Cons.IH \<open>\<not> opens (xs @ [y])\<close> by simp
qed simp

lemma py_replace_none:
  assumes "\<not> opens xs"
  shows "py_replace (123 # 114 # p) new xs = xs"
  using assms
proof (induction xs rule: opens.induct)
  case (1 x y xs)
  then show ?case by (subst py_replace.simps) auto
qed (subst py_replace.simps, auto)+

lemma template_clear: "\<not> opens (html_before @ [123])" "\<not> opens html_after"
  by (simp_all add: html_before_def html_after_def ascii_def)

lemma dashboard_page_split: "dashboard_page b = html_before @ dashboard b @ html_after"
proof -
  have rows: "ROWS = 123 # 114 # [111, 119, 115, 125]" by (simp add: ROWS_def ascii_def)
  have "py_replace ROWS (dashboard b) (ROWS @ html_after) = dashboard b @ py_replace ROWS (dashboard b) html_after"
    by (subst py_replace.simps) (simp add: rows)
  then show ?thesis
    using py_replace_skip [OF template_clear(1), of "[111, 119, 115, 125]" "dashboard b" "114 # [111, 119, 115, 125] @ html_after"]
      py_replace_none [OF template_clear(2), of "[111, 119, 115, 125]" "dashboard b"]
    by (simp add: dashboard_page_def DASHBOARD_HTML_def rows)
qed

lemma join_lines_member: "r \<in> set rs \<Longrightarrow> \<exists>xs ys. join_lines rs = xs @ r @ ys"
proof (induction rs rule: join_lines.induct)
  case (3 r1 r2 rs)
  show ?case
  proof (cases "r = r1")
    case True
    then show ?thesis by (intro exI [of _ "[]"] exI [of _ "[10] @ join_lines (r2 # rs)"]) simp
  next
    case False
    then obtain xs ys where "join_lines (r2 # rs) = xs @ r @ ys" using 3 by auto
    then show ?thesis by (intro exI [of _ "r1 @ [10] @ xs"] exI [of _ ys]) simp
  qed
next
  case (2 r1)
  then show ?case by (intro exI [of _ "[]"]) simp
qed simp

text \<open>
  The page has a row for every topic, with the name of the topic as it is: a name that contains markup becomes
  part of the markup of the page.
\<close>

theorem dashboard_shows_names:
  assumes "map_of (topics b) name \<noteq> None"
  shows "\<exists>xs ys. dashboard_page b = xs @ ascii ''<tr><td>'' @ name @ ascii ''</td>'' @ ys"
proof -
  let ?ts = "bs_topics (broker_stats_of b)"
  have "name \<in> set (sort (map fst ?ts))"
  proof -
    have "map fst ?ts = map fst (topics b)" by (auto simp: broker_stats_of_def Let_def)
    then show ?thesis using assms by (simp add: map_of_eq_None_iff)
  qed
  then have "dashboard_row name (the (map_of ?ts name)) \<in> set (map (\<lambda>n. dashboard_row n (the (map_of ?ts n))) (sort (map fst ?ts)))"
    by simp
  from join_lines_member [OF this] obtain xs ys where
    "dashboard b = xs @ dashboard_row name (the (map_of ?ts name)) @ ys" by (auto simp: dashboard_def Let_def)
  moreover have "\<exists>zs. dashboard_row name t = ascii ''<tr><td>'' @ name @ ascii ''</td>'' @ zs" for t
    by (simp add: dashboard_row_def ascii_def)
  ultimately show ?thesis
    unfolding dashboard_page_split by (metis append.assoc)
qed

theorem dashboard_shows_names_witness:
  "\<exists>xs ys. dashboard_page \<lparr>default_partitions = 1, broker_segment_bytes = 64, broker_index_interval = 16,
       retention_max_age_ms = None, retention_max_partition_bytes = None, topics = [(ascii ''<script>'', [])],
       groups = [], groups_dir = [], rr = 0\<rparr>
     = xs @ ascii ''<tr><td><script></td>'' @ ys"
  using dashboard_shows_names [of "\<lparr>default_partitions = 1, broker_segment_bytes = 64, broker_index_interval = 16,
       retention_max_age_ms = None, retention_max_partition_bytes = None, topics = [(ascii ''<script>'', [])],
       groups = [], groups_dir = [], rr = 0\<rparr>" "ascii ''<script>''"]
  by (auto simp: ascii_def)

end
