(* ===== verification/Frame_Server.thy ===== *)
theory Frame_Server
  imports Net
begin

text \<open>
  The life of a \<^verbatim>\<open>FrameServer\<close> in \<^verbatim>\<open>pylog/net.py\<close>: listening, accepting, serving several connections in turns, and
  stopping. A connection is the pieces it will still deliver, the frames that were sent to it and whether its thread
  is in its loop. The threads of the connections take turns; a turn is one run of the loop of \<^verbatim>\<open>_serve_conn\<close>
  with one call of the handler, which is taken as a whole.
\<close>

record conn =
  cn_stream :: "bytes list"
  cn_sent :: "bytes list"
  cn_open :: bool

datatype sock_state = No_socket | Unbound | Listening int | Closed

record frame_server =
  fv_port :: int
  fv_sock :: sock_state
  fv_running :: bool
  fv_accepting :: bool
  fv_conns :: "conn list"

definition frame_server_init :: "int \<Rightarrow> frame_server" where
  "frame_server_init port =
     \<lparr>fv_port = port, fv_sock = No_socket, fv_running = False, fv_accepting = False, fv_conns = []\<rparr>"

text \<open>Binding fails when the port is taken; for port 0 the system gives one. Then the accepting thread waits.\<close>

definition start_frames :: "bool \<Rightarrow> int \<Rightarrow> frame_server \<Rightarrow> (frame_server, unit) outcome" where
  "start_frames taken given fs =
     (if taken then (Inl OSError, fs\<lparr>fv_sock := Unbound\<rparr>)
      else (Inr (), fs\<lparr>fv_sock := Listening (if fv_port fs = 0 then given else fv_port fs),
              fv_running := True, fv_accepting := True\<rparr>))"

definition bound_port :: "frame_server \<Rightarrow> int result" where
  "bound_port fs =
     (case fv_sock fs of No_socket \<Rightarrow> Inl AssertionError | Unbound \<Rightarrow> Inr 0 | Listening p \<Rightarrow> Inr p | Closed \<Rightarrow> Inl OSError)"

text \<open>
  The accepting thread gets a connection, with what that will deliver, and goes round its loop. If the socket has been
  closed while it was waiting, \<open>woken\<close> says whether the system makes the waiting call fail.
\<close>

definition accept_turn :: "bool \<Rightarrow> bytes list \<Rightarrow> frame_server \<Rightarrow> frame_server" where
  "accept_turn woken stream fs =
     (if \<not> fv_accepting fs then fs
      else if fv_sock fs = Closed \<and> woken then fs\<lparr>fv_accepting := False\<rparr>
      else fs\<lparr>fv_conns := fv_conns fs @ [\<lparr>cn_stream = stream, cn_sent = [], cn_open = True\<rparr>],
              fv_accepting := fv_running fs\<rparr>)"

definition stop_frames :: "frame_server \<Rightarrow> frame_server" where
  "stop_frames fs = fs\<lparr>fv_running := False, fv_sock := (if fv_sock fs = No_socket then No_socket else Closed)\<rparr>"

text \<open>\<open>gone\<close>: the peer has closed its end, so that sending fails.\<close>

definition conn_turn :: "('h \<Rightarrow> json \<Rightarrow> (ustr + json) \<times> 'h) \<Rightarrow> bool \<Rightarrow> 'h \<times> conn \<Rightarrow> 'h \<times> conn" where
  "conn_turn handler gone st =
     (case st of
        (h, c) \<Rightarrow>
          if \<not> cn_open c then (h, c)
          else
            (case recv_frame chunk_recv (cn_stream c) of
               Inl _ \<Rightarrow> (h, c\<lparr>cn_open := False\<rparr>)
             | Inr (req, rest) \<Rightarrow>
                 (case handler h req of
                    (res, h') \<Rightarrow>
                      let resp = (case res of Inr v \<Rightarrow> v | Inl text \<Rightarrow> error_reply text) in
                      (case send_frame resp of
                         Inl _ \<Rightarrow> (h', c\<lparr>cn_open := False\<rparr>)
                       | Inr f \<Rightarrow>
                           if gone then (h', c\<lparr>cn_open := False\<rparr>)
                           else (h', c\<lparr>cn_stream := rest, cn_sent := cn_sent c @ [f]\<rparr>)))))"

definition serve_turn ::
  "('h \<Rightarrow> json \<Rightarrow> (ustr + json) \<times> 'h) \<Rightarrow> nat \<times> bool \<Rightarrow> 'h \<times> frame_server \<Rightarrow> 'h \<times> frame_server" where
  "serve_turn handler turn st =
     (case (turn, st) of
        ((i, gone), (h, fs)) \<Rightarrow>
          if i < length (fv_conns fs)
          then (case conn_turn handler gone (h, fv_conns fs ! i) of
                  (h', c) \<Rightarrow> (h', fs\<lparr>fv_conns := (fv_conns fs)[i := c]\<rparr>))
          else (h, fs))"

section \<open>Turns\<close>

text \<open>The turns of one connection, while nothing else happens, send what \<open>serve_conn\<close> says.\<close>

lemma conn_turns_serve:
  assumes "cn_open c" "serve_conn handler h (cn_stream c) = (fs, h')"
  shows "\<exists>k rest. (conn_turn handler False ^^ k) (h, c) = (h', \<lparr>cn_stream = rest, cn_sent = cn_sent c @ fs, cn_open = False\<rparr>)"
  using assms
proof (induction "length (concat (cn_stream c))" arbitrary: c h fs rule: less_induct)
  case less
  show ?case
  proof (cases "recv_frame chunk_recv (cn_stream c)")
    case (Inl e)
    then have "conn_turn handler False (h, c) = (h, c\<lparr>cn_open := False\<rparr>)" "fs = []" "h' = h"
      using less.prems by (simp_all add: conn_turn_def serve_conn.simps [of handler h])
    then show ?thesis by (intro exI [of _ 1] exI [of _ "cn_stream c"]) simp
  next
    case (Inr rc)
    obtain req rest where rc: "rc = (req, rest)" by fastforce
    obtain res h1 where hd: "handler h req = (res, h1)" by fastforce
    let ?resp = "case res of Inr v \<Rightarrow> v | Inl text \<Rightarrow> error_reply text"
    show ?thesis
    proof (cases "send_frame ?resp")
      case (Inl e)
      then have "conn_turn handler False (h, c) = (h1, c\<lparr>cn_open := False\<rparr>)" "fs = []" "h' = h1"
        using less.prems Inr rc hd by (simp_all add: conn_turn_def serve_conn.simps [of handler h] Let_def)
      then show ?thesis by (intro exI [of _ 1] exI [of _ "cn_stream c"]) simp
    next
      case f: (Inr f)
      let ?c = "c\<lparr>cn_stream := rest, cn_sent := cn_sent c @ [f]\<rparr>"
      obtain fs1 where fs1: "serve_conn handler h1 rest = (fs1, h')" "fs = f # fs1"
        using less.prems(2) Inr rc hd f by (auto simp: serve_conn.simps [of handler h] Let_def split: prod.splits)
      have turn: "conn_turn handler False (h, c) = (h1, ?c)"
        using less.prems(1) Inr rc hd f by (simp add: conn_turn_def Let_def)
      have "length (concat rest) < length (concat (cn_stream c))"
        using recv_frame_less Inr rc by blast
      then obtain k r where "(conn_turn handler False ^^ k) (h1, ?c) = (h', \<lparr>cn_stream = r, cn_sent = cn_sent ?c @ fs1, cn_open = False\<rparr>)"
        using less.hyps [of ?c h1 fs1] less.prems(1) fs1(1) by auto
      then show ?thesis
        using turn fs1(2) by (intro exI [of _ "Suc k"] exI [of _ r]) (simp add: funpow_Suc_right del: funpow.simps)
    qed
  qed
qed

text \<open>A turn of one connection is none of another's business.\<close>

lemma serve_turn_other:
  "i \<noteq> j \<Longrightarrow> fv_conns (snd (serve_turn handler (i, gone) (h, fs))) ! j = fv_conns fs ! j"
  by (simp add: serve_turn_def split: prod.splits)

lemma serve_turn_shape:
  "length (fv_conns (snd (serve_turn handler turn st))) = length (fv_conns (snd st))"
  by (simp add: serve_turn_def split: prod.splits)

text \<open>
  The frames sent to a connection only grow, by at most one frame in a turn, which answers the request at the
  front of its stream in the state that the handler is in.
\<close>

lemma conn_turn_answers:
  assumes "conn_turn handler gone (h, c) = (h', c')" "cn_sent c' \<noteq> cn_sent c"
  shows "\<exists>req rest res f. recv_frame chunk_recv (cn_stream c) = Inr (req, rest) \<and> handler h req = (res, h')
    \<and> send_frame (case res of Inr v \<Rightarrow> v | Inl text \<Rightarrow> error_reply text) = Inr f
    \<and> c' = c\<lparr>cn_stream := rest, cn_sent := cn_sent c @ [f]\<rparr>"
  using assms by (auto simp: conn_turn_def Let_def split: if_splits sum.splits prod.splits)

section \<open>Stopping\<close>

lemma stop_then_turn:
  "serve_turn handler turn (h, stop_frames fs) = apsnd stop_frames (serve_turn handler turn (h, fs))"
  by (simp add: serve_turn_def stop_frames_def split: prod.splits)

lemma stop_then_turns:
  "fold (serve_turn handler) turns (h, stop_frames fs) = apsnd stop_frames (fold (serve_turn handler) turns (h, fs))"
proof (induction turns arbitrary: h fs)
  case (Cons t turns)
  obtain h1 fs1 where "serve_turn handler t (h, fs) = (h1, fs1)" by fastforce
  then show ?case using Cons.IH [of h1 fs1] by (simp add: stop_then_turn)
qed simp

lemma no_more_accepted: "\<not> fv_accepting fs \<Longrightarrow> fold (\<lambda>(w, st). accept_turn w st) arrivals fs = fs"
  by (induction arrivals) (auto simp: accept_turn_def)

lemma accepted_after_stop:
  assumes "\<not> fv_running fs"
  shows "\<exists>new. fv_conns (fold (\<lambda>(w, st). accept_turn w st) arrivals fs) = fv_conns fs @ new \<and> length new \<le> 1"
proof (cases arrivals)
  case (Cons a rest)
  obtain w st where a: "a = (w, st)" by (cases a)
  have "\<not> fv_accepting (accept_turn w st fs)" using assms by (simp add: accept_turn_def)
  then have "fold (\<lambda>(w, st). accept_turn w st) arrivals fs = accept_turn w st fs"
    using Cons a no_more_accepted by simp
  then show ?thesis by (simp add: accept_turn_def)
qed simp

text \<open>
  C40. Stopping a server leaves its connections alone: afterwards at most one more is accepted, the one that the accepting
  thread may be waiting for, and every connection accepted before is answered exactly as if the server
  had not been stopped.
\<close>

theorem stopped_server_still_answers:
  "(\<exists>new. fv_conns (fold (\<lambda>(w, st). accept_turn w st) arrivals (stop_frames fs)) = fv_conns fs @ new \<and> length new \<le> 1)
   \<and> fst (fold (serve_turn handler) turns (h, stop_frames fs)) = fst (fold (serve_turn handler) turns (h, fs))
   \<and> fv_conns (snd (fold (serve_turn handler) turns (h, stop_frames fs))) = fv_conns (snd (fold (serve_turn handler) turns (h, fs)))"
proof -
  have "\<not> fv_running (stop_frames fs)" "fv_conns (stop_frames fs') = fv_conns fs'" for fs'
    by (simp_all add: stop_frames_def)
  then show ?thesis
    using accepted_after_stop [of "stop_frames fs" arrivals] by (simp add: stop_then_turns)
qed

end
