(* ===== verification/Spec2Isabelle.thy ===== *)
theory Spec2Isabelle
  imports Log_Theorems Raft_Log_Theorems Raft_Theorems Raft_Cluster_Theorems State_Theorems Broker_Theorems Server_Theorems Sim_Theorems Gateway_Theorems Client_Theorems Cluster_Demo_Theorems Handle_Theorems
    Log_Races Scenario_Theorems Dashboard_Page Frame_Server
begin

text \<open>
  \<^bold>\<open>A verification of pylog.\<close> pylog is a Kafka-style message broker and a Raft replication library in
  Python. The broker (\<^verbatim>\<open>src/pylog/broker.py\<close>) keeps topics of partitions, each an append-only log
  (\<^verbatim>\<open>log.py\<close>) of checksummed records in segment files with a sparse index. The Raft side (\<^verbatim>\<open>raft.py\<close>)
  is a node as a state machine driven by timers and messages, with its log in memory or on a commit log
  (\<^verbatim>\<open>durable_log.py\<close>), its term and vote in a JSON file, and a key-value store (\<^verbatim>\<open>statemachine.py\<close>)
  that is replicated. Nodes talk over length-prefixed JSON frames (\<^verbatim>\<open>net.py\<close>, \<^verbatim>\<open>server.py\<close>) or inside
  a simulator with a virtual clock (\<^verbatim>\<open>sim.py\<close>).

  \<^bold>\<open>Conventions.\<close> An operation that changes its object returns a pair of an outcome and the object; the
  outcome is \<open>Inl\<close> of the Python exception or \<open>Inr\<close> of the value, and the object is returned in both
  cases because an exception undoes nothing. Bytes are words of 8 bits, packed fields wrap or raise as
  \<^verbatim>\<open>struct\<close> does, Python integers are \<^typ>\<open>int\<close>, strings are lists of code points, dictionaries are
  association lists in insertion order, files are lists of bytes. Every theory except this one holds one
  component, its lemmas, or the properties of a group of components (the theories named \<open>_Theorems\<close>).

  \<^bold>\<open>The commit log\<close> (\<^verbatim>\<open>log.py\<close>). \<open>Codec\<close> has the fixed-width fields and the checksum, \<open>Record_Format\<close> the
  records (\<open>encode_record\<close>, \<open>read_record\<close>), \<open>Segment\<close> the class \<^verbatim>\<open>Segment\<close> and \<open>Commit_Log\<close> the class
  \<^verbatim>\<open>CommitLog\<close>. \<open>Log_Interface\<close> states what a growing log promises to its clients as a locale, which
  \<open>Commit_Log_Props\<close> and \<open>Partition\<close> interpret. Shown: the decoder accepts exactly the encodings of
  records below the limit; a segment lookup through the sparse index equals list indexing; append,
  group commit, truncation and retention have the effect of the corresponding list operation; reopening
  after a crash at any byte yields the whole records that survived. \<open>Log_Histories\<close> follows the calls that raise an
  exception as well; every reachable log is well-formed, with the two limits its definition of a history states.
  \<open>Segment_Handles\<close> runs the same operations through the cached append handles, the buffered reader and the
  memory map; \<open>Segment_Handles_Props\<close> and \<open>Handle_Theorems\<close> show that for one caller at a time this cannot be told
  from working on the contents of the files. \<open>Log_Races\<close> shows what the missing lock costs: two
  interleaved appends give two records the same offset.

  \<^bold>\<open>The Raft log\<close> (\<^verbatim>\<open>raft.py\<close> class \<^verbatim>\<open>RaftLog\<close>, \<^verbatim>\<open>durable_log.py\<close>). \<open>Raft_Log\<close> is the in-memory log with
  merge, conflict hints and compaction; \<open>Durable_Log\<close> the log on disk. Shown: a successful merge agrees with the
  sender, and the durable log refines the in-memory log while disk and cache agree.

  \<^bold>\<open>JSON, Unicode and files.\<close> \<open>Unicode\<close> has UTF-8 with strict and replacing decoders, \<open>Json\<close> the encoder and
  parser of the standard library as far as the code uses them, and \<open>Json_Props\<close> their round trip.
  \<open>Atomic_File\<close> states the protocol \<^emph>\<open>write a temporary file, then rename\<close> as a locale with its
  crash states; \<open>Durable_State\<close> (term and vote) and \<open>Consumer_Group\<close> (committed offsets) interpret it.
  \<open>KV_Store\<close> is the state machine; its snapshot survives the trip through a file.

  \<^bold>\<open>The Raft node\<close> (\<^verbatim>\<open>raft.py\<close> class \<^verbatim>\<open>RaftNode\<close>). \<open>Raft_Node\<close> has every method: timers, PreVote, elections,
  replication, commit, application, snapshots, membership changes, leadership transfer and
  linearizable reads. \<open>Raft_Node_Props\<close> describes each operation by what it does to the election state,
  \<open>Raft_Election\<close> a cluster of nodes over a network that loses, duplicates and reorders, with
  restarts, and its invariant; \<open>Raft_Apply\<close> application and commit. \<open>Raft_Theorems\<close> shows election safety with a
  fixed membership and PreVote off, the voting rule, the commit rule and the order of application, and
  the situations in which the code departs from Raft.

  \<^bold>\<open>The cluster.\<close> \<open>Raft_Replication\<close> describes each operation of a node by what it does to its log, its knowledge of the
  logs of its peers and the messages it sends, for nodes without snapshots. \<open>Raft_History\<close> has the history of a cluster (who
  won with which log and which votes, who acknowledged what) and shows that what a quorum has acknowledged is part of
  the log of every later winner; quorums are a locale, interpreted by majorities. \<open>Raft_Cluster\<close> has the steps of a
  cluster and their invariant and \<open>Raft_Completeness\<close> the commit rule. \<open>Raft_Cluster_Theorems\<close> shows
  log matching, leader completeness and that leaders never commit different entries, for every run with lost, duplicated,
  delayed and reordered messages and restarts that keep the log; and a run in which a follower applies an entry that no
  leader has committed, so that state machine safety does not hold for followers.

  \<^bold>\<open>The broker\<close> (\<^verbatim>\<open>broker.py\<close>). \<open>Partition\<close>, \<open>Consumer_Group\<close> and \<open>Broker\<close> have one definition per method;
  \<open>Broker_Props\<close> the invariant and the effect of each operation. Shown over arbitrary sequences of
  operations: what is produced is fetched, records of a key keep their order across restarts and
  retention, commits are durable and monotone, lag counts what is unread, retention ends.

  \<^bold>\<open>Network and server\<close> (\<^verbatim>\<open>net.py\<close>, \<^verbatim>\<open>server.py\<close>). \<open>Net\<close> has the frames over a socket that delivers
  pieces of any size (locale \<open>byte_source\<close>), \<open>Wire\<close> the encoding of byte strings in JSON, \<open>Server\<close> the
  handler of wire messages, the transport and the booting of a cluster. Shown: frames survive any
  chunking, a connection is answered in order, a Raft message arrives as it was sent. \<open>Frame_Server\<close> has the life
  of the listening server with several connections in turns; stopping it leaves its connections open, and they
  are still answered.

  \<^bold>\<open>HTTP, command line and metrics\<close> (\<^verbatim>\<open>api.py\<close>, \<^verbatim>\<open>cli.py\<close>, \<^verbatim>\<open>metrics.py\<close>). \<open>Gateway\<close> has the two request handlers around
  a broker, \<open>Dashboard_Page\<close> the page it serves, \<open>Command_Line\<close> the requests a broker answers over frames, the producing, consuming and status clients and the
  peer list, \<open>Metrics\<close> the counters and windows, \<open>Py_Int\<close> Python's conversion to integers. Shown: a consumer
  group that reads in turns misses and repeats nothing, what is posted is fetched unchanged, no GET request does harm,
  the client ends and prints whole batches, what the client produces over any network it consumes as it was typed, and the
  metrics describe the most recent observations.

  \<^bold>\<open>Demonstrations and benchmarks.\<close> \<open>Cluster_Demo\<close> has the two demonstrations of a replicated cluster
  (\<^verbatim>\<open>cmd_replicate\<close> of \<^verbatim>\<open>cli.py\<close> and \<^verbatim>\<open>raft_demo.py\<close>) with their waiting loops, for arbitrary behaviour of the nodes while the
  main thread sleeps. Shown: they end, and the leader that is reported is one that all live nodes agree on at that
  moment. \<open>Scenarios\<close> has \<^verbatim>\<open>demo.py\<close> and \<^verbatim>\<open>bench.py\<close> as programs over the log and the broker. Shown: garbage behind the
  records of any segments is cut off by recovery, the walkthrough recovers what it wrote, and the benchmarks
  handle exactly the records they divide by a time.

  \<^bold>\<open>The simulator\<close> (\<^verbatim>\<open>sim.py\<close>). \<open>Event_Queue\<close> states the heap as a locale and interprets it by a sorted list,
  \<open>Sim\<close> is the whole of \<^verbatim>\<open>SimCluster\<close>. \<open>Raft_Timers\<close> shows what each operation of a node does to its deadlines and
  \<open>Sim_Live\<close> that every step lowers a measure or moves the clock by a fixed amount. Shown: election safety and the order
  of delivery for every run of the simulator with crashes, restarts, partitions and proposals, and that its
  loops return.

  \<^bold>\<open>Loops.\<close> Loops of the source are structural or have a measure. The JSON parser has fuel of twice the length
  of the text plus two, enough by \<open>loads_dumps\<close> for every document the code writes. The byte-budget loop of
  retention and the loops of the simulator are partial functions. The former returns on every reachable broker; the latter
  return on every history of a cluster whose latency, heartbeat and election timeouts are positive. The waiting loops of the
  demonstration are partial functions too and return when sleeping takes at least the time given.

  \<^bold>\<open>Idealisations.\<close> Floating-point times are rationals and the clock is read once per call. JSON numbers with a
  fraction keep their text and are cut at their decimal value where an integer is asked for. HTTP requests arrive with
  the path and the query already parsed. Integers have no limit of 4300 digits and nesting no recursion limit. A wire message
  with a missing or ill-typed field is refused before any handler runs. A Raft node holds the in-memory log; the
  durable log is tied to it by refinement. Names of topics and groups are names of files. A configuration
  entry whose servers are not strings counts as an exception.

  \<^bold>\<open>Not modelled.\<close> What a thread sees of another inside a call (\<open>Log_Races\<close> and the turns of \<open>Frame_Server\<close> apart)
  and the locks of the nodes; \<^verbatim>\<open>fsync\<close>, which moves nothing that the program can read back; the parsing of command-line
  arguments and of HTTP request lines by the standard library; \<^verbatim>\<open>--follow\<close> and the other loops that only a key press
  ends; the measured times and rates and the wording of what the scripts print.
\<close>

end
